(* ===== verification/Prelude.thy ===== *)
theory Prelude
  imports Main "HOL-Library.Monad_Syntax"
begin

text \<open>
  Shared vocabulary of the development.

  \<^item> \<open>error\<close>: the exceptions the compiler throws (\<^verbatim>\<open>faustexception\<close>), the assertions it
    checks and the C++ operations whose behaviour is undefined, as values;
  \<^item> \<open>'a result\<close>: a computation that returns a value or stops with an error, with the
    monadic \<open>bind\<close> the component theories compose their calls with;
  \<^item> 32-bit two's complement integers, written as \<open>int\<close> with the wrap-around explicit;
  \<^item> generic lemmas on lists used by several components.
\<close>

named_theorems result_simps \<open>rewriting of computations in the result type\<close>

section \<open>Results\<close>

datatype error =
    AssertFailed string
  | FaustException string
  | Undefined string

type_synonym 'a result = "error + 'a"

definition rbind :: "'a result \<Rightarrow> ('a \<Rightarrow> 'b result) \<Rightarrow> 'b result" where
  "rbind r f = (case r of Inl e \<Rightarrow> Inl e | Inr a \<Rightarrow> f a)"

definition assert_that :: "bool \<Rightarrow> string \<Rightarrow> unit result" where
  "assert_that b msg = (if b then Inr () else Inl (AssertFailed msg))"

fun rmap :: "('a \<Rightarrow> 'b result) \<Rightarrow> 'a list \<Rightarrow> 'b list result" where
  "rmap f [] = Inr []"
| "rmap f (x # xs) = rbind (f x) (\<lambda>y. rbind (rmap f xs) (\<lambda>ys. Inr (y # ys)))"

lemma rbind_simps [simp, result_simps]:
  "rbind (Inl e) f = Inl e"
  "rbind (Inr a) f = f a"
  by (simp_all add: rbind_def)

lemma rbind_eq_Inr [result_simps]: "rbind r f = Inr b \<longleftrightarrow> (\<exists>a. r = Inr a \<and> f a = Inr b)"
  by (cases r) auto

lemma rbind_cong [fundef_cong]:
  "r = r' \<Longrightarrow> (\<And>a. r' = Inr a \<Longrightarrow> f a = f' a) \<Longrightarrow> rbind r f = rbind r' f'"
  by (cases r') auto

lemma rmap_cong [fundef_cong]:
  "xs = ys \<Longrightarrow> (\<And>x. x \<in> set ys \<Longrightarrow> f x = g x) \<Longrightarrow> rmap f xs = rmap g ys"
proof (induction xs arbitrary: ys)
  case Nil
  then show ?case by simp
next
  case (Cons x xs)
  then have "f x = g x" and "rmap f xs = rmap g xs"
    by auto
  with Cons.prems(1) show ?case by auto
qed

lemma assert_that_eq_Inr [simp, result_simps]: "assert_that b m = Inr u \<longleftrightarrow> b"
  by (simp add: assert_that_def)

lemma assert_that_True [simp, result_simps]: "assert_that True m = Inr ()"
  by (simp add: assert_that_def)

lemma rmap_length: "rmap f xs = Inr ys \<Longrightarrow> length ys = length xs"
  by (induction xs arbitrary: ys) (auto simp: rbind_eq_Inr)

lemma rmap_total: "(\<And>x. x \<in> set xs \<Longrightarrow> f x = Inr (g x)) \<Longrightarrow> rmap f xs = Inr (map g xs)"
  by (induction xs) auto

lemma rmap_nth: "rmap f xs = Inr ys \<Longrightarrow> i < length xs \<Longrightarrow> f (xs ! i) = Inr (ys ! i)"
proof (induction xs arbitrary: ys i)
  case Nil
  then show ?case by simp
next
  case (Cons x xs)
  then show ?case by (cases i) (auto simp: rbind_eq_Inr)
qed

section \<open>32-bit integers\<close>

definition int_min :: int where "int_min = - (2 ^ 31)"

definition int_max :: int where "int_max = 2 ^ 31 - 1"

definition in_int32 :: "int \<Rightarrow> bool" where
  "in_int32 x \<longleftrightarrow> int_min \<le> x \<and> x \<le> int_max"

definition wrap32 :: "int \<Rightarrow> int" where
  "wrap32 x = (x + 2 ^ 31) mod 2 ^ 32 - 2 ^ 31"

lemmas int32_defs = int_min_def int_max_def in_int32_def wrap32_def

lemma wrap32_in_range [simp]: "in_int32 (wrap32 x)"
  using pos_mod_bound [of "2 ^ 32" "x + 2 ^ 31"] pos_mod_sign [of "2 ^ 32" "x + 2 ^ 31"]
  by (simp add: int32_defs)

lemma wrap32_id [simp]: "in_int32 x \<Longrightarrow> wrap32 x = x"
  by (simp add: int32_defs)

lemma wrap32_idem [simp]: "wrap32 (wrap32 x) = wrap32 x"
  by simp

lemma wrap32_cong: "wrap32 x mod 2 ^ 32 = x mod 2 ^ 32"
  by (simp add: wrap32_def mod_diff_left_eq)

lemma wrap32_eq_iff: "wrap32 x = wrap32 y \<longleftrightarrow> x mod 2 ^ 32 = y mod 2 ^ 32"
proof
  assume "wrap32 x = wrap32 y"
  then show "x mod 2 ^ 32 = y mod 2 ^ 32" by (metis wrap32_cong)
next
  assume "x mod 2 ^ 32 = y mod 2 ^ 32"
  then have "(x + 2 ^ 31) mod 2 ^ 32 = (y + 2 ^ 31) mod 2 ^ 32" by (metis mod_add_left_eq)
  then show "wrap32 x = wrap32 y" by (simp add: wrap32_def)
qed

section \<open>Lists\<close>

lemma nth_concat_pair: "i < length (xs @ ys) \<Longrightarrow>
    (xs @ ys) ! i = (if i < length xs then xs ! i else ys ! (i - length xs))"
  by (simp add: nth_append)

lemma map_upt_shift: "i \<le> j \<Longrightarrow> map (\<lambda>x. f (x - i)) [i..<j] = map f [0..<j - i]"
  by (rule nth_equalityI) auto

lemma sum_list_map_upt_Suc: "sum_list (map f [0..<Suc n]) = sum_list (map f [0..<n]) + f n"
  by simp

end
