(* ===== verification/Doubles.thy ===== *)
theory Doubles
  imports Prelude "HOL-Library.Log_Nat"
begin

text \<open>
  The C++ \<^verbatim>\<open>double\<close> of the compiler, as IEEE 754 binary64.

  A double is a NaN, a signed infinity, the negative zero or a finite rational (\<open>DFin 0\<close> is
  the positive zero).  Each arithmetic operation computes the exact rational result and
  rounds it with \<open>round64\<close>: round to nearest, ties to even, 53 significant bits, subnormal
  numbers down to \<open>2 powi (-1074)\<close>, overflow to an infinity.  NaN payloads are not
  distinguished.  The conversion to \<^verbatim>\<open>int\<close> truncates; out of range it gives the value that
  the x86 conversion instruction gives, \<open>int_min\<close>.

  The main fact is \<open>round64_mono\<close>: rounding is monotone, which is what interval arithmetic
  on rounded bounds rests on.
\<close>

datatype double = DNaN | DInf (is_neg_inf: bool) | DNegZero | DFin rat

section \<open>Rounding\<close>

definition floor_log2 :: "rat \<Rightarrow> int" where
  "floor_log2 a =
     (let (p, q) = quotient_of a; k = bitlen p - bitlen q
      in if 2 powi k \<le> a then k else k - 1)"

definition round_half_even :: "rat \<Rightarrow> int" where
  "round_half_even a =
     (let f = \<lfloor>a\<rfloor>; r = a - of_int f
      in if r < 1 / 2 then f else if 1 / 2 < r then f + 1
         else if even f then f else f + 1)"

definition ulp_exp :: "rat \<Rightarrow> int" where
  "ulp_exp a = max (floor_log2 a - 52) (- 1074)"

definition round_mag :: "rat \<Rightarrow> rat" where
  "round_mag a = of_int (round_half_even (a / 2 powi ulp_exp a)) * 2 powi ulp_exp a"

definition round64 :: "rat \<Rightarrow> double" where
  "round64 q =
     (if q = 0 then DFin 0
      else let v = round_mag \<bar>q\<bar>
           in if 2 powi 1024 \<le> v then DInf (q < 0)
              else if v = 0 then (if q < 0 then DNegZero else DFin 0)
              else DFin (if q < 0 then - v else v))"

section \<open>Values and comparisons\<close>

fun dfinite :: "double \<Rightarrow> bool" where
  "dfinite DNaN = False"
| "dfinite (DInf _) = False"
| "dfinite DNegZero = True"
| "dfinite (DFin _) = True"

fun dval :: "double \<Rightarrow> rat" where
  "dval (DFin q) = q"
| "dval _ = 0"

fun dsign :: "double \<Rightarrow> bool" where
  "dsign DNaN = False"
| "dsign (DInf s) = s"
| "dsign DNegZero = True"
| "dsign (DFin q) = (q < 0)"

definition dle :: "double \<Rightarrow> double \<Rightarrow> bool" where
  "dle x y \<longleftrightarrow> x \<noteq> DNaN \<and> y \<noteq> DNaN \<and>
     (x = DInf True \<or> y = DInf False \<or> (dfinite x \<and> dfinite y \<and> dval x \<le> dval y))"

definition dlt :: "double \<Rightarrow> double \<Rightarrow> bool" where
  "dlt x y \<longleftrightarrow> dle x y \<and> \<not> dle y x"

definition deq :: "double \<Rightarrow> double \<Rightarrow> bool" where
  "deq x y \<longleftrightarrow> dle x y \<and> dle y x"

section \<open>Arithmetic\<close>

definition dzero :: "bool \<Rightarrow> double" where
  "dzero s = (if s then DNegZero else DFin 0)"

definition dadd :: "double \<Rightarrow> double \<Rightarrow> double" where
  "dadd x y =
     (if x = DNaN \<or> y = DNaN then DNaN
      else if dfinite x \<and> dfinite y
      then (if dval x + dval y = 0 then dzero (x = DNegZero \<and> y = DNegZero)
            else round64 (dval x + dval y))
      else if dfinite x then y
      else if dfinite y then x
      else if x = y then x else DNaN)"

definition dneg :: "double \<Rightarrow> double" where
  "dneg x = (case x of DNaN \<Rightarrow> DNaN | DInf s \<Rightarrow> DInf (\<not> s) | DNegZero \<Rightarrow> DFin 0
     | DFin q \<Rightarrow> if q = 0 then DNegZero else DFin (- q))"

definition dsub :: "double \<Rightarrow> double \<Rightarrow> double" where
  "dsub x y = dadd x (dneg y)"

definition dmul :: "double \<Rightarrow> double \<Rightarrow> double" where
  "dmul x y =
     (if x = DNaN \<or> y = DNaN then DNaN
      else if dfinite x \<and> dfinite y
      then (if dval x * dval y = 0 then dzero (dsign x \<noteq> dsign y) else round64 (dval x * dval y))
      else if (dfinite x \<and> dval x = 0) \<or> (dfinite y \<and> dval y = 0) then DNaN
      else DInf (dsign x \<noteq> dsign y))"

definition ddiv :: "double \<Rightarrow> double \<Rightarrow> double" where
  "ddiv x y =
     (if x = DNaN \<or> y = DNaN then DNaN
      else if dfinite x \<and> dfinite y
      then (if dval y = 0 then (if dval x = 0 then DNaN else DInf (dsign x \<noteq> dsign y))
            else if dval x = 0 then dzero (dsign x \<noteq> dsign y)
            else round64 (dval x / dval y))
      else if dfinite x then dzero (dsign x \<noteq> dsign y)
      else if dfinite y then DInf (dsign x \<noteq> dsign y)
      else DNaN)"

definition dabs :: "double \<Rightarrow> double" where
  "dabs x = (if x = DNaN then DNaN else if dsign x then dneg x else x)"

definition dmin :: "double \<Rightarrow> double \<Rightarrow> double" where
  "dmin x y = (if dlt x y then x else y)"

definition dmax :: "double \<Rightarrow> double \<Rightarrow> double" where
  "dmax x y = (if dlt y x then x else y)"

definition double_of_int :: "int \<Rightarrow> double" where
  "double_of_int i = round64 (of_int i)"

definition trunc_rat :: "rat \<Rightarrow> int" where
  "trunc_rat q = (if 0 \<le> q then \<lfloor>q\<rfloor> else \<lceil>q\<rceil>)"

definition int_of_double :: "double \<Rightarrow> int" where
  "int_of_double x =
     (if dfinite x \<and> in_int32 (trunc_rat (dval x)) then trunc_rat (dval x) else int_min)"

section \<open>Rounding is monotone\<close>

lemma powi_mono2: "i \<le> j \<Longrightarrow> (2::rat) powi i \<le> 2 powi j"
  by (simp add: power_int_increasing)

lemma powi_pos2 [simp]: "0 < (2::rat) powi i"
  by simp

lemma powi_nat_bitlen:
  assumes "0 < x"
  shows "2 powi (bitlen x - 1) \<le> (of_int x :: rat)" and "of_int x < (2::rat) powi bitlen x"
proof -
  from assms have b: "1 \<le> bitlen x" by (simp add: bitlen_alt_def)
  have bounds: "2 ^ nat (bitlen x - 1) \<le> x" "x < 2 ^ nat (bitlen x)"
    using bitlen_bounds [OF assms] by auto
  have "(2::rat) powi (bitlen x - 1) = of_int (2 ^ nat (bitlen x - 1))"
    using b by (simp add: power_int_def)
  then show "2 powi (bitlen x - 1) \<le> (of_int x :: rat)"
    using bounds(1) by (metis of_int_le_iff)
  have "(2::rat) powi bitlen x = of_int (2 ^ nat (bitlen x))"
    using b by (simp add: power_int_def)
  then show "of_int x < (2::rat) powi bitlen x"
    using bounds(2) by (metis of_int_less_iff)
qed

lemma quotient_bounds:
  assumes "0 < a" and "quotient_of a = (p, q)"
  shows "2 powi (bitlen p - bitlen q - 1) < a" and "a < 2 powi (bitlen p - bitlen q + 1)"
proof -
  from assms have q: "0 < q" and a: "a = of_int p / of_int q"
    using quotient_of_denom_pos quotient_of_div by auto
  with assms(1) have p: "0 < p" by (simp add: zero_less_divide_iff)
  have "(2::rat) powi (bitlen p - bitlen q - 1) = 2 powi (bitlen p - 1) / 2 powi bitlen q"
    by (simp add: power_int_diff)
  also have "\<dots> < of_int p / of_int q"
    using powi_nat_bitlen(1) [OF p] powi_nat_bitlen(2) [OF q] q
    by (intro frac_less2) auto
  finally show "2 powi (bitlen p - bitlen q - 1) < a" by (simp add: a)
  have "of_int p / of_int q < (2::rat) powi bitlen p / 2 powi (bitlen q - 1)"
    using powi_nat_bitlen(2) [OF p] powi_nat_bitlen(1) [OF q] p
    by (intro frac_less) auto
  also have "\<dots> = (2::rat) powi (bitlen p - bitlen q + 1)"
    by (simp add: power_int_diff power_int_add)
  finally show "a < 2 powi (bitlen p - bitlen q + 1)" by (simp add: a)
qed

lemma floor_log2_bounds:
  assumes "0 < a"
  shows "2 powi floor_log2 a \<le> a" and "a < 2 powi (floor_log2 a + 1)"
proof -
  obtain p q where pq: "quotient_of a = (p, q)" by force
  note b = quotient_bounds [OF assms pq]
  show "2 powi floor_log2 a \<le> a"
    using b(1) by (auto simp: floor_log2_def pq Let_def)
  show "a < 2 powi (floor_log2 a + 1)"
    using b(2) by (auto simp: floor_log2_def pq Let_def)
qed

lemma floor_log2_mono:
  assumes "0 < a" and "a \<le> b"
  shows "floor_log2 a \<le> floor_log2 b"
proof (rule ccontr)
  assume "\<not> ?thesis"
  then have "floor_log2 b + 1 \<le> floor_log2 a" by simp
  then have "(2::rat) powi (floor_log2 b + 1) \<le> 2 powi floor_log2 a" by (rule powi_mono2)
  also have "\<dots> \<le> a" by (rule floor_log2_bounds) fact
  also have "a \<le> b" by fact
  also have "b < 2 powi (floor_log2 b + 1)" using assms by (intro floor_log2_bounds) auto
  finally show False by simp
qed

lemma round_half_even_int [simp]: "round_half_even (of_int n) = n"
  by (simp add: round_half_even_def Let_def)

lemma round_half_even_mono:
  assumes "x \<le> y"
  shows "round_half_even x \<le> round_half_even y"
proof (cases "\<lfloor>x\<rfloor> = \<lfloor>y\<rfloor>")
  case True
  then show ?thesis using assms by (auto simp: round_half_even_def Let_def)
next
  case False
  then have "\<lfloor>x\<rfloor> + 1 \<le> \<lfloor>y\<rfloor>" using floor_mono [OF assms] by linarith
  then show ?thesis by (auto simp: round_half_even_def Let_def)
qed

lemma round_half_even_nonneg: "0 \<le> x \<Longrightarrow> 0 \<le> round_half_even x"
  using round_half_even_mono [of "of_int 0" x] by (metis of_int_0 round_half_even_int)

lemma powi_split: "(2::rat) powi i = of_int (2 ^ nat (i - e)) * 2 powi e" if "e \<le> i"
proof -
  have "(2::rat) powi i = 2 powi ((i - e) + e)" by simp
  also have "\<dots> = 2 powi (i - e) * 2 powi e" by (subst power_int_add) auto
  also have "(2::rat) powi (i - e) = of_int (2 ^ nat (i - e))"
    using that by (simp add: power_int_def)
  finally show ?thesis .
qed

lemma round_grid_le:
  assumes "a \<le> 2 powi i" and "e \<le> i"
  shows "of_int (round_half_even (a / 2 powi e)) * 2 powi e \<le> (2::rat) powi i"
proof -
  have "a / 2 powi e \<le> of_int (2 ^ nat (i - e))"
    using assms powi_split [OF assms(2)] by (simp add: pos_divide_le_eq)
  then have "round_half_even (a / 2 powi e) \<le> 2 ^ nat (i - e)"
    using round_half_even_mono [of _ "of_int (2 ^ nat (i - e))"] round_half_even_int by metis
  then have "(of_int (round_half_even (a / 2 powi e)) :: rat) \<le> of_int (2 ^ nat (i - e))"
    by (simp only: of_int_le_iff)
  then show ?thesis
    unfolding powi_split [OF assms(2)] by (intro mult_right_mono) auto
qed

lemma round_grid_ge:
  assumes "2 powi i \<le> a" and "e \<le> i"
  shows "(2::rat) powi i \<le> of_int (round_half_even (a / 2 powi e)) * 2 powi e"
proof -
  have "of_int (2 ^ nat (i - e)) \<le> a / 2 powi e"
    using assms powi_split [OF assms(2)] by (simp add: pos_le_divide_eq)
  then have "2 ^ nat (i - e) \<le> round_half_even (a / 2 powi e)"
    using round_half_even_mono [of "of_int (2 ^ nat (i - e))"] round_half_even_int by metis
  then have "(of_int (2 ^ nat (i - e)) :: rat) \<le> of_int (round_half_even (a / 2 powi e))"
    by (simp only: of_int_le_iff)
  then show ?thesis
    unfolding powi_split [OF assms(2)] by (intro mult_right_mono) auto
qed

lemma round_mag_mono:
  assumes "0 < a" and "a \<le> b"
  shows "round_mag a \<le> round_mag b"
proof (cases "ulp_exp a = ulp_exp b")
  case True
  have "a / 2 powi ulp_exp b \<le> b / 2 powi ulp_exp b" using assms by (simp add: divide_right_mono)
  then have "round_half_even (a / 2 powi ulp_exp b) \<le> round_half_even (b / 2 powi ulp_exp b)"
    by (rule round_half_even_mono)
  then show ?thesis unfolding round_mag_def True by (intro mult_right_mono) auto
next
  case False
  let ?i = "floor_log2 b"
  from False floor_log2_mono [OF assms]
  have lt: "floor_log2 a < ?i" and eb: "ulp_exp b = ?i - 52" and ea: "ulp_exp a \<le> ?i"
    by (auto simp: ulp_exp_def max_def split: if_splits)
  have "a \<le> 2 powi (floor_log2 a + 1)" using floor_log2_bounds [OF assms(1)] by simp
  also have "\<dots> \<le> 2 powi ?i" using lt by (intro powi_mono2) simp
  finally have "round_mag a \<le> 2 powi ?i" unfolding round_mag_def using ea by (rule round_grid_le)
  also have "(2::rat) powi ?i \<le> round_mag b"
    unfolding round_mag_def using assms eb floor_log2_bounds(1) [of b]
    by (intro round_grid_ge) auto
  finally show ?thesis .
qed

lemma round_mag_nonneg: "0 < a \<Longrightarrow> 0 \<le> round_mag a"
  by (simp add: round_mag_def round_half_even_nonneg)

lemma round64_not_NaN [simp]: "round64 q \<noteq> DNaN"
  by (simp add: round64_def Let_def)

theorem round64_mono: "p \<le> q \<Longrightarrow> dle (round64 p) (round64 q)"
proof -
  assume pq: "p \<le> q"
  consider "p < 0" "q < 0" | "p \<le> 0" "0 \<le> q" | "0 < p" "0 < q" using pq by linarith
  then show ?thesis
  proof cases
    case 1
    then have "round_mag \<bar>q\<bar> \<le> round_mag \<bar>p\<bar>" using pq by (intro round_mag_mono) auto
    with 1 round_mag_nonneg [of "\<bar>q\<bar>"] show ?thesis by (auto simp: round64_def dle_def Let_def)
  next
    case 2
    then show ?thesis using round_mag_nonneg [of "\<bar>p\<bar>"] round_mag_nonneg [of "\<bar>q\<bar>"]
      by (auto simp: round64_def dle_def Let_def)
  next
    case 3
    then have "round_mag \<bar>p\<bar> \<le> round_mag \<bar>q\<bar>" using pq by (intro round_mag_mono) auto
    with 3 round_mag_nonneg [of "\<bar>p\<bar>"] show ?thesis by (auto simp: round64_def dle_def Let_def)
  qed
qed

section \<open>The order of doubles\<close>

lemma dle_refl [simp]: "dle x x \<longleftrightarrow> x \<noteq> DNaN"
  by (cases x) (auto simp: dle_def)

lemma dle_trans [trans]: "dle x y \<Longrightarrow> dle y z \<Longrightarrow> dle x z"
  by (auto simp: dle_def)

lemma dle_total: "x \<noteq> DNaN \<Longrightarrow> y \<noteq> DNaN \<Longrightarrow> dle x y \<or> dle y x"
  by (cases x; cases y) (auto simp: dle_def)

lemma dle_not_NaN: "dle x y \<Longrightarrow> x \<noteq> DNaN \<and> y \<noteq> DNaN"
  by (simp add: dle_def)

lemma dle_fin [simp]: "dfinite x \<Longrightarrow> dfinite y \<Longrightarrow> dle x y \<longleftrightarrow> dval x \<le> dval y"
  by (cases x; cases y) (auto simp: dle_def)

lemma dle_Inf [simp]: "dle (DInf True) y \<longleftrightarrow> y \<noteq> DNaN" "dle x (DInf False) \<longleftrightarrow> x \<noteq> DNaN"
  by (auto simp: dle_def)

lemma dfinite_not_NaN [simp]: "dfinite x \<Longrightarrow> x \<noteq> DNaN"
  by (cases x) auto

lemma dzero_simps [simp]: "dfinite (dzero s)" "dval (dzero s) = 0" "dzero s \<noteq> DNaN"
  by (auto simp: dzero_def)

lemma dle_dzero: "dle (dzero s) y \<longleftrightarrow> dle (round64 0) y" "dle x (dzero s) \<longleftrightarrow> dle x (round64 0)"
  by (auto simp: dle_def dzero_def round64_def)

lemma dmin_le: "x \<noteq> DNaN \<Longrightarrow> y \<noteq> DNaN \<Longrightarrow> dle (dmin x y) x \<and> dle (dmin x y) y"
  using dle_total [of x y] by (auto simp: dmin_def dlt_def)

lemma dmax_ge: "x \<noteq> DNaN \<Longrightarrow> y \<noteq> DNaN \<Longrightarrow> dle x (dmax x y) \<and> dle y (dmax x y)"
  using dle_total [of x y] by (auto simp: dmax_def dlt_def)

lemma dmin_cases: "dmin x y = x \<or> dmin x y = y"
  by (simp add: dmin_def)

lemma dmax_cases: "dmax x y = x \<or> dmax x y = y"
  by (simp add: dmax_def)

lemma dmin_mono: "dle a b \<Longrightarrow> dle c d \<Longrightarrow> dle (dmin a c) (dmin b d)"
  by (metis dle_not_NaN dle_trans dmin_cases dmin_le)

lemma dmax_mono: "dle a b \<Longrightarrow> dle c d \<Longrightarrow> dle (dmax a c) (dmax b d)"
  by (metis dle_not_NaN dle_trans dmax_cases dmax_ge)

section \<open>Monotone operations\<close>

lemma dadd_le:
  assumes "dfinite x" "dfinite y"
  shows "dle (dadd x y) z \<longleftrightarrow> dle (round64 (dval x + dval y)) z"
    and "dle z (dadd x y) \<longleftrightarrow> dle z (round64 (dval x + dval y))"
  using assms by (auto simp: dadd_def dle_dzero)

lemma dmul_le:
  assumes "dfinite x" "dfinite y"
  shows "dle (dmul x y) z \<longleftrightarrow> dle (round64 (dval x * dval y)) z"
    and "dle z (dmul x y) \<longleftrightarrow> dle z (round64 (dval x * dval y))"
  using assms by (auto simp: dmul_def dle_dzero)

lemma dadd_finite_not_NaN [simp]: "dfinite x \<Longrightarrow> dfinite y \<Longrightarrow> dadd x y \<noteq> DNaN"
  by (auto simp: dadd_def)

lemma dmul_finite_not_NaN [simp]: "dfinite x \<Longrightarrow> dfinite y \<Longrightarrow> dmul x y \<noteq> DNaN"
  by (auto simp: dmul_def)

lemma dneg_simps [simp]: "dfinite (dneg x) = dfinite x" "dval (dneg x) = - dval x"
  "dneg x = DNaN \<longleftrightarrow> x = DNaN"
  by (cases x; simp add: dneg_def)+

lemma dneg_le: "dle x y \<Longrightarrow> dle (dneg y) (dneg x)"
  by (cases x; cases y) (auto simp: dle_def dneg_def)

lemma dadd_Inf:
  "dadd (DInf s) y \<noteq> DNaN \<Longrightarrow> dadd (DInf s) y = DInf s"
  "dadd x (DInf s) \<noteq> DNaN \<Longrightarrow> dadd x (DInf s) = DInf s"
  by (auto simp: dadd_def split: if_splits)

lemma dle_finite_or_Inf:
  "dle x y \<Longrightarrow> x = DInf True \<or> y = DInf False \<or> (dfinite x \<and> dfinite y \<and> dval x \<le> dval y)"
  by (simp add: dle_def)

lemma dadd_mono:
  assumes "dle a b" "dle c d" "dadd a c \<noteq> DNaN" "dadd b d \<noteq> DNaN"
  shows "dle (dadd a c) (dadd b d)"
proof -
  consider "a = DInf True \<or> c = DInf True" | "b = DInf False \<or> d = DInf False"
    | "dfinite a" "dfinite b" "dfinite c" "dfinite d" "dval a + dval c \<le> dval b + dval d"
    using dle_finite_or_Inf [OF assms(1)] dle_finite_or_Inf [OF assms(2)] by fastforce
  then show ?thesis
  proof cases
    case 1
    then have "dadd a c = DInf True" using assms(3) dadd_Inf by blast
    with assms(4) show ?thesis by simp
  next
    case 2
    then have "dadd b d = DInf False" using assms(4) dadd_Inf by blast
    with assms(3) show ?thesis by simp
  next
    case 3
    then show ?thesis by (simp add: dadd_le round64_mono)
  qed
qed

lemma dsub_mono:
  assumes "dle a b" "dle c d" "dsub a d \<noteq> DNaN" "dsub b c \<noteq> DNaN"
  shows "dle (dsub a d) (dsub b c)"
  using assms unfolding dsub_def by (intro dadd_mono dneg_le) auto

section \<open>Conversions\<close>

lemma round_mag_exact:
  assumes "0 < a" and "a = of_int n" and "a < 2 powi 53"
  shows "round_mag a = a"
proof -
  have "floor_log2 a < 53"
  proof (rule ccontr)
    assume "\<not> ?thesis"
    then have "(2::rat) powi 53 \<le> 2 powi floor_log2 a" by (intro powi_mono2) simp
    with floor_log2_bounds(1) [OF assms(1)] assms(3) show False by simp
  qed
  then have e: "ulp_exp a \<le> 0" by (simp add: ulp_exp_def)
  define N where "N = (2::int) ^ nat (- ulp_exp a)"
  define P where "P = (2::rat) powi ulp_exp a"
  have one: "of_int N * P = 1" using powi_split [OF e] unfolding N_def P_def by simp
  have "a / P = of_int (n * N)"
    using one assms(2) by (auto simp: divide_eq_eq P_def mult.assoc)
  then have "round_mag a = of_int (n * N) * P"
    unfolding round_mag_def P_def [symmetric] by (simp only: round_half_even_int)
  also have "\<dots> = a" using one assms(2) by simp
  finally show ?thesis .
qed

lemma round64_of_int: "\<bar>i\<bar> < 2 ^ 53 \<Longrightarrow> round64 (of_int i) = DFin (of_int i)"
proof (cases "i = 0")
  case False
  assume i: "\<bar>i\<bar> < 2 ^ 53"
  let ?a = "\<bar>of_int i\<bar> :: rat"
  have pw: "(2::rat) powi 53 = of_int (2 ^ 53)" by (simp add: power_int_def)
  have lt: "?a < 2 powi 53" unfolding pw using i by (metis of_int_abs of_int_less_iff)
  then have r: "round_mag ?a = ?a" using False by (intro round_mag_exact [where n = "\<bar>i\<bar>"]) auto
  have "(2::rat) powi 53 \<le> 2 powi 1024" by (rule powi_mono2) simp
  with lt have "\<not> 2 powi 1024 \<le> ?a" by linarith
  then show ?thesis using False
    unfolding round64_def r Let_def by (auto simp del: power_int_numeral)
qed (simp add: round64_def)

lemma double_of_int_exact: "in_int32 i \<Longrightarrow> double_of_int i = DFin (of_int i)"
  unfolding double_of_int_def by (rule round64_of_int) (auto simp: int32_defs)

lemma trunc_rat_of_int [simp]: "trunc_rat (of_int i) = i"
  by (simp add: trunc_rat_def)

lemma int_of_double_of_int: "in_int32 i \<Longrightarrow> int_of_double (double_of_int i) = i"
  by (simp add: double_of_int_exact int_of_double_def)

lemma int_of_double_range [simp]: "in_int32 (int_of_double x)"
  by (simp add: int_of_double_def) (simp add: int32_defs)

end
