(* ===== verification/Nodes.thy ===== *)
theory Nodes
  imports Doubles
begin

text \<open>
  The content of a tree node (\<^verbatim>\<open>tlib/node.hh\<close>), the arithmetic on numeric nodes that the
  compiler folds constants with, and the table of binary operators (\<^verbatim>\<open>signals/binop.cpp\<close>).

  Symbols are interned by name in the source, and the keywords of the tree language are the
  symbols created in \<^verbatim>\<open>global.cpp\<close>.  The model gives each family of keywords its own
  datatype, so that different keywords are different values; \<open>Xt\<close> are the symbols that
  carry an extended primitive as user data; \<open>Name\<close> is every other symbol.  Pointer nodes
  hold the address of a primitive signal constructor (\<open>PPrim\<close>) or another object.

  C++ \<^verbatim>\<open>int\<close> arithmetic wraps (\<open>wrap32\<close>); division and remainder by zero, the overflowing
  division and shifts by a count outside \<open>0..31\<close> are undefined and give \<open>Inl (Undefined _)\<close>.
\<close>

section \<open>Symbols and nodes\<close>

datatype treekw =
    CONS | NIL | DEBRUIJN | DEBRUIJNREF | SYMREC | FFUN | PATHROOT | PATHPARENT | PATHCURRENT
  | PROPAGATEPROPERTY | SIMPLETYPE | TABLETYPE | TUPLETTYPE | BARRIER | BOXTYPEPROP

datatype boxkw =
    BOXIDENT | BOXWAVEFORM | BOXCUT | BOXWIRE | BOXSLOT | BOXSYMBOLIC | BOXSEQ | BOXPAR | BOXREC
  | BOXSPLIT | BOXMERGE | BOXIPAR | BOXISEQ | BOXISUM | BOXIPROD | BOXINPUTS | BOXOUTPUTS
  | BOXABSTR | BOXAPPL | CLOSURE | BOXERROR | BOXACCESS | BOXWITHLOCALDEF | BOXMODIFLOCALDEF
  | BOXENVIRONMENT | BOXCOMPONENT | BOXLIBRARY | IMPORTFILE | BOXPRIM0 | BOXPRIM1 | BOXPRIM2
  | BOXPRIM3 | BOXPRIM4 | BOXPRIM5 | BOXFFUN | BOXFCONST | BOXFVAR | BOXBUTTON | BOXCHECKBOX
  | BOXHSLIDER | BOXVSLIDER | BOXNUMENTRY | BOXHGROUP | BOXVGROUP | BOXTGROUP | BOXHBARGRAPH
  | BOXVBARGRAPH | BOXCASE | BOXPATVAR | BOXPATMATCHER

datatype sigkw =
    SIGINPUT | SIGOUTPUT | SIGDELAY1 | SIGFIXDELAY | SIGPREFIX | SIGIOTA | SIGRDTBL | SIGWRTBL
  | SIGTABLE | SIGGEN | SIGDOCONSTANTTBL | SIGDOCWRITETBL | SIGDOCACCESSTBL | SIGSELECT2
  | SIGSELECT3 | SIGBINOP | SIGFFUN | SIGFCONST | SIGFVAR | SIGPROJ | SIGINTCAST | SIGFLOATCAST
  | SIGBUTTON | SIGCHECKBOX | SIGWAVEFORM | SIGHSLIDER | SIGVSLIDER | SIGNUMENTRY | SIGHBARGRAPH
  | SIGVBARGRAPH | SIGATTACH | SIGTUPLE | SIGTUPLEACCESS

datatype xprim =
    XAbs | XAcos | XAsin | XAtan | XAtan2 | XCeil | XCos | XExp | XFloor | XFmod | XLog | XLog10
  | XMax | XMin | XPow | XRemainder | XRint | XSin | XSqrt | XTan

datatype primfun =
    P_sigDelay1 | P_sigIntCast | P_sigFloatCast
  | P_sigAdd | P_sigSub | P_sigMul | P_sigDiv | P_sigRem | P_sigAND | P_sigOR | P_sigXOR
  | P_sigLeftShift | P_sigRightShift | P_sigLT | P_sigLE | P_sigGT | P_sigGE | P_sigEQ | P_sigNE
  | P_sigFixDelay | P_sigPrefix | P_sigAttach
  | P_sigReadOnlyTable | P_sigSelect2 | P_sigSelect3 | P_sigWriteReadTable

datatype sym = KTree treekw | KBox boxkw | KSig sigkw | Xt xprim | Name string

datatype pointer = PPrim primfun | PObj nat

datatype node = NInt int | NDouble double | NSym sym | NPtr pointer

definition getUserData :: "node \<Rightarrow> xprim option" where
  "getUserData n = (case n of NSym (Xt p) \<Rightarrow> Some p | _ \<Rightarrow> None)"

definition isIntNode :: "node \<Rightarrow> bool" where
  "isIntNode n = (case n of NInt _ \<Rightarrow> True | _ \<Rightarrow> False)"

definition isDoubleNode :: "node \<Rightarrow> bool" where
  "isDoubleNode n = (case n of NDouble _ \<Rightarrow> True | _ \<Rightarrow> False)"

definition isNumNode :: "node \<Rightarrow> bool" where
  "isNumNode n \<longleftrightarrow> isIntNode n \<or> isDoubleNode n"

fun node_int :: "node \<Rightarrow> int" where
  "node_int (NInt i) = i"
| "node_int (NDouble d) = int_of_double d"
| "node_int _ = 0"

fun node_double :: "node \<Rightarrow> double" where
  "node_double (NInt i) = double_of_int i"
| "node_double (NDouble d) = d"
| "node_double _ = DFin 0"

fun isZeroNode :: "node \<Rightarrow> bool" where
  "isZeroNode (NDouble d) = deq d (DFin 0)"
| "isZeroNode (NInt i) = (i = 0)"
| "isZeroNode _ = False"

fun isGEZeroNode :: "node \<Rightarrow> bool" where
  "isGEZeroNode (NDouble d) = dle (DFin 0) d"
| "isGEZeroNode (NInt i) = (0 \<le> i)"
| "isGEZeroNode _ = False"

fun isGTZeroNode :: "node \<Rightarrow> bool" where
  "isGTZeroNode (NDouble d) = dlt (DFin 0) d"
| "isGTZeroNode (NInt i) = (0 < i)"
| "isGTZeroNode _ = False"

fun isOneNode :: "node \<Rightarrow> bool" where
  "isOneNode (NDouble d) = deq d (DFin 1)"
| "isOneNode (NInt i) = (i = 1)"
| "isOneNode _ = False"

fun isMinusOneNode :: "node \<Rightarrow> bool" where
  "isMinusOneNode (NDouble d) = deq d (DFin (- 1))"
| "isMinusOneNode (NInt i) = (i = - 1)"
| "isMinusOneNode _ = False"

section \<open>Arithmetic on nodes\<close>

definition tdiv :: "int \<Rightarrow> int \<Rightarrow> int" where
  "tdiv a b = sgn a * sgn b * (\<bar>a\<bar> div \<bar>b\<bar>)"

definition trem :: "int \<Rightarrow> int \<Rightarrow> int" where
  "trem a b = a - b * tdiv a b"

definition addNode :: "node \<Rightarrow> node \<Rightarrow> node" where
  "addNode x y =
     (if isDoubleNode x \<or> isDoubleNode y then NDouble (dadd (node_double x) (node_double y))
      else NInt (wrap32 (node_int x + node_int y)))"

definition subNode :: "node \<Rightarrow> node \<Rightarrow> node" where
  "subNode x y =
     (if isDoubleNode x \<or> isDoubleNode y then NDouble (dsub (node_double x) (node_double y))
      else NInt (wrap32 (node_int x - node_int y)))"

definition mulNode :: "node \<Rightarrow> node \<Rightarrow> node" where
  "mulNode x y =
     (if isDoubleNode x \<or> isDoubleNode y then NDouble (dmul (node_double x) (node_double y))
      else NInt (wrap32 (node_int x * node_int y)))"

definition divExtendedNode :: "node \<Rightarrow> node \<Rightarrow> node result" where
  "divExtendedNode x y =
     (if isDoubleNode x \<or> isDoubleNode y then Inr (NDouble (ddiv (node_double x) (node_double y)))
      else if node_int y = 0 \<or> (node_int x = int_min \<and> node_int y = - 1)
      then Inl (Undefined ''divExtendedNode'')
      else if deq (double_of_int (tdiv (node_int x) (node_int y)))
                  (ddiv (node_double x) (node_double y))
      then Inr (NInt (tdiv (node_int x) (node_int y)))
      else Inr (NDouble (ddiv (node_double x) (node_double y))))"

definition remNode :: "node \<Rightarrow> node \<Rightarrow> node result" where
  "remNode x y =
     (if node_int y = 0 \<or> (node_int x = int_min \<and> node_int y = - 1)
      then Inl (Undefined ''remNode'')
      else Inr (NInt (trem (node_int x) (node_int y))))"

definition minusNode :: "node \<Rightarrow> node" where
  "minusNode x = subNode (NInt 0) x"

definition inverseNode :: "node \<Rightarrow> node result" where
  "inverseNode x = divExtendedNode (NDouble (DFin 1)) x"

definition lshNode :: "node \<Rightarrow> node \<Rightarrow> node result" where
  "lshNode x y =
     (if node_int y < 0 \<or> 31 < node_int y then Inl (Undefined ''lshNode'')
      else Inr (NInt (wrap32 (push_bit (nat (node_int y)) (node_int x)))))"

definition rshNode :: "node \<Rightarrow> node \<Rightarrow> node result" where
  "rshNode x y =
     (if node_int y < 0 \<or> 31 < node_int y then Inl (Undefined ''rshNode'')
      else Inr (NInt (drop_bit (nat (node_int y)) (node_int x))))"

definition andNode :: "node \<Rightarrow> node \<Rightarrow> node" where
  "andNode x y = NInt (Bit_Operations.and (node_int x) (node_int y))"

definition orNode :: "node \<Rightarrow> node \<Rightarrow> node" where
  "orNode x y = NInt (Bit_Operations.or (node_int x) (node_int y))"

definition xorNode :: "node \<Rightarrow> node \<Rightarrow> node" where
  "xorNode x y = NInt (Bit_Operations.xor (node_int x) (node_int y))"

definition bool_node :: "bool \<Rightarrow> node" where
  "bool_node b = NInt (if b then 1 else 0)"

definition gtNode :: "node \<Rightarrow> node \<Rightarrow> node" where
  "gtNode x y = bool_node
     (if isDoubleNode x \<or> isDoubleNode y then dlt (node_double y) (node_double x)
      else node_int y < node_int x)"

definition ltNode :: "node \<Rightarrow> node \<Rightarrow> node" where
  "ltNode x y = bool_node
     (if isDoubleNode x \<or> isDoubleNode y then dlt (node_double x) (node_double y)
      else node_int x < node_int y)"

definition geNode :: "node \<Rightarrow> node \<Rightarrow> node" where
  "geNode x y = bool_node
     (if isDoubleNode x \<or> isDoubleNode y then dle (node_double y) (node_double x)
      else node_int y \<le> node_int x)"

definition leNode :: "node \<Rightarrow> node \<Rightarrow> node" where
  "leNode x y = bool_node
     (if isDoubleNode x \<or> isDoubleNode y then dle (node_double x) (node_double y)
      else node_int x \<le> node_int y)"

definition eqNode :: "node \<Rightarrow> node \<Rightarrow> node" where
  "eqNode x y = bool_node
     (if isDoubleNode x \<or> isDoubleNode y then deq (node_double x) (node_double y)
      else node_int x = node_int y)"

definition neNode :: "node \<Rightarrow> node \<Rightarrow> node" where
  "neNode x y = bool_node
     (if isDoubleNode x \<or> isDoubleNode y then \<not> deq (node_double x) (node_double y)
      else node_int x \<noteq> node_int y)"

section \<open>The table of binary operators\<close>

datatype binop = kAdd | kSub | kMul | kDiv | kRem | kLsh | kRsh
  | kGT | kLT | kGE | kLE | kEQ | kNE | kAND | kOR | kXOR

definition binop_list :: "binop list" where
  "binop_list = [kAdd, kSub, kMul, kDiv, kRem, kLsh, kRsh,
     kGT, kLT, kGE, kLE, kEQ, kNE, kAND, kOR, kXOR]"

definition opcode :: "binop \<Rightarrow> int" where
  "opcode op = (case op of kAdd \<Rightarrow> 0 | kSub \<Rightarrow> 1 | kMul \<Rightarrow> 2 | kDiv \<Rightarrow> 3 | kRem \<Rightarrow> 4
     | kLsh \<Rightarrow> 5 | kRsh \<Rightarrow> 6 | kGT \<Rightarrow> 7 | kLT \<Rightarrow> 8 | kGE \<Rightarrow> 9 | kLE \<Rightarrow> 10 | kEQ \<Rightarrow> 11
     | kNE \<Rightarrow> 12 | kAND \<Rightarrow> 13 | kOR \<Rightarrow> 14 | kXOR \<Rightarrow> 15)"

definition binop_of :: "int \<Rightarrow> binop option" where
  "binop_of i = (if 0 \<le> i \<and> i < 16 then Some (binop_list ! nat i) else None)"

fun compute :: "binop \<Rightarrow> node \<Rightarrow> node \<Rightarrow> node result" where
  "compute kAdd x y = Inr (addNode x y)"
| "compute kSub x y = Inr (subNode x y)"
| "compute kMul x y = Inr (mulNode x y)"
| "compute kDiv x y = divExtendedNode x y"
| "compute kRem x y = remNode x y"
| "compute kLsh x y = lshNode x y"
| "compute kRsh x y = rshNode x y"
| "compute kGT x y = Inr (gtNode x y)"
| "compute kLT x y = Inr (ltNode x y)"
| "compute kGE x y = Inr (geNode x y)"
| "compute kLE x y = Inr (leNode x y)"
| "compute kEQ x y = Inr (eqNode x y)"
| "compute kNE x y = Inr (neNode x y)"
| "compute kAND x y = Inr (andNode x y)"
| "compute kOR x y = Inr (orNode x y)"
| "compute kXOR x y = Inr (xorNode x y)"

definition isLeftNeutral :: "binop \<Rightarrow> node \<Rightarrow> bool" where
  "isLeftNeutral op n = (case op of kAdd \<Rightarrow> isZeroNode n | kMul \<Rightarrow> isOneNode n
     | kAND \<Rightarrow> isMinusOneNode n | kOR \<Rightarrow> isZeroNode n | _ \<Rightarrow> False)"

definition isRightNeutral :: "binop \<Rightarrow> node \<Rightarrow> bool" where
  "isRightNeutral op n = (case op of kAdd \<Rightarrow> isZeroNode n | kSub \<Rightarrow> isZeroNode n
     | kMul \<Rightarrow> isOneNode n | kDiv \<Rightarrow> isOneNode n | kLsh \<Rightarrow> isZeroNode n | kRsh \<Rightarrow> isZeroNode n
     | kAND \<Rightarrow> isMinusOneNode n | kOR \<Rightarrow> isZeroNode n | _ \<Rightarrow> False)"

definition isLeftAbsorbing :: "binop \<Rightarrow> node \<Rightarrow> bool" where
  "isLeftAbsorbing op n = (case op of kMul \<Rightarrow> isZeroNode n | kAND \<Rightarrow> isZeroNode n | _ \<Rightarrow> False)"

definition isRightAbsorbing :: "binop \<Rightarrow> node \<Rightarrow> bool" where
  "isRightAbsorbing op n = (case op of kMul \<Rightarrow> isZeroNode n | kAND \<Rightarrow> isZeroNode n | _ \<Rightarrow> False)"

definition isBoolOpcode :: "int \<Rightarrow> bool" where
  "isBoolOpcode o' \<longleftrightarrow> opcode kGT \<le> o' \<and> o' \<le> opcode kNE"

definition isLogicalOpcode :: "int \<Rightarrow> bool" where
  "isLogicalOpcode o' \<longleftrightarrow> opcode kAND \<le> o' \<and> o' \<le> opcode kXOR"

lemmas node_preds = isIntNode_def isDoubleNode_def isNumNode_def

lemmas node_arith = addNode_def subNode_def mulNode_def divExtendedNode_def remNode_def
  lshNode_def rshNode_def andNode_def orNode_def xorNode_def bool_node_def gtNode_def
  ltNode_def geNode_def leNode_def eqNode_def neNode_def

section \<open>Node arithmetic stays within the machine types\<close>

definition node_ok :: "node \<Rightarrow> bool" where
  "node_ok n \<longleftrightarrow> (case n of NInt i \<Rightarrow> in_int32 i | _ \<Rightarrow> True)"

lemma in_int32_signed: "in_int32 x \<longleftrightarrow> signed_take_bit 31 x = x"
  by (auto simp: signed_take_bit_int_eq_self_iff int32_defs)

lemma in_int32_bit: "in_int32 x \<longleftrightarrow> (\<forall>n. bit x (min 31 n) = bit x n)"
  unfolding in_int32_signed by (auto simp: bit_eq_iff bit_signed_take_bit_iff)

lemma in_int32_bits:
  assumes "in_int32 x" "in_int32 y"
  shows "in_int32 (Bit_Operations.and x y)" "in_int32 (Bit_Operations.or x y)"
    "in_int32 (Bit_Operations.xor x y)"
  using assms unfolding in_int32_bit by (simp_all add: bit_simps)

lemma in_int32_drop_bit:
  assumes "in_int32 x"
  shows "in_int32 (drop_bit n x)"
proof -
  from assms have h: "bit x k = bit x (min 31 k)" for k by (simp add: in_int32_bit)
  have "bit x (n + min 31 m) = bit x (n + m)" for m
  proof -
    have "min 31 (n + min 31 m) = min 31 (n + m)" by simp
    then show ?thesis by (metis h)
  qed
  then show ?thesis by (simp add: in_int32_bit bit_simps)
qed

lemma in_int32_node_int [simp]: "node_ok x \<Longrightarrow> in_int32 (node_int x)"
  by (cases x) (simp_all add: node_ok_def, simp add: int32_defs, simp add: int32_defs)

lemma tdiv_abs: "\<bar>tdiv a b\<bar> = \<bar>a\<bar> div \<bar>b\<bar>"
  by (cases "a = 0"; cases "b = 0") (simp_all add: tdiv_def abs_mult abs_sgn_eq pos_imp_zdiv_nonneg_iff)

lemma tdiv_bounded: "\<bar>tdiv a b\<bar> \<le> \<bar>a\<bar>"
proof (cases "b = 0")
  case False
  then have "\<bar>a\<bar> div \<bar>b\<bar> \<le> \<bar>a\<bar> div 1" by (intro zdiv_mono2) auto
  then show ?thesis by (simp add: tdiv_abs)
qed (simp add: tdiv_def)

lemma tdiv_in_int32:
  assumes "in_int32 a" "in_int32 b" "\<not> (a = int_min \<and> b = - 1)"
  shows "in_int32 (tdiv a b)"
proof -
  consider "b = 0" | "b = 1" | "b = - 1" | "2 \<le> \<bar>b\<bar>" by linarith
  then show ?thesis
  proof cases
    case 4
    then have "\<bar>a\<bar> div \<bar>b\<bar> \<le> \<bar>a\<bar> div 2" by (intro zdiv_mono2) auto
    then have "\<bar>tdiv a b\<bar> \<le> \<bar>a\<bar> div 2" by (simp add: tdiv_abs)
    with assms(1) show ?thesis unfolding int32_defs by simp linarith
  qed (use assms in \<open>auto simp: tdiv_def int32_defs sgn_mult_abs\<close>)
qed

lemma trem_eq: "trem a b = sgn a * (\<bar>a\<bar> mod \<bar>b\<bar>)"
proof (cases "b = 0")
  case False
  have "b * tdiv a b = sgn a * (\<bar>b\<bar> * (\<bar>a\<bar> div \<bar>b\<bar>))"
    by (simp add: tdiv_def abs_sgn mult.assoc mult.left_commute)
  also have "\<bar>b\<bar> * (\<bar>a\<bar> div \<bar>b\<bar>) = \<bar>a\<bar> - \<bar>a\<bar> mod \<bar>b\<bar>"
    by (simp add: minus_mod_eq_mult_div)
  finally show ?thesis
    by (simp add: trem_def right_diff_distrib sgn_mult_abs)
qed (simp add: trem_def tdiv_def sgn_mult_abs)

lemma trem_abs: "b \<noteq> 0 \<Longrightarrow> \<bar>trem a b\<bar> < \<bar>b\<bar>"
  by (auto simp: trem_eq abs_mult abs_sgn_eq)

lemma trem_in_int32: "in_int32 b \<Longrightarrow> b \<noteq> 0 \<Longrightarrow> in_int32 (trem a b)"
  using trem_abs [of b a] by (auto simp: int32_defs)

lemma compute_node_ok:
  assumes "node_ok x" "node_ok y" "compute op x y = Inr z"
  shows "node_ok z"
  using assms
  by (cases op)
    (auto simp: node_arith node_ok_def [of "NInt _"] node_ok_def [of "NDouble _"] in_int32_bits
      in_int32_drop_bit tdiv_in_int32 trem_in_int32 split: if_splits,
     auto simp: int32_defs)

lemma round_half_even_error: "\<bar>of_int (round_half_even a) - a\<bar> \<le> 1 / 2"
proof -
  have "of_int \<lfloor>a\<rfloor> \<le> a" "a < of_int \<lfloor>a\<rfloor> + 1" by linarith+
  then show ?thesis unfolding round_half_even_def Let_def by (auto simp: abs_if) linarith+
qed

lemma round_mag_error:
  assumes "0 < a" and "- 1022 \<le> floor_log2 a"
  shows "\<bar>round_mag a - a\<bar> \<le> a / 2 ^ 53"
proof -
  define P where "P = (2::rat) powi ulp_exp a"
  have P: "0 < P" "P = 2 powi (floor_log2 a - 52)"
    using assms(2) by (simp_all add: P_def ulp_exp_def)
  have "round_mag a - a = (of_int (round_half_even (a / P)) - a / P) * P"
    using P(1) by (simp add: round_mag_def P_def left_diff_distrib)
  then have "\<bar>round_mag a - a\<bar> = \<bar>of_int (round_half_even (a / P)) - a / P\<bar> * P"
    using P(1) by (simp add: abs_mult)
  also have "\<dots> \<le> 1 / 2 * P" using P(1) by (intro mult_right_mono round_half_even_error) auto
  also have "\<dots> = 2 powi floor_log2 a / 2 ^ 53" unfolding P(2) by (simp add: power_int_diff)
  also have "\<dots> \<le> a / 2 ^ 53" using floor_log2_bounds(1) [OF assms(1)] by (intro divide_right_mono) auto
  finally show ?thesis .
qed

lemma int32_quotient_log:
  assumes "in_int32 x" "in_int32 y" "x \<noteq> 0" "y \<noteq> 0"
  shows "- 1022 \<le> floor_log2 \<bar>of_int x / of_int y\<bar>" and "\<bar>of_int x / of_int y :: rat\<bar> < 2 powi 53"
proof -
  let ?a = "\<bar>of_int x / of_int y\<bar> :: rat"
  have y: "\<bar>of_int y\<bar> \<le> (2::rat) ^ 31" "1 \<le> \<bar>of_int y :: rat\<bar>" 
    and x: "\<bar>of_int x\<bar> \<le> (2::rat) ^ 31" "1 \<le> \<bar>of_int x :: rat\<bar>"
    using assms by (auto simp: int32_defs abs_if)
  have a: "0 < ?a" using assms by simp
  have lo: "1 / 2 ^ 31 \<le> ?a" using x y by (auto simp: abs_divide intro!: frac_le)
  have hi: "?a \<le> 2 ^ 31" using x y frac_le [of "2 ^ 31" "\<bar>of_int x\<bar>" 1 "\<bar>of_int y\<bar> :: rat"]
    by (simp add: abs_divide)
  show "- 1022 \<le> floor_log2 ?a"
  proof (rule ccontr)
    assume "\<not> ?thesis"
    then have "(2::rat) powi (floor_log2 ?a + 1) \<le> 2 powi (- 31)" by (intro powi_mono2) simp
    also have "\<dots> = 1 / 2 ^ 31" by (simp add: power_int_def field_simps)
    finally show False using lo floor_log2_bounds(2) [OF a] by linarith
  qed
  show "?a < 2 powi 53" using hi by (simp add: power_int_def)
qed

lemma ddiv_int_exact:
  assumes "in_int32 x" "in_int32 y" "y \<noteq> 0" "in_int32 q"
  shows "deq (double_of_int q) (ddiv (double_of_int x) (double_of_int y)) \<longleftrightarrow> q * y = x"
proof (cases "x = 0")
  case True
  with assms show ?thesis by (auto simp: double_of_int_exact ddiv_def deq_def)
next
  case False
  let ?r = "of_int x / of_int y :: rat"
  have div: "ddiv (double_of_int x) (double_of_int y) = round64 ?r"
    using assms False by (simp add: double_of_int_exact ddiv_def)
  show ?thesis
  proof
    assume "q * y = x"
    then have "?r = of_int q" using assms(3) by auto
    then show "deq (double_of_int q) (ddiv (double_of_int x) (double_of_int y))"
      using assms(4) div double_of_int_exact [OF assms(4)] by (simp add: deq_def double_of_int_def)
  next
    assume "deq (double_of_int q) (ddiv (double_of_int x) (double_of_int y))"
    then have e: "dfinite (round64 ?r)" "dval (round64 ?r) = of_int q"
      unfolding div double_of_int_exact [OF assms(4)]
      by (cases "round64 ?r", auto simp: deq_def dle_def)+
    then have q: "of_int q = (if ?r < 0 then - round_mag \<bar>?r\<bar> else round_mag \<bar>?r\<bar>)"
      using False assms(3) by (auto simp: round64_def Let_def split: if_splits)
    have "\<bar>round_mag \<bar>?r\<bar> - \<bar>?r\<bar>\<bar> \<le> \<bar>?r\<bar> / 2 ^ 53"
      using assms False by (intro round_mag_error int32_quotient_log) auto
    then have "\<bar>of_int q - ?r\<bar> \<le> \<bar>?r\<bar> / 2 ^ 53" unfolding q by (auto simp: abs_if split: if_splits)
    then have "\<bar>of_int q - ?r\<bar> * \<bar>of_int y\<bar> \<le> \<bar>?r\<bar> / 2 ^ 53 * \<bar>of_int y\<bar>"
      by (rule mult_right_mono) simp
    also have "\<bar>?r\<bar> / 2 ^ 53 * \<bar>of_int y\<bar> = \<bar>of_int x\<bar> / 2 ^ 53"
      using assms(3) by (simp add: abs_divide)
    also have "\<bar>of_int q - ?r\<bar> * \<bar>of_int y\<bar> = \<bar>of_int (q * y - x)\<bar>"
      using assms(3) by (simp add: abs_mult [symmetric] left_diff_distrib)
    finally have "\<bar>of_int (q * y - x) :: rat\<bar> \<le> \<bar>of_int x\<bar> / 2 ^ 53" .
    also have "\<dots> < 1" using assms(1) by (auto simp: int32_defs abs_if)
    finally have "\<bar>q * y - x\<bar> < 1" by (metis of_int_abs of_int_less_1_iff)
    then show "q * y = x" by simp
  qed
qed

lemma tdiv_dvd: "b dvd a \<Longrightarrow> tdiv a b = a div b"
  by (auto simp: tdiv_def dvd_def sgn_mult abs_mult) (auto simp: sgn_if)

lemma tdiv_mult_eq: "tdiv a b * b = a \<longleftrightarrow> b dvd a"
  by (metis dvd_div_mult_self dvd_triv_right tdiv_dvd)

lemma divExtendedNode_int:
  assumes "in_int32 x" "in_int32 y"
  shows "divExtendedNode (NInt x) (NInt y) =
     (if y = 0 \<or> (x = int_min \<and> y = - 1) then Inl (Undefined ''divExtendedNode'')
      else if y dvd x then Inr (NInt (x div y))
      else Inr (NDouble (round64 (of_int x / of_int y))))"
proof (cases "y = 0 \<or> (x = int_min \<and> y = - 1)")
  case True
  then show ?thesis by (auto simp: divExtendedNode_def node_preds)
next
  case False
  have key: "deq (double_of_int (tdiv x y)) (ddiv (double_of_int x) (double_of_int y)) \<longleftrightarrow> y dvd x"
    using False assms by (subst ddiv_int_exact) (auto simp: tdiv_mult_eq tdiv_in_int32)
  show ?thesis
  proof (cases "y dvd x")
    case True
    with key tdiv_dvd [OF True] False show ?thesis
      by (simp add: divExtendedNode_def node_preds)
  next
    case ndvd: False
    then have "ddiv (double_of_int x) (double_of_int y) = round64 (of_int x / of_int y)"
      using False assms by (auto simp: double_of_int_exact ddiv_def)
    with key ndvd False show ?thesis by (simp add: divExtendedNode_def node_preds)
  qed
qed

definition representable :: "double \<Rightarrow> bool" where
  "representable d \<longleftrightarrow> (case d of DFin q \<Rightarrow> round64 q = DFin q | _ \<Rightarrow> True)"

lemma representable_of_int [simp]: "in_int32 i \<Longrightarrow> representable (DFin (of_int i))"
  by (simp add: representable_def double_of_int_exact [unfolded double_of_int_def])

lemma dadd_zero:
  assumes "representable d" "deq z (DFin 0)"
  shows "deq (dadd z d) d \<longleftrightarrow> d \<noteq> DNaN" "deq (dadd d z) d \<longleftrightarrow> d \<noteq> DNaN" "deq (dsub d z) d \<longleftrightarrow> d \<noteq> DNaN"
  using assms
  by (cases z; cases d; auto simp: dadd_def dsub_def dneg_def deq_def dle_def dzero_def representable_def)+

lemma dmul_one:
  assumes "representable d" "deq z (DFin 1)"
  shows "deq (dmul z d) d \<longleftrightarrow> d \<noteq> DNaN" "deq (dmul d z) d \<longleftrightarrow> d \<noteq> DNaN" "deq (ddiv d z) d \<longleftrightarrow> d \<noteq> DNaN"
  using assms
  by (cases z; cases d; auto simp: dmul_def ddiv_def deq_def dle_def dzero_def representable_def)+

definition num_ok :: "node \<Rightarrow> bool" where
  "num_ok n \<longleftrightarrow> (case n of NInt i \<Rightarrow> in_int32 i | NDouble d \<Rightarrow> representable d \<and> d \<noteq> DNaN | _ \<Rightarrow> False)"

definition bit_operator :: "binop \<Rightarrow> bool" where
  "bit_operator op \<longleftrightarrow> op \<in> {kAND, kOR, kLsh, kRsh}"

lemma num_ok_cases:
  assumes "num_ok n"
  obtains i where "n = NInt i" "in_int32 i" | d where "n = NDouble d" "representable d" "d \<noteq> DNaN"
  using assms by (cases n) (auto simp: num_ok_def)

lemma node_double_ok: "num_ok n \<Longrightarrow> representable (node_double n) \<and> node_double n \<noteq> DNaN"
  by (erule num_ok_cases) (auto simp: double_of_int_exact)

lemma in_int32_small [simp]: "in_int32 0" "in_int32 1" "in_int32 (- 1)"
  by (simp_all add: int32_defs)

lemma zero_node: "isZeroNode n \<Longrightarrow> deq (node_double n) (DFin 0) \<and> node_int n = 0"
  by (cases n) (auto simp: double_of_int_exact deq_def dle_def int_of_double_def trunc_rat_def)

lemma one_node: "isOneNode n \<Longrightarrow> deq (node_double n) (DFin 1) \<and> node_int n = 1"
  by (cases n) (auto simp: double_of_int_exact deq_def dle_def int_of_double_def trunc_rat_def)

lemma minus_one_node: "isMinusOneNode n \<Longrightarrow> node_int n = - 1"
  by (cases n) (auto simp: double_of_int_exact deq_def dle_def int_of_double_def trunc_rat_def ceiling_def)

lemma deq_refl [simp]: "deq x x \<longleftrightarrow> x \<noteq> DNaN"
  by (simp add: deq_def)

lemma node_double_NInt: "in_int32 i \<Longrightarrow> deq (node_double (NInt i)) (node_double (NInt i))"
  by (simp add: double_of_int_exact)

lemma arith_neutral:
  assumes "num_ok y"
  shows "isZeroNode n \<Longrightarrow> deq (node_double (addNode n y)) (node_double y)"
    "isZeroNode n \<Longrightarrow> deq (node_double (addNode y n)) (node_double y)"
    "isZeroNode n \<Longrightarrow> deq (node_double (subNode y n)) (node_double y)"
    "isOneNode n \<Longrightarrow> deq (node_double (mulNode n y)) (node_double y)"
    "isOneNode n \<Longrightarrow> deq (node_double (mulNode y n)) (node_double y)"
  using assms node_double_ok [OF assms] zero_node [of n] one_node [of n]
  by (auto simp: node_arith dadd_zero dmul_one node_preds elim!: num_ok_cases)

lemma div_neutral:
  assumes "num_ok y" "isOneNode n"
  shows "\<exists>z. divExtendedNode y n = Inr z \<and> deq (node_double z) (node_double y)"
proof (cases "isDoubleNode y \<or> isDoubleNode n")
  case True
  then show ?thesis
    using node_double_ok [OF assms(1)] one_node [OF assms(2)] by (auto simp: divExtendedNode_def dmul_one)
next
  case False
  then obtain i where "y = NInt i" "in_int32 i" "n = NInt 1"
    using assms by (cases n) (auto simp: node_preds elim!: num_ok_cases)
  then show ?thesis by (simp add: divExtendedNode_int double_of_int_exact deq_def)
qed

lemma bit_neutral:
  assumes "in_int32 i"
  shows "isZeroNode n \<Longrightarrow> lshNode (NInt i) n = Inr (NInt i)"
    "isZeroNode n \<Longrightarrow> rshNode (NInt i) n = Inr (NInt i)"
    "isZeroNode n \<Longrightarrow> orNode (NInt i) n = NInt i" "isZeroNode n \<Longrightarrow> orNode n (NInt i) = NInt i"
    "isMinusOneNode n \<Longrightarrow> andNode (NInt i) n = NInt i"
    "isMinusOneNode n \<Longrightarrow> andNode n (NInt i) = NInt i"
  using assms zero_node [of n] minus_one_node [of n] by (auto simp: node_arith)



end
