(* ===== verification/Trees.thy ===== *)
theory Trees
  imports Nodes
begin

text \<open>
  Trees (\<^verbatim>\<open>tlib/tree.hh\<close>, \<^verbatim>\<open>tlib/tree.cpp\<close>) and recursive trees in de Bruijn notation
  (\<^verbatim>\<open>tlib/recursive-tree.cpp\<close>).

  A \<^verbatim>\<open>CTree\<close> is a node with a vector of branches.  The source shares equal trees, so that a
  \<^verbatim>\<open>Tree\<close> pointer identifies a content; theory \<open>HashCons\<close> proves this of the hash table, and
  every other theory works with the content itself, the datatype \<open>tree\<close>.

  The aperture of a tree bounds its free de Bruijn references.  The routines \<open>liftn\<close> and
  \<open>substitute\<close> use it to skip closed parts; they are related here to the references that occur
  free in a tree (\<open>free_refs\<close>).
\<close>

datatype tree = Tree (node: node) (branches: "tree list")

section \<open>Accessors, conversions and pattern matching\<close>

definition arity :: "tree \<Rightarrow> nat" where
  "arity t = length (branches t)"

definition branch :: "tree \<Rightarrow> nat \<Rightarrow> tree result" where
  "branch t i = (if i < arity t then Inr (branches t ! i) else Inl (Undefined ''branch''))"

definition tree2int :: "tree \<Rightarrow> int result" where
  "tree2int t = (case node t of NInt i \<Rightarrow> Inr i | NDouble x \<Rightarrow> Inr (int_of_double x)
     | _ \<Rightarrow> Inl (FaustException ''the node of the tree is not an int nor a float''))"

definition tree2float :: "tree \<Rightarrow> double result" where
  "tree2float t = (case node t of NInt i \<Rightarrow> Inr (double_of_int i) | NDouble x \<Rightarrow> Inr x
     | _ \<Rightarrow> Inl (FaustException ''the node of the tree is not a float nor an int''))"

definition tree2double :: "tree \<Rightarrow> double result" where
  "tree2double t = (case node t of NInt i \<Rightarrow> Inr (double_of_int i) | NDouble x \<Rightarrow> Inr x
     | _ \<Rightarrow> Inl (FaustException ''the node of the tree is not a float nor an int''))"

definition tree2ptr :: "tree \<Rightarrow> pointer result" where
  "tree2ptr t = (case node t of NPtr p \<Rightarrow> Inr p
     | _ \<Rightarrow> Inl (FaustException ''the node of the tree is not a pointer''))"

definition isTree0 :: "tree \<Rightarrow> node \<Rightarrow> bool" where
  "isTree0 t n \<longleftrightarrow> node t = n"

definition isTree1 :: "tree \<Rightarrow> node \<Rightarrow> tree option" where
  "isTree1 t n = (case branches t of [a] \<Rightarrow> if node t = n then Some a else None | _ \<Rightarrow> None)"

definition isTree2 :: "tree \<Rightarrow> node \<Rightarrow> (tree \<times> tree) option" where
  "isTree2 t n = (case branches t of [a, b] \<Rightarrow> if node t = n then Some (a, b) else None | _ \<Rightarrow> None)"

definition isTree3 :: "tree \<Rightarrow> node \<Rightarrow> (tree \<times> tree \<times> tree) option" where
  "isTree3 t n = (case branches t of [a, b, c] \<Rightarrow> if node t = n then Some (a, b, c) else None
     | _ \<Rightarrow> None)"

definition isTree4 :: "tree \<Rightarrow> node \<Rightarrow> (tree \<times> tree \<times> tree \<times> tree) option" where
  "isTree4 t n = (case branches t of [a, b, c, d] \<Rightarrow> if node t = n then Some (a, b, c, d) else None
     | _ \<Rightarrow> None)"

definition isTree5 :: "tree \<Rightarrow> node \<Rightarrow> (tree \<times> tree \<times> tree \<times> tree \<times> tree) option" where
  "isTree5 t n = (case branches t of [a, b, c, d, e] \<Rightarrow>
       if node t = n then Some (a, b, c, d, e) else None
     | _ \<Rightarrow> None)"

lemmas isTree_defs = isTree0_def isTree1_def isTree2_def isTree3_def isTree4_def isTree5_def

lemma isTree1_Some: "isTree1 t n = Some a \<longleftrightarrow> t = Tree n [a]"
  by (cases t) (auto simp: isTree1_def split: list.splits if_splits)

lemma isTree2_Some: "isTree2 t n = Some (a, b) \<longleftrightarrow> t = Tree n [a, b]"
  by (cases t) (auto simp: isTree2_def split: list.splits if_splits)

lemma isTree3_Some: "isTree3 t n = Some (a, b, c) \<longleftrightarrow> t = Tree n [a, b, c]"
  by (cases t) (auto simp: isTree3_def split: list.splits if_splits)

lemma isTree4_Some: "isTree4 t n = Some (a, b, c, d) \<longleftrightarrow> t = Tree n [a, b, c, d]"
  by (cases t) (auto simp: isTree4_def split: list.splits if_splits)

lemma isTree5_Some: "isTree5 t n = Some (a, b, c, d, e) \<longleftrightarrow> t = Tree n [a, b, c, d, e]"
  by (cases t) (auto simp: isTree5_def split: list.splits if_splits)

lemmas isTree_Some = isTree1_Some isTree2_Some isTree3_Some isTree4_Some isTree5_Some

lemma size_branch [termination_simp]: "b \<in> set (branches t) \<Longrightarrow> size b < size t"
  by (cases t) (auto dest: size_list_estimation' [where f = size and y = "size b"])

section \<open>Recursive trees in de Bruijn notation\<close>

definition leaf :: "node \<Rightarrow> tree" where
  "leaf n = Tree n []"

definition rec :: "tree \<Rightarrow> tree" where
  "rec body = Tree (NSym (KTree DEBRUIJN)) [body]"

definition isRec :: "tree \<Rightarrow> tree option" where
  "isRec t = isTree1 t (NSym (KTree DEBRUIJN))"

definition ref :: "int \<Rightarrow> tree" where
  "ref level = Tree (NSym (KTree DEBRUIJNREF)) [leaf (NInt level)]"

definition isRef :: "tree \<Rightarrow> int option" where
  "isRef t = (case isTree1 t (NSym (KTree DEBRUIJNREF)) of
      Some u \<Rightarrow> (case node u of NInt level \<Rightarrow> Some level | _ \<Rightarrow> None)
    | None \<Rightarrow> None)"

fun aperture :: "tree \<Rightarrow> int" where
  "aperture (Tree n br) =
     (if n = NSym (KTree DEBRUIJNREF)
      then (case br of b # _ \<Rightarrow> (case node b of NInt x \<Rightarrow> x | _ \<Rightarrow> 0) | [] \<Rightarrow> 0)
      else if n = NSym (KTree DEBRUIJN)
      then (case br of b # _ \<Rightarrow> aperture b - 1 | [] \<Rightarrow> 0)
      else fold (\<lambda>b rc. if rc < aperture b then aperture b else rc) br 0)"

definition isOpen :: "tree \<Rightarrow> bool" where
  "isOpen t \<longleftrightarrow> 0 < aperture t"

definition isClosed :: "tree \<Rightarrow> bool" where
  "isClosed t \<longleftrightarrow> aperture t \<le> 0"

lemma isRec_size [termination_simp]: "isRec t = Some u \<Longrightarrow> size u < size t"
  by (auto simp: isRec_def isTree_Some)

fun liftn :: "tree \<Rightarrow> int \<Rightarrow> tree" where
  "liftn t threshold =
     (if isClosed t then t
      else case isRef t of
          Some n \<Rightarrow> if n < threshold then t else ref (n + 1)
        | None \<Rightarrow>
            (case isRec t of
               Some u \<Rightarrow> rec (liftn u (threshold + 1))
             | None \<Rightarrow> Tree (node t) (map (\<lambda>b. liftn b threshold) (branches t))))"

declare liftn.simps [simp del]

definition lift :: "tree \<Rightarrow> tree" where
  "lift t = liftn t 1"

fun substitute :: "tree \<Rightarrow> int \<Rightarrow> tree \<Rightarrow> tree" where
  "substitute t level id' =
     (if aperture t < level then t
      else case isRef t of
          Some l \<Rightarrow> if l = level then id' else t
        | None \<Rightarrow>
            (case isRec t of
               Some body \<Rightarrow> rec (substitute body (level + 1) id')
             | None \<Rightarrow> Tree (node t) (map (\<lambda>b. substitute b level id') (branches t))))"

declare substitute.simps [simp del]

section \<open>Free references\<close>

text \<open>
  Well-formed trees use the two de Bruijn keywords only as \<open>rec\<close> and \<open>ref\<close> build them, with
  positive levels.
\<close>

fun db_wf :: "tree \<Rightarrow> bool" where
  "db_wf (Tree n br) =
     (if n = NSym (KTree DEBRUIJNREF)
      then length br = 1 \<and>
           (\<forall>b \<in> set br. branches b = [] \<and> (case node b of NInt x \<Rightarrow> 0 < x | _ \<Rightarrow> False))
      else (n = NSym (KTree DEBRUIJN) \<longrightarrow> length br = 1) \<and> (\<forall>b \<in> set br. db_wf b))"

fun free_refs :: "tree \<Rightarrow> int set" where
  "free_refs (Tree n br) =
     (if n = NSym (KTree DEBRUIJNREF)
      then (\<Union>b \<in> set br. case node b of NInt x \<Rightarrow> {x} | _ \<Rightarrow> {})
      else if n = NSym (KTree DEBRUIJN)
      then {x. 0 < x \<and> x + 1 \<in> (\<Union>b \<in> set br. free_refs b)}
      else (\<Union>b \<in> set br. free_refs b))"

lemma isRef_ref [simp]: "isRef (ref n) = Some n" "isRef (rec u) = None"
  by (simp_all add: isRef_def ref_def rec_def leaf_def isTree1_def)

lemma isRec_rec [simp]: "isRec (rec u) = Some u" "isRec (ref n) = None"
  by (simp_all add: isRec_def ref_def rec_def leaf_def isTree1_def)

lemma db_node_simps [simp]:
  assumes "n \<noteq> NSym (KTree DEBRUIJNREF)" "n \<noteq> NSym (KTree DEBRUIJN)"
  shows "isRef (Tree n br) = None" "isRec (Tree n br) = None"
    "free_refs (Tree n br) = (\<Union>b \<in> set br. free_refs b)"
    "aperture (Tree n br) = fold (\<lambda>b rc. if rc < aperture b then aperture b else rc) br 0"
    "db_wf (Tree n br) \<longleftrightarrow> (\<forall>b \<in> set br. db_wf b)"
  using assms by (auto simp: isRef_def isRec_def isTree1_def split: option.splits list.splits)

lemma db_ref_simps [simp]:
  "free_refs (ref n) = {n}" "aperture (ref n) = n" "db_wf (ref n) \<longleftrightarrow> 0 < n"
  by (simp_all add: ref_def leaf_def)

lemma db_rec_simps [simp]:
  "free_refs (rec u) = {x. 0 < x \<and> x + 1 \<in> free_refs u}" "aperture (rec u) = aperture u - 1"
  "db_wf (rec u) \<longleftrightarrow> db_wf u"
  by (simp_all add: rec_def)

declare aperture.simps [simp del] free_refs.simps [simp del] db_wf.simps [simp del]

lemma db_wf_cases:
  assumes "db_wf t"
  obtains (ref) n where "t = ref n" "0 < n"
    | (rec) u where "t = rec u" "db_wf u"
    | (node) n br where "t = Tree n br" "n \<noteq> NSym (KTree DEBRUIJNREF)"
        "n \<noteq> NSym (KTree DEBRUIJN)" "\<And>b. b \<in> set br \<Longrightarrow> db_wf b"
proof -
  obtain n br where t: "t = Tree n br" by (cases t)
  show ?thesis
  proof (cases "n = NSym (KTree DEBRUIJNREF)")
    case True
    with assms t obtain b x where "br = [b]" "branches b = []" "node b = NInt x" "0 < x"
      by (auto simp: db_wf.simps length_Suc_conv split: node.splits) (metis node.exhaust)
    then have "br = [Tree (NInt x) []]" "0 < x" by (metis tree.collapse, simp)
    then show ?thesis using True t by (intro ref) (auto simp: ref_def leaf_def)
  next
    case False
    show ?thesis
    proof (cases "n = NSym (KTree DEBRUIJN)")
      case True
      with assms t obtain u where "br = [u]" "db_wf u"
        by (auto simp: db_wf.simps length_Suc_conv)
      then show ?thesis using True t by (intro rec) (auto simp: rec_def)
    next
      case notrec: False
      with False assms t show ?thesis by (intro node) auto
    qed
  qed
qed

lemma db_induct [consumes 1, case_names ref rec node]:
  assumes "db_wf t"
    and ref: "\<And>n. 0 < n \<Longrightarrow> P (ref n)"
    and rec: "\<And>u. db_wf u \<Longrightarrow> P u \<Longrightarrow> P (rec u)"
    and node: "\<And>n br. n \<noteq> NSym (KTree DEBRUIJNREF) \<Longrightarrow> n \<noteq> NSym (KTree DEBRUIJN) \<Longrightarrow>
      (\<And>b. b \<in> set br \<Longrightarrow> db_wf b) \<Longrightarrow> (\<And>b. b \<in> set br \<Longrightarrow> P b) \<Longrightarrow> P (Tree n br)"
  shows "P t"
  using assms(1)
proof (induction "size t" arbitrary: t rule: less_induct)
  case less
  from less.prems show ?case
  proof (cases rule: db_wf_cases)
    case (node n br)
    have "size b < size t" if "b \<in> set br" for b
      using size_branch [of b t] that node(1) by simp
    then show ?thesis using node less.hyps by (auto intro: assms(4))
  next
    case (rec u)
    then have "size u < size t" by (simp add: rec_def)
    with rec less.hyps show ?thesis by (auto intro: assms(3))
  qed (auto intro: ref)
qed

lemma fold_max_ge: "x \<le> fold (\<lambda>b rc. if rc < f b then f b else rc) br (x :: int)"
  by (induction br arbitrary: x) (auto intro: order_trans less_imp_le)

lemma fold_max_upper: "b \<in> set br \<Longrightarrow> f b \<le> fold (\<lambda>b rc. if rc < f b then f b else rc) br (x :: int)"
proof (induction br arbitrary: x)
  case (Cons c br)
  then show ?case
    using fold_max_ge [of "f c" f br] fold_max_ge [of x f br] by auto
qed simp

lemma fold_max_attained:
  "fold (\<lambda>b rc. if rc < f b then f b else rc) br x = (x :: int) \<or>
   (\<exists>b \<in> set br. fold (\<lambda>b rc. if rc < f b then f b else rc) br x = f b)"
proof (induction br arbitrary: x)
  case (Cons b br)
  from Cons.IH [of "f b"] Cons.IH [of x] show ?case by auto
qed simp

lemma aperture_bounds:
  assumes "db_wf t"
  shows "(\<forall>x \<in> free_refs t. 0 < x \<and> x \<le> aperture t) \<and> (0 < aperture t \<longrightarrow> aperture t \<in> free_refs t)"
  using assms
proof (induction rule: db_induct)
  case (node n br)
  show ?case
  proof (intro conjI impI ballI)
    fix x assume "x \<in> free_refs (Tree n br)"
    then obtain b where b: "b \<in> set br" "x \<in> free_refs b" using node by auto
    then have "0 < x" "x \<le> aperture b" using node.IH by auto
    then show "0 < x" "x \<le> aperture (Tree n br)"
      using node.hyps fold_max_upper [OF b(1), of aperture 0] by auto
  next
    assume "0 < aperture (Tree n br)"
    then obtain b where "b \<in> set br" "aperture (Tree n br) = aperture b"
      using node.hyps fold_max_attained [of aperture br 0] by auto
    then show "aperture (Tree n br) \<in> free_refs (Tree n br)"
      using node.hyps node.IH \<open>0 < aperture (Tree n br)\<close> by auto
  qed
next
  case (rec u)
  then show ?case by auto
qed auto

lemmas free_refs_pos = aperture_bounds [THEN conjunct1, rule_format, THEN conjunct1]
  and free_refs_le = aperture_bounds [THEN conjunct1, rule_format, THEN conjunct2]
  and aperture_free = aperture_bounds [THEN conjunct2, rule_format]

lemma isClosed_iff: "db_wf t \<Longrightarrow> isClosed t \<longleftrightarrow> free_refs t = {}"
  using aperture_bounds [of t] by (force simp: isClosed_def)

lemma liftn_simps:
  "liftn (ref n) k = (if n \<le> 0 \<or> n < k then ref n else ref (n + 1))"
  "db_wf u \<Longrightarrow> liftn (rec u) k = (if isClosed (rec u) then rec u else rec (liftn u (k + 1)))"
  "nd \<noteq> NSym (KTree DEBRUIJNREF) \<Longrightarrow> nd \<noteq> NSym (KTree DEBRUIJN) \<Longrightarrow>
   liftn (Tree nd br) k = (if isClosed (Tree nd br) then Tree nd br
      else Tree nd (map (\<lambda>b. liftn b k) br))"
  by (simp_all add: liftn.simps [of "ref n"] liftn.simps [of "rec u"] liftn.simps [of "Tree nd br"] isClosed_def)

lemma liftn_closed: "isClosed t \<Longrightarrow> liftn t k = t"
  by (subst liftn.simps) simp

lemma liftn_wf: "db_wf t \<Longrightarrow> db_wf (liftn t k)"
proof (induction arbitrary: k rule: db_induct)
  case (node n br)
  then show ?case by (auto simp: liftn_simps)
qed (auto simp: liftn_simps)

lemma lift_index_image:
  assumes "S \<subseteq> {0<..}" "0 < k"
  shows "{x. 0 < x \<and> x + 1 \<in> (\<lambda>x. if x < k + 1 then x else x + 1) ` S} =
         (\<lambda>x. if x < k then x else x + 1) ` {x. 0 < x \<and> x + 1 \<in> (S :: int set)}"
proof -
  have "x \<in> (\<lambda>x. if x < k then x else x + 1) ` {x. 0 < x \<and> x + 1 \<in> S}"
    if "0 < x" "x + 1 = (if y < k + 1 then y else y + 1)" "y \<in> S" for x y
    using that assms by (intro image_eqI [of _ _ "y - 1"]) (auto split: if_splits)
  moreover have "x + 1 \<in> (\<lambda>x. if x < k + 1 then x else x + 1) ` S"
    if "x = (if y < k then y else y + 1)" "0 < y" "y + 1 \<in> S" for x y
    using that by (intro image_eqI [of _ _ "y + 1"]) (auto split: if_splits)
  ultimately show ?thesis using assms by (auto split: if_splits) force+
qed

lemma liftn_free_refs_gen:
  "db_wf t \<Longrightarrow> 0 < k \<Longrightarrow> free_refs (liftn t k) = (\<lambda>x. if x < k then x else x + 1) ` free_refs t"
proof (induction arbitrary: k rule: db_induct)
  case (rec u)
  show ?case
  proof (cases "isClosed (rec u)")
    case True
    then have "free_refs (rec u) = {}" using rec.hyps isClosed_iff [of "rec u"] by simp
    then show ?thesis by (simp only: liftn_closed [OF True] image_empty)
  next
    case False
    have "free_refs u \<subseteq> {0<..}" using rec.hyps free_refs_pos by auto
    with False rec lift_index_image [of "free_refs u" k] show ?thesis by (simp add: liftn_simps)
  qed
next
  case (node n br)
  show ?case
  proof (cases "isClosed (Tree n br)")
    case True
    then have "free_refs (Tree n br) = {}" using node.hyps isClosed_iff [of "Tree n br"] by simp
    then show ?thesis by (simp only: liftn_closed [OF True] image_empty)
  next
    case False
    with node show ?thesis by (auto simp: liftn_simps)
  qed
qed (auto simp: liftn_simps)

fun lift_all :: "tree \<Rightarrow> int \<Rightarrow> tree" where
  "lift_all (Tree n br) k =
     (if n = NSym (KTree DEBRUIJNREF)
      then Tree n (map (\<lambda>b. case node b of NInt x \<Rightarrow> leaf (NInt (if x < k then x else x + 1)) | _ \<Rightarrow> b) br)
      else if n = NSym (KTree DEBRUIJN) then Tree n (map (\<lambda>b. lift_all b (k + 1)) br)
      else Tree n (map (\<lambda>b. lift_all b k) br))"

lemma lift_all_simps [simp]:
  "lift_all (ref n) k = ref (if n < k then n else n + 1)"
  "lift_all (rec u) k = rec (lift_all u (k + 1))"
  by (simp_all add: ref_def rec_def leaf_def)

lemma lift_all_id:
  "db_wf t \<Longrightarrow> (\<forall>x \<in> free_refs t. x < k) \<Longrightarrow> 0 < k \<Longrightarrow> lift_all t k = t"
proof (induction arbitrary: k rule: db_induct)
  case (rec u)
  have "\<forall>x \<in> free_refs u. x < k + 1"
  proof
    fix x assume x: "x \<in> free_refs u"
    show "x < k + 1"
    proof (cases "1 < x")
      case True
      with x have "x - 1 \<in> free_refs (rec u)" by simp
      with rec.prems(1) have "x - 1 < k" by blast
      then show ?thesis by simp
    qed (use rec.prems in simp)
  qed
  with rec show ?case by simp
next
  case (node n br)
  then have "map (\<lambda>b. lift_all b k) br = map (\<lambda>b. b) br" by (intro map_cong) auto
  with node show ?case by simp
qed simp

lemma liftn_eq_lift_all: "db_wf t \<Longrightarrow> 0 < k \<Longrightarrow> liftn t k = lift_all t k"
proof (induction arbitrary: k rule: db_induct)
  case (rec u)
  show ?case
  proof (cases "isClosed (rec u)")
    case True
    then have "free_refs (rec u) = {}" using rec.hyps isClosed_iff [of "rec u"] by simp
    then have "lift_all (rec u) k = rec u" using rec by (intro lift_all_id) (simp_all only: db_rec_simps ball_empty)
    then show ?thesis by (simp only: liftn_closed [OF True])
  qed (use rec in \<open>simp add: liftn_simps\<close>)
next
  case (node n br)
  then show ?case
    using lift_all_id [of "Tree n br" k] isClosed_iff [of "Tree n br"] by (auto simp: liftn_simps)
qed (auto simp: liftn_simps)

lemma substitute_skip: "aperture t < l \<Longrightarrow> substitute t l d = t"
  by (subst substitute.simps) simp

lemma substitute_simps:
  "substitute (ref n) l d = (if n = l then d else ref n)"
  "substitute (rec u) l d = (if aperture u < l + 1 then rec u else rec (substitute u (l + 1) d))"
  "nd \<noteq> NSym (KTree DEBRUIJNREF) \<Longrightarrow> nd \<noteq> NSym (KTree DEBRUIJN) \<Longrightarrow>
   substitute (Tree nd br) l d = (if aperture (Tree nd br) < l then Tree nd br
      else Tree nd (map (\<lambda>b. substitute b l d) br))"
  by (auto simp add: substitute.simps [of "ref n"] substitute.simps [of "rec u"] substitute.simps [of "Tree nd br"])

lemma free_refs_skip: "db_wf t \<Longrightarrow> aperture t < l \<Longrightarrow> free_refs t - {l} = free_refs t"
  using free_refs_le [of t l] by auto

lemma substitute_free_refs_gen:
  assumes "db_wf t" "0 < l" "free_refs d = {}"
  shows "free_refs (substitute t l d) = free_refs t - {l}"
  using assms(1,2)
proof (induction arbitrary: l rule: db_induct)
  case (ref n)
  then show ?case using assms(3) by (auto simp: substitute_simps)
next
  case (rec u)
  then show ?case using free_refs_skip [of u "l + 1"] by (auto simp: substitute_simps)
next
  case (node n br)
  show ?case
  proof (cases "aperture (Tree n br) < l")
    case True
    with node free_refs_skip [of "Tree n br" l] show ?thesis by (simp add: substitute_skip)
  next
    case False
    with node show ?thesis by (auto simp: substitute_simps)
  qed
qed

lemma substitute_wf: "db_wf t \<Longrightarrow> db_wf d \<Longrightarrow> db_wf (substitute t l d)"
proof (induction arbitrary: l rule: db_induct)
  case (node n br)
  then show ?case by (auto simp: substitute_simps)
qed (auto simp: substitute_simps)

text \<open>
  Property C16 (\<^verbatim>\<open>recursive-tree.cpp\<close>, \<^verbatim>\<open>calcTreeAperture\<close>): the aperture computed at construction
  is exact.  It bounds every free de Bruijn reference, it is itself a free reference when it is
  positive, and so \<open>isClosed\<close> holds exactly of the trees without free references.
\<close>

theorem aperture_exact:
  assumes "db_wf t"
  shows "(\<forall>x \<in> free_refs t. x \<le> aperture t) \<and> (isOpen t \<longrightarrow> aperture t \<in> free_refs t)
    \<and> (isClosed t \<longleftrightarrow> free_refs t = {})"
  using aperture_bounds [OF assms] isClosed_iff [OF assms] by (auto simp: isOpen_def)

theorem aperture_exact_witness:
  "db_wf (rec (ref 2)) \<and> isOpen (rec (ref 2)) \<and> aperture (rec (ref 2)) \<in> free_refs (rec (ref 2))"
proof -
  have "db_wf (rec (ref 2))" "isOpen (rec (ref 2))" by (simp_all add: isOpen_def)
  with aperture_exact [of "rec (ref 2)"] show ?thesis by blast
qed

text \<open>
  Property C14 (\<^verbatim>\<open>recursive-tree.cpp\<close>, \<^verbatim>\<open>liftn\<close>): lifting, which stops at closed subtrees, gives the
  tree of the full traversal \<open>lift_all\<close>, and it adds one to exactly the free references at or
  above the threshold.
\<close>

theorem liftn_correct:
  assumes "db_wf t" and "0 < k"
  shows "liftn t k = lift_all t k \<and>
         free_refs (liftn t k) = (\<lambda>x. if x < k then x else x + 1) ` free_refs t"
  using assms by (simp add: liftn_eq_lift_all [symmetric] liftn_free_refs_gen)

theorem liftn_correct_witness:
  "free_refs (liftn (rec (ref 2)) 1) = (\<lambda>x. if x < 1 then x else x + 1) ` free_refs (rec (ref 2))"
proof -
  have "db_wf (rec (ref 2))" "0 < (1::int)" by simp_all
  from liftn_correct [OF this] show ?thesis by blast
qed

text \<open>
  Property C15 (\<^verbatim>\<open>recursive-tree.cpp\<close>, \<^verbatim>\<open>substitute\<close>): replacing a level by a closed tree removes
  exactly that reference; hence the body of a closed recursive tree becomes closed when its
  bound reference is replaced, which is what the assertion of \<^verbatim>\<open>deBruijn2Sym\<close> on the recursive
  call demands.
\<close>

theorem substitute_correct:
  assumes "db_wf t" and "0 < l" and "db_wf d" and "isClosed d"
  shows "free_refs (substitute t l d) = free_refs t - {l} \<and>
         (isClosed (rec t) \<longrightarrow> isClosed (substitute t 1 d))"
proof (intro conjI impI)
  have d: "free_refs d = {}" using assms isClosed_iff by blast
  then show "free_refs (substitute t l d) = free_refs t - {l}"
    using assms by (simp add: substitute_free_refs_gen)
  assume "isClosed (rec t)"
  then have "{x. 0 < x \<and> x + 1 \<in> free_refs t} = {}" using assms(1) isClosed_iff [of "rec t"] by simp
  then have "x \<in> free_refs t \<Longrightarrow> \<not> 0 < x - 1" for x
    by (metis (mono_tags, lifting) diff_add_cancel empty_iff mem_Collect_eq)
  then have "free_refs t \<subseteq> {1}" using free_refs_pos [OF assms(1)] by force
  then have "free_refs (substitute t 1 d) = {}" using assms(1) d by (auto simp: substitute_free_refs_gen)
  then show "isClosed (substitute t 1 d)" using assms isClosed_iff substitute_wf by blast
qed

theorem substitute_correct_witness:
  "isClosed (rec (ref 1)) \<and> isClosed (substitute (ref 1) 1 (leaf (NInt 5)))"
proof -
  have "db_wf (leaf (NInt 5))" "isClosed (leaf (NInt 5))" "isClosed (rec (ref 1))" "db_wf (ref 1)"
    by (simp_all add: leaf_def isClosed_def)
  with substitute_correct [of "ref 1" 1 "leaf (NInt 5)"] show ?thesis by simp
qed

end
