(* ===== verification/HashCons.thy ===== *)
theory HashCons
  imports Trees "HOL-Library.Word"
begin

text \<open>
  Hash consing (\<^verbatim>\<open>tlib/tree.cpp\<close>, class \<^verbatim>\<open>CTree\<close>): the store of tree cells, the hash table of
  bucket chains, and \<^verbatim>\<open>CTree::make\<close>.

  A store maps addresses to cells; \<open>nextAddr\<close> is the next address the allocator gives out
  (trees are never freed while the compiler runs).  The value \<open>type() ^ getInt()\<close> that starts
  the hash of a node depends on symbol addresses and on the bits of doubles; it is the
  parameter \<open>nk\<close>, and no result depends on it.  The walk along a bucket takes a fuel argument;
  \<open>nextAddr + 1\<close> is enough because the links of a chain go to older cells, and \<open>make\<close> is shown
  to return whenever the branches are allocated.
\<close>

unbundle bit_operations_syntax

type_synonym addr = nat

record cell =
  fNode :: node
  fBranch :: "addr list"
  fHashKey :: "32 word"
  fNext :: "addr option"
  fAperture :: int
  fProperties :: "addr \<rightharpoonup> addr"
  fVisitTime :: "32 word"

record store =
  gHashTable :: "nat \<Rightarrow> addr option"
  cells :: "addr \<rightharpoonup> cell"
  nextAddr :: addr
  gVisitTime :: "32 word"

section \<open>Operations\<close>

definition kHashTableSize :: nat where
  "kHashTableSize = 2000000"

definition init :: store where
  "init = \<lparr>gHashTable = (\<lambda>_. None), cells = (\<lambda>_. None), nextAddr = 0, gVisitTime = 0\<rparr>"

definition hash_of :: "store \<Rightarrow> addr \<Rightarrow> 32 word" where
  "hash_of st b = (case cells st b of None \<Rightarrow> 0 | Some c \<Rightarrow> fHashKey c)"

definition aperture_of :: "store \<Rightarrow> addr \<Rightarrow> int" where
  "aperture_of st b = (case cells st b of None \<Rightarrow> 0 | Some c \<Rightarrow> fAperture c)"

definition node_of :: "store \<Rightarrow> addr \<Rightarrow> node option" where
  "node_of st b = map_option fNode (cells st b)"

definition equivTree :: "cell \<Rightarrow> node \<Rightarrow> addr list \<Rightarrow> bool" where
  "equivTree c n br \<longleftrightarrow> fNode c = n \<and> fBranch c = br"

definition calcTreeHash :: "(node \<Rightarrow> 32 word) \<Rightarrow> store \<Rightarrow> node \<Rightarrow> addr list \<Rightarrow> 32 word" where
  "calcTreeHash nk st n br =
     fold (\<lambda>b hk. push_bit 1 hk XOR drop_bit 20 hk XOR hash_of st b) br (nk n)"

definition calcTreeAperture :: "store \<Rightarrow> node \<Rightarrow> addr list \<Rightarrow> int" where
  "calcTreeAperture st n br =
     (if n = NSym (KTree DEBRUIJNREF)
      then (case br of b # _ \<Rightarrow> (case node_of st b of Some (NInt x) \<Rightarrow> x | _ \<Rightarrow> 0) | [] \<Rightarrow> 0)
      else if n = NSym (KTree DEBRUIJN)
      then (case br of b # _ \<Rightarrow> aperture_of st b - 1 | [] \<Rightarrow> 0)
      else fold (\<lambda>b rc. if rc < aperture_of st b then aperture_of st b else rc) br 0)"

definition bucket :: "32 word \<Rightarrow> nat" where
  "bucket hk = unat hk mod kHashTableSize"

definition newCTree :: "store \<Rightarrow> 32 word \<Rightarrow> node \<Rightarrow> addr list \<Rightarrow> addr \<times> store" where
  "newCTree st hk n br =
     (let a = nextAddr st; j = bucket hk;
          c = \<lparr>fNode = n, fBranch = br, fHashKey = hk, fNext = gHashTable st j,
               fAperture = calcTreeAperture st n br, fProperties = (\<lambda>_. None), fVisitTime = 0\<rparr>
      in (a, st\<lparr>cells := (cells st)(a \<mapsto> c), gHashTable := (gHashTable st)(j := Some a),
                nextAddr := Suc a\<rparr>))"

fun search :: "nat \<Rightarrow> store \<Rightarrow> node \<Rightarrow> addr list \<Rightarrow> addr option \<Rightarrow> addr option option" where
  "search 0 st n br t = None"
| "search (Suc fuel) st n br None = Some None"
| "search (Suc fuel) st n br (Some t) =
     (case cells st t of
        None \<Rightarrow> None
      | Some c \<Rightarrow> if equivTree c n br then Some (Some t) else search fuel st n br (fNext c))"

definition make :: "(node \<Rightarrow> 32 word) \<Rightarrow> store \<Rightarrow> node \<Rightarrow> addr list \<Rightarrow> (addr \<times> store) result" where
  "make nk st n br =
     (let hk = calcTreeHash nk st n br
      in case search (Suc (nextAddr st)) st n br (gHashTable st (bucket hk)) of
           None \<Rightarrow> Inl (Undefined ''hash table'')
         | Some (Some t) \<Rightarrow> Inr (t, st)
         | Some None \<Rightarrow> Inr (newCTree st hk n br))"

definition update_cell :: "store \<Rightarrow> addr \<Rightarrow> (cell \<Rightarrow> cell) \<Rightarrow> store" where
  "update_cell st a f =
     (case cells st a of None \<Rightarrow> st | Some c \<Rightarrow> st\<lparr>cells := (cells st)(a \<mapsto> f c)\<rparr>)"

definition setProperty :: "store \<Rightarrow> addr \<Rightarrow> addr \<Rightarrow> addr \<Rightarrow> store" where
  "setProperty st t key v = update_cell st t (\<lambda>c. c\<lparr>fProperties := (fProperties c)(key \<mapsto> v)\<rparr>)"

definition clearProperty :: "store \<Rightarrow> addr \<Rightarrow> addr \<Rightarrow> store" where
  "clearProperty st t key = update_cell st t (\<lambda>c. c\<lparr>fProperties := (fProperties c)(key := None)\<rparr>)"

definition clearProperties :: "store \<Rightarrow> addr \<Rightarrow> store" where
  "clearProperties st t = update_cell st t (\<lambda>c. c\<lparr>fProperties := (\<lambda>_. None)\<rparr>)"

definition getProperty :: "store \<Rightarrow> addr \<Rightarrow> addr \<Rightarrow> addr option" where
  "getProperty st t key = Option.bind (cells st t) (\<lambda>c. fProperties c key)"

definition startNewVisit :: "store \<Rightarrow> store" where
  "startNewVisit st = st\<lparr>gVisitTime := gVisitTime st + 1\<rparr>"

definition isAlreadyVisited :: "store \<Rightarrow> addr \<Rightarrow> bool" where
  "isAlreadyVisited st t =
     (case cells st t of None \<Rightarrow> False | Some c \<Rightarrow> fVisitTime c = gVisitTime st)"

definition setVisited :: "store \<Rightarrow> addr \<Rightarrow> store" where
  "setVisited st t = update_cell st t (\<lambda>c. c\<lparr>fVisitTime := gVisitTime st\<rparr>)"

text \<open>The content an address stands for.\<close>

function tree_at :: "store \<Rightarrow> addr \<Rightarrow> tree" where
  "tree_at st a =
     (case cells st a of
        None \<Rightarrow> leaf (NInt 0)
      | Some c \<Rightarrow> Tree (fNode c)
          (map (\<lambda>b. if b < a then tree_at st b else leaf (NInt 0)) (fBranch c)))"
  by pat_completeness auto
termination
  by (relation "measure (\<lambda>(st, a). a)") (auto split: if_splits)

declare tree_at.simps [simp del]

section \<open>The invariant of the store\<close>

inductive reach :: "store \<Rightarrow> addr option \<Rightarrow> addr \<Rightarrow> bool" for st where
  here: "cells st a = Some c \<Longrightarrow> reach st (Some a) a"
| further: "cells st a = Some c \<Longrightarrow> reach st (fNext c) b \<Longrightarrow> reach st (Some a) b"

inductive_cases reach_NoneE: "reach st None a"
inductive_cases reach_SomeE: "reach st (Some a) b"

definition cell_ok :: "(node \<Rightarrow> 32 word) \<Rightarrow> store \<Rightarrow> addr \<Rightarrow> cell \<Rightarrow> bool" where
  "cell_ok nk st a c \<longleftrightarrow>
     (\<forall>b \<in> set (fBranch c). b < a) \<and>
     fHashKey c = calcTreeHash nk st (fNode c) (fBranch c) \<and>
     fAperture c = calcTreeAperture st (fNode c) (fBranch c) \<and>
     (\<forall>b. fNext c = Some b \<longrightarrow> b < a) \<and>
     reach st (gHashTable st (bucket (fHashKey c))) a"

definition hc_inv :: "(node \<Rightarrow> 32 word) \<Rightarrow> store \<Rightarrow> bool" where
  "hc_inv nk st \<longleftrightarrow>
     (\<forall>a. cells st a \<noteq> None \<longleftrightarrow> a < nextAddr st) \<and>
     (\<forall>j b. gHashTable st j = Some b \<longrightarrow> b < nextAddr st) \<and>
     (\<forall>a c. cells st a = Some c \<longrightarrow> cell_ok nk st a c) \<and>
     (\<forall>a b c d. cells st a = Some c \<longrightarrow> cells st b = Some d \<longrightarrow>
        fNode c = fNode d \<longrightarrow> fBranch c = fBranch d \<longrightarrow> a = b)"

lemma hc_inv_alloc: "hc_inv nk st \<Longrightarrow> a < nextAddr st \<longleftrightarrow> (\<exists>c. cells st a = Some c)"
  by (auto simp: hc_inv_def)

lemma hc_inv_cell: "hc_inv nk st \<Longrightarrow> cells st a = Some c \<Longrightarrow> cell_ok nk st a c"
  by (simp add: hc_inv_def)

lemma hc_inv_head: "hc_inv nk st \<Longrightarrow> gHashTable st j = Some b \<Longrightarrow> b < nextAddr st"
  by (auto simp: hc_inv_def)

lemma hc_inv_unique:
  "hc_inv nk st \<Longrightarrow> cells st a = Some c \<Longrightarrow> cells st b = Some d \<Longrightarrow> fNode c = fNode d \<Longrightarrow>
   fBranch c = fBranch d \<Longrightarrow> a = b"
  unfolding hc_inv_def by blast

lemma hc_inv_init: "hc_inv nk init"
  by (simp add: hc_inv_def init_def)

section \<open>Contents\<close>

lemma tree_at_cell:
  assumes "hc_inv nk st" "cells st a = Some c"
  shows "tree_at st a = Tree (fNode c) (map (tree_at st) (fBranch c))"
  using hc_inv_cell [OF assms] assms(2)
  by (subst tree_at.simps) (auto simp: cell_ok_def intro!: map_cong)

lemma tree_at_inj_aux:
  assumes inv: "hc_inv nk st"
  shows "cells st a = Some c \<Longrightarrow> cells st b = Some d \<Longrightarrow> tree_at st a = tree_at st b \<Longrightarrow> a = b"
proof (induction a arbitrary: b c d rule: less_induct)
  case (less a)
  from less.prems have eq: "fNode c = fNode d"
    and br: "map (tree_at st) (fBranch c) = map (tree_at st) (fBranch d)"
    using tree_at_cell [OF inv] by auto
  have alloc: "x < y \<Longrightarrow> cells st y = Some e \<Longrightarrow> \<exists>e'. cells st x = Some e'" for x y e
    using inv by (metis hc_inv_alloc less_trans)
  from br have "fBranch c = fBranch d"
  proof (rule list.inj_map_strong [rotated])
    fix x y
    assume "x \<in> set (fBranch c)" "y \<in> set (fBranch d)" and t: "tree_at st x = tree_at st y"
    with less.prems hc_inv_cell [OF inv] have "x < a" "y < b" by (auto simp: cell_ok_def)
    with less.prems alloc obtain e f where "cells st x = Some e" "cells st y = Some f" by metis
    with t \<open>x < a\<close> less.IH show "x = y" by blast
  qed
  with eq less.prems inv show ?case by (intro hc_inv_unique)
qed

section \<open>Searching a bucket\<close>

lemma search_spec:
  assumes inv: "hc_inv nk st"
  shows "(\<And>a. t = Some a \<Longrightarrow> a < nextAddr st \<and> a < fuel) \<Longrightarrow>
    (\<exists>r. search (Suc fuel) st n br t = Some r \<and>
      (case r of
         Some a \<Rightarrow> (\<exists>c. cells st a = Some c \<and> equivTree c n br)
       | None \<Rightarrow> (\<forall>a c. reach st t a \<longrightarrow> cells st a = Some c \<longrightarrow> \<not> equivTree c n br)))"
proof (induction fuel arbitrary: t)
  case 0
  then have "t = None" by (cases t) auto
  then show ?case by (auto elim: reach_NoneE)
next
  case (Suc fuel)
  show ?case
  proof (cases t)
    case None
    then show ?thesis by (auto elim: reach_NoneE)
  next
    case (Some a)
    with Suc.prems inv obtain c where c: "cells st a = Some c" by (metis hc_inv_alloc)
    show ?thesis
    proof (cases "equivTree c n br")
      case True
      with Some c show ?thesis by auto
    next
      case False
      have "b < nextAddr st \<and> b < fuel" if "fNext c = Some b" for b
        using that hc_inv_cell [OF inv c] Suc.prems Some by (auto simp: cell_ok_def)
      from Suc.IH [OF this] obtain r where "search (Suc fuel) st n br (fNext c) = Some r"
        "case r of Some a \<Rightarrow> (\<exists>c. cells st a = Some c \<and> equivTree c n br)
         | None \<Rightarrow> (\<forall>a c'. reach st (fNext c) a \<longrightarrow> cells st a = Some c' \<longrightarrow> \<not> equivTree c' n br)"
        by blast
      with Some c False show ?thesis
        by (cases r) (auto elim!: reach_SomeE)
    qed
  qed
qed

section \<open>Allocating a cell\<close>

definition extends :: "store \<Rightarrow> store \<Rightarrow> bool" where
  "extends st st' \<longleftrightarrow> (\<forall>a c. cells st a = Some c \<longrightarrow> cells st' a = Some c)"

lemma extends_hash:
  assumes "extends st st'" "\<And>b. b \<in> set br \<Longrightarrow> cells st b \<noteq> None"
  shows "calcTreeHash nk st' n br = calcTreeHash nk st n br"
proof -
  have "hash_of st' b = hash_of st b" if "b \<in> set br" for b
    using assms(1) assms(2) [OF that] by (force simp: hash_of_def extends_def)
  then show ?thesis unfolding calcTreeHash_def by (intro fold_cong) auto
qed

lemma extends_aperture:
  assumes "extends st st'" "\<And>b. b \<in> set br \<Longrightarrow> cells st b \<noteq> None"
  shows "calcTreeAperture st' n br = calcTreeAperture st n br"
proof -
  have "aperture_of st' b = aperture_of st b \<and> node_of st' b = node_of st b" if "b \<in> set br" for b
    using assms(1) assms(2) [OF that] by (force simp: aperture_of_def node_of_def extends_def)
  then show ?thesis unfolding calcTreeAperture_def
    by (auto intro!: fold_cong split: list.splits)
qed

lemma extends_reach: "reach st t a \<Longrightarrow> extends st st' \<Longrightarrow> reach st' t a"
  by (induction rule: reach.induct) (auto simp: extends_def intro: reach.intros)

lemma extends_tree_at:
  assumes "hc_inv nk st" "extends st st'"
  shows "a < nextAddr st \<Longrightarrow> tree_at st' a = tree_at st a"
proof (induction a rule: less_induct)
  case (less a)
  then obtain c where c: "cells st a = Some c" using assms(1) by (auto simp: hc_inv_alloc)
  then have c': "cells st' a = Some c" using assms(2) by (simp add: extends_def)
  from hc_inv_cell [OF assms(1) c] have "\<forall>b \<in> set (fBranch c). b < a" by (simp add: cell_ok_def)
  then show ?case using less
    by (auto simp: tree_at.simps [of st' a] tree_at.simps [of st a] c c' intro!: map_cong)
qed

lemma newCTree_inv:
  assumes inv: "hc_inv nk st" and br: "\<And>b. b \<in> set br \<Longrightarrow> b < nextAddr st"
    and fresh: "\<And>a c. cells st a = Some c \<Longrightarrow> \<not> equivTree c n br"
    and new: "newCTree st (calcTreeHash nk st n br) n br = (a, st')"
  shows "hc_inv nk st' \<and> extends st st' \<and> a = nextAddr st \<and> nextAddr st' = Suc a \<and>
         (\<exists>c. cells st' a = Some c \<and> equivTree c n br)"
proof -
  define hk where "hk = calcTreeHash nk st n br"
  define c where "c = \<lparr>fNode = n, fBranch = br, fHashKey = hk, fNext = gHashTable st (bucket hk),
     fAperture = calcTreeAperture st n br, fProperties = (\<lambda>_. None), fVisitTime = 0\<rparr>"
  have a: "a = nextAddr st"
    and st': "st' = st\<lparr>cells := (cells st)(a \<mapsto> c),
        gHashTable := (gHashTable st)(bucket hk := Some a), nextAddr := Suc a\<rparr>"
    using new by (auto simp: newCTree_def Let_def hk_def c_def)
  have none: "cells st a = None" using inv a by (metis hc_inv_alloc less_irrefl not_Some_eq)
  have ext: "extends st st'" using none by (auto simp: extends_def st')
  have alloc: "cells st b \<noteq> None" if "b < a" for b using inv a that by (auto simp: hc_inv_alloc)
  have new_ok: "cell_ok nk st' a c"
    using inv br a ext alloc
    by (auto simp: cell_ok_def c_def hk_def extends_hash extends_aperture st' hc_inv_head
        intro!: reach.here)
  have old_ok: "cell_ok nk st' b d" if "cells st b = Some d" for b d
  proof -
    have ok: "cell_ok nk st b d" using inv that by (rule hc_inv_cell)
    have "b < a" using inv a that by (auto simp: hc_inv_alloc)
    then have "\<And>x. x \<in> set (fBranch d) \<Longrightarrow> cells st x \<noteq> None"
      using ok alloc by (force simp: cell_ok_def)
    moreover have "reach st' (gHashTable st' (bucket (fHashKey d))) b"
    proof (cases "bucket (fHashKey d) = bucket hk")
      case True
      have "reach st' (fNext c) b"
        using ok ext True extends_reach by (auto simp: cell_ok_def c_def)
      then show ?thesis using True by (auto simp: st' intro: reach.further)
    next
      case False
      then show ?thesis using ok ext extends_reach by (auto simp: cell_ok_def st')
    qed
    ultimately show ?thesis using ok ext
      by (simp add: cell_ok_def extends_hash extends_aperture)
  qed
  have "hc_inv nk st'"
    unfolding hc_inv_def
  proof (intro conjI allI impI)
    fix x show "cells st' x \<noteq> None \<longleftrightarrow> x < nextAddr st'"
      using hc_inv_alloc [OF inv, of x] by (auto simp: st' a)
  next
    fix j b assume "gHashTable st' j = Some b"
    then show "b < nextAddr st'" using hc_inv_head [OF inv, of j b] by (auto simp: st' a split: if_splits)
  next
    fix x d assume "cells st' x = Some d"
    then show "cell_ok nk st' x d" using new_ok old_ok by (auto simp: st' split: if_splits)
  next
    fix x y d e
    assume *: "cells st' x = Some d" "cells st' y = Some e" "fNode d = fNode e" "fBranch d = fBranch e"
    then show "x = y" using hc_inv_unique [OF inv, of x d y e] fresh [of x d] fresh [of y e]
      by (auto simp: st' c_def equivTree_def split: if_splits)
  qed
  then show ?thesis using ext a by (auto simp: st' c_def equivTree_def)
qed

lemma make_spec:
  assumes inv: "hc_inv nk st" and br: "\<And>b. b \<in> set br \<Longrightarrow> b < nextAddr st"
  obtains a st' c where "make nk st n br = Inr (a, st')" "hc_inv nk st'" "extends st st'"
    "nextAddr st \<le> nextAddr st'" "cells st' a = Some c" "equivTree c n br"
proof -
  define hk where "hk = calcTreeHash nk st n br"
  let ?t = "gHashTable st (bucket hk)"
  have "b < nextAddr st \<and> b < nextAddr st" if "?t = Some b" for b using hc_inv_head [OF inv that] by simp
  from search_spec [OF inv this, where n = n and br = br] obtain r where
    r: "search (Suc (nextAddr st)) st n br ?t = Some r" and
    spec: "case r of Some a \<Rightarrow> (\<exists>c. cells st a = Some c \<and> equivTree c n br)
      | None \<Rightarrow> (\<forall>a c. reach st ?t a \<longrightarrow> cells st a = Some c \<longrightarrow> \<not> equivTree c n br)" by blast
  show thesis
  proof (cases r)
    case (Some a)
    with spec obtain c where "cells st a = Some c" "equivTree c n br" by auto
    with Some r inv show thesis
      by (intro that [of a st c]) (auto simp: make_def hk_def extends_def)
  next
    case None
    have "\<not> equivTree c n br" if "cells st a = Some c" for a c
      using None spec that hc_inv_cell [OF inv that] by (auto simp: cell_ok_def equivTree_def hk_def)
    moreover obtain a st' where "newCTree st hk n br = (a, st')" by force
    ultimately show thesis
      using newCTree_inv [OF inv br, where n = n and a = a and st' = st'] r None that [of a st']
      by (auto simp: make_def hk_def)
  qed
qed

section \<open>Annotations do not change contents\<close>

definition same_core :: "cell \<Rightarrow> cell \<Rightarrow> bool" where
  "same_core c d \<longleftrightarrow> fNode c = fNode d \<and> fBranch c = fBranch d \<and> fHashKey c = fHashKey d \<and>
     fNext c = fNext d \<and> fAperture c = fAperture d"

definition annotates :: "store \<Rightarrow> store \<Rightarrow> bool" where
  "annotates st st' \<longleftrightarrow> gHashTable st' = gHashTable st \<and> nextAddr st' = nextAddr st \<and>
     (\<forall>a. rel_option same_core (cells st a) (cells st' a))"

lemma annotates_cell:
  assumes "annotates st st'"
  shows "cells st' a = Some d \<Longrightarrow> \<exists>c. cells st a = Some c \<and> same_core c d"
    and "cells st a = Some c \<Longrightarrow> \<exists>d. cells st' a = Some d \<and> same_core c d"
    and "cells st a = None \<longleftrightarrow> cells st' a = None"
proof -
  from assms have "rel_option same_core (cells st a) (cells st' a)" by (simp add: annotates_def)
  then show "cells st' a = Some d \<Longrightarrow> \<exists>c. cells st a = Some c \<and> same_core c d"
    and "cells st a = Some c \<Longrightarrow> \<exists>d. cells st' a = Some d \<and> same_core c d"
    and "cells st a = None \<longleftrightarrow> cells st' a = None"
    by (cases "cells st a"; cases "cells st' a"; simp)+
qed

lemma annotates_fields:
  assumes "annotates st st'"
  shows "hash_of st' = hash_of st" "aperture_of st' = aperture_of st" "node_of st' = node_of st"
proof -
  have "hash_of st' b = hash_of st b \<and> aperture_of st' b = aperture_of st b \<and> node_of st' b = node_of st b"
    for b
  proof -
    from assms have "rel_option same_core (cells st b) (cells st' b)" by (simp add: annotates_def)
    then show ?thesis
      by (cases rule: option.rel_cases) (simp_all add: hash_of_def aperture_of_def node_of_def same_core_def)
  qed
  then show "hash_of st' = hash_of st" "aperture_of st' = aperture_of st" "node_of st' = node_of st"
    by auto
qed

lemma annotates_reach: "reach st t a \<Longrightarrow> annotates st st' \<Longrightarrow> reach st' t a"
proof (induction rule: reach.induct)
  case (here a c)
  then show ?case using annotates_cell(2) [OF here(2) here(1)] by (auto intro: reach.here)
next
  case (further a c b)
  then obtain d where "cells st' a = Some d" "fNext d = fNext c"
    using annotates_cell(2) [OF further(4) further(1)] by (auto simp: same_core_def)
  with further show ?case by (metis reach.further)
qed

lemma annotates_inv:
  assumes inv: "hc_inv nk st" and ann: "annotates st st'"
  shows "hc_inv nk st'"
  unfolding hc_inv_def
proof (intro conjI allI impI)
  fix a show "cells st' a \<noteq> None \<longleftrightarrow> a < nextAddr st'"
    using hc_inv_alloc [OF inv, of a] annotates_cell(3) [OF ann, of a] ann
    by (auto simp: annotates_def)
next
  fix j b assume "gHashTable st' j = Some b"
  then show "b < nextAddr st'" using hc_inv_head [OF inv] ann by (auto simp: annotates_def)
next
  fix a d assume "cells st' a = Some d"
  then obtain c where c: "cells st a = Some c" "same_core c d" using annotates_cell(1) [OF ann] by blast
  have "calcTreeHash nk st' n br = calcTreeHash nk st n br" for n br
    unfolding calcTreeHash_def annotates_fields [OF ann] ..
  moreover have "calcTreeAperture st' n br = calcTreeAperture st n br" for n br
    unfolding calcTreeAperture_def annotates_fields [OF ann] ..
  moreover have "gHashTable st' = gHashTable st" using ann by (simp add: annotates_def)
  ultimately show "cell_ok nk st' a d"
    using hc_inv_cell [OF inv c(1)] c(2) annotates_reach [OF _ ann]
    by (auto simp: cell_ok_def same_core_def)
next
  fix a b c d
  assume *: "cells st' a = Some c" "cells st' b = Some d" "fNode c = fNode d" "fBranch c = fBranch d"
  from annotates_cell(1) [OF ann *(1)] annotates_cell(1) [OF ann *(2)]
  obtain c' d' where "cells st a = Some c'" "cells st b = Some d'" "fNode c' = fNode d'"
    "fBranch c' = fBranch d'" using *(3,4) by (auto simp: same_core_def)
  then show "a = b" by (rule hc_inv_unique [OF inv])
qed

lemma annotates_tree_at:
  assumes "hc_inv nk st" "annotates st st'"
  shows "tree_at st' a = tree_at st a"
proof (induction a rule: less_induct)
  case (less a)
  from assms(2) have "rel_option same_core (cells st a) (cells st' a)" by (simp add: annotates_def)
  then show ?case
    using less by (cases rule: option.rel_cases)
      (auto simp: tree_at.simps [of st' a] tree_at.simps [of st a] same_core_def intro!: map_cong)
qed

lemma update_cell_annotates:
  "(\<And>c. same_core c (f c)) \<Longrightarrow> annotates st (update_cell st a f)"
  by (auto simp: annotates_def update_cell_def same_core_def rel_option_iff split: option.splits)

lemma annotation_ops:
  "annotates st (setProperty st t k v)" "annotates st (clearProperty st t k)"
  "annotates st (clearProperties st t)" "annotates st (startNewVisit st)"
  "annotates st (setVisited st t)"
  by (auto simp: setProperty_def clearProperty_def clearProperties_def setVisited_def same_core_def
      intro!: update_cell_annotates)
    (auto simp: startNewVisit_def annotates_def same_core_def rel_option_iff split: option.splits)

section \<open>The interface of a store of shared trees\<close>

text \<open>
  What the rest of the compiler relies on: \<open>mk\<close> returns a cell with the asked content, keeps
  the content of every other cell, and equal contents have equal addresses.
\<close>

locale tree_store =
  fixes inv :: "'s \<Rightarrow> bool"
    and alloc :: "'s \<Rightarrow> 'a \<Rightarrow> bool"
    and content :: "'s \<Rightarrow> 'a \<Rightarrow> tree"
    and mk :: "'s \<Rightarrow> node \<Rightarrow> 'a list \<Rightarrow> ('a \<times> 's) result"
  assumes mk_returns: "inv s \<Longrightarrow> \<forall>b \<in> set br. alloc s b \<Longrightarrow> \<exists>a s'. mk s n br = Inr (a, s')"
    and mk_inv: "inv s \<Longrightarrow> \<forall>b \<in> set br. alloc s b \<Longrightarrow> mk s n br = Inr (a, s') \<Longrightarrow> inv s'"
    and mk_content: "inv s \<Longrightarrow> \<forall>b \<in> set br. alloc s b \<Longrightarrow> mk s n br = Inr (a, s') \<Longrightarrow>
      alloc s' a \<and> content s' a = Tree n (map (content s) br)"
    and mk_frame: "inv s \<Longrightarrow> \<forall>b \<in> set br. alloc s b \<Longrightarrow> mk s n br = Inr (a, s') \<Longrightarrow> alloc s b' \<Longrightarrow>
      alloc s' b' \<and> content s' b' = content s b'"
    and content_inj: "inv s \<Longrightarrow> alloc s a \<Longrightarrow> alloc s b \<Longrightarrow> content s a = content s b \<Longrightarrow> a = b"
begin

lemma mk_shares:
  assumes "inv s" "\<forall>b \<in> set br. alloc s b" "mk s n br = Inr (a, s')"
    and "alloc s x" "content s x = Tree n (map (content s) br)"
  shows "a = x"
proof -
  have "alloc s' a" "content s' a = Tree n (map (content s) br)"
    using mk_content [OF assms(1-3)] by auto
  moreover have "alloc s' x" "content s' x = content s x"
    using mk_frame [OF assms(1-3) assms(4)] by auto
  ultimately show ?thesis
    using content_inj [OF mk_inv [OF assms(1-3)]] assms(5) by metis
qed

lemma mk_idempotent:
  assumes "inv s" "\<forall>b \<in> set br. alloc s b" "mk s n br = Inr (a, s')" "mk s' n br = Inr (a', s'')"
  shows "a' = a"
proof -
  have br: "\<forall>b \<in> set br. alloc s' b" and c: "map (content s') br = map (content s) br"
    using mk_frame [OF assms(1-3)] assms(2) by auto
  show ?thesis
    using mk_shares [OF mk_inv [OF assms(1-3)] br assms(4)] mk_content [OF assms(1-3)] c by metis
qed

lemma pointer_equality: "inv s \<Longrightarrow> alloc s a \<Longrightarrow> alloc s b \<Longrightarrow> a = b \<longleftrightarrow> content s a = content s b"
  using content_inj by blast

end

lemma make_outcome:
  assumes "hc_inv nk s" "\<forall>b \<in> set br. b < nextAddr s" "make nk s n br = Inr (a, s')"
  shows "hc_inv nk s'" "a < nextAddr s'" "tree_at s' a = Tree n (map (tree_at s) br)"
    "b' < nextAddr s \<Longrightarrow> b' < nextAddr s' \<and> tree_at s' b' = tree_at s b'"
proof -
  obtain c where c: "hc_inv nk s'" "extends s s'" "nextAddr s \<le> nextAddr s'"
    "cells s' a = Some c" "equivTree c n br"
    using make_spec [OF assms(1), of br n] assms(2,3) by (metis Inr_inject prod.inject)
  show "hc_inv nk s'" by fact
  show "a < nextAddr s'" using c hc_inv_alloc by blast
  have "map (tree_at s') br = map (tree_at s) br"
    using assms(1,2) c(2) extends_tree_at by (intro map_cong) auto
  then show "tree_at s' a = Tree n (map (tree_at s) br)"
    using tree_at_cell [OF c(1) c(4)] c(5) by (simp add: equivTree_def)
  show "b' < nextAddr s \<Longrightarrow> b' < nextAddr s' \<and> tree_at s' b' = tree_at s b'"
    using c(3) extends_tree_at [OF assms(1) c(2)] by auto
qed

interpretation hc: tree_store "hc_inv nk" "\<lambda>st a. a < nextAddr st" tree_at "make nk" for nk
proof
  fix s br n
  assume "hc_inv nk s" "\<forall>b \<in> set br. b < nextAddr s"
  then show "\<exists>a s'. make nk s n br = Inr (a, s')" by (metis make_spec)
next
  fix s a b
  assume "hc_inv nk s" "a < nextAddr s" "b < nextAddr s" "tree_at s a = tree_at s b"
  then show "a = b" using tree_at_inj_aux by (metis hc_inv_alloc)
next
  fix s br n a s'
  assume *: "hc_inv nk s" "\<forall>b \<in> set br. b < nextAddr s" "make nk s n br = Inr (a, s')"
  show "hc_inv nk s'" by (rule make_outcome(1) [OF *])
  show "a < nextAddr s' \<and> tree_at s' a = Tree n (map (tree_at s) br)"
    using make_outcome(2,3) [OF *] by simp
  show "b' < nextAddr s' \<and> tree_at s' b' = tree_at s b'" if "b' < nextAddr s" for b'
    using make_outcome(4) [OF * that] .
qed

section \<open>Reachable stores\<close>

inductive store_step :: "(node \<Rightarrow> 32 word) \<Rightarrow> store \<Rightarrow> store \<Rightarrow> bool" for nk where
  mk: "\<forall>b \<in> set br. b < nextAddr st \<Longrightarrow> make nk st n br = Inr (a, st') \<Longrightarrow> store_step nk st st'"
| set_property: "store_step nk st (setProperty st t k v)"
| clear_property: "store_step nk st (clearProperty st t k)"
| clear_properties: "store_step nk st (clearProperties st t)"
| new_visit: "store_step nk st (startNewVisit st)"
| visited: "store_step nk st (setVisited st t)"

inductive reachable :: "(node \<Rightarrow> 32 word) \<Rightarrow> store \<Rightarrow> bool" for nk where
  start: "reachable nk init"
| step: "reachable nk st \<Longrightarrow> store_step nk st st' \<Longrightarrow> reachable nk st'"

lemma annotation_step:
  assumes "hc_inv nk st" "annotates st st'"
  shows "hc_inv nk st' \<and> (\<forall>a < nextAddr st. a < nextAddr st' \<and> tree_at st' a = tree_at st a)"
  using assms annotates_inv annotates_tree_at by (simp add: annotates_def)

lemma store_step_inv:
  assumes "store_step nk st st'" "hc_inv nk st"
  shows "hc_inv nk st' \<and> (\<forall>a < nextAddr st. a < nextAddr st' \<and> tree_at st' a = tree_at st a)"
  using assms
proof (induction rule: store_step.induct)
  case (mk br st n a st')
  then show ?case using make_outcome(1,4) [OF mk(3) mk(1,2)] by simp
qed (rule annotation_step, assumption, rule annotation_ops)+

lemma reachable_inv: "reachable nk st \<Longrightarrow> hc_inv nk st"
  by (induction rule: reachable.induct) (auto simp: hc_inv_init dest: store_step_inv)

text \<open>
  Property C8 (\<^verbatim>\<open>tree.cpp\<close>, the property stated in its header comment): in every store the
  compiler can reach, two addresses are equal if and only if the trees they stand for are equal.
  Comparing \<^verbatim>\<open>Tree\<close> pointers is comparing contents.
\<close>

theorem hash_consing_maximal_sharing:
  assumes "reachable nk st" and "p < nextAddr st" and "q < nextAddr st"
  shows "p \<noteq> q \<longleftrightarrow> tree_at st p \<noteq> tree_at st q"
  using hc.pointer_equality [OF reachable_inv [OF assms(1)] assms(2,3)] by blast

theorem hash_consing_maximal_sharing_witness:
  "\<exists>st. reachable (\<lambda>_. 0) st \<and> 1 < nextAddr st \<and> tree_at st 0 \<noteq> tree_at st 1"
proof -
  let ?nk = "\<lambda>_::node. 0 :: 32 word"
  obtain s1 where 1: "make ?nk init (NInt 1) [] = Inr (0, s1)" and n1: "nextAddr s1 = 1"
    by (simp add: make_def calcTreeHash_def init_def newCTree_def Let_def)
  have r1: "reachable ?nk s1"
    by (rule reachable.step [OF reachable.start]) (rule store_step.mk [OF _ 1], simp)
  have s1: "s1 = snd (newCTree init 0 (NInt 1) [])"
    using 1 by (auto simp: make_def calcTreeHash_def init_def)
  obtain s2 where 2: "make ?nk s1 (NInt 2) [] = Inr (1, s2)" and n2: "nextAddr s2 = 2"
    by (simp add: s1 make_def calcTreeHash_def init_def newCTree_def Let_def bucket_def equivTree_def
        numeral_2_eq_2)
  have r2: "reachable ?nk s2"
    by (rule reachable.step [OF r1]) (rule store_step.mk [OF _ 2], simp)
  then show ?thesis
    using hash_consing_maximal_sharing [of ?nk s2 0 1] n2 by (intro exI [of _ s2]) auto
qed

text \<open>
  Property C9 (\<^verbatim>\<open>tree.cpp\<close>, \<^verbatim>\<open>CTree::make\<close>): in a reachable store, \<open>make\<close> with allocated branches
  always returns (the walk of the bucket ends); the address it returns stands for the tree with
  that node and these branches, every other address keeps its tree, the new store is reachable,
  and asking for the same tree again gives the same address.
\<close>

theorem make_returns_shared_tree:
  assumes "reachable nk st" and "\<forall>b \<in> set br. b < nextAddr st"
  shows "\<exists>a st'. make nk st n br = Inr (a, st') \<and> reachable nk st' \<and> a < nextAddr st' \<and>
    tree_at st' a = Tree n (map (tree_at st) br) \<and>
    (\<forall>b < nextAddr st. tree_at st' b = tree_at st b) \<and>
    (\<exists>st''. make nk st' n br = Inr (a, st''))"
proof -
  note inv = reachable_inv [OF assms(1)]
  obtain a st' where m: "make nk st n br = Inr (a, st')" using hc.mk_returns [OF inv assms(2)] by blast
  have br': "\<forall>b \<in> set br. b < nextAddr st'" using make_outcome(4) [OF inv assms(2) m] assms(2) by blast
  obtain a' st'' where m': "make nk st' n br = Inr (a', st'')"
    using hc.mk_returns [OF make_outcome(1) [OF inv assms(2) m] br'] by blast
  moreover have "a' = a" using hc.mk_idempotent [OF inv assms(2) m m'] .
  ultimately show ?thesis
    using m make_outcome [OF inv assms(2) m] reachable.step [OF assms(1) store_step.mk [OF assms(2) m]]
    by blast
qed

theorem make_returns_shared_tree_witness:
  "\<exists>a st'. make (\<lambda>_. 0) init (NInt 4) [] = Inr (a, st') \<and> tree_at st' a = leaf (NInt 4)"
  using make_returns_shared_tree [OF reachable.start, of "[]" "\<lambda>_. 0" "NInt 4"] by (auto simp: leaf_def)

end
