(* ===== verification/Lists.thy ===== *)
theory Lists
  imports HashCons "HOL-Library.Countable"
begin

text \<open>
  Lists, sets, environments and memoised traversals on trees (\<^verbatim>\<open>tlib/list.cpp\<close>).

  A list is a tree made of \<^verbatim>\<open>CONS\<close> and \<^verbatim>\<open>NIL\<close> nodes; \<open>asList\<close> is the test \<^verbatim>\<open>isList\<close> together with
  the \<^verbatim>\<open>hd\<close> and \<^verbatim>\<open>tl\<close> the loops take after it.  Where the source takes \<^verbatim>\<open>hd\<close> or \<^verbatim>\<open>tl\<close> without a
  test the model returns \<open>Inl (Undefined _)\<close> on a tree with too few branches.

  Sets are lists ordered by the addresses of their elements.  The addresses the allocator gave
  are the parameter \<open>ad\<close>, injective because equal trees are shared (theory \<open>HashCons\<close>).

  \<open>tmap\<close> and \<open>subst\<close> store their result on each tree under a property key; the map from trees to
  the stored property of that key is the state these functions pass along.
\<close>

section \<open>Lists\<close>

definition nil :: tree where
  "nil = leaf (NSym (KTree NIL))"

definition cons :: "tree \<Rightarrow> tree \<Rightarrow> tree" where
  "cons a b = Tree (NSym (KTree CONS)) [a, b]"

definition isNil :: "tree \<Rightarrow> bool" where
  "isNil l \<longleftrightarrow> node l = NSym (KTree NIL) \<and> arity l = 0"

definition isList :: "tree \<Rightarrow> bool" where
  "isList l \<longleftrightarrow> node l = NSym (KTree CONS) \<and> arity l = 2"

definition hdT :: "tree \<Rightarrow> tree result" where
  "hdT l = branch l 0"

definition tlT :: "tree \<Rightarrow> tree result" where
  "tlT l = branch l 1"

definition asList :: "tree \<Rightarrow> (tree \<times> tree) option" where
  "asList l = (if isList l then Some (branches l ! 0, branches l ! 1) else None)"

lemma asList_Some: "asList l = Some (h, t) \<longleftrightarrow> l = cons h t"
  by (cases l) (auto simp: asList_def isList_def cons_def arity_def numeral_2_eq_2 length_Suc_conv)

lemma asList_size [termination_simp]: "asList l = Some (h, t) \<Longrightarrow> size t < size l \<and> size h < size l"
  by (simp add: asList_Some cons_def)

lemma asList_simps [simp]: "asList (cons h t) = Some (h, t)" "asList nil = None"
  by (simp_all add: asList_Some) (simp add: asList_def isList_def nil_def leaf_def)

lemma list_tests [simp]:
  "isNil nil" "\<not> isNil (cons a b)" "isList (cons a b)" "\<not> isList nil"
  "hdT (cons a b) = Inr a" "tlT (cons a b) = Inr b"
  by (simp_all add: isNil_def isList_def nil_def cons_def leaf_def arity_def hdT_def tlT_def branch_def)

lemma cons_inject [simp]: "cons a b = cons c d \<longleftrightarrow> a = c \<and> b = d" "cons a b \<noteq> nil" "nil \<noteq> cons a b"
  by (simp_all add: cons_def nil_def leaf_def)

lemma isNil_iff: "isNil l \<longleftrightarrow> l = nil"
  by (cases l) (auto simp: isNil_def nil_def leaf_def arity_def)

fun nthT :: "tree \<Rightarrow> int \<Rightarrow> tree" where
  "nthT l i = (case asList l of Some (h, t) \<Rightarrow> if i = 0 then h else nthT t (i - 1) | None \<Rightarrow> nil)"

lemma tlT_size [termination_simp]: "tlT l = Inr t \<Longrightarrow> size t < size l"
  using nth_mem [of 1 "branches l"] size_branch [of t l]
  by (auto simp: tlT_def branch_def arity_def split: if_splits)

fun replaceT :: "tree \<Rightarrow> int \<Rightarrow> tree \<Rightarrow> tree result" where
  "replaceT l i e =
     (if i = 0 then rbind (tlT l) (\<lambda>t. Inr (cons e t))
      else rbind (hdT l) (\<lambda>h. rbind (tlT l) (\<lambda>t.
             rbind (replaceT t (i - 1) e) (\<lambda>r. Inr (cons h r)))))"

fun lenT :: "tree \<Rightarrow> nat" where
  "lenT l = (case asList l of Some (h, t) \<Rightarrow> Suc (lenT t) | None \<Rightarrow> 0)"

fun rconcat :: "tree \<Rightarrow> tree \<Rightarrow> tree" where
  "rconcat l q = (case asList l of Some (h, t) \<Rightarrow> rconcat t (cons h q) | None \<Rightarrow> q)"

definition reverseT :: "tree \<Rightarrow> tree" where
  "reverseT l = rconcat l nil"

definition concatT :: "tree \<Rightarrow> tree \<Rightarrow> tree" where
  "concatT l q = rconcat (reverseT l) q"

fun lrange_loop :: "tree \<Rightarrow> int \<Rightarrow> nat \<Rightarrow> tree \<Rightarrow> tree" where
  "lrange_loop l c 0 r = r"
| "lrange_loop l c (Suc k) r = lrange_loop l (c - 1) k (cons (nthT l (c - 1)) r)"

definition lrange :: "tree \<Rightarrow> int \<Rightarrow> int \<Rightarrow> tree" where
  "lrange l i j = lrange_loop l j (nat (j - i)) nil"

function rmapT :: "(tree \<Rightarrow> tree) \<Rightarrow> tree \<Rightarrow> tree \<Rightarrow> tree" where
  "rmapT f l r = (case asList l of Some (h, t) \<Rightarrow> rmapT f t (cons (f h) r) | None \<Rightarrow> r)"
  by auto
termination by (relation "measure (\<lambda>(f, l, r). size l)") (auto dest: asList_size)

definition lmap :: "(tree \<Rightarrow> tree) \<Rightarrow> tree \<Rightarrow> tree" where
  "lmap f l = reverseT (rmapT f l nil)"

declare rmapT.simps [simp del]

lemma rmapT_cong [fundef_cong]:
  "l = l' \<Longrightarrow> r = r' \<Longrightarrow> (\<And>x. size x < size l' \<Longrightarrow> f x = g x) \<Longrightarrow> rmapT f l r = rmapT g l' r'"
proof (induction f l r arbitrary: l' r' rule: rmapT.induct)
  case (1 f l r)
  show ?case
  proof (cases "asList l")
    case None
    with "1.prems" show ?thesis by (simp add: rmapT.simps)
  next
    case (Some p)
    obtain h t where ht: "asList l = Some (h, t)" using Some by (cases p) auto
    with asList_size have "size h < size l" "size t < size l" by blast+
    with "1.IH" [OF ht refl refl] "1.prems" have "rmapT f t (cons (f h) r) = rmapT g t (cons (f h) r)"
      "f h = g h" by auto
    with ht "1.prems" show ?thesis by (subst (1 2) rmapT.simps) simp
  qed
qed

fun reverseall :: "tree \<Rightarrow> tree" where
  "reverseall l = (if isList l then rmapT reverseall l nil else l)"

declare nthT.simps [simp del] lenT.simps [simp del] rconcat.simps [simp del] replaceT.simps [simp del]
  reverseall.simps [simp del]

section \<open>Sets as ordered lists\<close>

type_synonym address = "tree \<Rightarrow> nat"

fun isElement :: "address \<Rightarrow> tree \<Rightarrow> tree \<Rightarrow> bool" where
  "isElement ad e l = (case asList l of
      Some (h, t) \<Rightarrow> if h = e then True else if ad e < ad h then False else isElement ad e t
    | None \<Rightarrow> False)"

fun addElement :: "address \<Rightarrow> tree \<Rightarrow> tree \<Rightarrow> tree" where
  "addElement ad e l = (case asList l of
      Some (h, t) \<Rightarrow> if ad e < ad h then cons e l else if e = h then l
        else cons h (addElement ad e t)
    | None \<Rightarrow> cons e nil)"

fun remElement :: "address \<Rightarrow> tree \<Rightarrow> tree \<Rightarrow> tree" where
  "remElement ad e l = (case asList l of
      Some (h, t) \<Rightarrow> if ad e < ad h then l else if e = h then t
        else cons h (remElement ad e t)
    | None \<Rightarrow> nil)"

definition singleton :: "tree \<Rightarrow> tree" where
  "singleton e = cons e nil"

fun list2set_loop :: "address \<Rightarrow> tree \<Rightarrow> tree \<Rightarrow> tree" where
  "list2set_loop ad l s =
     (case asList l of Some (h, t) \<Rightarrow> list2set_loop ad t (addElement ad h s) | None \<Rightarrow> s)"

definition list2set :: "address \<Rightarrow> tree \<Rightarrow> tree" where
  "list2set ad l = list2set_loop ad l nil"

function setUnion :: "address \<Rightarrow> tree \<Rightarrow> tree \<Rightarrow> tree result" where
  "setUnion ad A B =
     (if isNil A then Inr B else if isNil B then Inr A else
      rbind (hdT A) (\<lambda>a. rbind (hdT B) (\<lambda>b. rbind (tlT A) (\<lambda>A'. rbind (tlT B) (\<lambda>B'.
        if a = b then rbind (setUnion ad A' B') (\<lambda>r. Inr (cons a r))
        else if ad a < ad b then rbind (setUnion ad A' B) (\<lambda>r. Inr (cons a r))
        else rbind (setUnion ad A B') (\<lambda>r. Inr (cons b r)))))))"
  by auto
termination by (relation "measure (\<lambda>(ad, A, B). size A + size B)") (auto dest!: tlT_size)

function setIntersection :: "address \<Rightarrow> tree \<Rightarrow> tree \<Rightarrow> tree result" where
  "setIntersection ad A B =
     (if isNil A then Inr A else if isNil B then Inr B else
      rbind (hdT A) (\<lambda>a. rbind (hdT B) (\<lambda>b. rbind (tlT A) (\<lambda>A'. rbind (tlT B) (\<lambda>B'.
        if a = b then rbind (setIntersection ad A' B') (\<lambda>r. Inr (cons a r))
        else if ad a < ad b then setIntersection ad A' B
        else setIntersection ad A B')))))"
  by auto
termination by (relation "measure (\<lambda>(ad, A, B). size A + size B)") (auto dest!: tlT_size)

function setDifference :: "address \<Rightarrow> tree \<Rightarrow> tree \<Rightarrow> tree result" where
  "setDifference ad A B =
     (if isNil A then Inr A else if isNil B then Inr A else
      rbind (hdT A) (\<lambda>a. rbind (hdT B) (\<lambda>b. rbind (tlT A) (\<lambda>A'. rbind (tlT B) (\<lambda>B'.
        if a = b then setDifference ad A' B'
        else if ad a < ad b then rbind (setDifference ad A' B) (\<lambda>r. Inr (cons a r))
        else setDifference ad A B')))))"
  by auto
termination by (relation "measure (\<lambda>(ad, A, B). size A + size B)") (auto dest!: tlT_size)

declare isElement.simps [simp del] addElement.simps [simp del] remElement.simps [simp del]
  list2set_loop.simps [simp del] setUnion.simps [simp del] setIntersection.simps [simp del]
  setDifference.simps [simp del]

section \<open>Environments\<close>

definition pushEnv :: "tree \<Rightarrow> tree \<Rightarrow> tree \<Rightarrow> tree" where
  "pushEnv key v env = cons (cons key v) env"

fun searchEnv :: "tree \<Rightarrow> tree \<Rightarrow> tree option result" where
  "searchEnv key env = (case asList env of
      Some (h, t) \<Rightarrow> rbind (hdT h) (\<lambda>k. if k = key then rbind (tlT h) (\<lambda>v. Inr (Some v))
        else searchEnv key t)
    | None \<Rightarrow> Inr None)"

declare searchEnv.simps [simp del]

section \<open>Memoised traversals\<close>

type_synonym memo = "tree \<rightharpoonup> tree"

fun tmap :: "(tree \<Rightarrow> tree) \<Rightarrow> tree \<Rightarrow> memo \<Rightarrow> tree \<times> memo"
and tmap_branches :: "(tree \<Rightarrow> tree) \<Rightarrow> tree list \<Rightarrow> memo \<Rightarrow> tree list \<times> memo" where
  "tmap f (Tree n br) m =
     (case m (Tree n br) of
        Some p \<Rightarrow> (if isNil p then Tree n br else p, m)
      | None \<Rightarrow>
          (let (br', m1) = tmap_branches f br m; r1 = Tree n br'; r2 = f r1
           in (r2, m1(Tree n br \<mapsto> (if r2 = Tree n br then nil else r2)))))"
| "tmap_branches f [] m = ([], m)"
| "tmap_branches f (b # bs) m =
     (let (b', m1) = tmap f b m; (bs', m2) = tmap_branches f bs m1 in (b' # bs', m2))"

fun subst :: "tree \<Rightarrow> tree \<Rightarrow> tree \<Rightarrow> memo \<Rightarrow> tree \<times> memo"
and subst_branches :: "tree \<Rightarrow> tree \<Rightarrow> tree list \<Rightarrow> memo \<Rightarrow> tree list \<times> memo" where
  "subst ident v (Tree n br) m =
     (if Tree n br = ident then (v, m)
      else if br = [] then (Tree n br, m)
      else case m (Tree n br) of
        Some p \<Rightarrow> (if isNil p then Tree n br else p, m)
      | None \<Rightarrow>
          (let (br', m1) = subst_branches ident v br m; r = Tree n br'
           in (r, m1(Tree n br \<mapsto> (if r = Tree n br then nil else r)))))"
| "subst_branches ident v [] m = ([], m)"
| "subst_branches ident v (b # bs) m =
     (let (b', m1) = subst ident v b m; (bs', m2) = subst_branches ident v bs m1 in (b' # bs', m2))"

text \<open>The key of a substitution is created for it (\<^verbatim>\<open>unique\<close>), so no tree has the property yet.\<close>

definition substitute_id :: "tree \<Rightarrow> tree \<Rightarrow> tree \<Rightarrow> tree" where
  "substitute_id t ident v = fst (subst ident v t Map.empty)"

section \<open>Tree lists represent lists\<close>

definition list_tree :: "tree list \<Rightarrow> tree" where
  "list_tree xs = foldr cons xs nil"

lemma list_tree_simps [simp]: "list_tree [] = nil" "list_tree (x # xs) = cons x (list_tree xs)"
  by (simp_all add: list_tree_def)

lemma list_tree_inject [simp]: "list_tree xs = list_tree ys \<longleftrightarrow> xs = ys"
proof (induction xs arbitrary: ys)
  case Nil
  then show ?case by (cases ys) auto
next
  case (Cons x xs)
  then show ?case by (cases ys) auto
qed

lemma lenT_list_tree [simp]: "lenT (list_tree xs) = length xs"
  by (induction xs) (simp_all add: lenT.simps)

lemma nthT_list_tree:
  "nthT (list_tree xs) i = (if 0 \<le> i \<and> i < int (length xs) then xs ! nat i else nil)"
proof (induction xs arbitrary: i)
  case (Cons x xs)
  show ?case
  proof (cases "i = 0")
    case False
    have "nthT (list_tree (x # xs)) i = nthT (list_tree xs) (i - 1)"
      using False by (simp add: nthT.simps)
    then show ?thesis using False Cons.IH [of "i - 1"] by (auto simp: nth_Cons' nat_diff_distrib)
  qed (simp add: nthT.simps)
qed (auto simp: nthT.simps)

lemma replaceT_list_tree:
  "replaceT (list_tree xs) i e = (if 0 \<le> i \<and> i < int (length xs)
     then Inr (list_tree (xs[nat i := e])) else Inl (Undefined ''branch''))"
proof (induction xs arbitrary: i)
  case Nil
  then show ?case
    by (simp add: replaceT.simps hdT_def tlT_def branch_def nil_def leaf_def arity_def)
next
  case (Cons x xs)
  show ?case
  proof (cases "i = 0")
    case False
    have "replaceT (list_tree (x # xs)) i e =
        rbind (replaceT (list_tree xs) (i - 1) e) (\<lambda>r. Inr (cons x r))"
      using False by (simp add: replaceT.simps [of _ i])
    moreover have "nat i = Suc (nat (i - 1))" if "0 \<le> i" using that False by simp
    ultimately show ?thesis using False Cons.IH [of "i - 1"] by (auto simp: list_update.simps)
  qed (simp add: replaceT.simps)
qed

lemma rconcat_list_tree: "rconcat (list_tree xs) q = foldr cons (rev xs) q"
proof (induction xs arbitrary: q)
  case (Cons x xs)
  then show ?case by (subst rconcat.simps) simp
qed (simp add: rconcat.simps)

lemma foldr_cons_list_tree [simp]: "foldr cons xs (list_tree ys) = list_tree (xs @ ys)"
  by (induction xs) simp_all

lemma foldr_cons_nil [simp]: "foldr cons xs nil = list_tree xs"
  by (simp add: list_tree_def)

lemma reverseT_list_tree [simp]: "reverseT (list_tree xs) = list_tree (rev xs)"
  by (simp add: reverseT_def rconcat_list_tree)

lemma concatT_list_tree: "concatT (list_tree xs) q = foldr cons xs q"
  by (simp add: concatT_def rconcat_list_tree)

lemma lrange_loop_eq:
  "lrange_loop l c k (list_tree ys) = list_tree (map (\<lambda>m. nthT l (c - int k + int m)) [0..<k] @ ys)"
proof (induction k arbitrary: c ys)
  case (Suc k)
  from Suc.IH [of "c - 1" "nthT l (c - 1) # ys"] show ?case by (simp add: algebra_simps)
qed simp

lemma lrange_list_tree:
  assumes "0 \<le> i" "i \<le> j" "j \<le> int (length xs)"
  shows "lrange (list_tree xs) i j = list_tree (take (nat (j - i)) (drop (nat i) xs))"
proof -
  have "lrange (list_tree xs) i j =
      list_tree (map (\<lambda>m. nthT (list_tree xs) (i + int m)) [0..<nat (j - i)])"
    using lrange_loop_eq [of "list_tree xs" j "nat (j - i)" "[]"] assms by (simp add: lrange_def)
  also have "map (\<lambda>m. nthT (list_tree xs) (i + int m)) [0..<nat (j - i)] =
      take (nat (j - i)) (drop (nat i) xs)"
    using assms by (intro nth_equalityI) (auto simp: nthT_list_tree nat_add_distrib)
  finally show ?thesis .
qed

lemma rmapT_list_tree: "rmapT f (list_tree xs) r = foldr cons (rev (map f xs)) r"
proof (induction xs arbitrary: r)
  case (Cons x xs)
  then show ?case by (subst rmapT.simps) simp
qed (simp add: rmapT.simps)

lemma lmap_list_tree: "lmap f (list_tree xs) = list_tree (map f xs)"
  by (simp add: lmap_def rmapT_list_tree)

lemma searchEnv_list_tree:
  "searchEnv key (list_tree (map (\<lambda>(k, v). cons k v) env)) = Inr (map_of env key)"
proof (induction env)
  case (Cons p env)
  then show ?case by (cases p) (auto simp: searchEnv.simps [of key "cons _ _"])
qed (simp add: searchEnv.simps)

text \<open>
  Property C32 (\<^verbatim>\<open>list.cpp\<close>): the list operations on trees are the operations on the lists the trees
  represent.  Indexing outside the list gives \<^verbatim>\<open>nil\<close>, replacing outside it takes a branch that
  does not exist, and \<^verbatim>\<open>lrange\<close> is the segment from \<open>i\<close> up to and without \<open>j\<close>.
\<close>

theorem list_operations:
  "lenT (list_tree xs) = length xs \<and>
   nthT (list_tree xs) i = (if 0 \<le> i \<and> i < int (length xs) then xs ! nat i else nil) \<and>
   replaceT (list_tree xs) i e = (if 0 \<le> i \<and> i < int (length xs)
     then Inr (list_tree (xs[nat i := e])) else Inl (Undefined ''branch'')) \<and>
   reverseT (list_tree xs) = list_tree (rev xs) \<and>
   concatT (list_tree xs) (list_tree ys) = list_tree (xs @ ys) \<and>
   lrange (list_tree (xs @ ys @ zs)) (int (length xs)) (int (length xs) + int (length ys)) = list_tree ys \<and>
   lmap f (list_tree xs) = list_tree (map f xs) \<and>
   searchEnv e (pushEnv k v (list_tree (map (\<lambda>(k, v). cons k v) env))) =
     Inr (if e = k then Some v else map_of env e)"
  using searchEnv_list_tree [of e "(k, v) # env"]
  by (auto simp: nthT_list_tree replaceT_list_tree concatT_list_tree lrange_list_tree lmap_list_tree pushEnv_def)

section \<open>Ordered lists implement sets\<close>

definition set_tree :: "address \<Rightarrow> tree \<Rightarrow> bool" where
  "set_tree ad s \<longleftrightarrow> (\<exists>xs. s = list_tree xs \<and> sorted_wrt (\<lambda>x y. ad x < ad y) xs)"

fun elems :: "tree \<Rightarrow> tree set" where
  "elems l = (case asList l of Some (h, t) \<Rightarrow> insert h (elems t) | None \<Rightarrow> {})"

declare elems.simps [simp del]

lemma elems_simps [simp]: "elems nil = {}" "elems (cons h t) = insert h (elems t)"
  by (simp_all add: elems.simps)

lemma elems_list_tree [simp]: "elems (list_tree xs) = set xs"
  by (induction xs) simp_all

lemma set_tree_nil [simp]: "set_tree ad nil"
  unfolding set_tree_def by (rule exI [of _ "[]"]) simp

lemma set_tree_cons [simp]:
  "set_tree ad (cons h t) \<longleftrightarrow> set_tree ad t \<and> (\<forall>x \<in> elems t. ad h < ad x)"
proof
  assume "set_tree ad (cons h t)"
  then obtain xs where "cons h t = list_tree xs" "sorted_wrt (\<lambda>x y. ad x < ad y) xs"
    by (auto simp: set_tree_def)
  then show "set_tree ad t \<and> (\<forall>x \<in> elems t. ad h < ad x)"
    by (cases xs) (auto simp: set_tree_def)
next
  assume "set_tree ad t \<and> (\<forall>x \<in> elems t. ad h < ad x)"
  then obtain xs where "t = list_tree xs" "sorted_wrt (\<lambda>x y. ad x < ad y) (h # xs)"
    by (auto simp: set_tree_def)
  then show "set_tree ad (cons h t)" unfolding set_tree_def by (intro exI [of _ "h # xs"]) simp
qed

lemma set_tree_induct [consumes 1, case_names nil cons]:
  assumes "set_tree ad s" "P nil"
    and "\<And>h t. set_tree ad t \<Longrightarrow> \<forall>x \<in> elems t. ad h < ad x \<Longrightarrow> P t \<Longrightarrow> P (cons h t)"
  shows "P s"
proof -
  obtain xs where "s = list_tree xs" using assms(1) by (auto simp: set_tree_def)
  moreover have "set_tree ad (list_tree xs) \<Longrightarrow> P (list_tree xs)" for xs
    by (induction xs) (auto intro: assms(2,3))
  ultimately show ?thesis using assms(1) by simp
qed

locale tree_set =
  fixes inv :: "'s \<Rightarrow> bool"
    and abs :: "'s \<Rightarrow> 'e set"
    and empty :: 's
    and mem :: "'e \<Rightarrow> 's \<Rightarrow> bool"
    and add :: "'e \<Rightarrow> 's \<Rightarrow> 's"
    and rem :: "'e \<Rightarrow> 's \<Rightarrow> 's"
  assumes empty: "inv empty" "abs empty = {}"
    and mem: "inv s \<Longrightarrow> mem e s \<longleftrightarrow> e \<in> abs s"
    and add: "inv s \<Longrightarrow> inv (add e s)" "inv s \<Longrightarrow> abs (add e s) = insert e (abs s)"
    and rem: "inv s \<Longrightarrow> inv (rem e s)" "inv s \<Longrightarrow> abs (rem e s) = abs s - {e}"
    and canonical: "inv s \<Longrightarrow> inv s' \<Longrightarrow> abs s = abs s' \<Longrightarrow> s = s'"
begin

lemma fold_add: "inv s \<Longrightarrow> inv (fold add es s) \<and> abs (fold add es s) = set es \<union> abs s"
  by (induction es arbitrary: s) (auto simp: add)

lemma add_commute: "inv s \<Longrightarrow> add a (add b s) = add b (add a s)"
  by (rule canonical) (auto simp: add)

lemma add_twice: "inv s \<Longrightarrow> add a (add a s) = add a s"
  by (rule canonical) (auto simp: add)

lemma rem_add: "inv s \<Longrightarrow> \<not> mem a s \<Longrightarrow> rem a (add a s) = s"
  by (rule canonical) (auto simp: add rem mem)

end

lemma isElement_simps:
  "isElement ad e nil \<longleftrightarrow> False"
  "isElement ad e (cons h t) \<longleftrightarrow> h = e \<or> \<not> ad e < ad h \<and> isElement ad e t"
  by (simp_all add: isElement.simps [of ad e nil] isElement.simps [of ad e "cons h t"])

lemma addElement_simps:
  "addElement ad e nil = cons e nil"
  "addElement ad e (cons h t) = (if ad e < ad h then cons e (cons h t) else if e = h then cons h t
     else cons h (addElement ad e t))"
  by (simp_all add: addElement.simps [of ad e nil] addElement.simps [of ad e "cons h t"])

lemma remElement_simps:
  "remElement ad e nil = nil"
  "remElement ad e (cons h t) = (if ad e < ad h then cons h t else if e = h then t
     else cons h (remElement ad e t))"
  by (simp_all add: remElement.simps [of ad e nil] remElement.simps [of ad e "cons h t"])

lemma isElement_iff: "set_tree ad s \<Longrightarrow> isElement ad e s \<longleftrightarrow> e \<in> elems s"
  by (induction rule: set_tree_induct) (auto simp: isElement_simps)

lemma elems_addElement: "set_tree ad s \<Longrightarrow> elems (addElement ad e s) = insert e (elems s)"
  by (induction rule: set_tree_induct) (auto simp: addElement_simps)

lemma ad_neq: "inj ad \<Longrightarrow> a \<noteq> b \<Longrightarrow> \<not> ad a < ad b \<Longrightarrow> ad b < (ad a :: nat)"
  by (metis injD nat_neq_iff)

lemma set_tree_addElement:
  assumes "set_tree ad s" "inj ad"
  shows "set_tree ad (addElement ad e s)"
  using assms(1)
proof (induction rule: set_tree_induct)
  case (cons h t)
  then show ?case using ad_neq [OF assms(2), of e h]
    by (auto simp: addElement_simps elems_addElement dest: order.strict_trans)
qed (simp add: addElement_simps)

lemma elems_remElement: "set_tree ad s \<Longrightarrow> elems (remElement ad e s) = elems s - {e}"
  by (induction rule: set_tree_induct) (auto simp: remElement_simps)

lemma set_tree_remElement: "set_tree ad s \<Longrightarrow> set_tree ad (remElement ad e s)"
  by (induction rule: set_tree_induct) (auto simp: remElement_simps elems_remElement)

lemma sorted_wrt_key_unique:
  assumes "sorted_wrt (\<lambda>x y. ad x < (ad y :: nat)) xs" "sorted_wrt (\<lambda>x y. ad x < ad y) ys" "set xs = set ys"
  shows "xs = ys"
  using assms
proof (induction xs arbitrary: ys)
  case (Cons x xs)
  then obtain y ys' where ys: "ys = y # ys'" by (cases ys) auto
  have "x = y" using Cons.prems ys by (metis list.set_intros(1) order_less_asym set_ConsD sorted_wrt.simps(2))
  moreover have "set xs = set ys'"
    using Cons.prems ys \<open>x = y\<close> by (metis insert_ident less_irrefl list.simps(15) sorted_wrt.simps(2))
  ultimately show ?case using Cons ys by simp
qed simp

lemma set_tree_canonical: "set_tree ad s \<Longrightarrow> set_tree ad s' \<Longrightarrow> elems s = elems s' \<Longrightarrow> s = s'"
  by (auto simp: set_tree_def intro: sorted_wrt_key_unique)

locale addressing =
  fixes ad :: address
  assumes ad_inj: "inj ad"

sublocale addressing \<subseteq> ls: tree_set "set_tree ad" elems nil "isElement ad" "addElement ad" "remElement ad"
  by unfold_locales
    (auto simp: isElement_iff elems_addElement set_tree_addElement ad_inj elems_remElement
      set_tree_remElement intro: set_tree_canonical)

context addressing
begin

lemma list2set_loop_fold:
  "list2set_loop ad (list_tree xs) s = fold (addElement ad) xs s"
proof (induction xs arbitrary: s)
  case (Cons x xs)
  then show ?case by (subst list2set_loop.simps) simp
qed (simp add: list2set_loop.simps)

lemma list2set_correct:
  "set_tree ad (list2set ad (list_tree xs)) \<and> elems (list2set ad (list_tree xs)) = set xs"
  using ls.fold_add [of nil xs] by (simp add: list2set_def list2set_loop_fold)

lemma list2set_idem: "set_tree ad s \<Longrightarrow> s = list_tree xs \<Longrightarrow> list2set ad s = s"
  using list2set_correct [of xs] by (intro ls.canonical) auto

end

lemma set_op_simps:
  "setUnion ad nil B = Inr B"
  "setUnion ad (cons a A) nil = Inr (cons a A)"
  "setUnion ad (cons a A) (cons b B) =
     (if a = b then rbind (setUnion ad A B) (\<lambda>r. Inr (cons a r))
      else if ad a < ad b then rbind (setUnion ad A (cons b B)) (\<lambda>r. Inr (cons a r))
      else rbind (setUnion ad (cons a A) B) (\<lambda>r. Inr (cons b r)))"
  "setIntersection ad nil B = Inr nil"
  "setIntersection ad (cons a A) nil = Inr nil"
  "setIntersection ad (cons a A) (cons b B) =
     (if a = b then rbind (setIntersection ad A B) (\<lambda>r. Inr (cons a r))
      else if ad a < ad b then setIntersection ad A (cons b B)
      else setIntersection ad (cons a A) B)"
  "setDifference ad nil B = Inr nil"
  "setDifference ad (cons a A) nil = Inr (cons a A)"
  "setDifference ad (cons a A) (cons b B) =
     (if a = b then setDifference ad A B
      else if ad a < ad b then rbind (setDifference ad A (cons b B)) (\<lambda>r. Inr (cons a r))
      else setDifference ad (cons a A) B)"
  by (simp_all add: setUnion.simps [of ad nil] setUnion.simps [of ad "cons a A"]
      setIntersection.simps [of ad nil] setIntersection.simps [of ad "cons a A"]
      setDifference.simps [of ad nil] setDifference.simps [of ad "cons a A"])

lemma merge_induct [consumes 3, case_names nil_left nil_right step]:
  assumes "inj (ad :: address)" "set_tree ad A" "set_tree ad B"
    and nil: "\<And>B. set_tree ad B \<Longrightarrow> P nil B" "\<And>a A. set_tree ad (cons a A) \<Longrightarrow> P (cons a A) nil"
    and step: "\<And>a A b B. set_tree ad (cons a A) \<Longrightarrow> set_tree ad (cons b B) \<Longrightarrow>
      (a = b \<Longrightarrow> P A B) \<Longrightarrow> (a \<noteq> b \<Longrightarrow> ad a < ad b \<Longrightarrow> P A (cons b B)) \<Longrightarrow>
      (a \<noteq> b \<Longrightarrow> \<not> ad a < ad b \<Longrightarrow> ad b < ad a \<Longrightarrow> P (cons a A) B) \<Longrightarrow> P (cons a A) (cons b B)"
  shows "P A B"
  using assms(2,3)
proof (induction "size A + size B" arbitrary: A B rule: less_induct)
  case less
  consider "A = nil" | a A' where "A = cons a A'" "B = nil" | a A' b B' where "A = cons a A'" "B = cons b B'"
    using less.prems unfolding set_tree_def by (metis list_tree_simps list.exhaust)
  then show ?case
  proof cases
    case 3
    have sz: "size A' < size A" "size B' < size B" using 3 by (simp_all add: cons_def)
    show ?thesis unfolding 3
    proof (rule step)
      assume "\<not> ad a < ad b" "a \<noteq> b"
      show "P (cons a A') B'" using less.hyps [of A B'] less.prems sz 3 by simp
    qed (use less.hyps [of A' B'] less.hyps [of A' B] less.prems sz 3 in simp_all)
  qed (use less.prems nil in auto)
qed

lemma setUnion_spec:
  assumes "inj ad" "set_tree ad A" "set_tree ad B"
  shows "\<exists>r. setUnion ad A B = Inr r \<and> set_tree ad r \<and> elems r = elems A \<union> elems B"
  using assms
proof (induction rule: merge_induct)
  case (step a A b B)
  have lt: "\<forall>x \<in> elems A. ad a < ad x" "\<forall>x \<in> elems B. ad b < ad x" using step.hyps by simp_all
  consider "a = b" | "a \<noteq> b" "ad a < ad b" | "a \<noteq> b" "\<not> ad a < ad b" "ad b < ad a"
    using ad_neq [OF assms(1), of a b] by blast
  then show ?case
  proof cases
    case 1
    then obtain r where "setUnion ad A B = Inr r" "set_tree ad r" "elems r = elems A \<union> elems B"
      using step.IH(1) by blast
    with 1 lt show ?thesis by (auto simp: set_op_simps)
  next
    case 2
    then obtain r where "setUnion ad A (cons b B) = Inr r" "set_tree ad r"
      "elems r = elems A \<union> elems (cons b B)"
      using step.IH(2) by blast
    moreover have "\<forall>x \<in> elems B. ad a < ad x" using 2 lt(2) order.strict_trans by blast
    ultimately show ?thesis using 2 lt by (force simp: set_op_simps)
  next
    case 3
    then obtain r where "setUnion ad (cons a A) B = Inr r" "set_tree ad r"
      "elems r = elems (cons a A) \<union> elems B"
      using step.IH(3) by blast
    moreover have "\<forall>x \<in> elems A. ad b < ad x" using 3 lt(1) order.strict_trans by blast
    ultimately show ?thesis using 3 lt by (force simp: set_op_simps)
  qed
qed (auto simp: set_op_simps)

lemma setIntersection_spec:
  assumes "inj ad" "set_tree ad A" "set_tree ad B"
  shows "\<exists>r. setIntersection ad A B = Inr r \<and> set_tree ad r \<and> elems r = elems A \<inter> elems B"
  using assms
proof (induction rule: merge_induct)
  case (step a A b B)
  have lt: "\<forall>x \<in> elems A. ad a < ad x" "\<forall>x \<in> elems B. ad b < ad x" using step.hyps by simp_all
  consider "a = b" | "a \<noteq> b" "ad a < ad b" | "a \<noteq> b" "\<not> ad a < ad b" "ad b < ad a"
    using ad_neq [OF assms(1), of a b] by blast
  then show ?case
  proof cases
    case 1
    then obtain r where "setIntersection ad A B = Inr r" "set_tree ad r" "elems r = elems A \<inter> elems B"
      using step.IH(1) by blast
    with 1 lt show ?thesis by (auto simp: set_op_simps)
  next
    case 2
    then obtain r where "setIntersection ad A (cons b B) = Inr r" "set_tree ad r"
      "elems r = elems A \<inter> elems (cons b B)"
      using step.IH(2) by blast
    moreover have "\<forall>x \<in> elems B. ad a < ad x" using 2 lt(2) order.strict_trans by blast
    ultimately show ?thesis using 2 lt by (force simp: set_op_simps)
  next
    case 3
    then obtain r where "setIntersection ad (cons a A) B = Inr r" "set_tree ad r"
      "elems r = elems (cons a A) \<inter> elems B"
      using step.IH(3) by blast
    moreover have "\<forall>x \<in> elems A. ad b < ad x" using 3 lt(1) order.strict_trans by blast
    ultimately show ?thesis using 3 lt by (force simp: set_op_simps)
  qed
qed (auto simp: set_op_simps)

lemma setDifference_spec:
  assumes "inj ad" "set_tree ad A" "set_tree ad B"
  shows "\<exists>r. setDifference ad A B = Inr r \<and> set_tree ad r \<and> elems r = elems A - elems B"
  using assms
proof (induction rule: merge_induct)
  case (step a A b B)
  have lt: "\<forall>x \<in> elems A. ad a < ad x" "\<forall>x \<in> elems B. ad b < ad x" using step.hyps by simp_all
  consider "a = b" | "a \<noteq> b" "ad a < ad b" | "a \<noteq> b" "\<not> ad a < ad b" "ad b < ad a"
    using ad_neq [OF assms(1), of a b] by blast
  then show ?case
  proof cases
    case 1
    then obtain r where "setDifference ad A B = Inr r" "set_tree ad r" "elems r = elems A - elems B"
      using step.IH(1) by blast
    with 1 lt show ?thesis by (auto simp: set_op_simps)
  next
    case 2
    then obtain r where "setDifference ad A (cons b B) = Inr r" "set_tree ad r"
      "elems r = elems A - elems (cons b B)"
      using step.IH(2) by blast
    moreover have "\<forall>x \<in> elems B. ad a < ad x" using 2 lt(2) order.strict_trans by blast
    ultimately show ?thesis using 2 lt by (force simp: set_op_simps)
  next
    case 3
    then obtain r where "setDifference ad (cons a A) B = Inr r" "set_tree ad r"
      "elems r = elems (cons a A) - elems B"
      using step.IH(3) by blast
    moreover have "\<forall>x \<in> elems A. ad b < ad x" using 3 lt(1) order.strict_trans by blast
    ultimately show ?thesis using 3 lt by (force simp: set_op_simps)
  qed
qed (auto simp: set_op_simps)

instance double :: countable by countable_datatype
instance treekw :: countable by countable_datatype
instance boxkw :: countable by countable_datatype
instance sigkw :: countable by countable_datatype
instance xprim :: countable by countable_datatype
instance primfun :: countable by countable_datatype
instance sym :: countable by countable_datatype
instance pointer :: countable by countable_datatype
instance node :: countable by countable_datatype
instance tree :: countable by countable_datatype

text \<open>
  The addresses of a store, extended to the trees it does not hold: they are injective because
  the store shares equal trees.
\<close>

definition addr_in :: "store \<Rightarrow> address" where
  "addr_in st t = (if \<exists>p < nextAddr st. tree_at st p = t
     then (THE p. p < nextAddr st \<and> tree_at st p = t) else nextAddr st + to_nat t)"

lemma addr_in_alloc:
  assumes "hc_inv nk st" "p < nextAddr st"
  shows "addr_in st (tree_at st p) = p"
proof -
  have "(THE q. q < nextAddr st \<and> tree_at st q = tree_at st p) = p"
    using assms by (intro the_equality) (auto intro: hc.content_inj [OF assms(1)])
  with assms show ?thesis by (auto simp: addr_in_def)
qed

lemma addr_in_inj:
  assumes "hc_inv nk st"
  shows "inj (addr_in st)"
proof (rule injI)
  fix t u assume eq: "addr_in st t = addr_in st u"
  have fresh: "addr_in st x = nextAddr st + to_nat x" if "\<not> (\<exists>p < nextAddr st. tree_at st p = x)" for x
    using that unfolding addr_in_def by (rule if_not_P)
  show "t = u"
    using eq fresh [of t] fresh [of u] addr_in_alloc [OF assms]
    by (metis add_left_imp_eq not_add_less1 to_nat_split)
qed

interpretation heap: addressing "addr_in init"
  by unfold_locales (rule addr_in_inj [OF hc_inv_init])

text \<open>
  Property C27 (\<^verbatim>\<open>list.cpp\<close>, sets as ordered lists): for addresses that tell trees apart, adding,
  removing, union, intersection and difference of ordered lists return, keep the lists ordered
  without repetition, and compute the set operations; membership is decided by \<open>isElement\<close>,
  which stops at the first greater address; \<open>list2set\<close> orders any list.
\<close>

theorem set_operations:
  assumes "inj ad" and "set_tree ad A" and "set_tree ad B"
  shows "(isElement ad e A \<longleftrightarrow> e \<in> elems A) \<and>
    set_tree ad (addElement ad e A) \<and> elems (addElement ad e A) = insert e (elems A) \<and>
    set_tree ad (remElement ad e A) \<and> elems (remElement ad e A) = elems A - {e} \<and>
    set_tree ad (list2set ad (list_tree xs)) \<and> elems (list2set ad (list_tree xs)) = set xs \<and>
    (\<exists>r. setUnion ad A B = Inr r \<and> set_tree ad r \<and> elems r = elems A \<union> elems B) \<and>
    (\<exists>r. setIntersection ad A B = Inr r \<and> set_tree ad r \<and> elems r = elems A \<inter> elems B) \<and>
    (\<exists>r. setDifference ad A B = Inr r \<and> set_tree ad r \<and> elems r = elems A - elems B)"
proof -
  have "addressing ad" using assms(1) by unfold_locales
  from addressing.list2set_correct [OF this, of xs] show ?thesis
    using isElement_iff [OF assms(2)] set_tree_addElement [OF assms(2,1)] elems_addElement [OF assms(2)]
      set_tree_remElement [OF assms(2)] elems_remElement [OF assms(2)]
      setUnion_spec [OF assms] setIntersection_spec [OF assms] setDifference_spec [OF assms] by simp
qed

theorem set_operations_witness:
  "\<exists>r. setUnion (addr_in init) (addElement (addr_in init) (leaf (NInt 1)) nil)
         (addElement (addr_in init) (leaf (NInt 2)) nil) = Inr r \<and>
       elems r = {leaf (NInt 1), leaf (NInt 2)}"
proof -
  have i: "inj (addr_in init)" by (rule heap.ad_inj)
  have A: "set_tree (addr_in init) (addElement (addr_in init) (leaf (NInt k)) nil)"
    "elems (addElement (addr_in init) (leaf (NInt k)) nil) = {leaf (NInt k)}" for k
    by (simp_all add: addElement_simps)
  show ?thesis using set_operations [OF i A(1) A(1)] A(2) by (metis insert_is_Un)
qed

section \<open>Memoised traversals are the plain ones\<close>

fun tmap_spec :: "(tree \<Rightarrow> tree) \<Rightarrow> tree \<Rightarrow> tree" where
  "tmap_spec f (Tree n br) = f (Tree n (map (tmap_spec f) br))"

fun subst_spec :: "tree \<Rightarrow> tree \<Rightarrow> tree \<Rightarrow> tree" where
  "subst_spec ident v (Tree n br) =
     (if Tree n br = ident then v else Tree n (map (subst_spec ident v) br))"

definition memo_of :: "(tree \<Rightarrow> tree) \<Rightarrow> memo \<Rightarrow> bool" where
  "memo_of g m \<longleftrightarrow> (\<forall>t p. m t = Some p \<longrightarrow> (if isNil p then t else p) = g t)"

lemma memo_of_empty [simp]: "memo_of g Map.empty"
  by (simp add: memo_of_def)

lemma memo_of_hit: "memo_of g m \<Longrightarrow> m t = Some p \<Longrightarrow> (if isNil p then t else p) = g t"
  by (simp add: memo_of_def)

lemma memo_of_update:
  "memo_of g m \<Longrightarrow> (isNil (g t) \<Longrightarrow> g t = t) \<Longrightarrow> memo_of g (m(t \<mapsto> (if g t = t then nil else g t)))"
  by (auto simp: memo_of_def)

lemma tmap_spec_nil:
  assumes "\<And>x. isNil (f x) \<Longrightarrow> isNil x"
  shows "isNil (tmap_spec f t) \<Longrightarrow> tmap_spec f t = t"
proof (cases t)
  case (Tree n br)
  assume nil: "isNil (tmap_spec f t)"
  with Tree have "isNil (Tree n (map (tmap_spec f) br))" using assms by simp
  then have "t = nil" using Tree by (simp add: isNil_iff nil_def leaf_def)
  with nil show ?thesis by (simp add: isNil_iff)
qed

lemma tmap_memo:
  assumes "\<And>x. isNil (f x) \<Longrightarrow> isNil x"
  shows "memo_of (tmap_spec f) m \<Longrightarrow>
      fst (tmap f t m) = tmap_spec f t \<and> memo_of (tmap_spec f) (snd (tmap f t m))"
    and "memo_of (tmap_spec f) m \<Longrightarrow>
      fst (tmap_branches f br m) = map (tmap_spec f) br \<and> memo_of (tmap_spec f) (snd (tmap_branches f br m))"
  using assms
proof (induction f t m and f br m rule: tmap_tmap_branches.induct)
  case (1 f n br m)
  show ?case
  proof (cases "m (Tree n br)")
    case None
    obtain m1 where m1: "tmap_branches f br m = (map (tmap_spec f) br, m1)" "memo_of (tmap_spec f) m1"
      using "1.IH" [OF None "1.prems"] by (metis prod.collapse)
    have "memo_of (tmap_spec f) (m1(Tree n br \<mapsto>
        (if tmap_spec f (Tree n br) = Tree n br then nil else tmap_spec f (Tree n br))))"
      using memo_of_update [OF m1(2)] tmap_spec_nil [OF "1.prems"(2)] by blast
    then show ?thesis using None m1(1) by (auto simp: Let_def fun_upd_def cong: if_cong)
  next
    case (Some p)
    with memo_of_hit [OF "1.prems"(1) Some] "1.prems"(1) show ?thesis by simp
  qed
next
  case (3 f b bs m)
  obtain b' m1 where b: "tmap f b m = (b', m1)" by (cases "tmap f b m")
  with "3.IH"(1) [OF "3.prems"] have "b' = tmap_spec f b" "memo_of (tmap_spec f) m1" by simp_all
  with "3.IH"(2) [OF b [symmetric] refl _ "3.prems"(2)] b show ?case by (simp add: case_prod_beta Let_def)
qed simp

lemma subst_memo:
  shows "memo_of (subst_spec ident v) m \<Longrightarrow>
      fst (subst ident v t m) = subst_spec ident v t \<and> memo_of (subst_spec ident v) (snd (subst ident v t m))"
    and "memo_of (subst_spec ident v) m \<Longrightarrow>
      fst (subst_branches ident v br m) = map (subst_spec ident v) br \<and>
      memo_of (subst_spec ident v) (snd (subst_branches ident v br m))"
proof (induction ident v t m and ident v br m rule: subst_subst_branches.induct)
  case (1 ident v n br m)
  consider "Tree n br = ident" | "Tree n br \<noteq> ident" "br = []" | p where "Tree n br \<noteq> ident" "br \<noteq> []" "m (Tree n br) = Some p"
    | "Tree n br \<noteq> ident" "br \<noteq> []" "m (Tree n br) = None" by fastforce
  then show ?case
  proof cases
    case 3
    with memo_of_hit [OF "1.prems" 3(3)] "1.prems" show ?thesis by simp
  next
    case 4
    obtain m1 where m1: "subst_branches ident v br m = (map (subst_spec ident v) br, m1)"
        "memo_of (subst_spec ident v) m1"
      using "1.IH" [OF 4 "1.prems"] by (metis prod.collapse)
    have "memo_of (subst_spec ident v) (m1(Tree n br \<mapsto>
        (if subst_spec ident v (Tree n br) = Tree n br then nil else subst_spec ident v (Tree n br))))"
      using memo_of_update [OF m1(2), of "Tree n br"] 4 by (simp add: isNil_def arity_def)
    then show ?thesis using 4 m1(1) by (auto simp: Let_def fun_upd_def cong: if_cong)
  qed (use "1.prems" in auto)
next
  case (3 ident v b bs m)
  obtain b' m1 where b: "subst ident v b m = (b', m1)" by (cases "subst ident v b m")
  with "3.IH"(1) [OF "3.prems"] have "b' = subst_spec ident v b" "memo_of (subst_spec ident v) m1" by simp_all
  with "3.IH"(2) [OF b [symmetric] refl] b show ?case by (simp add: case_prod_beta Let_def)
qed simp



text \<open>
  The condition on \<open>tmap\<close> is needed: a function that erases a tree to \<^verbatim>\<open>nil\<close> is forgotten at the
  second occurrence of that tree.
\<close>

lemma tmap_forgets_nil:
  "fst (tmap (\<lambda>x. if node x = NInt 1 then nil else x) (cons (leaf (NInt 1)) (leaf (NInt 1))) Map.empty) =
     cons nil (leaf (NInt 1))"
  by (simp add: cons_def nil_def leaf_def isNil_def arity_def Let_def)

end
