(* ===== verification/Boxes.thy ===== *)
theory Boxes
  imports Lists
begin

text \<open>
  The box language (\<^verbatim>\<open>boxes/boxes.cpp\<close>): block diagrams as trees.  For each form of box there is its
  constructor (\<^verbatim>\<open>boxSeq\<close>, ...) and its recogniser (\<^verbatim>\<open>isBoxSeq\<close>, ...), which returns the components
  it binds through references in the source.  The recognisers of the source test disjoint node
  symbols; \<open>box_view\<close> collects them in one function that the component theories recurse over,
  and \<open>recognisers_view\<close> shows that it agrees with each of them.

  \<open>preparePattern\<close> and the construction of \<^verbatim>\<open>case\<close> boxes close the theory.
\<close>

abbreviation bsym :: "boxkw \<Rightarrow> node" where
  "bsym k \<equiv> NSym (KBox k)"

definition list1 :: "tree \<Rightarrow> tree" where
  "list1 a = cons a nil"

definition list2 :: "tree \<Rightarrow> tree \<Rightarrow> tree" where
  "list2 a b = cons a (list1 b)"

definition list3 :: "tree \<Rightarrow> tree \<Rightarrow> tree \<Rightarrow> tree" where
  "list3 a b c = cons a (list2 b c)"

definition list4 :: "tree \<Rightarrow> tree \<Rightarrow> tree \<Rightarrow> tree \<Rightarrow> tree" where
  "list4 a b c d = cons a (list3 b c d)"

section \<open>Constructors and recognisers\<close>

definition boxIdent :: "string \<Rightarrow> tree" where
  "boxIdent name = Tree (bsym BOXIDENT) [leaf (NSym (Name name))]"

definition isBoxIdent :: "tree \<Rightarrow> bool" where
  "isBoxIdent t \<longleftrightarrow> node t = bsym BOXIDENT"

definition isBoxIdent_str :: "tree \<Rightarrow> sym option" where
  "isBoxIdent_str t0 = (case isTree1 t0 (bsym BOXIDENT) of
      Some t1 \<Rightarrow> (case node t1 of NSym s \<Rightarrow> Some s | _ \<Rightarrow> None) | None \<Rightarrow> None)"

definition boxInt :: "int \<Rightarrow> tree" where
  "boxInt n = leaf (NInt n)"

definition boxReal :: "double \<Rightarrow> tree" where
  "boxReal n = leaf (NDouble n)"

definition isBoxInt :: "tree \<Rightarrow> bool" where
  "isBoxInt t \<longleftrightarrow> isIntNode (node t)"

definition isBoxReal :: "tree \<Rightarrow> bool" where
  "isBoxReal t \<longleftrightarrow> isDoubleNode (node t)"

definition boxWaveform :: "tree list \<Rightarrow> tree" where
  "boxWaveform br = Tree (bsym BOXWAVEFORM) br"

definition isBoxWaveform :: "tree \<Rightarrow> bool" where
  "isBoxWaveform s \<longleftrightarrow> isTree0 s (bsym BOXWAVEFORM)"

definition boxSlot :: "int \<Rightarrow> tree" where
  "boxSlot i = Tree (bsym BOXSLOT) [leaf (NInt i)]"

definition isBoxSlot :: "tree \<Rightarrow> tree option" where
  "isBoxSlot t = isTree1 t (bsym BOXSLOT)"

definition isBoxSlot_id :: "tree \<Rightarrow> int option" where
  "isBoxSlot_id t = (case isTree1 t (bsym BOXSLOT) of
      Some w \<Rightarrow> (case node w of NInt i \<Rightarrow> Some i | _ \<Rightarrow> None) | None \<Rightarrow> None)"

definition boxCut :: "tree" where
  "boxCut = Tree (bsym BOXCUT) []"

definition isBoxCut :: "tree \<Rightarrow> bool" where
  "isBoxCut t \<longleftrightarrow> isTree0 t (bsym BOXCUT)"

definition boxWire :: "tree" where
  "boxWire = Tree (bsym BOXWIRE) []"

definition isBoxWire :: "tree \<Rightarrow> bool" where
  "isBoxWire t \<longleftrightarrow> isTree0 t (bsym BOXWIRE)"

definition boxSymbolic :: "tree \<Rightarrow> tree \<Rightarrow> tree" where
  "boxSymbolic slot body = Tree (bsym BOXSYMBOLIC) [slot, body]"

definition isBoxSymbolic :: "tree \<Rightarrow> (tree \<times> tree) option" where
  "isBoxSymbolic t = isTree2 t (bsym BOXSYMBOLIC)"

definition boxSeq :: "tree \<Rightarrow> tree \<Rightarrow> tree" where
  "boxSeq x y = Tree (bsym BOXSEQ) [x, y]"

definition isBoxSeq :: "tree \<Rightarrow> (tree \<times> tree) option" where
  "isBoxSeq t = isTree2 t (bsym BOXSEQ)"

definition boxPar :: "tree \<Rightarrow> tree \<Rightarrow> tree" where
  "boxPar x y = Tree (bsym BOXPAR) [x, y]"

definition isBoxPar :: "tree \<Rightarrow> (tree \<times> tree) option" where
  "isBoxPar t = isTree2 t (bsym BOXPAR)"

definition boxRec :: "tree \<Rightarrow> tree \<Rightarrow> tree" where
  "boxRec x y = Tree (bsym BOXREC) [x, y]"

definition isBoxRec :: "tree \<Rightarrow> (tree \<times> tree) option" where
  "isBoxRec t = isTree2 t (bsym BOXREC)"

definition boxSplit :: "tree \<Rightarrow> tree \<Rightarrow> tree" where
  "boxSplit x y = Tree (bsym BOXSPLIT) [x, y]"

definition isBoxSplit :: "tree \<Rightarrow> (tree \<times> tree) option" where
  "isBoxSplit t = isTree2 t (bsym BOXSPLIT)"

definition boxMerge :: "tree \<Rightarrow> tree \<Rightarrow> tree" where
  "boxMerge x y = Tree (bsym BOXMERGE) [x, y]"

definition isBoxMerge :: "tree \<Rightarrow> (tree \<times> tree) option" where
  "isBoxMerge t = isTree2 t (bsym BOXMERGE)"

definition boxIPar :: "tree \<Rightarrow> tree \<Rightarrow> tree \<Rightarrow> tree" where
  "boxIPar x y z = Tree (bsym BOXIPAR) [x, y, z]"

definition isBoxIPar :: "tree \<Rightarrow> (tree \<times> tree \<times> tree) option" where
  "isBoxIPar t = isTree3 t (bsym BOXIPAR)"

definition boxISeq :: "tree \<Rightarrow> tree \<Rightarrow> tree \<Rightarrow> tree" where
  "boxISeq x y z = Tree (bsym BOXISEQ) [x, y, z]"

definition isBoxISeq :: "tree \<Rightarrow> (tree \<times> tree \<times> tree) option" where
  "isBoxISeq t = isTree3 t (bsym BOXISEQ)"

definition boxISum :: "tree \<Rightarrow> tree \<Rightarrow> tree \<Rightarrow> tree" where
  "boxISum x y z = Tree (bsym BOXISUM) [x, y, z]"

definition isBoxISum :: "tree \<Rightarrow> (tree \<times> tree \<times> tree) option" where
  "isBoxISum t = isTree3 t (bsym BOXISUM)"

definition boxIProd :: "tree \<Rightarrow> tree \<Rightarrow> tree \<Rightarrow> tree" where
  "boxIProd x y z = Tree (bsym BOXIPROD) [x, y, z]"

definition isBoxIProd :: "tree \<Rightarrow> (tree \<times> tree \<times> tree) option" where
  "isBoxIProd t = isTree3 t (bsym BOXIPROD)"

definition boxInputs :: "tree \<Rightarrow> tree" where
  "boxInputs x = Tree (bsym BOXINPUTS) [x]"

definition isBoxInputs :: "tree \<Rightarrow> tree option" where
  "isBoxInputs t = isTree1 t (bsym BOXINPUTS)"

definition boxOutputs :: "tree \<Rightarrow> tree" where
  "boxOutputs x = Tree (bsym BOXOUTPUTS) [x]"

definition isBoxOutputs :: "tree \<Rightarrow> tree option" where
  "isBoxOutputs t = isTree1 t (bsym BOXOUTPUTS)"

definition boxAbstr :: "tree \<Rightarrow> tree \<Rightarrow> tree" where
  "boxAbstr x y = Tree (bsym BOXABSTR) [x, y]"

definition isBoxAbstr :: "tree \<Rightarrow> (tree \<times> tree) option" where
  "isBoxAbstr t = isTree2 t (bsym BOXABSTR)"

definition boxAppl :: "tree \<Rightarrow> tree \<Rightarrow> tree" where
  "boxAppl x y = Tree (bsym BOXAPPL) [x, y]"

definition isBoxAppl :: "tree \<Rightarrow> (tree \<times> tree) option" where
  "isBoxAppl t = isTree2 t (bsym BOXAPPL)"

definition closure :: "tree \<Rightarrow> tree \<Rightarrow> tree \<Rightarrow> tree \<Rightarrow> tree" where
  "closure abstr genv vis lenv = Tree (bsym CLOSURE) [abstr, genv, vis, lenv]"

definition isClosure :: "tree \<Rightarrow> (tree \<times> tree \<times> tree \<times> tree) option" where
  "isClosure t = isTree4 t (bsym CLOSURE)"

definition boxError :: "tree" where
  "boxError = Tree (bsym BOXERROR) []"

definition isBoxError :: "tree \<Rightarrow> bool" where
  "isBoxError t \<longleftrightarrow> isTree0 t (bsym BOXERROR)"

definition boxAccess :: "tree \<Rightarrow> tree \<Rightarrow> tree" where
  "boxAccess e ident = Tree (bsym BOXACCESS) [e, ident]"

definition isBoxAccess :: "tree \<Rightarrow> (tree \<times> tree) option" where
  "isBoxAccess t = isTree2 t (bsym BOXACCESS)"

definition boxWithLocalDef :: "tree \<Rightarrow> tree \<Rightarrow> tree" where
  "boxWithLocalDef body ldef = Tree (bsym BOXWITHLOCALDEF) [body, ldef]"

definition isBoxWithLocalDef :: "tree \<Rightarrow> (tree \<times> tree) option" where
  "isBoxWithLocalDef t = isTree2 t (bsym BOXWITHLOCALDEF)"

definition boxModifLocalDef :: "tree \<Rightarrow> tree \<Rightarrow> tree" where
  "boxModifLocalDef body ldef = Tree (bsym BOXMODIFLOCALDEF) [body, ldef]"

definition isBoxModifLocalDef :: "tree \<Rightarrow> (tree \<times> tree) option" where
  "isBoxModifLocalDef t = isTree2 t (bsym BOXMODIFLOCALDEF)"

definition boxEnvironment :: "tree" where
  "boxEnvironment = Tree (bsym BOXENVIRONMENT) []"

definition isBoxEnvironment :: "tree \<Rightarrow> bool" where
  "isBoxEnvironment t \<longleftrightarrow> isTree0 t (bsym BOXENVIRONMENT)"

definition boxComponent :: "tree \<Rightarrow> tree" where
  "boxComponent filename = Tree (bsym BOXCOMPONENT) [filename]"

definition isBoxComponent :: "tree \<Rightarrow> tree option" where
  "isBoxComponent t = isTree1 t (bsym BOXCOMPONENT)"

definition boxLibrary :: "tree \<Rightarrow> tree" where
  "boxLibrary filename = Tree (bsym BOXLIBRARY) [filename]"

definition isBoxLibrary :: "tree \<Rightarrow> tree option" where
  "isBoxLibrary t = isTree1 t (bsym BOXLIBRARY)"

definition importFile :: "tree \<Rightarrow> tree" where
  "importFile filename = Tree (bsym IMPORTFILE) [filename]"

definition isImportFile :: "tree \<Rightarrow> tree option" where
  "isImportFile t = isTree1 t (bsym IMPORTFILE)"

fun buildBoxAbstr :: "tree \<Rightarrow> tree \<Rightarrow> tree result" where
  "buildBoxAbstr largs body =
     (if isNil largs then Inr body
      else rbind (hdT largs) (\<lambda>h. rbind (tlT largs) (\<lambda>t. buildBoxAbstr t (boxAbstr h body))))"

declare buildBoxAbstr.simps [simp del]

definition buildBoxAppl :: "tree \<Rightarrow> tree \<Rightarrow> tree result" where
  "buildBoxAppl fn revarglist =
     (if isNil revarglist then Inl (FaustException ''buildBoxAppl called with null revarglist'')
      else Inr (boxAppl fn revarglist))"

definition boxPrim0 :: "pointer \<Rightarrow> tree" where
  "boxPrim0 foo = Tree (bsym BOXPRIM0) [leaf (NPtr foo)]"

definition isBoxPrim0 :: "tree \<Rightarrow> tree option" where
  "isBoxPrim0 s = isTree1 s (bsym BOXPRIM0)"

definition isBoxPrim0_ptr :: "tree \<Rightarrow> pointer option" where
  "isBoxPrim0_ptr s = (case isTree1 s (bsym BOXPRIM0) of
      Some t \<Rightarrow> (case node t of NPtr p \<Rightarrow> Some p | _ \<Rightarrow> None) | None \<Rightarrow> None)"

definition boxPrim1 :: "pointer \<Rightarrow> tree" where
  "boxPrim1 foo = Tree (bsym BOXPRIM1) [leaf (NPtr foo)]"

definition isBoxPrim1 :: "tree \<Rightarrow> tree option" where
  "isBoxPrim1 s = isTree1 s (bsym BOXPRIM1)"

definition isBoxPrim1_ptr :: "tree \<Rightarrow> pointer option" where
  "isBoxPrim1_ptr s = (case isTree1 s (bsym BOXPRIM1) of
      Some t \<Rightarrow> (case node t of NPtr p \<Rightarrow> Some p | _ \<Rightarrow> None) | None \<Rightarrow> None)"

definition boxPrim2 :: "pointer \<Rightarrow> tree" where
  "boxPrim2 foo = Tree (bsym BOXPRIM2) [leaf (NPtr foo)]"

definition isBoxPrim2 :: "tree \<Rightarrow> tree option" where
  "isBoxPrim2 s = isTree1 s (bsym BOXPRIM2)"

definition isBoxPrim2_ptr :: "tree \<Rightarrow> pointer option" where
  "isBoxPrim2_ptr s = (case isTree1 s (bsym BOXPRIM2) of
      Some t \<Rightarrow> (case node t of NPtr p \<Rightarrow> Some p | _ \<Rightarrow> None) | None \<Rightarrow> None)"

definition boxPrim3 :: "pointer \<Rightarrow> tree" where
  "boxPrim3 foo = Tree (bsym BOXPRIM3) [leaf (NPtr foo)]"

definition isBoxPrim3 :: "tree \<Rightarrow> tree option" where
  "isBoxPrim3 s = isTree1 s (bsym BOXPRIM3)"

definition isBoxPrim3_ptr :: "tree \<Rightarrow> pointer option" where
  "isBoxPrim3_ptr s = (case isTree1 s (bsym BOXPRIM3) of
      Some t \<Rightarrow> (case node t of NPtr p \<Rightarrow> Some p | _ \<Rightarrow> None) | None \<Rightarrow> None)"

definition boxPrim4 :: "pointer \<Rightarrow> tree" where
  "boxPrim4 foo = Tree (bsym BOXPRIM4) [leaf (NPtr foo)]"

definition isBoxPrim4 :: "tree \<Rightarrow> tree option" where
  "isBoxPrim4 s = isTree1 s (bsym BOXPRIM4)"

definition isBoxPrim4_ptr :: "tree \<Rightarrow> pointer option" where
  "isBoxPrim4_ptr s = (case isTree1 s (bsym BOXPRIM4) of
      Some t \<Rightarrow> (case node t of NPtr p \<Rightarrow> Some p | _ \<Rightarrow> None) | None \<Rightarrow> None)"

definition boxPrim5 :: "pointer \<Rightarrow> tree" where
  "boxPrim5 foo = Tree (bsym BOXPRIM5) [leaf (NPtr foo)]"

definition isBoxPrim5 :: "tree \<Rightarrow> tree option" where
  "isBoxPrim5 s = isTree1 s (bsym BOXPRIM5)"

definition isBoxPrim5_ptr :: "tree \<Rightarrow> pointer option" where
  "isBoxPrim5_ptr s = (case isTree1 s (bsym BOXPRIM5) of
      Some t \<Rightarrow> (case node t of NPtr p \<Rightarrow> Some p | _ \<Rightarrow> None) | None \<Rightarrow> None)"

definition boxFFun :: "tree \<Rightarrow> tree" where
  "boxFFun ff = Tree (bsym BOXFFUN) [ff]"

definition isBoxFFun :: "tree \<Rightarrow> tree option" where
  "isBoxFFun t = isTree1 t (bsym BOXFFUN)"

definition boxFConst :: "tree \<Rightarrow> tree \<Rightarrow> tree \<Rightarrow> tree" where
  "boxFConst type name file = Tree (bsym BOXFCONST) [type, name, file]"

definition isBoxFConst :: "tree \<Rightarrow> (tree \<times> tree \<times> tree) option" where
  "isBoxFConst t = isTree3 t (bsym BOXFCONST)"

definition boxFVar :: "tree \<Rightarrow> tree \<Rightarrow> tree \<Rightarrow> tree" where
  "boxFVar type name file = Tree (bsym BOXFVAR) [type, name, file]"

definition isBoxFVar :: "tree \<Rightarrow> (tree \<times> tree \<times> tree) option" where
  "isBoxFVar t = isTree3 t (bsym BOXFVAR)"

definition boxButton :: "tree \<Rightarrow> tree" where
  "boxButton lbl = Tree (bsym BOXBUTTON) [lbl]"

definition isBoxButton :: "tree \<Rightarrow> tree option" where
  "isBoxButton t = isTree1 t (bsym BOXBUTTON)"

definition boxCheckbox :: "tree \<Rightarrow> tree" where
  "boxCheckbox lbl = Tree (bsym BOXCHECKBOX) [lbl]"

definition isBoxCheckbox :: "tree \<Rightarrow> tree option" where
  "isBoxCheckbox t = isTree1 t (bsym BOXCHECKBOX)"

definition boxHSlider :: "tree \<Rightarrow> tree \<Rightarrow> tree \<Rightarrow> tree \<Rightarrow> tree \<Rightarrow> tree" where
  "boxHSlider lbl cur mn mx step = Tree (bsym BOXHSLIDER) [lbl, list4 cur mn mx step]"

definition isBoxHSlider :: "tree \<Rightarrow> (tree \<times> tree \<times> tree \<times> tree \<times> tree) option" where
  "isBoxHSlider s = (case isTree2 s (bsym BOXHSLIDER) of
      Some (lbl, params) \<Rightarrow> Some (lbl, nthT params 0, nthT params 1, nthT params 2, nthT params 3)
    | None \<Rightarrow> None)"

definition boxVSlider :: "tree \<Rightarrow> tree \<Rightarrow> tree \<Rightarrow> tree \<Rightarrow> tree \<Rightarrow> tree" where
  "boxVSlider lbl cur mn mx step = Tree (bsym BOXVSLIDER) [lbl, list4 cur mn mx step]"

definition isBoxVSlider :: "tree \<Rightarrow> (tree \<times> tree \<times> tree \<times> tree \<times> tree) option" where
  "isBoxVSlider s = (case isTree2 s (bsym BOXVSLIDER) of
      Some (lbl, params) \<Rightarrow> Some (lbl, nthT params 0, nthT params 1, nthT params 2, nthT params 3)
    | None \<Rightarrow> None)"

definition boxNumEntry :: "tree \<Rightarrow> tree \<Rightarrow> tree \<Rightarrow> tree \<Rightarrow> tree \<Rightarrow> tree" where
  "boxNumEntry lbl cur mn mx step = Tree (bsym BOXNUMENTRY) [lbl, list4 cur mn mx step]"

definition isBoxNumEntry :: "tree \<Rightarrow> (tree \<times> tree \<times> tree \<times> tree \<times> tree) option" where
  "isBoxNumEntry s = (case isTree2 s (bsym BOXNUMENTRY) of
      Some (lbl, params) \<Rightarrow> Some (lbl, nthT params 0, nthT params 1, nthT params 2, nthT params 3)
    | None \<Rightarrow> None)"

definition boxHGroup :: "tree \<Rightarrow> tree \<Rightarrow> tree" where
  "boxHGroup lbl x = Tree (bsym BOXHGROUP) [lbl, x]"

definition isBoxHGroup :: "tree \<Rightarrow> (tree \<times> tree) option" where
  "isBoxHGroup t = isTree2 t (bsym BOXHGROUP)"

definition boxVGroup :: "tree \<Rightarrow> tree \<Rightarrow> tree" where
  "boxVGroup lbl x = Tree (bsym BOXVGROUP) [lbl, x]"

definition isBoxVGroup :: "tree \<Rightarrow> (tree \<times> tree) option" where
  "isBoxVGroup t = isTree2 t (bsym BOXVGROUP)"

definition boxTGroup :: "tree \<Rightarrow> tree \<Rightarrow> tree" where
  "boxTGroup lbl x = Tree (bsym BOXTGROUP) [lbl, x]"

definition isBoxTGroup :: "tree \<Rightarrow> (tree \<times> tree) option" where
  "isBoxTGroup t = isTree2 t (bsym BOXTGROUP)"

definition boxHBargraph :: "tree \<Rightarrow> tree \<Rightarrow> tree \<Rightarrow> tree" where
  "boxHBargraph lbl mn mx = Tree (bsym BOXHBARGRAPH) [lbl, mn, mx]"

definition isBoxHBargraph :: "tree \<Rightarrow> (tree \<times> tree \<times> tree) option" where
  "isBoxHBargraph t = isTree3 t (bsym BOXHBARGRAPH)"

definition boxVBargraph :: "tree \<Rightarrow> tree \<Rightarrow> tree \<Rightarrow> tree" where
  "boxVBargraph lbl mn mx = Tree (bsym BOXVBARGRAPH) [lbl, mn, mx]"

definition isBoxVBargraph :: "tree \<Rightarrow> (tree \<times> tree \<times> tree) option" where
  "isBoxVBargraph t = isTree3 t (bsym BOXVBARGRAPH)"

definition boxCaseInternal :: "tree \<Rightarrow> tree" where
  "boxCaseInternal rules = Tree (bsym BOXCASE) [rules]"

definition isBoxCase :: "tree \<Rightarrow> tree option" where
  "isBoxCase t = isTree1 t (bsym BOXCASE)"

definition boxPatternVar :: "tree \<Rightarrow> tree" where
  "boxPatternVar ident = Tree (bsym BOXPATVAR) [ident]"

definition isBoxPatternVar :: "tree \<Rightarrow> tree option" where
  "isBoxPatternVar t = isTree1 t (bsym BOXPATVAR)"

definition boxPatternMatcher :: "pointer \<Rightarrow> int \<Rightarrow> tree \<Rightarrow> tree \<Rightarrow> tree \<Rightarrow> tree" where
  "boxPatternMatcher a state env origRules revParamList =
     Tree (bsym BOXPATMATCHER) [leaf (NPtr a), leaf (NInt state), env, origRules, revParamList]"

definition isBoxPatternMatcher :: "tree \<Rightarrow> (pointer \<times> int \<times> tree \<times> tree \<times> tree) option result" where
  "isBoxPatternMatcher s = (case isTree5 s (bsym BOXPATMATCHER) of
      Some (ta, ts, env, origRules, revParamList) \<Rightarrow>
        rbind (tree2ptr ta) (\<lambda>a. rbind (tree2int ts) (\<lambda>state.
          Inr (Some (a, state, env, origRules, revParamList))))
    | None \<Rightarrow> Inr None)"

section \<open>The form of a box\<close>

datatype box_form =
    BvXtended xprim | BvInt int | BvReal double | BvIdent | BvWaveform | BvSlot tree
  | BvCut
  | BvWire
  | BvSymbolic tree tree
  | BvSeq tree tree
  | BvPar tree tree
  | BvRec tree tree
  | BvSplit tree tree
  | BvMerge tree tree
  | BvIPar tree tree tree
  | BvISeq tree tree tree
  | BvISum tree tree tree
  | BvIProd tree tree tree
  | BvInputs tree
  | BvOutputs tree
  | BvAbstr tree tree
  | BvAppl tree tree
  | BvClosure tree tree tree tree
  | BvError
  | BvAccess tree tree
  | BvWithLocalDef tree tree
  | BvModifLocalDef tree tree
  | BvEnvironment
  | BvComponent tree
  | BvLibrary tree
  | BvImportFile tree
  | BvFFun tree
  | BvFConst tree tree tree
  | BvFVar tree tree tree
  | BvButton tree
  | BvCheckbox tree
  | BvHGroup tree tree
  | BvVGroup tree tree
  | BvTGroup tree tree
  | BvHBargraph tree tree tree
  | BvVBargraph tree tree tree
  | BvCaseInternal tree
  | BvPatternVar tree
  | BvHSlider tree tree
  | BvVSlider tree tree
  | BvNumEntry tree tree
  | BvPrim nat tree | BvNil | BvList | BvOther

definition view_sym :: "boxkw \<Rightarrow> tree list \<Rightarrow> box_form" where
  "view_sym k br = (case k of
      BOXIDENT \<Rightarrow> BvIdent
    | BOXWAVEFORM \<Rightarrow> BvWaveform
    | BOXSLOT \<Rightarrow> (case br of [a] \<Rightarrow> BvSlot a | _ \<Rightarrow> BvOther)
    | BOXCUT \<Rightarrow> BvCut
    | BOXWIRE \<Rightarrow> BvWire
    | BOXSYMBOLIC \<Rightarrow> (case br of [a, b] \<Rightarrow> BvSymbolic a b | _ \<Rightarrow> BvOther)
    | BOXSEQ \<Rightarrow> (case br of [a, b] \<Rightarrow> BvSeq a b | _ \<Rightarrow> BvOther)
    | BOXPAR \<Rightarrow> (case br of [a, b] \<Rightarrow> BvPar a b | _ \<Rightarrow> BvOther)
    | BOXREC \<Rightarrow> (case br of [a, b] \<Rightarrow> BvRec a b | _ \<Rightarrow> BvOther)
    | BOXSPLIT \<Rightarrow> (case br of [a, b] \<Rightarrow> BvSplit a b | _ \<Rightarrow> BvOther)
    | BOXMERGE \<Rightarrow> (case br of [a, b] \<Rightarrow> BvMerge a b | _ \<Rightarrow> BvOther)
    | BOXIPAR \<Rightarrow> (case br of [a, b, c] \<Rightarrow> BvIPar a b c | _ \<Rightarrow> BvOther)
    | BOXISEQ \<Rightarrow> (case br of [a, b, c] \<Rightarrow> BvISeq a b c | _ \<Rightarrow> BvOther)
    | BOXISUM \<Rightarrow> (case br of [a, b, c] \<Rightarrow> BvISum a b c | _ \<Rightarrow> BvOther)
    | BOXIPROD \<Rightarrow> (case br of [a, b, c] \<Rightarrow> BvIProd a b c | _ \<Rightarrow> BvOther)
    | BOXINPUTS \<Rightarrow> (case br of [a] \<Rightarrow> BvInputs a | _ \<Rightarrow> BvOther)
    | BOXOUTPUTS \<Rightarrow> (case br of [a] \<Rightarrow> BvOutputs a | _ \<Rightarrow> BvOther)
    | BOXABSTR \<Rightarrow> (case br of [a, b] \<Rightarrow> BvAbstr a b | _ \<Rightarrow> BvOther)
    | BOXAPPL \<Rightarrow> (case br of [a, b] \<Rightarrow> BvAppl a b | _ \<Rightarrow> BvOther)
    | CLOSURE \<Rightarrow> (case br of [a, b, c, d] \<Rightarrow> BvClosure a b c d | _ \<Rightarrow> BvOther)
    | BOXERROR \<Rightarrow> BvError
    | BOXACCESS \<Rightarrow> (case br of [a, b] \<Rightarrow> BvAccess a b | _ \<Rightarrow> BvOther)
    | BOXWITHLOCALDEF \<Rightarrow> (case br of [a, b] \<Rightarrow> BvWithLocalDef a b | _ \<Rightarrow> BvOther)
    | BOXMODIFLOCALDEF \<Rightarrow> (case br of [a, b] \<Rightarrow> BvModifLocalDef a b | _ \<Rightarrow> BvOther)
    | BOXENVIRONMENT \<Rightarrow> BvEnvironment
    | BOXCOMPONENT \<Rightarrow> (case br of [a] \<Rightarrow> BvComponent a | _ \<Rightarrow> BvOther)
    | BOXLIBRARY \<Rightarrow> (case br of [a] \<Rightarrow> BvLibrary a | _ \<Rightarrow> BvOther)
    | IMPORTFILE \<Rightarrow> (case br of [a] \<Rightarrow> BvImportFile a | _ \<Rightarrow> BvOther)
    | BOXFFUN \<Rightarrow> (case br of [a] \<Rightarrow> BvFFun a | _ \<Rightarrow> BvOther)
    | BOXFCONST \<Rightarrow> (case br of [a, b, c] \<Rightarrow> BvFConst a b c | _ \<Rightarrow> BvOther)
    | BOXFVAR \<Rightarrow> (case br of [a, b, c] \<Rightarrow> BvFVar a b c | _ \<Rightarrow> BvOther)
    | BOXBUTTON \<Rightarrow> (case br of [a] \<Rightarrow> BvButton a | _ \<Rightarrow> BvOther)
    | BOXCHECKBOX \<Rightarrow> (case br of [a] \<Rightarrow> BvCheckbox a | _ \<Rightarrow> BvOther)
    | BOXHGROUP \<Rightarrow> (case br of [a, b] \<Rightarrow> BvHGroup a b | _ \<Rightarrow> BvOther)
    | BOXVGROUP \<Rightarrow> (case br of [a, b] \<Rightarrow> BvVGroup a b | _ \<Rightarrow> BvOther)
    | BOXTGROUP \<Rightarrow> (case br of [a, b] \<Rightarrow> BvTGroup a b | _ \<Rightarrow> BvOther)
    | BOXHBARGRAPH \<Rightarrow> (case br of [a, b, c] \<Rightarrow> BvHBargraph a b c | _ \<Rightarrow> BvOther)
    | BOXVBARGRAPH \<Rightarrow> (case br of [a, b, c] \<Rightarrow> BvVBargraph a b c | _ \<Rightarrow> BvOther)
    | BOXCASE \<Rightarrow> (case br of [a] \<Rightarrow> BvCaseInternal a | _ \<Rightarrow> BvOther)
    | BOXPATVAR \<Rightarrow> (case br of [a] \<Rightarrow> BvPatternVar a | _ \<Rightarrow> BvOther)
    | BOXHSLIDER \<Rightarrow> (case br of [a, b] \<Rightarrow> BvHSlider a b | _ \<Rightarrow> BvOther)
    | BOXVSLIDER \<Rightarrow> (case br of [a, b] \<Rightarrow> BvVSlider a b | _ \<Rightarrow> BvOther)
    | BOXNUMENTRY \<Rightarrow> (case br of [a, b] \<Rightarrow> BvNumEntry a b | _ \<Rightarrow> BvOther)
    | BOXPRIM0 \<Rightarrow> (case br of [a] \<Rightarrow> BvPrim 0 a | _ \<Rightarrow> BvOther)
    | BOXPRIM1 \<Rightarrow> (case br of [a] \<Rightarrow> BvPrim 1 a | _ \<Rightarrow> BvOther)
    | BOXPRIM2 \<Rightarrow> (case br of [a] \<Rightarrow> BvPrim 2 a | _ \<Rightarrow> BvOther)
    | BOXPRIM3 \<Rightarrow> (case br of [a] \<Rightarrow> BvPrim 3 a | _ \<Rightarrow> BvOther)
    | BOXPRIM4 \<Rightarrow> (case br of [a] \<Rightarrow> BvPrim 4 a | _ \<Rightarrow> BvOther)
    | BOXPRIM5 \<Rightarrow> (case br of [a] \<Rightarrow> BvPrim 5 a | _ \<Rightarrow> BvOther)
    | _ \<Rightarrow> BvOther)"

definition box_view :: "tree \<Rightarrow> box_form" where
  "box_view t = (case node t of
      NSym (Xt p) \<Rightarrow> BvXtended p
    | NInt i \<Rightarrow> BvInt i
    | NDouble r \<Rightarrow> BvReal r
    | NSym (KBox k) \<Rightarrow> view_sym k (branches t)
    | _ \<Rightarrow> if isNil t then BvNil else if isList t then BvList else BvOther)"

lemmas box_constructor_defs = boxCut_def
  boxWire_def
  boxSymbolic_def
  boxSeq_def
  boxPar_def
  boxRec_def
  boxSplit_def
  boxMerge_def
  boxIPar_def
  boxISeq_def
  boxISum_def
  boxIProd_def
  boxInputs_def
  boxOutputs_def
  boxAbstr_def
  boxAppl_def
  closure_def
  boxError_def
  boxAccess_def
  boxWithLocalDef_def
  boxModifLocalDef_def
  boxEnvironment_def
  boxComponent_def
  boxLibrary_def
  importFile_def
  boxFFun_def
  boxFConst_def
  boxFVar_def
  boxButton_def
  boxCheckbox_def
  boxHGroup_def
  boxVGroup_def
  boxTGroup_def
  boxHBargraph_def
  boxVBargraph_def
  boxCaseInternal_def
  boxPatternVar_def
  boxPrim0_def
  boxPrim1_def
  boxPrim2_def
  boxPrim3_def
  boxPrim4_def
  boxPrim5_def
  boxHSlider_def
  boxVSlider_def
  boxNumEntry_def
  boxIdent_def boxInt_def boxReal_def boxWaveform_def boxSlot_def

lemmas box_recogniser_defs = isBoxCut_def
  isBoxWire_def
  isBoxSymbolic_def
  isBoxSeq_def
  isBoxPar_def
  isBoxRec_def
  isBoxSplit_def
  isBoxMerge_def
  isBoxIPar_def
  isBoxISeq_def
  isBoxISum_def
  isBoxIProd_def
  isBoxInputs_def
  isBoxOutputs_def
  isBoxAbstr_def
  isBoxAppl_def
  isClosure_def
  isBoxError_def
  isBoxAccess_def
  isBoxWithLocalDef_def
  isBoxModifLocalDef_def
  isBoxEnvironment_def
  isBoxComponent_def
  isBoxLibrary_def
  isImportFile_def
  isBoxFFun_def
  isBoxFConst_def
  isBoxFVar_def
  isBoxButton_def
  isBoxCheckbox_def
  isBoxHGroup_def
  isBoxVGroup_def
  isBoxTGroup_def
  isBoxHBargraph_def
  isBoxVBargraph_def
  isBoxCase_def
  isBoxPatternVar_def
  isBoxPrim0_def
  isBoxPrim1_def
  isBoxPrim2_def
  isBoxPrim3_def
  isBoxPrim4_def
  isBoxPrim5_def
  isBoxHSlider_def
  isBoxVSlider_def
  isBoxNumEntry_def
  isBoxIdent_def isBoxInt_def isBoxReal_def isBoxWaveform_def isBoxSlot_def

lemma box_view_constructors [simp]:
  "box_view (boxCut) = BvCut"
  "box_view (boxWire) = BvWire"
  "box_view (boxSymbolic slot body) = BvSymbolic slot body"
  "box_view (boxSeq x y) = BvSeq x y"
  "box_view (boxPar x y) = BvPar x y"
  "box_view (boxRec x y) = BvRec x y"
  "box_view (boxSplit x y) = BvSplit x y"
  "box_view (boxMerge x y) = BvMerge x y"
  "box_view (boxIPar x y z) = BvIPar x y z"
  "box_view (boxISeq x y z) = BvISeq x y z"
  "box_view (boxISum x y z) = BvISum x y z"
  "box_view (boxIProd x y z) = BvIProd x y z"
  "box_view (boxInputs x) = BvInputs x"
  "box_view (boxOutputs x) = BvOutputs x"
  "box_view (boxAbstr x y) = BvAbstr x y"
  "box_view (boxAppl x y) = BvAppl x y"
  "box_view (closure abstr genv vis lenv) = BvClosure abstr genv vis lenv"
  "box_view (boxError) = BvError"
  "box_view (boxAccess e ident) = BvAccess e ident"
  "box_view (boxWithLocalDef body ldef) = BvWithLocalDef body ldef"
  "box_view (boxModifLocalDef body ldef) = BvModifLocalDef body ldef"
  "box_view (boxEnvironment) = BvEnvironment"
  "box_view (boxComponent filename) = BvComponent filename"
  "box_view (boxLibrary filename) = BvLibrary filename"
  "box_view (importFile filename) = BvImportFile filename"
  "box_view (boxFFun ff) = BvFFun ff"
  "box_view (boxFConst type name file) = BvFConst type name file"
  "box_view (boxFVar type name file) = BvFVar type name file"
  "box_view (boxButton lbl) = BvButton lbl"
  "box_view (boxCheckbox lbl) = BvCheckbox lbl"
  "box_view (boxHGroup lbl x) = BvHGroup lbl x"
  "box_view (boxVGroup lbl x) = BvVGroup lbl x"
  "box_view (boxTGroup lbl x) = BvTGroup lbl x"
  "box_view (boxHBargraph lbl mn mx) = BvHBargraph lbl mn mx"
  "box_view (boxVBargraph lbl mn mx) = BvVBargraph lbl mn mx"
  "box_view (boxCaseInternal rules) = BvCaseInternal rules"
  "box_view (boxPatternVar ident) = BvPatternVar ident"
  "box_view (boxHSlider lbl cur mn mx step) = BvHSlider lbl (list4 cur mn mx step)"
  "box_view (boxVSlider lbl cur mn mx step) = BvVSlider lbl (list4 cur mn mx step)"
  "box_view (boxNumEntry lbl cur mn mx step) = BvNumEntry lbl (list4 cur mn mx step)"
  "box_view (boxPrim0 foo) = BvPrim 0 (leaf (NPtr foo))"
  "box_view (boxPrim1 foo) = BvPrim 1 (leaf (NPtr foo))"
  "box_view (boxPrim2 foo) = BvPrim 2 (leaf (NPtr foo))"
  "box_view (boxPrim3 foo) = BvPrim 3 (leaf (NPtr foo))"
  "box_view (boxPrim4 foo) = BvPrim 4 (leaf (NPtr foo))"
  "box_view (boxPrim5 foo) = BvPrim 5 (leaf (NPtr foo))"
  "box_view (boxIdent s) = BvIdent" "box_view (boxInt i) = BvInt i" "box_view (boxReal r) = BvReal r"
  "box_view (boxWaveform br) = BvWaveform" "box_view (boxSlot i) = BvSlot (leaf (NInt i))"
  "box_view nil = BvNil" "box_view (cons h t) = BvList"
  by (simp_all add: box_view_def view_sym_def box_constructor_defs leaf_def
      nil_def cons_def isNil_def isList_def arity_def)

definition has_form :: "tree \<Rightarrow> box_form \<Rightarrow> bool" where
  "has_form t v \<longleftrightarrow> (case v of
      BvCut \<Rightarrow> node t = bsym BOXCUT
    | BvWire \<Rightarrow> node t = bsym BOXWIRE
    | BvSymbolic slot body \<Rightarrow> t = boxSymbolic slot body
    | BvSeq x y \<Rightarrow> t = boxSeq x y
    | BvPar x y \<Rightarrow> t = boxPar x y
    | BvRec x y \<Rightarrow> t = boxRec x y
    | BvSplit x y \<Rightarrow> t = boxSplit x y
    | BvMerge x y \<Rightarrow> t = boxMerge x y
    | BvIPar x y z \<Rightarrow> t = boxIPar x y z
    | BvISeq x y z \<Rightarrow> t = boxISeq x y z
    | BvISum x y z \<Rightarrow> t = boxISum x y z
    | BvIProd x y z \<Rightarrow> t = boxIProd x y z
    | BvInputs x \<Rightarrow> t = boxInputs x
    | BvOutputs x \<Rightarrow> t = boxOutputs x
    | BvAbstr x y \<Rightarrow> t = boxAbstr x y
    | BvAppl x y \<Rightarrow> t = boxAppl x y
    | BvClosure abstr genv vis lenv \<Rightarrow> t = closure abstr genv vis lenv
    | BvError \<Rightarrow> node t = bsym BOXERROR
    | BvAccess e ident \<Rightarrow> t = boxAccess e ident
    | BvWithLocalDef body ldef \<Rightarrow> t = boxWithLocalDef body ldef
    | BvModifLocalDef body ldef \<Rightarrow> t = boxModifLocalDef body ldef
    | BvEnvironment \<Rightarrow> node t = bsym BOXENVIRONMENT
    | BvComponent filename \<Rightarrow> t = boxComponent filename
    | BvLibrary filename \<Rightarrow> t = boxLibrary filename
    | BvImportFile filename \<Rightarrow> t = importFile filename
    | BvFFun ff \<Rightarrow> t = boxFFun ff
    | BvFConst type name file \<Rightarrow> t = boxFConst type name file
    | BvFVar type name file \<Rightarrow> t = boxFVar type name file
    | BvButton lbl \<Rightarrow> t = boxButton lbl
    | BvCheckbox lbl \<Rightarrow> t = boxCheckbox lbl
    | BvHGroup lbl x \<Rightarrow> t = boxHGroup lbl x
    | BvVGroup lbl x \<Rightarrow> t = boxVGroup lbl x
    | BvTGroup lbl x \<Rightarrow> t = boxTGroup lbl x
    | BvHBargraph lbl mn mx \<Rightarrow> t = boxHBargraph lbl mn mx
    | BvVBargraph lbl mn mx \<Rightarrow> t = boxVBargraph lbl mn mx
    | BvCaseInternal rules \<Rightarrow> t = boxCaseInternal rules
    | BvPatternVar ident \<Rightarrow> t = boxPatternVar ident
    | BvHSlider lbl params \<Rightarrow> t = Tree (bsym BOXHSLIDER) [lbl, params]
    | BvVSlider lbl params \<Rightarrow> t = Tree (bsym BOXVSLIDER) [lbl, params]
    | BvNumEntry lbl params \<Rightarrow> t = Tree (bsym BOXNUMENTRY) [lbl, params]
    | BvPrim k w \<Rightarrow> k < 6 \<and> t = Tree (bsym ([BOXPRIM0, BOXPRIM1, BOXPRIM2, BOXPRIM3, BOXPRIM4, BOXPRIM5] ! k)) [w]
    | BvSlot w \<Rightarrow> t = Tree (bsym BOXSLOT) [w]
    | BvNil \<Rightarrow> t = nil
    | BvList \<Rightarrow> isList t
    | BvInt i \<Rightarrow> node t = NInt i
    | BvReal r \<Rightarrow> node t = NDouble r
    | BvXtended p \<Rightarrow> node t = NSym (Xt p)
    | BvIdent \<Rightarrow> node t = bsym BOXIDENT
    | BvWaveform \<Rightarrow> node t = bsym BOXWAVEFORM
    | BvOther \<Rightarrow> True)"

lemma view_sym_form: "has_form (Tree (bsym k) br) (view_sym k br)"
  by (cases k) (auto simp: view_sym_def has_form_def box_constructor_defs split: list.splits)

lemma box_view_form: "has_form t (box_view t)"
proof (cases t)
  case (Tree n br)
  show ?thesis
  proof (cases n)
    case (NSym s)
    with Tree show ?thesis
      by (cases s) (auto simp: box_view_def view_sym_form, auto simp: has_form_def isNil_iff)
  qed (use Tree in \<open>auto simp: box_view_def has_form_def isNil_iff\<close>)
qed

lemma box_viewD: "box_view t = v \<Longrightarrow> has_form t v"
  using box_view_form by blast

lemma recognisers_view:
  "isBoxCut t \<longleftrightarrow> box_view t = BvCut"
  "isBoxWire t \<longleftrightarrow> box_view t = BvWire"
  "isBoxSymbolic t = Some (slot, body) \<longleftrightarrow> box_view t = BvSymbolic slot body"
  "isBoxSeq t = Some (x, y) \<longleftrightarrow> box_view t = BvSeq x y"
  "isBoxPar t = Some (x, y) \<longleftrightarrow> box_view t = BvPar x y"
  "isBoxRec t = Some (x, y) \<longleftrightarrow> box_view t = BvRec x y"
  "isBoxSplit t = Some (x, y) \<longleftrightarrow> box_view t = BvSplit x y"
  "isBoxMerge t = Some (x, y) \<longleftrightarrow> box_view t = BvMerge x y"
  "isBoxIPar t = Some (x, y, z) \<longleftrightarrow> box_view t = BvIPar x y z"
  "isBoxISeq t = Some (x, y, z) \<longleftrightarrow> box_view t = BvISeq x y z"
  "isBoxISum t = Some (x, y, z) \<longleftrightarrow> box_view t = BvISum x y z"
  "isBoxIProd t = Some (x, y, z) \<longleftrightarrow> box_view t = BvIProd x y z"
  "isBoxInputs t = Some x \<longleftrightarrow> box_view t = BvInputs x"
  "isBoxOutputs t = Some x \<longleftrightarrow> box_view t = BvOutputs x"
  "isBoxAbstr t = Some (x, y) \<longleftrightarrow> box_view t = BvAbstr x y"
  "isBoxAppl t = Some (x, y) \<longleftrightarrow> box_view t = BvAppl x y"
  "isClosure t = Some (abstr, genv, vis, lenv) \<longleftrightarrow> box_view t = BvClosure abstr genv vis lenv"
  "isBoxError t \<longleftrightarrow> box_view t = BvError"
  "isBoxAccess t = Some (e, ident) \<longleftrightarrow> box_view t = BvAccess e ident"
  "isBoxWithLocalDef t = Some (body, ldef) \<longleftrightarrow> box_view t = BvWithLocalDef body ldef"
  "isBoxModifLocalDef t = Some (body, ldef) \<longleftrightarrow> box_view t = BvModifLocalDef body ldef"
  "isBoxEnvironment t \<longleftrightarrow> box_view t = BvEnvironment"
  "isBoxComponent t = Some filename \<longleftrightarrow> box_view t = BvComponent filename"
  "isBoxLibrary t = Some filename \<longleftrightarrow> box_view t = BvLibrary filename"
  "isImportFile t = Some filename \<longleftrightarrow> box_view t = BvImportFile filename"
  "isBoxFFun t = Some ff \<longleftrightarrow> box_view t = BvFFun ff"
  "isBoxFConst t = Some (type, name, file) \<longleftrightarrow> box_view t = BvFConst type name file"
  "isBoxFVar t = Some (type, name, file) \<longleftrightarrow> box_view t = BvFVar type name file"
  "isBoxButton t = Some lbl \<longleftrightarrow> box_view t = BvButton lbl"
  "isBoxCheckbox t = Some lbl \<longleftrightarrow> box_view t = BvCheckbox lbl"
  "isBoxHGroup t = Some (lbl, x) \<longleftrightarrow> box_view t = BvHGroup lbl x"
  "isBoxVGroup t = Some (lbl, x) \<longleftrightarrow> box_view t = BvVGroup lbl x"
  "isBoxTGroup t = Some (lbl, x) \<longleftrightarrow> box_view t = BvTGroup lbl x"
  "isBoxHBargraph t = Some (lbl, mn, mx) \<longleftrightarrow> box_view t = BvHBargraph lbl mn mx"
  "isBoxVBargraph t = Some (lbl, mn, mx) \<longleftrightarrow> box_view t = BvVBargraph lbl mn mx"
  "isBoxCase t = Some rules \<longleftrightarrow> box_view t = BvCaseInternal rules"
  "isBoxPatternVar t = Some ident \<longleftrightarrow> box_view t = BvPatternVar ident"
  "isBoxPrim0 t = Some w \<longleftrightarrow> box_view t = BvPrim 0 w"
  "isBoxPrim1 t = Some w \<longleftrightarrow> box_view t = BvPrim 1 w"
  "isBoxPrim2 t = Some w \<longleftrightarrow> box_view t = BvPrim 2 w"
  "isBoxPrim3 t = Some w \<longleftrightarrow> box_view t = BvPrim 3 w"
  "isBoxPrim4 t = Some w \<longleftrightarrow> box_view t = BvPrim 4 w"
  "isBoxPrim5 t = Some w \<longleftrightarrow> box_view t = BvPrim 5 w"
  "isBoxSlot t = Some w \<longleftrightarrow> box_view t = BvSlot w"
  "isBoxIdent t \<longleftrightarrow> box_view t = BvIdent" "isBoxWaveform t \<longleftrightarrow> box_view t = BvWaveform"
  by (rule iffI, simp add: box_recogniser_defs isTree_Some isTree0_def box_view_def view_sym_def,
      drule box_viewD, simp add: has_form_def box_recogniser_defs isTree_Some isTree0_def box_constructor_defs)+

section \<open>Patterns of case expressions\<close>

function rlmap_loop :: "(tree \<Rightarrow> tree result) \<Rightarrow> tree \<Rightarrow> tree \<Rightarrow> tree result" where
  "rlmap_loop f l r = (case asList l of
      Some (h, t) \<Rightarrow> rbind (f h) (\<lambda>y. rlmap_loop f t (cons y r))
    | None \<Rightarrow> Inr r)"
  by auto
termination by (relation "measure (\<lambda>(f, l, r). size l)") (auto dest: asList_size)

declare rlmap_loop.simps [simp del]

definition rlmap :: "(tree \<Rightarrow> tree result) \<Rightarrow> tree \<Rightarrow> tree result" where
  "rlmap f l = rbind (rlmap_loop f l nil) (\<lambda>r. Inr (reverseT r))"

fun tlist :: "tree \<Rightarrow> tree list" where
  "tlist l = (case asList l of Some (h, t) \<Rightarrow> h # tlist t | None \<Rightarrow> [])"

declare tlist.simps [simp del]

lemma tlist_simps [simp]: "tlist nil = []" "tlist (cons h t) = h # tlist t"
  by (simp_all add: tlist.simps)

lemma tlist_list_tree [simp]: "tlist (list_tree xs) = xs"
  by (induction xs) simp_all

lemma tlist_size [termination_simp]: "x \<in> set (tlist l) \<Longrightarrow> size x < size l"
proof (induction l rule: tlist.induct)
  case (1 l)
  show ?case
  proof (cases "asList l")
    case (Some p)
    obtain h t where ht: "asList l = Some (h, t)" using Some by (cases p) auto
    then have "x = h \<or> x \<in> set (tlist t)" using "1.prems" by (simp add: tlist.simps [of l])
    moreover have "size h < size l" "size t < size l" using asList_size [OF ht] by simp_all
    moreover have "x \<in> set (tlist t) \<Longrightarrow> size x < size t" using "1.IH" [OF ht refl] by simp
    ultimately show ?thesis by fastforce
  qed (use "1.prems" in \<open>simp add: tlist.simps [of l]\<close>)
qed

lemma rlmap_loop_eq: "rlmap_loop f l r = rbind (rmap f (tlist l)) (\<lambda>ys. Inr (foldr cons (rev ys) r))"
proof (induction f l r rule: rlmap_loop.induct)
  case (1 f l r)
  show ?case
  proof (cases "asList l")
    case (Some p)
    obtain h t where ht: "asList l = Some (h, t)" using Some by (cases p) auto
    then have l: "tlist l = h # tlist t" by (simp add: tlist.simps [of l])
    show ?thesis
    proof (cases "f h")
      case (Inr y)
      have "rlmap_loop f l r = rlmap_loop f t (cons y r)" using ht Inr by (simp add: rlmap_loop.simps [of f l])
      also have "\<dots> = rbind (rmap f (tlist t)) (\<lambda>ys. Inr (foldr cons (rev ys) (cons y r)))"
        using "1.IH" [OF ht refl Inr] .
      finally show ?thesis using l Inr by (cases "rmap f (tlist t)") simp_all
    qed (use ht l in \<open>simp add: rlmap_loop.simps [of f l]\<close>)
  qed (simp add: rlmap_loop.simps [of f l] tlist.simps [of l])
qed

lemma rlmap_eq: "rlmap f l = rbind (rmap f (tlist l)) (\<lambda>ys. Inr (list_tree ys))"
  by (cases "rmap f (tlist l)") (simp_all add: rlmap_def rlmap_loop_eq)

lemma rlmap_cong [fundef_cong]:
  "l = l' \<Longrightarrow> (\<And>x. x \<in> set (tlist l') \<Longrightarrow> f x = g x) \<Longrightarrow> rlmap f l = rlmap g l'"
  by (simp add: rlmap_eq cong: rmap_cong)

definition isPointerNode :: "node \<Rightarrow> bool" where
  "isPointerNode n = (case n of NPtr _ \<Rightarrow> True | _ \<Rightarrow> False)"

definition form_size :: "box_form \<Rightarrow> nat \<Rightarrow> bool" where
  "form_size v n \<longleftrightarrow> (case v of
      BvSymbolic a b \<Rightarrow> size a < n \<and> size b < n
    | BvSeq a b \<Rightarrow> size a < n \<and> size b < n
    | BvPar a b \<Rightarrow> size a < n \<and> size b < n
    | BvRec a b \<Rightarrow> size a < n \<and> size b < n
    | BvSplit a b \<Rightarrow> size a < n \<and> size b < n
    | BvMerge a b \<Rightarrow> size a < n \<and> size b < n
    | BvIPar a b c \<Rightarrow> size a < n \<and> size b < n \<and> size c < n
    | BvISeq a b c \<Rightarrow> size a < n \<and> size b < n \<and> size c < n
    | BvISum a b c \<Rightarrow> size a < n \<and> size b < n \<and> size c < n
    | BvIProd a b c \<Rightarrow> size a < n \<and> size b < n \<and> size c < n
    | BvInputs a \<Rightarrow> size a < n
    | BvOutputs a \<Rightarrow> size a < n
    | BvAbstr a b \<Rightarrow> size a < n \<and> size b < n
    | BvAppl a b \<Rightarrow> size a < n \<and> size b < n
    | BvWithLocalDef a b \<Rightarrow> size a < n \<and> size b < n
    | BvAccess a b \<Rightarrow> size a < n \<and> size b < n
    | BvHGroup a b \<Rightarrow> size a < n \<and> size b < n
    | BvVGroup a b \<Rightarrow> size a < n \<and> size b < n
    | BvTGroup a b \<Rightarrow> size a < n \<and> size b < n
    | _ \<Rightarrow> True)"

lemma box_view_size: "box_view t = v \<Longrightarrow> form_size v (size t)"
  by (drule box_viewD) (auto simp: form_size_def has_form_def box_constructor_defs split: box_form.splits)

lemma box_view_less [termination_simp]:
  "box_view t = BvSymbolic a b \<Longrightarrow> size b < size t"
  "box_view t = BvSeq a b \<Longrightarrow> size a < size t" "box_view t = BvSeq a b \<Longrightarrow> size b < size t"
  "box_view t = BvPar a b \<Longrightarrow> size a < size t" "box_view t = BvPar a b \<Longrightarrow> size b < size t"
  "box_view t = BvRec a b \<Longrightarrow> size a < size t" "box_view t = BvRec a b \<Longrightarrow> size b < size t"
  "box_view t = BvSplit a b \<Longrightarrow> size a < size t" "box_view t = BvSplit a b \<Longrightarrow> size b < size t"
  "box_view t = BvMerge a b \<Longrightarrow> size a < size t" "box_view t = BvMerge a b \<Longrightarrow> size b < size t"
  "box_view t = BvIPar a b c \<Longrightarrow> size c < size t" "box_view t = BvISeq a b c \<Longrightarrow> size c < size t"
  "box_view t = BvISum a b c \<Longrightarrow> size c < size t" "box_view t = BvIProd a b c \<Longrightarrow> size c < size t"
  "box_view t = BvInputs a \<Longrightarrow> size a < size t" "box_view t = BvOutputs a \<Longrightarrow> size a < size t"
  "box_view t = BvAbstr a b \<Longrightarrow> size b < size t"
  "box_view t = BvAppl a b \<Longrightarrow> size a < size t" "box_view t = BvAppl a b \<Longrightarrow> size b < size t"
  "box_view t = BvWithLocalDef a b \<Longrightarrow> size a < size t" "box_view t = BvWithLocalDef a b \<Longrightarrow> size b < size t"
  "box_view t = BvAccess a b \<Longrightarrow> size a < size t"
  "box_view t = BvHGroup a b \<Longrightarrow> size b < size t" "box_view t = BvVGroup a b \<Longrightarrow> size b < size t"
  "box_view t = BvTGroup a b \<Longrightarrow> size b < size t"
  by (drule box_view_size, simp add: form_size_def)+

lemma tlist_appl_size [termination_simp]:
  "x \<in> set (tlist args) \<Longrightarrow> box_view t = BvAppl a args \<Longrightarrow> size x < size t"
  using tlist_size box_view_less(20) by (metis less_trans)

fun preparePattern :: "tree \<Rightarrow> tree result" where
  "preparePattern box = (case box_view box of
      BvXtended _ \<Rightarrow> Inr box
    | BvIdent \<Rightarrow> Inr (boxPatternVar box)
    | BvAppl f args \<Rightarrow>
        (if isBoxIdent f then rbind (rlmap preparePattern args) (\<lambda>a. Inr (boxAppl f a))
         else rbind (preparePattern f) (\<lambda>g. rbind (rlmap preparePattern args) (\<lambda>a. Inr (boxAppl g a))))
    | BvAbstr _ _ \<Rightarrow> Inr box
    | BvInt _ \<Rightarrow> Inr box
    | BvReal _ \<Rightarrow> Inr box
    | BvWaveform \<Rightarrow> Inr box
    | BvCut \<Rightarrow> Inr box
    | BvWire \<Rightarrow> Inr box
    | BvPrim k w \<Rightarrow>
        (if isPointerNode (node w) then Inr box else Inl (FaustException ''preparePattern: not a valid box''))
    | BvWithLocalDef body ldef \<Rightarrow> rbind (preparePattern body) (\<lambda>b. Inr (boxWithLocalDef b ldef))
    | BvFFun _ \<Rightarrow> Inr box
    | BvFConst _ _ _ \<Rightarrow> Inr box
    | BvFVar _ _ _ \<Rightarrow> Inr box
    | BvSeq t1 t2 \<Rightarrow> rbind (preparePattern t1) (\<lambda>a. rbind (preparePattern t2) (\<lambda>b. Inr (boxSeq a b)))
    | BvSplit t1 t2 \<Rightarrow> rbind (preparePattern t1) (\<lambda>a. rbind (preparePattern t2) (\<lambda>b. Inr (boxSplit a b)))
    | BvMerge t1 t2 \<Rightarrow> rbind (preparePattern t1) (\<lambda>a. rbind (preparePattern t2) (\<lambda>b. Inr (boxMerge a b)))
    | BvPar t1 t2 \<Rightarrow> rbind (preparePattern t1) (\<lambda>a. rbind (preparePattern t2) (\<lambda>b. Inr (boxPar a b)))
    | BvRec t1 t2 \<Rightarrow> rbind (preparePattern t1) (\<lambda>a. rbind (preparePattern t2) (\<lambda>b. Inr (boxRec a b)))
    | BvIPar t1 t2 t3 \<Rightarrow> rbind (preparePattern t3) (\<lambda>c. Inr (boxIPar t1 t2 c))
    | BvISeq t1 t2 t3 \<Rightarrow> rbind (preparePattern t3) (\<lambda>c. Inr (boxISeq t1 t2 c))
    | BvISum t1 t2 t3 \<Rightarrow> rbind (preparePattern t3) (\<lambda>c. Inr (boxISum t1 t2 c))
    | BvIProd t1 t2 t3 \<Rightarrow> rbind (preparePattern t3) (\<lambda>c. Inr (boxIProd t1 t2 c))
    | BvInputs t1 \<Rightarrow> rbind (preparePattern t1) (\<lambda>a. Inr (boxInputs a))
    | BvOutputs t1 \<Rightarrow> rbind (preparePattern t1) (\<lambda>a. Inr (boxOutputs a))
    | BvButton _ \<Rightarrow> Inr box
    | BvCheckbox _ \<Rightarrow> Inr box
    | BvVSlider _ _ \<Rightarrow> Inr box
    | BvHSlider _ _ \<Rightarrow> Inr box
    | BvVGroup label t1 \<Rightarrow> rbind (preparePattern t1) (\<lambda>a. Inr (boxVGroup label a))
    | BvHGroup label t1 \<Rightarrow> rbind (preparePattern t1) (\<lambda>a. Inr (boxHGroup label a))
    | BvTGroup label t1 \<Rightarrow> rbind (preparePattern t1) (\<lambda>a. Inr (boxTGroup label a))
    | BvHBargraph _ _ _ \<Rightarrow> Inr box
    | BvVBargraph _ _ _ \<Rightarrow> Inr box
    | BvNumEntry _ _ \<Rightarrow> Inr box
    | BvNil \<Rightarrow> Inr box
    | BvList \<Rightarrow> rlmap preparePattern box
    | BvEnvironment \<Rightarrow> Inr box
    | BvComponent _ \<Rightarrow> Inr box
    | BvAccess _ _ \<Rightarrow> Inr box
    | BvSlot w \<Rightarrow>
        (if isIntNode (node w) then Inr box else Inl (FaustException ''preparePattern: not a valid box''))
    | BvSymbolic _ _ \<Rightarrow> Inr box
    | BvCaseInternal _ \<Rightarrow> Inr box
    | BvPatternVar _ \<Rightarrow> Inr box
    | _ \<Rightarrow> Inl (FaustException ''preparePattern: not a valid box''))"

declare preparePattern.simps [simp del]

definition prepareRule :: "tree \<Rightarrow> tree result" where
  "prepareRule rule = rbind (hdT rule) (\<lambda>h. rbind (rlmap preparePattern h) (\<lambda>p.
     rbind (tlT rule) (\<lambda>t. Inr (cons p t))))"

definition prepareRules :: "tree \<Rightarrow> tree result" where
  "prepareRules rules = rlmap prepareRule rules"

definition boxCase :: "tree \<Rightarrow> tree result" where
  "boxCase rules = rbind (prepareRules rules) (\<lambda>r. Inr (boxCaseInternal r))"

lemma preparePattern_constructors:
  "preparePattern (boxPatternVar i) = Inr (boxPatternVar i)"
  "preparePattern (boxSeq x y) = rbind (preparePattern x) (\<lambda>a. rbind (preparePattern y) (\<lambda>b. Inr (boxSeq a b)))"
  "preparePattern (boxSplit x y) = rbind (preparePattern x) (\<lambda>a. rbind (preparePattern y) (\<lambda>b. Inr (boxSplit a b)))"
  "preparePattern (boxMerge x y) = rbind (preparePattern x) (\<lambda>a. rbind (preparePattern y) (\<lambda>b. Inr (boxMerge a b)))"
  "preparePattern (boxPar x y) = rbind (preparePattern x) (\<lambda>a. rbind (preparePattern y) (\<lambda>b. Inr (boxPar a b)))"
  "preparePattern (boxRec x y) = rbind (preparePattern x) (\<lambda>a. rbind (preparePattern y) (\<lambda>b. Inr (boxRec a b)))"
  "preparePattern (boxIPar x y z) = rbind (preparePattern z) (\<lambda>c. Inr (boxIPar x y c))"
  "preparePattern (boxISeq x y z) = rbind (preparePattern z) (\<lambda>c. Inr (boxISeq x y c))"
  "preparePattern (boxISum x y z) = rbind (preparePattern z) (\<lambda>c. Inr (boxISum x y c))"
  "preparePattern (boxIProd x y z) = rbind (preparePattern z) (\<lambda>c. Inr (boxIProd x y c))"
  "preparePattern (boxInputs x) = rbind (preparePattern x) (\<lambda>a. Inr (boxInputs a))"
  "preparePattern (boxOutputs x) = rbind (preparePattern x) (\<lambda>a. Inr (boxOutputs a))"
  "preparePattern (boxVGroup l x) = rbind (preparePattern x) (\<lambda>a. Inr (boxVGroup l a))"
  "preparePattern (boxHGroup l x) = rbind (preparePattern x) (\<lambda>a. Inr (boxHGroup l a))"
  "preparePattern (boxTGroup l x) = rbind (preparePattern x) (\<lambda>a. Inr (boxTGroup l a))"
  "preparePattern (boxWithLocalDef x d) = rbind (preparePattern x) (\<lambda>a. Inr (boxWithLocalDef a d))"
  "preparePattern nil = Inr nil"
  "preparePattern (cons x y) = rlmap preparePattern (cons x y)"
  "preparePattern (boxAppl f args) =
     (if isBoxIdent f then rbind (rlmap preparePattern args) (\<lambda>a. Inr (boxAppl f a))
      else rbind (preparePattern f) (\<lambda>g. rbind (rlmap preparePattern args) (\<lambda>a. Inr (boxAppl g a))))"
  by (subst preparePattern.simps, simp)+

lemma preparePattern_not_ident: "preparePattern p = Inr q \<Longrightarrow> \<not> isBoxIdent q"
proof
  assume p: "preparePattern p = Inr q" and q: "isBoxIdent q"
  have v: "box_view q = BvIdent" using q by (simp add: recognisers_view)
  have "box_view p \<noteq> BvIdent" using p v by (auto simp: preparePattern.simps [of p])
  moreover have "box_view p \<noteq> BvList" using p v
  proof (auto simp: preparePattern.simps [of p] rlmap_eq rbind_eq_Inr)
    fix ys assume "box_view (list_tree ys) = BvIdent" then show False by (cases ys) simp_all
  qed
  ultimately show False using p v
    by (auto simp: preparePattern.simps [of p] rbind_eq_Inr split: box_form.splits if_splits)
qed

lemma rmap_idem:
  assumes "rmap f xs = Inr ys" "\<And>x y. x \<in> set xs \<Longrightarrow> f x = Inr y \<Longrightarrow> f y = Inr y"
  shows "rmap f ys = Inr ys"
  using assms
proof (induction xs arbitrary: ys)
  case (Cons x xs)
  then obtain z zs where z: "ys = z # zs" "f x = Inr z" "rmap f xs = Inr zs" by (auto simp: rbind_eq_Inr)
  then have "f z = Inr z" "rmap f zs = Inr zs" using Cons.prems(2) Cons.IH [OF z(3)] by auto
  with z show ?case by simp
qed simp

lemma rlmap_idem:
  assumes "rlmap f l = Inr r" "\<And>x y. x \<in> set (tlist l) \<Longrightarrow> f x = Inr y \<Longrightarrow> f y = Inr y"
  shows "rlmap f r = Inr r"
  using assms rmap_idem [of f "tlist l"] by (auto simp: rlmap_eq rbind_eq_Inr)

lemma rlmap_result_list: "rlmap f l = Inr r \<Longrightarrow> r = nil \<or> (\<exists>a b. r = cons a b)"
  by (auto simp: rlmap_eq rbind_eq_Inr) (metis list_tree_simps list.exhaust)



end
