(* ===== verification/BoxType.thy ===== *)
theory BoxType
  imports Boxes
begin

text \<open>
  The type of a box, its numbers of inputs and outputs (\<^verbatim>\<open>boxes/boxtype.cpp\<close>).

  \<^verbatim>\<open>getBoxType\<close> stores what it finds on the box under \<^verbatim>\<open>BOXTYPEPROP\<close>; the map of these stored
  properties is the state the two functions pass along.  A result \<open>Inl\<close> is the exception that
  stops the compiler, \<open>Inr (None, _)\<close> is the answer \<^verbatim>\<open>false\<close> (no type: the box holds a pattern
  variable), \<open>Inr (Some (i, o), _)\<close> the numbers of inputs and outputs.

  \<open>box_type\<close> states the typing rules of the block diagram algebra, and \<open>boxType\<close> computes them
  without stored properties.
\<close>

type_synonym io = "int \<times> int"

section \<open>Arities\<close>

definition xarity :: "xprim \<Rightarrow> nat" where
  "xarity p = (if p \<in> {XAtan2, XFmod, XMax, XMin, XPow, XRemainder} then 2 else 1)"

definition ffsignature :: "tree \<Rightarrow> tree result" where
  "ffsignature ff = branch ff 0"

definition ffarity :: "tree \<Rightarrow> int result" where
  "ffarity t = rbind (ffsignature t) (\<lambda>s. Inr (int (lenT s) - 2))"

section \<open>Composition\<close>

definition seq_io :: "io \<Rightarrow> io \<Rightarrow> io result" where
  "seq_io a b = (let (u, v) = a; (x, y) = b in
     if v \<noteq> x then Inl (FaustException ''Error in sequential composition'') else Inr (u, y))"

definition par_io :: "io \<Rightarrow> io \<Rightarrow> io result" where
  "par_io a b = (let (u, v) = a; (x, y) = b in Inr (u + x, v + y))"

definition split_io :: "io \<Rightarrow> io \<Rightarrow> io result" where
  "split_io a b = (let (u, v) = a; (x, y) = b in
     if v = 0 then Inl (FaustException ''The first expression has no outputs'')
     else if x = 0 then Inl (FaustException ''The second expression has no inputs'')
     else if trem x v \<noteq> 0 then Inl (FaustException ''outputs should be a divisor of inputs'')
     else Inr (u, y))"

definition merge_io :: "io \<Rightarrow> io \<Rightarrow> io result" where
  "merge_io a b = (let (u, v) = a; (x, y) = b in
     if v = 0 then Inl (FaustException ''The first expression has no outputs'')
     else if x = 0 then Inl (FaustException ''The second expression has no inputs'')
     else if trem v x \<noteq> 0 then Inl (FaustException ''outputs should be a multiple of inputs'')
     else Inr (u, y))"

definition rec_io :: "io \<Rightarrow> io \<Rightarrow> io result" where
  "rec_io a b = (let (u, v) = a; (x, y) = b in
     if v < x \<or> u < y then Inl (FaustException ''Connection error in recursive composition'')
     else Inr (max 0 (u - y), v))"

definition type2 ::
  "(tree \<Rightarrow> memo \<Rightarrow> (io option \<times> memo) result) \<Rightarrow> (io \<Rightarrow> io \<Rightarrow> io result) \<Rightarrow>
   tree \<Rightarrow> tree \<Rightarrow> memo \<Rightarrow> (io option \<times> memo) result" where
  "type2 get f a b m = rbind (get a m) (\<lambda>(ra, m1). case ra of
      None \<Rightarrow> Inr (None, m1)
    | Some ta \<Rightarrow> rbind (get b m1) (\<lambda>(rb, m2). case rb of
          None \<Rightarrow> Inr (None, m2)
        | Some tb \<Rightarrow> rbind (f ta tb) (\<lambda>r. Inr (Some r, m2))))"

lemma type2_cong [fundef_cong]:
  "f = f' \<Longrightarrow> a = a' \<Longrightarrow> b = b' \<Longrightarrow> m = m' \<Longrightarrow> (\<And>m. get a' m = get' a' m) \<Longrightarrow>
   (\<And>m. get b' m = get' b' m) \<Longrightarrow> type2 get f a b m = type2 get' f' a' b' m'"
  by (auto simp: type2_def intro!: rbind_cong split: option.splits)

section \<open>Inference with stored properties\<close>

definition stored_type :: "tree \<Rightarrow> io option result" where
  "stored_type p = (if isNil p then Inr None
     else rbind (hdT p) (\<lambda>h. rbind (tlT p) (\<lambda>t. Inr (Some (node_int (node h), node_int (node t))))))"

lemma twice_less: "a < b \<Longrightarrow> Suc (2 * a) < 2 * (b :: nat)"
  by simp

function getBoxType :: "tree \<Rightarrow> memo \<Rightarrow> (io option \<times> memo) result"
and infereBoxType :: "tree \<Rightarrow> memo \<Rightarrow> (io option \<times> memo) result" where
  "getBoxType box m = (case m box of
      Some p \<Rightarrow> rbind (stored_type p) (\<lambda>r. Inr (r, m))
    | None \<Rightarrow> rbind (infereBoxType box m) (\<lambda>(r, m1). case r of
          Some (inum, onum) \<Rightarrow> Inr (r, m1(box \<mapsto> cons (leaf (NInt inum)) (leaf (NInt onum))))
        | None \<Rightarrow> Inr (r, m1(box \<mapsto> nil))))"
| "infereBoxType t m = (case box_view t of
      BvXtended p \<Rightarrow> Inr (Some (int (xarity p), 1), m)
    | BvInt _ \<Rightarrow> Inr (Some (0, 1), m)
    | BvReal _ \<Rightarrow> Inr (Some (0, 1), m)
    | BvWaveform \<Rightarrow> Inr (Some (0, 2), m)
    | BvWire \<Rightarrow> Inr (Some (1, 1), m)
    | BvCut \<Rightarrow> Inr (Some (1, 0), m)
    | BvSlot _ \<Rightarrow> Inr (Some (0, 1), m)
    | BvSymbolic s b \<Rightarrow> rbind (getBoxType b m) (\<lambda>(r, m1). case r of
          None \<Rightarrow> Inr (None, m1) | Some (inum, onum) \<Rightarrow> Inr (Some (inum + 1, onum), m1))
    | BvPatternVar _ \<Rightarrow> Inr (None, m)
    | BvPrim k _ \<Rightarrow> Inr (Some (int k, 1), m)
    | BvFFun ff \<Rightarrow> rbind (ffarity ff) (\<lambda>i. Inr (Some (i, 1), m))
    | BvFConst _ _ _ \<Rightarrow> Inr (Some (0, 1), m)
    | BvFVar _ _ _ \<Rightarrow> Inr (Some (0, 1), m)
    | BvButton _ \<Rightarrow> Inr (Some (0, 1), m)
    | BvCheckbox _ \<Rightarrow> Inr (Some (0, 1), m)
    | BvVSlider _ _ \<Rightarrow> Inr (Some (0, 1), m)
    | BvHSlider _ _ \<Rightarrow> Inr (Some (0, 1), m)
    | BvNumEntry _ _ \<Rightarrow> Inr (Some (0, 1), m)
    | BvVGroup l a \<Rightarrow> getBoxType a m
    | BvHGroup l a \<Rightarrow> getBoxType a m
    | BvTGroup l a \<Rightarrow> getBoxType a m
    | BvVBargraph _ _ _ \<Rightarrow> Inr (Some (1, 1), m)
    | BvHBargraph _ _ _ \<Rightarrow> Inr (Some (1, 1), m)
    | BvSeq a b \<Rightarrow> type2 getBoxType seq_io a b m
    | BvPar a b \<Rightarrow> type2 getBoxType par_io a b m
    | BvSplit a b \<Rightarrow> type2 getBoxType split_io a b m
    | BvMerge a b \<Rightarrow> type2 getBoxType merge_io a b m
    | BvRec a b \<Rightarrow> type2 getBoxType rec_io a b m
    | BvEnvironment \<Rightarrow> Inl (FaustException ''an environment is not a block-diagram'')
    | _ \<Rightarrow> Inl (FaustException ''unrecognized box expression''))"
  by pat_completeness auto
termination
  by (relation "measure (case_sum (\<lambda>(t, m). 2 * size t + 1) (\<lambda>(t, m). 2 * size t))")
    (auto intro!: twice_less intro: box_view_less)

declare getBoxType.simps [simp del] infereBoxType.simps [simp del]

section \<open>The typing rules\<close>

inductive box_type :: "tree \<Rightarrow> int \<Rightarrow> int \<Rightarrow> bool" where
  xtended: "box_view t = BvXtended p \<Longrightarrow> box_type t (int (xarity p)) 1"
| number: "box_view t = BvInt i \<or> box_view t = BvReal r \<Longrightarrow> box_type t 0 1"
| waveform: "box_view t = BvWaveform \<Longrightarrow> box_type t 0 2"
| wire: "box_view t = BvWire \<Longrightarrow> box_type t 1 1"
| cut: "box_view t = BvCut \<Longrightarrow> box_type t 1 0"
| slot: "box_view t = BvSlot w \<Longrightarrow> box_type t 0 1"
| symbolic: "box_view t = BvSymbolic s b \<Longrightarrow> box_type b i j \<Longrightarrow> box_type t (i + 1) j"
| prim: "box_view t = BvPrim k w \<Longrightarrow> box_type t (int k) 1"
| ffun: "box_view t = BvFFun ff \<Longrightarrow> ffarity ff = Inr i \<Longrightarrow> box_type t i 1"
| foreign: "box_view t = BvFConst a b c \<or> box_view t = BvFVar a b c \<Longrightarrow> box_type t 0 1"
| widget: "box_view t = BvButton l \<or> box_view t = BvCheckbox l \<or> box_view t = BvVSlider l ps \<or>
    box_view t = BvHSlider l ps \<or> box_view t = BvNumEntry l ps \<Longrightarrow> box_type t 0 1"
| bargraph: "box_view t = BvVBargraph l x y \<or> box_view t = BvHBargraph l x y \<Longrightarrow> box_type t 1 1"
| group: "box_view t = BvVGroup l a \<or> box_view t = BvHGroup l a \<or> box_view t = BvTGroup l a \<Longrightarrow>
    box_type a i j \<Longrightarrow> box_type t i j"
| seq: "box_view t = BvSeq a b \<Longrightarrow> box_type a u v \<Longrightarrow> box_type b v y \<Longrightarrow> box_type t u y"
| par: "box_view t = BvPar a b \<Longrightarrow> box_type a u v \<Longrightarrow> box_type b x y \<Longrightarrow> box_type t (u + x) (v + y)"
| split: "box_view t = BvSplit a b \<Longrightarrow> box_type a u v \<Longrightarrow> box_type b x y \<Longrightarrow>
    v \<noteq> 0 \<Longrightarrow> x \<noteq> 0 \<Longrightarrow> v dvd x \<Longrightarrow> box_type t u y"
| merge: "box_view t = BvMerge a b \<Longrightarrow> box_type a u v \<Longrightarrow> box_type b x y \<Longrightarrow>
    v \<noteq> 0 \<Longrightarrow> x \<noteq> 0 \<Longrightarrow> x dvd v \<Longrightarrow> box_type t u y"
| rec: "box_view t = BvRec a b \<Longrightarrow> box_type a u v \<Longrightarrow> box_type b x y \<Longrightarrow>
    x \<le> v \<Longrightarrow> y \<le> u \<Longrightarrow> box_type t (u - y) v"

section \<open>Inference without stored properties\<close>

definition io2 :: "(tree \<Rightarrow> io option result) \<Rightarrow> (io \<Rightarrow> io \<Rightarrow> io result) \<Rightarrow> tree \<Rightarrow> tree \<Rightarrow> io option result" where
  "io2 get f a b = rbind (get a) (\<lambda>ra. case ra of None \<Rightarrow> Inr None | Some ta \<Rightarrow>
     rbind (get b) (\<lambda>rb. case rb of None \<Rightarrow> Inr None | Some tb \<Rightarrow> rbind (f ta tb) (\<lambda>r. Inr (Some r))))"

lemma io2_cong [fundef_cong]:
  "f = f' \<Longrightarrow> a = a' \<Longrightarrow> b = b' \<Longrightarrow> get a' = get' a' \<Longrightarrow> get b' = get' b' \<Longrightarrow>
   io2 get f a b = io2 get' f' a' b'"
  by (auto simp: io2_def intro!: rbind_cong split: option.splits)

fun boxType :: "tree \<Rightarrow> io option result" where
  "boxType t = (case box_view t of
      BvXtended p \<Rightarrow> Inr (Some (int (xarity p), 1))
    | BvInt _ \<Rightarrow> Inr (Some (0, 1))
    | BvReal _ \<Rightarrow> Inr (Some (0, 1))
    | BvWaveform \<Rightarrow> Inr (Some (0, 2))
    | BvWire \<Rightarrow> Inr (Some (1, 1))
    | BvCut \<Rightarrow> Inr (Some (1, 0))
    | BvSlot _ \<Rightarrow> Inr (Some (0, 1))
    | BvSymbolic s b \<Rightarrow> rbind (boxType b) (\<lambda>r. Inr (map_option (\<lambda>(i, j). (i + 1, j)) r))
    | BvPatternVar _ \<Rightarrow> Inr None
    | BvPrim k _ \<Rightarrow> Inr (Some (int k, 1))
    | BvFFun ff \<Rightarrow> rbind (ffarity ff) (\<lambda>i. Inr (Some (i, 1)))
    | BvFConst _ _ _ \<Rightarrow> Inr (Some (0, 1))
    | BvFVar _ _ _ \<Rightarrow> Inr (Some (0, 1))
    | BvButton _ \<Rightarrow> Inr (Some (0, 1))
    | BvCheckbox _ \<Rightarrow> Inr (Some (0, 1))
    | BvVSlider _ _ \<Rightarrow> Inr (Some (0, 1))
    | BvHSlider _ _ \<Rightarrow> Inr (Some (0, 1))
    | BvNumEntry _ _ \<Rightarrow> Inr (Some (0, 1))
    | BvVGroup l a \<Rightarrow> boxType a
    | BvHGroup l a \<Rightarrow> boxType a
    | BvTGroup l a \<Rightarrow> boxType a
    | BvVBargraph _ _ _ \<Rightarrow> Inr (Some (1, 1))
    | BvHBargraph _ _ _ \<Rightarrow> Inr (Some (1, 1))
    | BvSeq a b \<Rightarrow> io2 boxType seq_io a b
    | BvPar a b \<Rightarrow> io2 boxType par_io a b
    | BvSplit a b \<Rightarrow> io2 boxType split_io a b
    | BvMerge a b \<Rightarrow> io2 boxType merge_io a b
    | BvRec a b \<Rightarrow> io2 boxType rec_io a b
    | BvEnvironment \<Rightarrow> Inl (FaustException ''an environment is not a block-diagram'')
    | _ \<Rightarrow> Inl (FaustException ''unrecognized box expression''))"

declare boxType.simps [simp del]

section \<open>Stored properties are transparent\<close>

definition types_ok :: "memo \<Rightarrow> bool" where
  "types_ok m \<longleftrightarrow> (\<forall>t p. m t = Some p \<longrightarrow> (\<exists>r. stored_type p = Inr r \<and> boxType t = Inr r))"

definition agrees :: "(io option \<times> memo) result \<Rightarrow> io option result \<Rightarrow> bool" where
  "agrees c p \<longleftrightarrow> (case c of Inl e \<Rightarrow> p = Inl e | Inr (r, m) \<Rightarrow> p = Inr r \<and> types_ok m)"

lemma agrees_simps [simp]:
  "agrees (Inl e) p \<longleftrightarrow> p = Inl e" "agrees (Inr (r, m)) p \<longleftrightarrow> p = Inr r \<and> types_ok m"
  by (simp_all add: agrees_def)

lemma types_ok_empty [simp]: "types_ok Map.empty"
  by (simp add: types_ok_def)

lemma stored_type_simps [simp]:
  "stored_type nil = Inr None" "stored_type (cons (leaf (NInt i)) (leaf (NInt j))) = Inr (Some (i, j))"
  by (simp_all add: stored_type_def leaf_def)

lemma agrees_type2:
  assumes "\<And>m. types_ok m \<Longrightarrow> agrees (get a m) (boxType a)" "\<And>m. types_ok m \<Longrightarrow> agrees (get b m) (boxType b)"
    "types_ok m"
  shows "agrees (type2 get f a b m) (io2 boxType f a b)"
proof -
  have a: "agrees (get a m) (boxType a)" using assms by blast
  show ?thesis
  proof (cases "get a m")
    case (Inl e)
    with a show ?thesis by (simp add: type2_def io2_def)
  next
    case (Inr p)
    then obtain ra m1 where ra: "get a m = Inr (ra, m1)" by (cases p) auto
    with a have m1: "types_ok m1" and ta: "boxType a = Inr ra" by simp_all
    show ?thesis
    proof (cases ra)
      case None
      with ra ta m1 show ?thesis by (simp add: type2_def io2_def)
    next
      case (Some t)
      have "agrees (get b m1) (boxType b)" using assms(2) m1 by blast
      then show ?thesis using ra ta m1 Some
        by (cases "get b m1"; cases "fst (projr (get b m1))"; cases "f t (the (fst (projr (get b m1))))")
          (auto simp: type2_def io2_def)
    qed
  qed
qed

lemma getBoxType_agrees:
  shows "types_ok m \<Longrightarrow> agrees (getBoxType t m) (boxType t)"
    and "types_ok m \<Longrightarrow> agrees (infereBoxType t m) (boxType t)"
proof (induction t m and t m rule: getBoxType_infereBoxType.induct)
  case (1 box m)
  show ?case
  proof (cases "m box")
    case None
    have IH: "agrees (infereBoxType box m) (boxType box)" using 1 None by blast
    show ?thesis
      using IH None by (cases "infereBoxType box m")
        (auto simp: getBoxType.simps [of box] types_ok_def split: option.splits)
  next
    case (Some p)
    with "1.prems" obtain r where "stored_type p = Inr r" "boxType box = Inr r" by (auto simp: types_ok_def)
    with Some "1.prems" show ?thesis by (simp add: getBoxType.simps [of box])
  qed
next
  case (2 t m)
  show ?case
  proof (cases "box_view t")
    case (BvSymbolic s b)
    have "agrees (getBoxType b m) (boxType b)" using "2.IH"(1) [OF BvSymbolic "2.prems"] .
    then show ?thesis using BvSymbolic
      by (cases "getBoxType b m")
        (auto simp: infereBoxType.simps [of t] boxType.simps [of t] split: option.splits)
  next
    case (BvFFun ff)
    then show ?thesis using "2.prems"
      by (cases "ffarity ff") (simp_all add: infereBoxType.simps [of t] boxType.simps [of t])
  qed (use 2 in \<open>simp_all add: infereBoxType.simps [of t] boxType.simps [of t] agrees_type2\<close>)
qed

section \<open>Inference is the typing rules\<close>

lemma trem_zero_iff: "trem a b = 0 \<longleftrightarrow> b dvd a"
  using tdiv_mult_eq [of a b] by (auto simp: trem_def mult.commute)

lemmas io_defs = seq_io_def par_io_def split_io_def merge_io_def rec_io_def

lemma io2_Some: "io2 get f a b = Inr (Some r) \<longleftrightarrow>
    (\<exists>ta tb. get a = Inr (Some ta) \<and> get b = Inr (Some tb) \<and> f ta tb = Inr r)"
  by (fastforce simp: io2_def rbind_eq_Inr split: option.splits)

lemma box_type_complete: "box_type t i j \<Longrightarrow> boxType t = Inr (Some (i, j))"
proof (induction rule: box_type.induct)
  case (split t a b u v x y)
  then show ?case by (simp add: boxType.simps [of t] io2_def split_io_def trem_zero_iff)
next
  case (merge t a b u v x y)
  then show ?case by (simp add: boxType.simps [of t] io2_def merge_io_def trem_zero_iff)
next
  case (rec t a b u v x y)
  then show ?case by (simp add: boxType.simps [of t] io2_def rec_io_def)
next
  case (seq t a b u v y)
  then show ?case by (simp add: boxType.simps [of t] io2_def seq_io_def)
next
  case (par t a b u v x y)
  then show ?case by (simp add: boxType.simps [of t] io2_def par_io_def)
next
  case (group t l a i j)
  then show ?case by (auto simp: boxType.simps [of t])
next
  case (symbolic t s b i j)
  then show ?case by (simp add: boxType.simps [of t])
qed (auto simp: boxType.simps)

lemma box_type_sound: "boxType t = Inr (Some (i, j)) \<Longrightarrow> box_type t i j"
proof (induction "size t" arbitrary: t i j rule: less_induct)
  case less
  note IH = less.hyps and eq = less.prems [unfolded boxType.simps [of t]]
  show ?case
  proof (cases "box_view t")
    case (BvSeq a b)
    with eq obtain v where "boxType a = Inr (Some (i, v))" "boxType b = Inr (Some (v, j))"
      by (auto simp: io2_Some seq_io_def split: if_splits)
    then show ?thesis using IH [OF box_view_less(2) [OF BvSeq]] IH [OF box_view_less(3) [OF BvSeq]]
      by (auto intro: box_type.seq [OF BvSeq])
  next
    case (BvPar a b)
    with eq obtain u v x y where "boxType a = Inr (Some (u, v))" "boxType b = Inr (Some (x, y))"
      "i = u + x" "j = v + y" by (auto simp: io2_Some par_io_def)
    then show ?thesis using IH [OF box_view_less(4) [OF BvPar]] IH [OF box_view_less(5) [OF BvPar]]
      by (auto intro: box_type.par [OF BvPar])
  next
    case (BvSplit a b)
    with eq obtain u v x y where "boxType a = Inr (Some (u, v))" "boxType b = Inr (Some (x, y))"
      "i = u" "j = y" "v \<noteq> 0" "x \<noteq> 0" "v dvd x"
      by (auto simp: io2_Some split_io_def trem_zero_iff split: if_splits)
    then show ?thesis using IH [OF box_view_less(8) [OF BvSplit]] IH [OF box_view_less(9) [OF BvSplit]]
      by (auto intro: box_type.split [OF BvSplit])
  next
    case (BvMerge a b)
    with eq obtain u v x y where "boxType a = Inr (Some (u, v))" "boxType b = Inr (Some (x, y))"
      "i = u" "j = y" "v \<noteq> 0" "x \<noteq> 0" "x dvd v"
      by (auto simp: io2_Some merge_io_def trem_zero_iff split: if_splits)
    then show ?thesis using IH [OF box_view_less(10) [OF BvMerge]] IH [OF box_view_less(11) [OF BvMerge]]
      by (auto intro: box_type.merge [OF BvMerge])
  next
    case (BvRec a b)
    with eq obtain u v x y where "boxType a = Inr (Some (u, v))" "boxType b = Inr (Some (x, y))"
      "i = u - y" "j = v" "x \<le> v" "y \<le> u"
      by (auto simp: io2_Some rec_io_def split: if_splits)
    then show ?thesis using IH [OF box_view_less(6) [OF BvRec]] IH [OF box_view_less(7) [OF BvRec]]
      by (auto intro: box_type.rec [OF BvRec])
  next
    case (BvSymbolic s b)
    with eq obtain k where "boxType b = Inr (Some (k, j))" "i = k + 1" by (auto simp: rbind_eq_Inr)
    then show ?thesis using IH [OF box_view_less(1) [OF BvSymbolic]] by (auto intro: box_type.symbolic [OF BvSymbolic])
  qed (use eq in \<open>auto simp: rbind_eq_Inr intro: box_type.intros IH box_view_less\<close>)
qed

lemma box_type_iff: "box_type t i j \<longleftrightarrow> boxType t = Inr (Some (i, j))"
  using box_type_complete box_type_sound by blast

lemma box_type_deterministic: "box_type t i j \<Longrightarrow> box_type t i' j' \<Longrightarrow> i = i' \<and> j = j'"
  by (simp add: box_type_iff)

fun ffuns_ok :: "tree \<Rightarrow> bool" where
  "ffuns_ok (Tree n br) = ((n = bsym BOXFFUN \<longrightarrow> (\<forall>ff \<in> set br. \<exists>i \<ge> 0. ffarity ff = Inr i)) \<and>
     (\<forall>b \<in> set br. ffuns_ok b))"

declare ffuns_ok.simps [simp del]

lemma ffuns_ok_branch: "ffuns_ok t \<Longrightarrow> b \<in> set (branches t) \<Longrightarrow> ffuns_ok b"
  by (cases t) (simp add: ffuns_ok.simps)

lemma ffuns_ok_ffun: "ffuns_ok t \<Longrightarrow> box_view t = BvFFun ff \<Longrightarrow> ffarity ff = Inr i \<Longrightarrow> 0 \<le> i"
  by (drule box_viewD) (auto simp: has_form_def ffuns_ok.simps boxFFun_def)

lemma box_type_nonneg:
  assumes "box_type t i j" "ffuns_ok t"
  shows "0 \<le> i \<and> 0 \<le> j"
  using assms
proof (induction rule: box_type.induct)
  case (ffun t ff i)
  then show ?case using ffuns_ok_ffun by simp
qed (auto dest!: box_viewD simp: has_form_def box_constructor_defs ffuns_ok.simps)

text \<open>
  Property C2 (\<^verbatim>\<open>boxtype.cpp\<close>): the inference that stores its answers on the boxes implements the
  typing rules.  From stored answers that are right, \<open>getBoxType\<close> answers a type exactly when the
  rules derive it, the answers it leaves stored are right again, and the type is unique.
\<close>

theorem getBoxType_typing_rules:
  assumes "types_ok m"
  shows "((\<exists>m'. getBoxType t m = Inr (Some (i, j), m')) \<longleftrightarrow> box_type t i j) \<and>
    (\<forall>r m'. getBoxType t m = Inr (r, m') \<longrightarrow> types_ok m') \<and>
    (box_type t i j \<longrightarrow> box_type t i' j' \<longrightarrow> i = i' \<and> j = j')"
proof -
  have *: "agrees (getBoxType t m) (boxType t)" using getBoxType_agrees(1) [OF assms] .
  then have "(\<exists>m'. getBoxType t m = Inr (Some (i, j), m')) \<longleftrightarrow> box_type t i j"
    by (cases "getBoxType t m") (auto simp: box_type_iff)
  moreover have "\<forall>r m'. getBoxType t m = Inr (r, m') \<longrightarrow> types_ok m'" using * by auto
  ultimately show ?thesis using box_type_deterministic by blast
qed

theorem getBoxType_typing_rules_witness:
  "box_type (boxSplit boxWire (boxPrim2 (PPrim P_sigAdd))) 1 1 \<and>
   (\<exists>m'. getBoxType (boxSplit boxWire (boxPrim2 (PPrim P_sigAdd))) Map.empty = Inr (Some (1, 1), m'))"
proof -
  have w: "box_type boxWire 1 1" by (rule box_type.wire) simp
  have p: "box_type (boxPrim2 (PPrim P_sigAdd)) 2 1"
    using box_type.prim [of "boxPrim2 (PPrim P_sigAdd)" 2] by simp
  have "box_type (boxSplit boxWire (boxPrim2 (PPrim P_sigAdd))) 1 1"
    by (rule box_type.split [OF _ w p]) simp_all
  with getBoxType_typing_rules [of Map.empty "boxSplit boxWire (boxPrim2 (PPrim P_sigAdd))" 1 1] show ?thesis
    by simp
qed



end
