(* ===== verification/Signals.thy ===== *)
theory Signals
  imports BoxType
begin

text \<open>
  The signal language (\<^verbatim>\<open>signals/signals.cpp\<close>, \<^verbatim>\<open>signals/signals.hh\<close>, \<^verbatim>\<open>signals/prim2.cpp\<close>) and the outputs
  of the extended primitives (\<^verbatim>\<open>extended/*prim.hh\<close>).

  Signals are trees; for each form there is its constructor (\<^verbatim>\<open>sigDelay1\<close>, ...) and its recogniser
  (\<^verbatim>\<open>isSigDelay1\<close>, ...).  \<open>sig_view\<close> collects the recognisers in one function, as \<open>box_view\<close> does
  for boxes.  The transcendental functions that the compiler folds on constants are the record
  \<open>libm\<close>, since the C standard leaves their rounding to the implementation; \<^verbatim>\<open>floor\<close>, \<^verbatim>\<open>ceil\<close>, \<^verbatim>\<open>rint\<close>,
  \<^verbatim>\<open>fmod\<close>, \<^verbatim>\<open>remainder\<close> and \<^verbatim>\<open>fabs\<close> are exact and are defined.
\<close>

abbreviation ssym :: "sigkw \<Rightarrow> node" where
  "ssym k \<equiv> NSym (KSig k)"

section \<open>Constructors and recognisers\<close>

definition sigInt :: "int \<Rightarrow> tree" where
  "sigInt i = leaf (NInt i)"

definition isSigInt :: "tree \<Rightarrow> int option" where
  "isSigInt t = (case node t of NInt i \<Rightarrow> Some i | _ \<Rightarrow> None)"

definition sigReal :: "double \<Rightarrow> tree" where
  "sigReal r = leaf (NDouble r)"

definition isSigReal :: "tree \<Rightarrow> double option" where
  "isSigReal t = (case node t of NDouble r \<Rightarrow> Some r | _ \<Rightarrow> None)"

definition sigInput :: "int \<Rightarrow> tree" where
  "sigInput i = Tree (ssym SIGINPUT) [leaf (NInt i)]"

definition isSigInput :: "tree \<Rightarrow> int option" where
  "isSigInput t = (case isTree1 t (ssym SIGINPUT) of
      Some x \<Rightarrow> isSigInt x | None \<Rightarrow> None)"

definition isSigIntCast :: "tree \<Rightarrow> tree option" where
  "isSigIntCast t = isTree1 t (ssym SIGINTCAST)"

definition isSigFloatCast :: "tree \<Rightarrow> tree option" where
  "isSigFloatCast t = isTree1 t (ssym SIGFLOATCAST)"

definition sigIntCast :: "tree \<Rightarrow> tree" where
  "sigIntCast t = (case node t of
      NInt i \<Rightarrow> t
    | NDouble x \<Rightarrow> leaf (NInt (int_of_double x))
    | _ \<Rightarrow> if isSigIntCast t \<noteq> None then t else Tree (ssym SIGINTCAST) [t])"

definition sigFloatCast :: "tree \<Rightarrow> tree" where
  "sigFloatCast t = (case node t of
      NInt i \<Rightarrow> leaf (NDouble (double_of_int i))
    | NDouble x \<Rightarrow> t
    | _ \<Rightarrow> if isSigFloatCast t \<noteq> None then t
          else if isSigInput t \<noteq> None then t
          else Tree (ssym SIGFLOATCAST) [t])"

definition sigDelay1 :: "tree \<Rightarrow> tree" where
  "sigDelay1 t0 = Tree (ssym SIGDELAY1) [t0]"

definition isSigDelay1 :: "tree \<Rightarrow> tree option" where
  "isSigDelay1 t = isTree1 t (ssym SIGDELAY1)"

definition sigPrefix :: "tree \<Rightarrow> tree \<Rightarrow> tree" where
  "sigPrefix t0 t1 = Tree (ssym SIGPREFIX) [t0, t1]"

definition isSigPrefix :: "tree \<Rightarrow> (tree \<times> tree) option" where
  "isSigPrefix t = isTree2 t (ssym SIGPREFIX)"

definition sigIota :: "tree \<Rightarrow> tree" where
  "sigIota t0 = Tree (ssym SIGIOTA) [t0]"

definition isSigIota :: "tree \<Rightarrow> tree option" where
  "isSigIota t = isTree1 t (ssym SIGIOTA)"

definition sigRDTbl :: "tree \<Rightarrow> tree \<Rightarrow> tree" where
  "sigRDTbl t i = Tree (ssym SIGRDTBL) [t, i]"

definition isSigRDTbl :: "tree \<Rightarrow> (tree \<times> tree) option" where
  "isSigRDTbl t = isTree2 t (ssym SIGRDTBL)"

definition sigWRTbl :: "tree \<Rightarrow> tree \<Rightarrow> tree \<Rightarrow> tree \<Rightarrow> tree" where
  "sigWRTbl ident t i s = Tree (ssym SIGWRTBL) [ident, t, i, s]"

definition isSigWRTbl :: "tree \<Rightarrow> (tree \<times> tree \<times> tree \<times> tree) option" where
  "isSigWRTbl t = isTree4 t (ssym SIGWRTBL)"

definition sigTable :: "tree \<Rightarrow> tree \<Rightarrow> tree \<Rightarrow> tree" where
  "sigTable ident n sig = Tree (ssym SIGTABLE) [ident, n, sig]"

definition isSigTable :: "tree \<Rightarrow> (tree \<times> tree \<times> tree) option" where
  "isSigTable t = isTree3 t (ssym SIGTABLE)"

definition sigGen :: "tree \<Rightarrow> tree" where
  "sigGen s = Tree (ssym SIGGEN) [s]"

definition isSigGen :: "tree \<Rightarrow> tree option" where
  "isSigGen t = isTree1 t (ssym SIGGEN)"

definition sigDocConstantTbl :: "tree \<Rightarrow> tree \<Rightarrow> tree" where
  "sigDocConstantTbl n sig = Tree (ssym SIGDOCONSTANTTBL) [n, sig]"

definition isSigDocConstantTbl :: "tree \<Rightarrow> (tree \<times> tree) option" where
  "isSigDocConstantTbl t = isTree2 t (ssym SIGDOCONSTANTTBL)"

definition sigDocWriteTbl :: "tree \<Rightarrow> tree \<Rightarrow> tree \<Rightarrow> tree \<Rightarrow> tree" where
  "sigDocWriteTbl n sig widx wsig = Tree (ssym SIGDOCWRITETBL) [n, sig, widx, wsig]"

definition isSigDocWriteTbl :: "tree \<Rightarrow> (tree \<times> tree \<times> tree \<times> tree) option" where
  "isSigDocWriteTbl t = isTree4 t (ssym SIGDOCWRITETBL)"

definition sigDocAccessTbl :: "tree \<Rightarrow> tree \<Rightarrow> tree" where
  "sigDocAccessTbl tbl ridx = Tree (ssym SIGDOCACCESSTBL) [tbl, ridx]"

definition isSigDocAccessTbl :: "tree \<Rightarrow> (tree \<times> tree) option" where
  "isSigDocAccessTbl t = isTree2 t (ssym SIGDOCACCESSTBL)"

definition sigFFun :: "tree \<Rightarrow> tree \<Rightarrow> tree" where
  "sigFFun ff largs = Tree (ssym SIGFFUN) [ff, largs]"

definition isSigFFun :: "tree \<Rightarrow> (tree \<times> tree) option" where
  "isSigFFun t = isTree2 t (ssym SIGFFUN)"

definition sigFConst :: "tree \<Rightarrow> tree \<Rightarrow> tree \<Rightarrow> tree" where
  "sigFConst type name file = Tree (ssym SIGFCONST) [type, name, file]"

definition isSigFConst :: "tree \<Rightarrow> (tree \<times> tree \<times> tree) option" where
  "isSigFConst t = isTree3 t (ssym SIGFCONST)"

definition sigFVar :: "tree \<Rightarrow> tree \<Rightarrow> tree \<Rightarrow> tree" where
  "sigFVar type name file = Tree (ssym SIGFVAR) [type, name, file]"

definition isSigFVar :: "tree \<Rightarrow> (tree \<times> tree \<times> tree) option" where
  "isSigFVar t = isTree3 t (ssym SIGFVAR)"

definition sigButton :: "tree \<Rightarrow> tree" where
  "sigButton lbl = Tree (ssym SIGBUTTON) [lbl]"

definition isSigButton :: "tree \<Rightarrow> tree option" where
  "isSigButton t = isTree1 t (ssym SIGBUTTON)"

definition sigCheckbox :: "tree \<Rightarrow> tree" where
  "sigCheckbox lbl = Tree (ssym SIGCHECKBOX) [lbl]"

definition isSigCheckbox :: "tree \<Rightarrow> tree option" where
  "isSigCheckbox t = isTree1 t (ssym SIGCHECKBOX)"

definition sigHBargraph :: "tree \<Rightarrow> tree \<Rightarrow> tree \<Rightarrow> tree \<Rightarrow> tree" where
  "sigHBargraph lbl mn mx x = Tree (ssym SIGHBARGRAPH) [lbl, mn, mx, x]"

definition isSigHBargraph :: "tree \<Rightarrow> (tree \<times> tree \<times> tree \<times> tree) option" where
  "isSigHBargraph t = isTree4 t (ssym SIGHBARGRAPH)"

definition sigVBargraph :: "tree \<Rightarrow> tree \<Rightarrow> tree \<Rightarrow> tree \<Rightarrow> tree" where
  "sigVBargraph lbl mn mx x = Tree (ssym SIGVBARGRAPH) [lbl, mn, mx, x]"

definition isSigVBargraph :: "tree \<Rightarrow> (tree \<times> tree \<times> tree \<times> tree) option" where
  "isSigVBargraph t = isTree4 t (ssym SIGVBARGRAPH)"

definition sigAttach :: "tree \<Rightarrow> tree \<Rightarrow> tree" where
  "sigAttach t0 t1 = Tree (ssym SIGATTACH) [t0, t1]"

definition isSigAttach :: "tree \<Rightarrow> (tree \<times> tree) option" where
  "isSigAttach t = isTree2 t (ssym SIGATTACH)"

definition sigTupleAccess :: "tree \<Rightarrow> tree \<Rightarrow> tree" where
  "sigTupleAccess ts idx = Tree (ssym SIGTUPLEACCESS) [ts, idx]"

definition isSigTupleAccess :: "tree \<Rightarrow> (tree \<times> tree) option" where
  "isSigTupleAccess t = isTree2 t (ssym SIGTUPLEACCESS)"

definition sigFixDelay :: "tree \<Rightarrow> tree \<Rightarrow> tree" where
  "sigFixDelay t0 t1 = Tree (ssym SIGFIXDELAY) [t0, sigIntCast t1]"

definition isSigFixDelay :: "tree \<Rightarrow> (tree \<times> tree) option" where
  "isSigFixDelay t = isTree2 t (ssym SIGFIXDELAY)"

definition sigDelay0 :: "tree \<Rightarrow> tree" where
  "sigDelay0 t0 = sigFixDelay t0 (sigInt 0)"

definition sigBinOp :: "binop \<Rightarrow> tree \<Rightarrow> tree \<Rightarrow> tree" where
  "sigBinOp op x y = Tree (ssym SIGBINOP) [leaf (NInt (opcode op)), x, y]"

definition sigSelect2 :: "tree \<Rightarrow> tree \<Rightarrow> tree \<Rightarrow> tree" where
  "sigSelect2 selector s1 s2 = Tree (ssym SIGSELECT2) [sigIntCast selector, s1, s2]"

definition isSigSelect2 :: "tree \<Rightarrow> (tree \<times> tree \<times> tree) option" where
  "isSigSelect2 t = isTree3 t (ssym SIGSELECT2)"

definition sigSelect3 :: "tree \<Rightarrow> tree \<Rightarrow> tree \<Rightarrow> tree \<Rightarrow> tree" where
  "sigSelect3 selector s1 s2 s3 =
     sigSelect2 (sigBinOp kEQ (sigIntCast selector) (sigInt 0))
       (sigSelect2 (sigBinOp kEQ (sigIntCast selector) (sigInt 1)) s3 s2) s1"

definition sigWriteReadTable :: "tree \<Rightarrow> tree \<Rightarrow> tree \<Rightarrow> tree \<Rightarrow> tree \<Rightarrow> tree" where
  "sigWriteReadTable n ini widx wsig ridx =
     sigRDTbl (sigWRTbl nil (sigTable nil n (sigGen ini)) widx wsig) ridx"

definition sigReadOnlyTable :: "tree \<Rightarrow> tree \<Rightarrow> tree \<Rightarrow> tree" where
  "sigReadOnlyTable n ini ridx = sigRDTbl (sigTable nil n (sigGen ini)) ridx"

definition sigOutput :: "int \<Rightarrow> tree \<Rightarrow> tree" where
  "sigOutput i t0 = Tree (ssym SIGOUTPUT) [leaf (NInt i), t0]"

definition sigProj :: "int \<Rightarrow> tree \<Rightarrow> tree" where
  "sigProj i rgroup = Tree (ssym SIGPROJ) [leaf (NInt i), rgroup]"

definition sigTuple :: "int \<Rightarrow> tree \<Rightarrow> tree" where
  "sigTuple mode ls = Tree (ssym SIGTUPLE) [leaf (NInt mode), ls]"

definition int_and_tree :: "(tree \<times> tree) option \<Rightarrow> (int \<times> tree) option" where
  "int_and_tree r = (case r of
      Some (x, t) \<Rightarrow> (case isSigInt x of Some i \<Rightarrow> Some (i, t) | None \<Rightarrow> None) | None \<Rightarrow> None)"

definition isSigOutput :: "tree \<Rightarrow> (int \<times> tree) option" where
  "isSigOutput t = int_and_tree (isTree2 t (ssym SIGOUTPUT))"

definition isProj :: "tree \<Rightarrow> (int \<times> tree) option" where
  "isProj t = int_and_tree (isTree2 t (ssym SIGPROJ))"

definition isSigTuple :: "tree \<Rightarrow> (int \<times> tree) option" where
  "isSigTuple s = int_and_tree (isTree2 s (ssym SIGTUPLE))"

definition isSigBinOp :: "tree \<Rightarrow> (int \<times> tree \<times> tree) option" where
  "isSigBinOp s = (case isTree3 s (ssym SIGBINOP) of
      Some (t, x, y) \<Rightarrow> (case isSigInt t of Some op \<Rightarrow> Some (op, x, y) | None \<Rightarrow> None) | None \<Rightarrow> None)"

definition sigWaveform :: "tree list \<Rightarrow> tree" where
  "sigWaveform wv = Tree (ssym SIGWAVEFORM) wv"

definition isSigWaveform :: "tree \<Rightarrow> bool" where
  "isSigWaveform s \<longleftrightarrow> isTree0 s (ssym SIGWAVEFORM)"

definition sigHSlider :: "tree \<Rightarrow> tree \<Rightarrow> tree \<Rightarrow> tree \<Rightarrow> tree \<Rightarrow> tree" where
  "sigHSlider lbl cur mn mx step = Tree (ssym SIGHSLIDER) [lbl, list4 cur mn mx step]"

definition isSigHSlider :: "tree \<Rightarrow> (tree \<times> tree \<times> tree \<times> tree \<times> tree) option" where
  "isSigHSlider s = (case isTree2 s (ssym SIGHSLIDER) of
      Some (lbl, params) \<Rightarrow> Some (lbl, nthT params 0, nthT params 1, nthT params 2, nthT params 3)
    | None \<Rightarrow> None)"

definition sigVSlider :: "tree \<Rightarrow> tree \<Rightarrow> tree \<Rightarrow> tree \<Rightarrow> tree \<Rightarrow> tree" where
  "sigVSlider lbl cur mn mx step = Tree (ssym SIGVSLIDER) [lbl, list4 cur mn mx step]"

definition isSigVSlider :: "tree \<Rightarrow> (tree \<times> tree \<times> tree \<times> tree \<times> tree) option" where
  "isSigVSlider s = (case isTree2 s (ssym SIGVSLIDER) of
      Some (lbl, params) \<Rightarrow> Some (lbl, nthT params 0, nthT params 1, nthT params 2, nthT params 3)
    | None \<Rightarrow> None)"

definition sigNumEntry :: "tree \<Rightarrow> tree \<Rightarrow> tree \<Rightarrow> tree \<Rightarrow> tree \<Rightarrow> tree" where
  "sigNumEntry lbl cur mn mx step = Tree (ssym SIGNUMENTRY) [lbl, list4 cur mn mx step]"

definition isSigNumEntry :: "tree \<Rightarrow> (tree \<times> tree \<times> tree \<times> tree \<times> tree) option" where
  "isSigNumEntry s = (case isTree2 s (ssym SIGNUMENTRY) of
      Some (lbl, params) \<Rightarrow> Some (lbl, nthT params 0, nthT params 1, nthT params 2, nthT params 3)
    | None \<Rightarrow> None)"

section \<open>Numbers and operators\<close>

definition isNum :: "tree \<Rightarrow> bool" where
  "isNum a = isNumNode (node a)"

definition addNums :: "tree \<Rightarrow> tree \<Rightarrow> tree" where
  "addNums a b = leaf (addNode (node a) (node b))"

definition subNums :: "tree \<Rightarrow> tree \<Rightarrow> tree" where
  "subNums a b = leaf (subNode (node a) (node b))"

definition mulNums :: "tree \<Rightarrow> tree \<Rightarrow> tree" where
  "mulNums a b = leaf (mulNode (node a) (node b))"

definition divExtendedNums :: "tree \<Rightarrow> tree \<Rightarrow> tree result" where
  "divExtendedNums a b = rbind (divExtendedNode (node a) (node b)) (\<lambda>n. Inr (leaf n))"

definition minusNum :: "tree \<Rightarrow> tree" where
  "minusNum a = leaf (minusNode (node a))"

definition inverseNum :: "tree \<Rightarrow> tree result" where
  "inverseNum a = rbind (inverseNode (node a)) (\<lambda>n. Inr (leaf n))"

definition is_binop :: "binop \<Rightarrow> tree \<Rightarrow> (tree \<times> tree) option" where
  "is_binop op a = (case isSigBinOp a of
      Some (o', x, y) \<Rightarrow> if o' = opcode op then Some (x, y) else None | None \<Rightarrow> None)"

definition isSigAdd :: "tree \<Rightarrow> (tree \<times> tree) option" where
  "isSigAdd a = is_binop kAdd a"

definition isSigMul :: "tree \<Rightarrow> (tree \<times> tree) option" where
  "isSigMul a = is_binop kMul a"

definition isSigSub :: "tree \<Rightarrow> (tree \<times> tree) option" where
  "isSigSub a = is_binop kSub a"

definition isSigDiv :: "tree \<Rightarrow> (tree \<times> tree) option" where
  "isSigDiv a = is_binop kDiv a"

definition tuple_list :: "tree \<Rightarrow> tree" where
  "tuple_list s = (case isSigTuple s of
      Some (m, l) \<Rightarrow> if m = 0 then l else list1 s | None \<Rightarrow> list1 s)"

definition sigCartesianProd :: "tree \<Rightarrow> tree \<Rightarrow> tree" where
  "sigCartesianProd s1 s2 = sigTuple 0 (concatT (tuple_list s1) (tuple_list s2))"

definition verySimple :: "tree \<Rightarrow> bool" where
  "verySimple e \<longleftrightarrow> isSigInt e \<noteq> None \<or> isSigReal e \<noteq> None \<or> isSigInput e \<noteq> None \<or> isSigFConst e \<noteq> None"

section \<open>Foreign functions\<close>

definition ffunction :: "tree \<Rightarrow> tree \<Rightarrow> tree \<Rightarrow> tree" where
  "ffunction signature incfile libfile = Tree (NSym (KTree FFUN)) [signature, incfile, libfile]"

definition isffunction :: "tree \<Rightarrow> bool" where
  "isffunction t \<longleftrightarrow> node t = NSym (KTree FFUN)"

definition ffrestype :: "tree \<Rightarrow> int result" where
  "ffrestype t = rbind (ffsignature t) (\<lambda>s. rbind (hdT s) tree2int)"

definition ffargtype :: "tree \<Rightarrow> int \<Rightarrow> int result" where
  "ffargtype t i = rbind (ffsignature t) (\<lambda>s. tree2int (nthT s (i + 2)))"

section \<open>The form of a signal\<close>

datatype sig_form =
    SvXtended xprim "tree list" | SvInt int | SvReal double | SvInput int | SvWaveform
  | SvOutput int tree | SvProj int tree | SvTuple int tree | SvBinOp int tree tree
  | SvDelay1 tree
  | SvPrefix tree tree
  | SvIota tree
  | SvRDTbl tree tree
  | SvWRTbl tree tree tree tree
  | SvTable tree tree tree
  | SvGen tree
  | SvDocConstantTbl tree tree
  | SvDocWriteTbl tree tree tree tree
  | SvDocAccessTbl tree tree
  | SvFFun tree tree
  | SvFConst tree tree tree
  | SvFVar tree tree tree
  | SvButton tree
  | SvCheckbox tree
  | SvHBargraph tree tree tree tree
  | SvVBargraph tree tree tree tree
  | SvAttach tree tree
  | SvTupleAccess tree tree
  | SvFixDelay tree tree
  | SvSelect2 tree tree tree
  | SvSelect3 tree tree tree tree
  | SvIntCast tree
  | SvFloatCast tree
  | SvHSlider tree tree
  | SvVSlider tree tree
  | SvNumEntry tree tree
  | SvRec tree | SvRef int | SvSymRec tree | SvNil | SvList tree tree | SvOther

definition sig_view_sym :: "sigkw \<Rightarrow> tree list \<Rightarrow> sig_form" where
  "sig_view_sym k br = (case k of
      SIGWAVEFORM \<Rightarrow> SvWaveform
    | SIGINPUT \<Rightarrow> (case br of [x] \<Rightarrow> (case isSigInt x of Some i \<Rightarrow> SvInput i | None \<Rightarrow> SvOther) | _ \<Rightarrow> SvOther)
    | SIGOUTPUT \<Rightarrow> (case br of [x, a] \<Rightarrow> (case isSigInt x of Some i \<Rightarrow> SvOutput i a | None \<Rightarrow> SvOther) | _ \<Rightarrow> SvOther)
    | SIGPROJ \<Rightarrow> (case br of [x, a] \<Rightarrow> (case isSigInt x of Some i \<Rightarrow> SvProj i a | None \<Rightarrow> SvOther) | _ \<Rightarrow> SvOther)
    | SIGTUPLE \<Rightarrow> (case br of [x, a] \<Rightarrow> (case isSigInt x of Some i \<Rightarrow> SvTuple i a | None \<Rightarrow> SvOther) | _ \<Rightarrow> SvOther)
    | SIGBINOP \<Rightarrow> (case br of [x, a, b] \<Rightarrow> (case isSigInt x of Some i \<Rightarrow> SvBinOp i a b | None \<Rightarrow> SvOther) | _ \<Rightarrow> SvOther)
    | SIGDELAY1 \<Rightarrow> (case br of [a] \<Rightarrow> SvDelay1 a | _ \<Rightarrow> SvOther)
    | SIGPREFIX \<Rightarrow> (case br of [a, b] \<Rightarrow> SvPrefix a b | _ \<Rightarrow> SvOther)
    | SIGIOTA \<Rightarrow> (case br of [a] \<Rightarrow> SvIota a | _ \<Rightarrow> SvOther)
    | SIGRDTBL \<Rightarrow> (case br of [a, b] \<Rightarrow> SvRDTbl a b | _ \<Rightarrow> SvOther)
    | SIGWRTBL \<Rightarrow> (case br of [a, b, c, d] \<Rightarrow> SvWRTbl a b c d | _ \<Rightarrow> SvOther)
    | SIGTABLE \<Rightarrow> (case br of [a, b, c] \<Rightarrow> SvTable a b c | _ \<Rightarrow> SvOther)
    | SIGGEN \<Rightarrow> (case br of [a] \<Rightarrow> SvGen a | _ \<Rightarrow> SvOther)
    | SIGDOCONSTANTTBL \<Rightarrow> (case br of [a, b] \<Rightarrow> SvDocConstantTbl a b | _ \<Rightarrow> SvOther)
    | SIGDOCWRITETBL \<Rightarrow> (case br of [a, b, c, d] \<Rightarrow> SvDocWriteTbl a b c d | _ \<Rightarrow> SvOther)
    | SIGDOCACCESSTBL \<Rightarrow> (case br of [a, b] \<Rightarrow> SvDocAccessTbl a b | _ \<Rightarrow> SvOther)
    | SIGFFUN \<Rightarrow> (case br of [a, b] \<Rightarrow> SvFFun a b | _ \<Rightarrow> SvOther)
    | SIGFCONST \<Rightarrow> (case br of [a, b, c] \<Rightarrow> SvFConst a b c | _ \<Rightarrow> SvOther)
    | SIGFVAR \<Rightarrow> (case br of [a, b, c] \<Rightarrow> SvFVar a b c | _ \<Rightarrow> SvOther)
    | SIGBUTTON \<Rightarrow> (case br of [a] \<Rightarrow> SvButton a | _ \<Rightarrow> SvOther)
    | SIGCHECKBOX \<Rightarrow> (case br of [a] \<Rightarrow> SvCheckbox a | _ \<Rightarrow> SvOther)
    | SIGHBARGRAPH \<Rightarrow> (case br of [a, b, c, d] \<Rightarrow> SvHBargraph a b c d | _ \<Rightarrow> SvOther)
    | SIGVBARGRAPH \<Rightarrow> (case br of [a, b, c, d] \<Rightarrow> SvVBargraph a b c d | _ \<Rightarrow> SvOther)
    | SIGATTACH \<Rightarrow> (case br of [a, b] \<Rightarrow> SvAttach a b | _ \<Rightarrow> SvOther)
    | SIGTUPLEACCESS \<Rightarrow> (case br of [a, b] \<Rightarrow> SvTupleAccess a b | _ \<Rightarrow> SvOther)
    | SIGFIXDELAY \<Rightarrow> (case br of [a, b] \<Rightarrow> SvFixDelay a b | _ \<Rightarrow> SvOther)
    | SIGSELECT2 \<Rightarrow> (case br of [a, b, c] \<Rightarrow> SvSelect2 a b c | _ \<Rightarrow> SvOther)
    | SIGSELECT3 \<Rightarrow> (case br of [a, b, c, d] \<Rightarrow> SvSelect3 a b c d | _ \<Rightarrow> SvOther)
    | SIGINTCAST \<Rightarrow> (case br of [a] \<Rightarrow> SvIntCast a | _ \<Rightarrow> SvOther)
    | SIGFLOATCAST \<Rightarrow> (case br of [a] \<Rightarrow> SvFloatCast a | _ \<Rightarrow> SvOther)
    | SIGHSLIDER \<Rightarrow> (case br of [a, b] \<Rightarrow> SvHSlider a b | _ \<Rightarrow> SvOther)
    | SIGVSLIDER \<Rightarrow> (case br of [a, b] \<Rightarrow> SvVSlider a b | _ \<Rightarrow> SvOther)
    | SIGNUMENTRY \<Rightarrow> (case br of [a, b] \<Rightarrow> SvNumEntry a b | _ \<Rightarrow> SvOther))"

definition tree_view :: "tree \<Rightarrow> sig_form" where
  "tree_view t = (case isRec t of Some b \<Rightarrow> SvRec b | None \<Rightarrow>
     (case isRef t of Some i \<Rightarrow> SvRef i | None \<Rightarrow>
       (if isNil t then SvNil else case asList t of Some (h, r) \<Rightarrow> SvList h r | None \<Rightarrow> SvOther)))"

definition sig_view :: "tree \<Rightarrow> sig_form" where
  "sig_view t = (case node t of
      NSym (Xt p) \<Rightarrow> SvXtended p (branches t)
    | NInt i \<Rightarrow> SvInt i
    | NDouble r \<Rightarrow> SvReal r
    | NSym (KSig k) \<Rightarrow> sig_view_sym k (branches t)
    | NSym (KTree SYMREC) \<Rightarrow> (case branches t of [v] \<Rightarrow> SvSymRec v | _ \<Rightarrow> SvOther)
    | _ \<Rightarrow> tree_view t)"

lemmas sig_constructor_defs = sigDelay1_def sigPrefix_def sigIota_def sigRDTbl_def sigWRTbl_def sigTable_def
  sigGen_def sigDocConstantTbl_def sigDocWriteTbl_def sigDocAccessTbl_def sigFFun_def sigFConst_def
  sigFVar_def sigButton_def sigCheckbox_def sigHBargraph_def sigVBargraph_def sigAttach_def
  sigTupleAccess_def sigHSlider_def sigVSlider_def sigNumEntry_def sigInt_def sigReal_def
  sigInput_def sigFixDelay_def sigBinOp_def sigSelect2_def sigOutput_def sigProj_def
  sigTuple_def sigWaveform_def

lemma sig_view_constructors [simp]:
  "sig_view (sigDelay1 t0) = SvDelay1 t0"
  "sig_view (sigPrefix t0 t1) = SvPrefix t0 t1"
  "sig_view (sigIota t0) = SvIota t0"
  "sig_view (sigRDTbl t i) = SvRDTbl t i"
  "sig_view (sigWRTbl ident t i s) = SvWRTbl ident t i s"
  "sig_view (sigTable ident n sig) = SvTable ident n sig"
  "sig_view (sigGen s) = SvGen s"
  "sig_view (sigDocConstantTbl n sig) = SvDocConstantTbl n sig"
  "sig_view (sigDocWriteTbl n sig widx wsig) = SvDocWriteTbl n sig widx wsig"
  "sig_view (sigDocAccessTbl tbl ridx) = SvDocAccessTbl tbl ridx"
  "sig_view (sigFFun ff largs) = SvFFun ff largs"
  "sig_view (sigFConst type name file) = SvFConst type name file"
  "sig_view (sigFVar type name file) = SvFVar type name file"
  "sig_view (sigButton lbl) = SvButton lbl"
  "sig_view (sigCheckbox lbl) = SvCheckbox lbl"
  "sig_view (sigHBargraph lbl mn mx x) = SvHBargraph lbl mn mx x"
  "sig_view (sigVBargraph lbl mn mx x) = SvVBargraph lbl mn mx x"
  "sig_view (sigAttach t0 t1) = SvAttach t0 t1"
  "sig_view (sigTupleAccess ts idx) = SvTupleAccess ts idx"
  "sig_view (sigHSlider lbl cur mn mx step) = SvHSlider lbl (list4 cur mn mx step)"
  "sig_view (sigVSlider lbl cur mn mx step) = SvVSlider lbl (list4 cur mn mx step)"
  "sig_view (sigNumEntry lbl cur mn mx step) = SvNumEntry lbl (list4 cur mn mx step)"
  "sig_view (sigInt j) = SvInt j" "sig_view (sigReal r) = SvReal r" "sig_view (sigInput j) = SvInput j"
  "sig_view (sigFixDelay t0 t1) = SvFixDelay t0 (sigIntCast t1)"
  "sig_view (sigSelect2 c t0 t1) = SvSelect2 (sigIntCast c) t0 t1"
  "sig_view (sigBinOp op t0 t1) = SvBinOp (opcode op) t0 t1"
  "sig_view (sigOutput j t) = SvOutput j t" "sig_view (sigProj j t) = SvProj j t" "sig_view (sigTuple j t) = SvTuple j t"
  "sig_view (sigWaveform wv) = SvWaveform"
  "sig_view (rec t) = SvRec t" "sig_view (ref j) = SvRef j" "sig_view nil = SvNil" "sig_view (cons t0 t1) = SvList t0 t1"
  by (simp_all add: sig_view_def sig_view_sym_def sig_constructor_defs isSigInt_def leaf_def)
    (simp_all add: tree_view_def rec_def ref_def leaf_def nil_def cons_def isRec_def isRef_def isTree_defs isNil_def arity_def
      asList_def isList_def)

definition has_sig_form :: "tree \<Rightarrow> sig_form \<Rightarrow> bool" where
  "has_sig_form t v \<longleftrightarrow> (case v of
      SvDelay1 t0 \<Rightarrow> t = sigDelay1 t0
    | SvPrefix t0 t1 \<Rightarrow> t = sigPrefix t0 t1
    | SvIota t0 \<Rightarrow> t = sigIota t0
    | SvRDTbl u i \<Rightarrow> t = sigRDTbl u i
    | SvWRTbl ident u i s \<Rightarrow> t = sigWRTbl ident u i s
    | SvTable ident n sig \<Rightarrow> t = sigTable ident n sig
    | SvGen s \<Rightarrow> t = sigGen s
    | SvDocConstantTbl n sig \<Rightarrow> t = sigDocConstantTbl n sig
    | SvDocWriteTbl n sig widx wsig \<Rightarrow> t = sigDocWriteTbl n sig widx wsig
    | SvDocAccessTbl tbl ridx \<Rightarrow> t = sigDocAccessTbl tbl ridx
    | SvFFun ff largs \<Rightarrow> t = sigFFun ff largs
    | SvFConst type name file \<Rightarrow> t = sigFConst type name file
    | SvFVar type name file \<Rightarrow> t = sigFVar type name file
    | SvButton lbl \<Rightarrow> t = sigButton lbl
    | SvCheckbox lbl \<Rightarrow> t = sigCheckbox lbl
    | SvHBargraph lbl mn mx x \<Rightarrow> t = sigHBargraph lbl mn mx x
    | SvVBargraph lbl mn mx x \<Rightarrow> t = sigVBargraph lbl mn mx x
    | SvAttach t0 t1 \<Rightarrow> t = sigAttach t0 t1
    | SvTupleAccess ts idx \<Rightarrow> t = sigTupleAccess ts idx
    | SvHSlider lbl params \<Rightarrow> t = Tree (ssym SIGHSLIDER) [lbl, params]
    | SvVSlider lbl params \<Rightarrow> t = Tree (ssym SIGVSLIDER) [lbl, params]
    | SvNumEntry lbl params \<Rightarrow> t = Tree (ssym SIGNUMENTRY) [lbl, params]
    | SvFixDelay a b \<Rightarrow> t = Tree (ssym SIGFIXDELAY) [a, b]
    | SvSelect2 a b c \<Rightarrow> t = Tree (ssym SIGSELECT2) [a, b, c]
    | SvSelect3 a b c d \<Rightarrow> t = Tree (ssym SIGSELECT3) [a, b, c, d]
    | SvIntCast a \<Rightarrow> t = Tree (ssym SIGINTCAST) [a]
    | SvFloatCast a \<Rightarrow> t = Tree (ssym SIGFLOATCAST) [a]
    | SvXtended p br \<Rightarrow> t = Tree (NSym (Xt p)) br
    | SvInt i \<Rightarrow> node t = NInt i
    | SvReal r \<Rightarrow> node t = NDouble r
    | SvInput i \<Rightarrow> (\<exists>x. node x = NInt i \<and> t = Tree (ssym SIGINPUT) [x])
    | SvOutput i a \<Rightarrow> (\<exists>x. node x = NInt i \<and> t = Tree (ssym SIGOUTPUT) [x, a])
    | SvProj i a \<Rightarrow> (\<exists>x. node x = NInt i \<and> t = Tree (ssym SIGPROJ) [x, a])
    | SvTuple i a \<Rightarrow> (\<exists>x. node x = NInt i \<and> t = Tree (ssym SIGTUPLE) [x, a])
    | SvBinOp i a b \<Rightarrow> (\<exists>x. node x = NInt i \<and> t = Tree (ssym SIGBINOP) [x, a, b])
    | SvWaveform \<Rightarrow> node t = ssym SIGWAVEFORM
    | SvRec b \<Rightarrow> t = rec b
    | SvRef i \<Rightarrow> (\<exists>x. node x = NInt i \<and> t = Tree (NSym (KTree DEBRUIJNREF)) [x])
    | SvSymRec v \<Rightarrow> t = Tree (NSym (KTree SYMREC)) [v]
    | SvNil \<Rightarrow> t = nil
    | SvList h r \<Rightarrow> t = cons h r
    | SvOther \<Rightarrow> True)"

lemma isSigInt_Some: "isSigInt t = Some i \<longleftrightarrow> node t = NInt i"
  by (auto simp: isSigInt_def split: node.splits)

lemma isRef_Some: "isRef t = Some i \<longleftrightarrow> (\<exists>x. node x = NInt i \<and> t = Tree (NSym (KTree DEBRUIJNREF)) [x])"
  by (auto simp: isRef_def isTree1_def split: option.splits node.splits list.splits if_splits) (metis tree.collapse)

lemma sig_view_sym_form: "has_sig_form (Tree (ssym k) br) (sig_view_sym k br)"
  by (cases k) (auto simp: sig_view_sym_def has_sig_form_def sig_constructor_defs isSigInt_Some
      split: list.splits option.splits)

lemma tree_view_form: "has_sig_form t (tree_view t)"
  by (auto simp: tree_view_def has_sig_form_def isNil_iff asList_Some isRef_Some isRec_def rec_def isTree_Some
      split: option.splits)

lemma sig_view_cases:
  obtains (num) "has_sig_form t (sig_view t)" | (sym) k br where "t = Tree (ssym k) br" "sig_view t = sig_view_sym k br"
    | (symrec) "node t = NSym (KTree SYMREC)" | (rest) "sig_view t = tree_view t"
proof (cases t)
  case (Tree n br)
  show ?thesis
  proof (cases n)
    case (NSym s)
    then show ?thesis
    proof (cases s)
      case (KTree k)
      with Tree NSym that(3,4) show ?thesis by (cases k) (simp_all add: sig_view_def)
    next
      case (KSig k)
      with Tree NSym that(2) show ?thesis by (simp add: sig_view_def)
    next
      case (Xt p)
      with Tree NSym have "has_sig_form t (sig_view t)" by (simp add: sig_view_def has_sig_form_def)
      then show ?thesis using that(1) by blast
    qed (use Tree NSym that(4) in \<open>simp_all add: sig_view_def\<close>)
  next
    case (NInt i)
    with Tree have "has_sig_form t (sig_view t)" by (simp add: sig_view_def has_sig_form_def)
    then show ?thesis using that(1) by blast
  next
    case (NDouble r)
    with Tree have "has_sig_form t (sig_view t)" by (simp add: sig_view_def has_sig_form_def)
    then show ?thesis using that(1) by blast
  qed (use Tree that(4) in \<open>simp_all add: sig_view_def\<close>)
qed

lemma sig_view_form: "has_sig_form t (sig_view t)"
proof (cases rule: sig_view_cases [of t])
  case symrec
  then show ?thesis by (cases t) (auto simp: sig_view_def has_sig_form_def split: list.splits)
qed (simp_all add: sig_view_sym_form tree_view_form)

lemma sig_viewD: "sig_view t = v \<Longrightarrow> has_sig_form t v"
  using sig_view_form by blast

end
