(* ===== verification/Xtended.thy ===== *)
theory Xtended
  imports Signals
begin

text \<open>
  The extended primitives (\<^verbatim>\<open>extended/xtended.hh\<close> and the twenty \<^verbatim>\<open>extended/*prim.hh\<close>): the signal each
  of them builds from its arguments (\<^verbatim>\<open>computeSigOutput\<close>, which folds constants) and the order of
  that signal (\<^verbatim>\<open>infereSigOrder\<close>).  The virtual calls of the source are the dispatchers
  \<open>computeSigOutput\<close> and \<open>xtInfereSigOrder\<close> on \<open>xprim\<close>.
\<close>

record libm =
  lm_acos :: "double \<Rightarrow> double"
  lm_asin :: "double \<Rightarrow> double"
  lm_atan :: "double \<Rightarrow> double"
  lm_cos :: "double \<Rightarrow> double"
  lm_exp :: "double \<Rightarrow> double"
  lm_log :: "double \<Rightarrow> double"
  lm_log10 :: "double \<Rightarrow> double"
  lm_sin :: "double \<Rightarrow> double"
  lm_sqrt :: "double \<Rightarrow> double"
  lm_tan :: "double \<Rightarrow> double"
  lm_atan2 :: "double \<Rightarrow> double \<Rightarrow> double"
  lm_pow :: "double \<Rightarrow> double \<Rightarrow> double"

definition nan_libm :: libm where
  "nan_libm = \<lparr>lm_acos = (\<lambda>_. DNaN), lm_asin = (\<lambda>_. DNaN), lm_atan = (\<lambda>_. DNaN), lm_cos = (\<lambda>_. DNaN), lm_exp = (\<lambda>_. DNaN), lm_log = (\<lambda>_. DNaN), lm_log10 = (\<lambda>_. DNaN), lm_sin = (\<lambda>_. DNaN), lm_sqrt = (\<lambda>_. DNaN), lm_tan = (\<lambda>_. DNaN),
    lm_atan2 = (\<lambda>_ _. DNaN), lm_pow = (\<lambda>_ _. DNaN)\<rparr>"

section \<open>Exact functions of the C library\<close>

definition dfloor :: "double \<Rightarrow> double" where
  "dfloor x = (case x of DFin q \<Rightarrow> DFin (of_int \<lfloor>q\<rfloor>) | _ \<Rightarrow> x)"

definition dceil :: "double \<Rightarrow> double" where
  "dceil x = (case x of DFin q \<Rightarrow> if q < 0 \<and> \<lceil>q\<rceil> = 0 then DNegZero else DFin (of_int \<lceil>q\<rceil>) | _ \<Rightarrow> x)"

definition drint :: "double \<Rightarrow> double" where
  "drint x = (case x of DFin q \<Rightarrow>
      if q < 0 \<and> round_half_even q = 0 then DNegZero else DFin (of_int (round_half_even q)) | _ \<Rightarrow> x)"

definition dmod_by :: "(rat \<Rightarrow> int) \<Rightarrow> double \<Rightarrow> double \<Rightarrow> double" where
  "dmod_by quot x y =
     (if x = DNaN \<or> y = DNaN \<or> \<not> dfinite x \<or> (dfinite y \<and> dval y = 0) then DNaN
      else if \<not> dfinite y then x
      else let r = dval x - of_int (quot (dval x / dval y)) * dval y
           in if r = 0 then dzero (dsign x) else DFin r)"

definition dfmod :: "double \<Rightarrow> double \<Rightarrow> double" where
  "dfmod x y = dmod_by trunc_rat x y"

definition dremainder :: "double \<Rightarrow> double \<Rightarrow> double" where
  "dremainder x y = dmod_by round_half_even x y"

section \<open>Outputs\<close>

definition node_num :: "node \<Rightarrow> double option" where
  "node_num n = (case n of NInt i \<Rightarrow> Some (double_of_int i) | NDouble d \<Rightarrow> Some d | _ \<Rightarrow> None)"

definition isNumValue :: "tree \<Rightarrow> double option" where
  "isNumValue t = node_num (node t)"

definition arg_at :: "tree list \<Rightarrow> nat \<Rightarrow> tree result" where
  "arg_at args i = (if i < length args then Inr (args ! i) else Inl (Undefined ''args''))"

definition xt_node1 :: "xprim \<Rightarrow> tree \<Rightarrow> tree" where
  "xt_node1 p x = Tree (NSym (Xt p)) [x]"

definition xt_node2 :: "xprim \<Rightarrow> tree \<Rightarrow> tree \<Rightarrow> tree" where
  "xt_node2 p x y = Tree (NSym (Xt p)) [x, y]"

definition fold1 :: "xprim \<Rightarrow> (double \<Rightarrow> double) \<Rightarrow> tree list \<Rightarrow> tree result" where
  "fold1 p f args = rbind (arg_at args 0) (\<lambda>x. case isNumValue x of
      Some n \<Rightarrow> Inr (leaf (NDouble (f n))) | None \<Rightarrow> Inr (xt_node1 p x))"

definition fold2 :: "xprim \<Rightarrow> (double \<Rightarrow> double \<Rightarrow> double) \<Rightarrow> tree list \<Rightarrow> tree result" where
  "fold2 p f args = rbind (arg_at args 0) (\<lambda>x. rbind (arg_at args 1) (\<lambda>y.
     case (isNumValue x, isNumValue y) of
       (Some n, Some m) \<Rightarrow> Inr (leaf (NDouble (f n m)))
     | _ \<Rightarrow> Inr (xt_node2 p x y)))"

definition minmax_output ::
  "xprim \<Rightarrow> (double \<Rightarrow> double \<Rightarrow> double) \<Rightarrow> (int \<Rightarrow> int \<Rightarrow> int) \<Rightarrow> tree list \<Rightarrow> tree result" where
  "minmax_output p fd fi args = rbind (assert_that (length args = 2) ''arity'') (\<lambda>_.
     rbind (arg_at args 0) (\<lambda>x. rbind (arg_at args 1) (\<lambda>y.
       case node x of
         NDouble f \<Rightarrow> (case node y of
             NDouble g \<Rightarrow> Inr (leaf (NDouble (fd f g)))
           | NInt j \<Rightarrow> Inr (leaf (NDouble (fd f (double_of_int j))))
           | _ \<Rightarrow> Inr (xt_node2 p x y))
       | NInt i \<Rightarrow> (case node y of
             NDouble g \<Rightarrow> Inr (leaf (NDouble (fd (double_of_int i) g)))
           | NInt j \<Rightarrow> Inr (leaf (NInt (fi i j)))
           | _ \<Rightarrow> Inr (xt_node2 p x y))
       | _ \<Rightarrow> Inr (xt_node2 p x y))))"

definition absprim_output :: "tree list \<Rightarrow> tree result" where
  "absprim_output args = rbind (assert_that (length args = 1) ''arity'') (\<lambda>_. rbind (arg_at args 0) (\<lambda>x.
     case node x of
       NDouble f \<Rightarrow> Inr (leaf (NDouble (dabs f)))
     | NInt i \<Rightarrow> Inr (leaf (NInt (wrap32 \<bar>i\<bar>)))
     | _ \<Rightarrow> Inr (xt_node1 XAbs x)))"

definition acosprim_output :: "libm \<Rightarrow> tree list \<Rightarrow> tree result" where
  "acosprim_output lm args = fold1 XAcos (lm_acos lm) args"

definition asinprim_output :: "libm \<Rightarrow> tree list \<Rightarrow> tree result" where
  "asinprim_output lm args = fold1 XAsin (lm_asin lm) args"

definition atan2prim_output :: "libm \<Rightarrow> tree list \<Rightarrow> tree result" where
  "atan2prim_output lm args = rbind (assert_that (length args = 2) ''arity'') (\<lambda>_. fold2 XAtan2 (lm_atan2 lm) args)"

definition atanprim_output :: "libm \<Rightarrow> tree list \<Rightarrow> tree result" where
  "atanprim_output lm args = fold1 XAtan (lm_atan lm) args"

definition ceilprim_output :: "tree list \<Rightarrow> tree result" where
  "ceilprim_output args = rbind (assert_that (length args = 1) ''arity'') (\<lambda>_. fold1 XCeil dceil args)"

definition cosprim_output :: "libm \<Rightarrow> tree list \<Rightarrow> tree result" where
  "cosprim_output lm args = fold1 XCos (lm_cos lm) args"

definition expprim_output :: "libm \<Rightarrow> tree list \<Rightarrow> tree result" where
  "expprim_output lm args = rbind (assert_that (length args = 1) ''arity'') (\<lambda>_. fold1 XExp (lm_exp lm) args)"

definition floorprim_output :: "tree list \<Rightarrow> tree result" where
  "floorprim_output args = rbind (assert_that (length args = 1) ''arity'') (\<lambda>_. fold1 XFloor dfloor args)"

definition fmodprim_output :: "tree list \<Rightarrow> tree result" where
  "fmodprim_output args = rbind (assert_that (length args = 2) ''arity'') (\<lambda>_. fold2 XFmod dfmod args)"

definition log10prim_output :: "libm \<Rightarrow> tree list \<Rightarrow> tree result" where
  "log10prim_output lm args = rbind (assert_that (length args = 1) ''arity'') (\<lambda>_. fold1 XLog10 (lm_log10 lm) args)"

definition logprim_output :: "libm \<Rightarrow> tree list \<Rightarrow> tree result" where
  "logprim_output lm args = rbind (assert_that (length args = 1) ''arity'') (\<lambda>_. fold1 XLog (lm_log lm) args)"

definition maxprim_output :: "tree list \<Rightarrow> tree result" where
  "maxprim_output args = minmax_output XMax dmax max args"

definition minprim_output :: "tree list \<Rightarrow> tree result" where
  "minprim_output args = minmax_output XMin dmin min args"

definition powprim_output :: "libm \<Rightarrow> tree list \<Rightarrow> tree result" where
  "powprim_output lm args = rbind (assert_that (length args = 2) ''arity'') (\<lambda>_. fold2 XPow (lm_pow lm) args)"

definition remainderprim_output :: "tree list \<Rightarrow> tree result" where
  "remainderprim_output args = rbind (assert_that (length args = 2) ''arity'') (\<lambda>_. fold2 XRemainder dremainder args)"

definition rintprim_output :: "tree list \<Rightarrow> tree result" where
  "rintprim_output args = rbind (assert_that (length args = 1) ''arity'') (\<lambda>_. fold1 XRint drint args)"

definition sinprim_output :: "libm \<Rightarrow> tree list \<Rightarrow> tree result" where
  "sinprim_output lm args = fold1 XSin (lm_sin lm) args"

definition sqrtprim_output :: "libm \<Rightarrow> tree list \<Rightarrow> tree result" where
  "sqrtprim_output lm args = fold1 XSqrt (lm_sqrt lm) args"

definition tanprim_output :: "libm \<Rightarrow> tree list \<Rightarrow> tree result" where
  "tanprim_output lm args = fold1 XTan (lm_tan lm) args"

definition computeSigOutput :: "libm \<Rightarrow> xprim \<Rightarrow> tree list \<Rightarrow> tree result" where
  "computeSigOutput lm p args = (case p of
      XAbs \<Rightarrow> absprim_output args
    | XAcos \<Rightarrow> acosprim_output lm args
    | XAsin \<Rightarrow> asinprim_output lm args
    | XAtan2 \<Rightarrow> atan2prim_output lm args
    | XAtan \<Rightarrow> atanprim_output lm args
    | XCeil \<Rightarrow> ceilprim_output args
    | XCos \<Rightarrow> cosprim_output lm args
    | XExp \<Rightarrow> expprim_output lm args
    | XFloor \<Rightarrow> floorprim_output args
    | XFmod \<Rightarrow> fmodprim_output args
    | XLog10 \<Rightarrow> log10prim_output lm args
    | XLog \<Rightarrow> logprim_output lm args
    | XMax \<Rightarrow> maxprim_output args
    | XMin \<Rightarrow> minprim_output args
    | XPow \<Rightarrow> powprim_output lm args
    | XRemainder \<Rightarrow> remainderprim_output args
    | XRint \<Rightarrow> rintprim_output args
    | XSin \<Rightarrow> sinprim_output lm args
    | XSqrt \<Rightarrow> sqrtprim_output lm args
    | XTan \<Rightarrow> tanprim_output lm args)"

section \<open>Orders\<close>

definition order_at :: "int list \<Rightarrow> nat \<Rightarrow> int result" where
  "order_at args i = (if i < length args then Inr (args ! i) else Inl (Undefined ''args''))"

definition unary_order :: "bool \<Rightarrow> int list \<Rightarrow> int result" where
  "unary_order checked args =
     rbind (assert_that (checked \<longrightarrow> length args = 1) ''arity'') (\<lambda>_. order_at args 0)"

definition binary_order :: "bool \<Rightarrow> int list \<Rightarrow> int result" where
  "binary_order checked args =
     rbind (assert_that (checked \<longrightarrow> length args = 2) ''arity'') (\<lambda>_.
       rbind (order_at args 0) (\<lambda>a. rbind (order_at args 1) (\<lambda>b. Inr (max a b))))"

definition xtInfereSigOrder :: "xprim \<Rightarrow> int list \<Rightarrow> int result" where
  "xtInfereSigOrder p args = (case p of
      XAbs \<Rightarrow> unary_order True args
    | XAcos \<Rightarrow> unary_order False args
    | XAsin \<Rightarrow> unary_order False args
    | XAtan2 \<Rightarrow> binary_order False args
    | XAtan \<Rightarrow> unary_order False args
    | XCeil \<Rightarrow> unary_order True args
    | XCos \<Rightarrow> unary_order False args
    | XExp \<Rightarrow> unary_order True args
    | XFloor \<Rightarrow> unary_order True args
    | XFmod \<Rightarrow> binary_order True args
    | XLog10 \<Rightarrow> unary_order True args
    | XLog \<Rightarrow> unary_order True args
    | XMax \<Rightarrow> binary_order True args
    | XMin \<Rightarrow> binary_order True args
    | XPow \<Rightarrow> binary_order True args
    | XRemainder \<Rightarrow> binary_order True args
    | XRint \<Rightarrow> unary_order True args
    | XSin \<Rightarrow> unary_order False args
    | XSqrt \<Rightarrow> unary_order False args
    | XTan \<Rightarrow> unary_order False args)"

lemmas output_defs = absprim_output_def acosprim_output_def asinprim_output_def atan2prim_output_def atanprim_output_def ceilprim_output_def cosprim_output_def expprim_output_def floorprim_output_def fmodprim_output_def log10prim_output_def logprim_output_def maxprim_output_def minprim_output_def powprim_output_def remainderprim_output_def rintprim_output_def sinprim_output_def sqrtprim_output_def tanprim_output_def

lemma computeSigOutput_total:
  assumes "length args = xarity p"
  shows "\<exists>s. computeSigOutput lm p args = Inr s"
proof (cases "xarity p = 1")
  case True
  then obtain x where "args = [x]" using assms by (auto simp: length_Suc_conv)
  with True assms show ?thesis
    by (cases p) (auto simp: computeSigOutput_def output_defs fold1_def arg_at_def xarity_def
        split: option.splits node.splits)
next
  case False
  then have "xarity p = 2" by (auto simp: xarity_def split: if_splits)
  then obtain x y where "args = [x, y]" using assms by (auto simp: numeral_2_eq_2 length_Suc_conv)
  with \<open>xarity p = 2\<close> show ?thesis
    by (cases p) (auto simp: computeSigOutput_def output_defs fold2_def minmax_output_def arg_at_def xarity_def
        split: option.splits node.splits)
qed

end
