(* ===== verification/Labels.thy ===== *)
theory Labels
  imports Lists
begin

text \<open>
  Labels with pathnames (\<^verbatim>\<open>propagate/labels.cpp\<close>): a widget label such as \<^verbatim>\<open>../h:osc/freq\<close> is cut into
  path elements and applied to the stack of the enclosing groups, innermost group first.

  A C string is the list of its characters without the final NUL, and \<open>char_at\<close> reads the NUL at
  the end.  The symbol of a label is \<open>Name s\<close>.
\<close>

section \<open>Operations\<close>

definition pathRoot :: tree where
  "pathRoot = leaf (NSym (KTree PATHROOT))"

definition isPathRoot :: "tree \<Rightarrow> bool" where
  "isPathRoot t \<longleftrightarrow> isTree0 t (NSym (KTree PATHROOT))"

definition pathParent :: tree where
  "pathParent = leaf (NSym (KTree PATHPARENT))"

definition isPathParent :: "tree \<Rightarrow> bool" where
  "isPathParent t \<longleftrightarrow> isTree0 t (NSym (KTree PATHPARENT))"

definition pathCurrent :: tree where
  "pathCurrent = leaf (NSym (KTree PATHCURRENT))"

definition isPathCurrent :: "tree \<Rightarrow> bool" where
  "isPathCurrent t \<longleftrightarrow> isTree0 t (NSym (KTree PATHCURRENT))"

definition str_tree :: "string \<Rightarrow> tree" where
  "str_tree s = leaf (NSym (Name s))"

definition encodeName :: "char \<Rightarrow> string \<Rightarrow> tree" where
  "encodeName g name =
     (if g = CHR ''v'' \<or> g = CHR ''V'' then cons (leaf (NInt 0)) (str_tree name)
      else if g = CHR ''h'' \<or> g = CHR ''H'' then cons (leaf (NInt 1)) (str_tree name)
      else if g = CHR ''t'' \<or> g = CHR ''T'' then cons (leaf (NInt 2)) (str_tree name)
      else cons (leaf (NInt 0)) (str_tree name))"

definition char_at :: "string \<Rightarrow> nat \<Rightarrow> char" where
  "char_at s i = (if i < length s then s ! i else CHR 0x00)"

definition group_name :: "string \<Rightarrow> string" where
  "group_name s = takeWhile (\<lambda>c. c \<noteq> CHR ''/'') s"

definition after_group :: "string \<Rightarrow> string" where
  "after_group s = (let r = dropWhile (\<lambda>c. c \<noteq> CHR ''/'') s in if r = [] then [] else tl r)"

lemma after_group_length [termination_simp]: "length (after_group s) \<le> length s"
  using length_dropWhile_le [of "\<lambda>c. c \<noteq> CHR ''/''" s] by (auto simp: after_group_def Let_def)

function label2path :: "string \<Rightarrow> tree" where
  "label2path label =
     (if label = [] then cons (str_tree []) nil
      else if char_at label 0 = CHR ''/'' then cons pathRoot (label2path (drop 1 label))
      else if char_at label 0 = CHR ''.'' \<and> char_at label 1 = CHR ''/'' then label2path (drop 2 label)
      else if char_at label 0 = CHR ''.'' \<and> char_at label 1 = CHR ''.'' \<and> char_at label 2 = CHR ''/''
      then cons pathParent (label2path (drop 3 label))
      else if char_at label 1 = CHR '':''
      then cons (encodeName (char_at label 0) (group_name (drop 2 label))) (label2path (after_group (drop 2 label)))
      else cons (str_tree label) nil)"
  by auto
termination
proof (relation "measure length")
  fix label :: string
  assume "label \<noteq> []"
  then show "(after_group (drop 2 label), label) \<in> measure length"
    using after_group_length [of "drop 2 label"] by (cases label) auto
qed auto

function concatPath :: "tree \<Rightarrow> tree \<Rightarrow> tree result" where
  "concatPath relpath abspath = (case asList relpath of
      Some (head, rest) \<Rightarrow>
        (if isPathRoot head then concatPath rest nil
         else if isPathParent head
         then (case asList abspath of None \<Rightarrow> concatPath rest head | Some (h, t) \<Rightarrow> concatPath rest t)
         else if isPathCurrent head then concatPath rest abspath
         else concatPath rest (cons head abspath))
    | None \<Rightarrow> rbind (assert_that (isNil relpath) ''isNil(relpath)'') (\<lambda>_. Inr abspath))"
  by auto
termination by (relation "measure (\<lambda>(r, a). size r)") (auto dest: asList_size)

definition normalizeLabel :: "tree \<Rightarrow> tree \<Rightarrow> tree result" where
  "normalizeLabel label path =
     (if isList label then Inr (cons label path)
      else case node label of
          NSym (Name s) \<Rightarrow> concatPath (label2path s) path
        | NSym _ \<Rightarrow> Inl (Undefined ''label'')
        | _ \<Rightarrow> Inl (AssertFailed ''isSym(label)''))"

function normalizePath :: "tree \<Rightarrow> tree result" where
  "normalizePath path =
     (if isNil path then Inr path
      else rbind (hdT path) (\<lambda>h. rbind (tlT path) (\<lambda>t. rbind (normalizePath t) (\<lambda>p. normalizeLabel h p))))"
  by auto
termination by (relation "measure size") (auto dest: tlT_size)

declare label2path.simps [simp del] concatPath.simps [simp del] normalizePath.simps [simp del]

section \<open>Paths as stacks\<close>

text \<open>
  The intended meaning of a path element on the stack of groups.  \<^verbatim>\<open>..\<close> at the top of the
  hierarchy has no meaning; \<open>in_scope\<close> says that a relative path never leaves the hierarchy.
\<close>

definition path_step :: "tree \<Rightarrow> tree list \<Rightarrow> tree list" where
  "path_step e stack =
     (if isPathRoot e then [] else if isPathParent e then tl stack
      else if isPathCurrent e then stack else e # stack)"

fun in_scope :: "tree list \<Rightarrow> tree list \<Rightarrow> bool" where
  "in_scope [] stack = True"
| "in_scope (e # es) stack = ((isPathParent e \<longrightarrow> stack \<noteq> []) \<and> in_scope es (path_step e stack))"

lemma path_tests [simp]:
  "isPathRoot pathRoot" "isPathParent pathParent" "isPathCurrent pathCurrent"
  "\<not> isPathRoot pathParent" "\<not> isPathParent pathRoot" "\<not> isPathRoot (str_tree s)" "\<not> isPathParent (str_tree s)"
  "\<not> isPathCurrent (str_tree s)" "\<not> isPathRoot (cons a b)" "\<not> isPathParent (cons a b)" "\<not> isPathCurrent (cons a b)"
  by (simp_all add: isPathRoot_def isPathParent_def isPathCurrent_def pathRoot_def pathParent_def pathCurrent_def
      isTree0_def leaf_def str_tree_def cons_def)

lemma path_tests_disjoint: "isPathParent e \<Longrightarrow> \<not> isPathRoot e"
  by (simp add: isPathRoot_def isPathParent_def isTree0_def)

lemma concatPath_stack:
  "in_scope es stack \<Longrightarrow> concatPath (list_tree es) (list_tree stack) = Inr (list_tree (fold path_step es stack))"
proof (induction es arbitrary: stack)
  case Nil
  then show ?case by (subst concatPath.simps) simp
next
  case (Cons e es)
  have "concatPath (list_tree (e # es)) (list_tree stack) = concatPath (list_tree es) (list_tree (path_step e stack))"
    using Cons.prems by (cases stack; subst concatPath.simps) (auto simp: path_step_def dest: path_tests_disjoint)
  with Cons show ?case by simp
qed

lemma label2path_list: "\<exists>es e. label2path s = list_tree (es @ [str_tree e])"
proof (induction s rule: label2path.induct)
  case (1 label)
  have base: "\<exists>es e'. cons (str_tree e) nil = list_tree (es @ [str_tree e'])" for e
    by (rule exI [of _ "[]"]) auto
  have step: "\<exists>es e. cons x (list_tree (es' @ [str_tree e'])) = list_tree (es @ [str_tree e])" for x es' e'
    by (rule exI [of _ "x # es'"]) auto
  show ?case using 1 base step by (subst label2path.simps) (auto 0 3)
qed

lemma normalizePath_simps [simp]:
  "normalizePath nil = Inr nil"
  "normalizePath (cons h t) = rbind (normalizePath t) (normalizeLabel h)"
  by (simp_all add: normalizePath.simps [of nil] normalizePath.simps [of "cons h t"])

lemma label2path_simps [simp]:
  "label2path (CHR ''/'' # s) = cons pathRoot (label2path s)"
  "label2path (CHR ''.'' # CHR ''/'' # s) = label2path s"
  "label2path (CHR ''.'' # CHR ''.'' # CHR ''/'' # s) = cons pathParent (label2path s)"
  "g \<noteq> CHR ''/'' \<Longrightarrow> label2path (g # CHR '':'' # s) = cons (encodeName g (group_name s)) (label2path (after_group s))"
  "label2path [] = cons (str_tree []) nil"
  by (simp_all add: label2path.simps [of "_ # _"] label2path.simps [of "[]"] char_at_def)

lemma group_split [simp]:
  assumes "CHR ''/'' \<notin> set g"
  shows "group_name (g @ CHR ''/'' # s) = g" "after_group (g @ CHR ''/'' # s) = s"
proof -
  have "takeWhile (\<lambda>c. c \<noteq> CHR ''/'') (g @ CHR ''/'' # s) = g" using assms by (subst takeWhile_append2) auto
  moreover have "dropWhile (\<lambda>c. c \<noteq> CHR ''/'') (g @ CHR ''/'' # s) = CHR ''/'' # s"
    using assms by (subst dropWhile_append2) auto
  ultimately show "group_name (g @ CHR ''/'' # s) = g" "after_group (g @ CHR ''/'' # s) = s"
    by (simp_all add: group_name_def after_group_def)
qed

section \<open>The grammar of labels\<close>

datatype path_elem = Root | Parent | Current | Group bool nat string

fun show_elem :: "path_elem \<Rightarrow> string" where
  "show_elem Root = ''/''"
| "show_elem Parent = ''../''"
| "show_elem Current = ''./''"
| "show_elem (Group up k g) = [(if up then [CHR ''V'', CHR ''H'', CHR ''T''] else [CHR ''v'', CHR ''h'', CHR ''t'']) ! k,
     CHR '':''] @ g @ ''/''"

fun elem_tree :: "path_elem \<Rightarrow> tree list" where
  "elem_tree Root = [pathRoot]"
| "elem_tree Parent = [pathParent]"
| "elem_tree Current = []"
| "elem_tree (Group up k g) = [cons (leaf (NInt (int k))) (str_tree g)]"

definition elem_ok :: "path_elem \<Rightarrow> bool" where
  "elem_ok e = (case e of Group up k g \<Rightarrow> k < 3 \<and> CHR ''/'' \<notin> set g | _ \<Rightarrow> True)"

definition name_ok :: "string \<Rightarrow> bool" where
  "name_ok s \<longleftrightarrow> CHR ''/'' \<notin> set s \<and> char_at s 1 \<noteq> CHR '':''"

lemma label2path_name: "name_ok s \<Longrightarrow> label2path s = cons (str_tree s) nil"
proof -
  assume "name_ok s"
  then have "char_at s i \<noteq> CHR ''/''" "char_at s 1 \<noteq> CHR '':''" for i
    by (auto simp: name_ok_def char_at_def in_set_conv_nth)
  then show ?thesis by (subst label2path.simps) simp
qed

lemma label2path_elem:
  assumes "elem_ok e"
  shows "label2path (show_elem e @ s) = foldr cons (elem_tree e) (label2path s)"
proof (cases e)
  case (Group up k g)
  with assms have "k = 0 \<or> k = 1 \<or> k = 2" and g: "CHR ''/'' \<notin> set g" by (auto simp: elem_ok_def)
  then show ?thesis using Group group_split [OF g, of s] by (cases up) (auto simp: encodeName_def)
qed simp_all

lemma label2path_show:
  assumes "\<forall>e \<in> set es. elem_ok e" "name_ok s"
  shows "label2path (concat (map show_elem es) @ s) = list_tree (concat (map elem_tree es) @ [str_tree s])"
  using assms by (induction es) (simp_all add: label2path_elem label2path_name foldr_cons_list_tree [symmetric])



text \<open>
  Above the root the code continues from the path element itself instead of the empty stack: the
  result is not a list.
\<close>

lemma parent_of_root: "concatPath (label2path ''../a'') nil = Inr (cons (str_tree ''a'') pathParent)"
  by (simp add: label2path_name name_ok_def char_at_def concatPath.simps [of "cons _ _"] concatPath.simps [of nil])

end
