(* ===== verification/Propagate.thy ===== *)
theory Propagate
  imports Xtended Labels
begin

text \<open>
  Propagation of signals through a block diagram (\<^verbatim>\<open>propagate/propagate.cpp\<close>).

  The state of the pass is \<open>pstate\<close>: the counter of dummy inputs given to unbound slots, the
  results stored under \<^verbatim>\<open>PROPAGATEPROPERTY\<close> on the tree of the arguments, and the box types stored
  by \<open>getBoxType\<close>.  A \<^verbatim>\<open>siglist\<close> is a list of trees.  Reading outside a list, calling a primitive
  through a pointer of another arity and using the type of a box that has none are undefined
  behaviour and give \<open>Inl (Undefined _)\<close>; a failed \<^verbatim>\<open>assert\<close> gives \<open>Inl (AssertFailed _)\<close>.  The two
  calls in the parallel composition are made from left to right.
\<close>

record pstate =
  gDummyInput :: int
  propagated :: memo
  boxtypes :: memo

type_synonym 'a pm = "pstate \<Rightarrow> ('a \<times> pstate) result"

section \<open>Lists of signals\<close>

function mix_loop :: "tree list \<Rightarrow> nat \<Rightarrow> nat \<Rightarrow> tree \<Rightarrow> tree" where
  "mix_loop lsig nbus i t =
     (if i < length lsig \<and> 0 < nbus then mix_loop lsig nbus (i + nbus) (sigBinOp kAdd t (lsig ! i)) else t)"
  by auto
termination by (relation "measure (\<lambda>(l, n, i, t). length l - i)") auto

declare mix_loop.simps [simp del]

definition mix :: "tree list \<Rightarrow> int \<Rightarrow> tree list result" where
  "mix lsig nbus =
     (if nbus < 0 then Inl (Undefined ''siglist of negative size'')
      else Inr (map (\<lambda>b. mix_loop lsig (nat nbus) (b + nat nbus)
                          (if b < length lsig then lsig ! b else sigInt 0)) [0..<nat nbus]))"

definition split_list :: "tree list \<Rightarrow> int \<Rightarrow> tree list result" where
  "split_list inputs nbus =
     (if nbus < 0 then Inl (Undefined ''siglist of negative size'')
      else if 0 < nbus \<and> inputs = [] then Inl (Undefined ''division by zero'')
      else Inr (map (\<lambda>b. inputs ! (b mod length inputs)) [0..<nat nbus]))"

definition makeSigProjList :: "tree \<Rightarrow> int \<Rightarrow> tree list result" where
  "makeSigProjList t n =
     (if n < 0 then Inl (Undefined ''siglist of negative size'')
      else Inr (map (\<lambda>i. sigDelay0 (sigProj (int i) t)) [0..<nat n]))"

definition makeMemSigProjList :: "tree \<Rightarrow> int \<Rightarrow> tree list result" where
  "makeMemSigProjList t n =
     (if n < 0 then Inl (Undefined ''siglist of negative size'')
      else Inr (map (\<lambda>i. sigDelay1 (sigProj (int i) t)) [0..<nat n]))"

definition makeSigInputList :: "int \<Rightarrow> tree list result" where
  "makeSigInputList n =
     (if n < 0 then Inl (Undefined ''siglist of negative size'')
      else Inr (map (\<lambda>i. sigInput (int i)) [0..<nat n]))"

definition makeList :: "tree \<Rightarrow> tree list" where
  "makeList t = [t]"

definition listRange :: "tree list \<Rightarrow> int \<Rightarrow> int \<Rightarrow> tree list result" where
  "listRange l i j =
     (if j < i then Inl (Undefined ''siglist of negative size'')
      else if i < j \<and> (i < 0 \<or> int (length l) < j) then Inl (Undefined ''siglist index'')
      else Inr (map (\<lambda>x. l ! nat (i + int x)) [0..<nat (j - i)]))"

definition listConcat :: "tree list \<Rightarrow> tree list \<Rightarrow> tree list" where
  "listConcat a b = a @ b"

definition listConvert :: "tree list \<Rightarrow> tree" where
  "listConvert a = foldr cons a nil"

function treelist2siglist :: "tree \<Rightarrow> tree list result" where
  "treelist2siglist l =
     (if isNil l then Inr []
      else rbind (hdT l) (\<lambda>h. rbind (tlT l) (\<lambda>t. rbind (treelist2siglist t) (\<lambda>r. Inr (h # r)))))"
  by auto
termination by (relation "measure size") (auto dest: tlT_size)

declare treelist2siglist.simps [simp del]

definition listLift :: "tree list \<Rightarrow> tree list" where
  "listLift l = map lift l"

section \<open>Primitives\<close>

definition prim_arity :: "primfun \<Rightarrow> nat" where
  "prim_arity p = (case p of
      P_sigDelay1 \<Rightarrow> 1 | P_sigIntCast \<Rightarrow> 1 | P_sigFloatCast \<Rightarrow> 1
    | P_sigReadOnlyTable \<Rightarrow> 3 | P_sigSelect2 \<Rightarrow> 3 | P_sigSelect3 \<Rightarrow> 4 | P_sigWriteReadTable \<Rightarrow> 5
    | _ \<Rightarrow> 2)"

definition prim_apply :: "primfun \<Rightarrow> tree list \<Rightarrow> tree result" where
  "prim_apply p l =
     (if length l \<noteq> prim_arity p then Inl (Undefined ''call through a pointer of another type'')
      else Inr (case p of
        P_sigDelay1 \<Rightarrow> sigDelay1 (l ! 0)
      | P_sigIntCast \<Rightarrow> sigIntCast (l ! 0)
      | P_sigFloatCast \<Rightarrow> sigFloatCast (l ! 0)
      | P_sigAdd \<Rightarrow> sigBinOp kAdd (l ! 0) (l ! 1)
      | P_sigSub \<Rightarrow> sigBinOp kSub (l ! 0) (l ! 1)
      | P_sigMul \<Rightarrow> sigBinOp kMul (l ! 0) (l ! 1)
      | P_sigDiv \<Rightarrow> sigBinOp kDiv (l ! 0) (l ! 1)
      | P_sigRem \<Rightarrow> sigBinOp kRem (l ! 0) (l ! 1)
      | P_sigAND \<Rightarrow> sigBinOp kAND (l ! 0) (l ! 1)
      | P_sigOR \<Rightarrow> sigBinOp kOR (l ! 0) (l ! 1)
      | P_sigXOR \<Rightarrow> sigBinOp kXOR (l ! 0) (l ! 1)
      | P_sigLeftShift \<Rightarrow> sigBinOp kLsh (l ! 0) (l ! 1)
      | P_sigRightShift \<Rightarrow> sigBinOp kRsh (l ! 0) (l ! 1)
      | P_sigLT \<Rightarrow> sigBinOp kLT (l ! 0) (l ! 1)
      | P_sigLE \<Rightarrow> sigBinOp kLE (l ! 0) (l ! 1)
      | P_sigGT \<Rightarrow> sigBinOp kGT (l ! 0) (l ! 1)
      | P_sigGE \<Rightarrow> sigBinOp kGE (l ! 0) (l ! 1)
      | P_sigEQ \<Rightarrow> sigBinOp kEQ (l ! 0) (l ! 1)
      | P_sigNE \<Rightarrow> sigBinOp kNE (l ! 0) (l ! 1)
      | P_sigFixDelay \<Rightarrow> sigFixDelay (l ! 0) (l ! 1)
      | P_sigPrefix \<Rightarrow> sigPrefix (l ! 0) (l ! 1)
      | P_sigAttach \<Rightarrow> sigAttach (l ! 0) (l ! 1)
      | P_sigReadOnlyTable \<Rightarrow> sigReadOnlyTable (l ! 0) (l ! 1) (l ! 2)
      | P_sigSelect2 \<Rightarrow> sigSelect2 (l ! 0) (l ! 1) (l ! 2)
      | P_sigSelect3 \<Rightarrow> sigSelect3 (l ! 0) (l ! 1) (l ! 2) (l ! 3)
      | P_sigWriteReadTable \<Rightarrow> sigWriteReadTable (l ! 0) (l ! 1) (l ! 2) (l ! 3) (l ! 4)))"

definition call_prim :: "nat \<Rightarrow> tree \<Rightarrow> tree list \<Rightarrow> tree result" where
  "call_prim k w lsig = (case node w of
      NPtr f \<Rightarrow> rbind (assert_that (length lsig = k) ''lsig.size()'') (\<lambda>_. case f of
          PPrim p \<Rightarrow> prim_apply p lsig
        | PObj n \<Rightarrow> Inl (Undefined ''call through a pointer of another type''))
    | _ \<Rightarrow> Inl (FaustException ''unrecognised box expression''))"

section \<open>Propagation\<close>

definition propagate_args :: "tree \<Rightarrow> tree \<Rightarrow> tree \<Rightarrow> tree list \<Rightarrow> tree" where
  "propagate_args slotenv path box lsig =
     Tree (NSym (KTree PROPAGATEPROPERTY)) [slotenv, path, box, listConvert lsig]"

definition getPropagateProperty :: "tree \<Rightarrow> tree list option pm" where
  "getPropagateProperty args st = (case propagated st args of
      Some v \<Rightarrow> rbind (treelist2siglist v) (\<lambda>l. Inr (Some l, st))
    | None \<Rightarrow> Inr (None, st))"

definition setPropagateProperty :: "tree \<Rightarrow> tree list \<Rightarrow> pstate \<Rightarrow> pstate" where
  "setPropagateProperty args lsig st = st\<lparr>propagated := (propagated st)(args \<mapsto> listConvert lsig)\<rparr>"

definition type_of_box :: "tree \<Rightarrow> io option pm" where
  "type_of_box t st = rbind (getBoxType t (boxtypes st)) (\<lambda>(r, m). Inr (r, st\<lparr>boxtypes := m\<rparr>))"

definition known :: "'a option \<Rightarrow> 'a result" where
  "known r = (case r of Some a \<Rightarrow> Inr a | None \<Rightarrow> Inl (Undefined ''uninitialised box type''))"

definition widget :: "tree \<Rightarrow> tree \<Rightarrow> nat \<Rightarrow> tree list \<Rightarrow> (tree \<Rightarrow> tree) \<Rightarrow> tree list pm" where
  "widget label path n lsig mk st =
     rbind (assert_that (length lsig = n) ''lsig.size()'') (\<lambda>_.
       rbind (normalizePath (cons label path)) (\<lambda>p. Inr (makeList (mk p), st)))"

definition slot_signal :: "tree \<Rightarrow> tree \<Rightarrow> tree pm" where
  "slot_signal slotenv box st = rbind (searchEnv box slotenv) (\<lambda>r. case r of
      Some sig \<Rightarrow> Inr (sig, st)
    | None \<Rightarrow> let g = wrap32 (gDummyInput st + 1) in Inr (sigInput g, st\<lparr>gDummyInput := g\<rparr>))"

definition const_output :: "nat \<Rightarrow> tree list \<Rightarrow> tree list \<Rightarrow> tree list pm" where
  "const_output n lsig out st = rbind (assert_that (length lsig = n) ''lsig.size()'') (\<lambda>_. Inr (out, st))"

function (sequential) propagate :: "libm \<Rightarrow> tree \<Rightarrow> tree \<Rightarrow> tree \<Rightarrow> tree list \<Rightarrow> tree list pm"
and realPropagate :: "libm \<Rightarrow> tree \<Rightarrow> tree \<Rightarrow> tree \<Rightarrow> tree list \<Rightarrow> tree list pm" where
  "propagate lm slotenv path box lsig st =
     (let args = propagate_args slotenv path box lsig
      in rbind (getPropagateProperty args st) (\<lambda>(r, st0). case r of
          Some result \<Rightarrow> Inr (result, st0)
        | None \<Rightarrow> rbind (realPropagate lm slotenv path box lsig st) (\<lambda>(result, st1).
            Inr (result, setPropagateProperty args result st1))))"
| "realPropagate lm slotenv path box lsig st = (case box_view box of
      BvXtended p \<Rightarrow>
        rbind (assert_that (length lsig = xarity p) ''arity'') (\<lambda>_.
          rbind (computeSigOutput lm p lsig) (\<lambda>s. Inr (makeList s, st)))
    | BvInt i \<Rightarrow> const_output 0 lsig (makeList (sigInt i)) st
    | BvReal r \<Rightarrow> const_output 0 lsig (makeList (sigReal r)) st
    | BvWaveform \<Rightarrow>
        const_output 0 lsig (listConcat (makeList (sigInt (int (length (branches box)))))
          (makeList (sigWaveform (branches box)))) st
    | BvFConst type name file \<Rightarrow> const_output 0 lsig (makeList (sigFConst type name file)) st
    | BvFVar type name file \<Rightarrow> const_output 0 lsig (makeList (sigFVar type name file)) st
    | BvCut \<Rightarrow> const_output 1 lsig [] st
    | BvWire \<Rightarrow> const_output 1 lsig lsig st
    | BvSlot w \<Rightarrow>
        rbind (assert_that (length lsig = 0) ''lsig.size()'') (\<lambda>_.
          rbind (slot_signal slotenv box st) (\<lambda>(s, st1). Inr (makeList s, st1)))
    | BvSymbolic slot body \<Rightarrow>
        (case lsig of
           [] \<Rightarrow> Inl (AssertFailed ''lsig.size()>0'')
         | s0 # rest \<Rightarrow> rbind (listRange lsig 1 (int (length lsig))) (\<lambda>l.
             propagate lm (pushEnv slot s0 slotenv) path body l st))
    | BvPrim k w \<Rightarrow> rbind (call_prim k w lsig) (\<lambda>s. Inr (makeList s, st))
    | BvFFun ff \<Rightarrow>
        rbind (ffarity ff) (\<lambda>n. rbind (assert_that (int (length lsig) = n) ''ffarity'') (\<lambda>_.
          Inr (makeList (sigFFun ff (listConvert lsig)), st)))
    | BvButton label \<Rightarrow> widget label path 0 lsig sigButton st
    | BvCheckbox label \<Rightarrow> widget label path 0 lsig sigCheckbox st
    | BvVSlider label ps \<Rightarrow>
        widget label path 0 lsig (\<lambda>p. sigVSlider p (nthT ps 0) (nthT ps 1) (nthT ps 2) (nthT ps 3)) st
    | BvHSlider label ps \<Rightarrow>
        widget label path 0 lsig (\<lambda>p. sigHSlider p (nthT ps 0) (nthT ps 1) (nthT ps 2) (nthT ps 3)) st
    | BvNumEntry label ps \<Rightarrow>
        widget label path 0 lsig (\<lambda>p. sigNumEntry p (nthT ps 0) (nthT ps 1) (nthT ps 2) (nthT ps 3)) st
    | BvVBargraph label mn mx \<Rightarrow> widget label path 1 lsig (\<lambda>p. sigVBargraph p mn mx (lsig ! 0)) st
    | BvHBargraph label mn mx \<Rightarrow> widget label path 1 lsig (\<lambda>p. sigHBargraph p mn mx (lsig ! 0)) st
    | BvVGroup label t1 \<Rightarrow> propagate lm slotenv (cons (cons (leaf (NInt 0)) label) path) t1 lsig st
    | BvHGroup label t1 \<Rightarrow> propagate lm slotenv (cons (cons (leaf (NInt 1)) label) path) t1 lsig st
    | BvTGroup label t1 \<Rightarrow> propagate lm slotenv (cons (cons (leaf (NInt 2)) label) path) t1 lsig st
    | BvSeq t1 t2 \<Rightarrow>
        rbind (type_of_box t1 st) (\<lambda>(r1, st1). rbind (type_of_box t2 st1) (\<lambda>(r2, st2).
          rbind (known r1) (\<lambda>(in1, out1). rbind (known r2) (\<lambda>(in2, out2).
            rbind (assert_that (out1 = in2) ''out1==in2'') (\<lambda>_.
              rbind (propagate lm slotenv path t1 lsig st2) (\<lambda>(l1, st3).
                propagate lm slotenv path t2 l1 st3))))))
    | BvPar t1 t2 \<Rightarrow>
        rbind (type_of_box t1 st) (\<lambda>(r1, st1). rbind (type_of_box t2 st1) (\<lambda>(r2, st2).
          rbind (known r1) (\<lambda>(in1, out1). rbind (listRange lsig 0 in1) (\<lambda>la.
            rbind (propagate lm slotenv path t1 la st2) (\<lambda>(l1, st3).
              rbind (known r2) (\<lambda>(in2, out2). rbind (listRange lsig in1 (in1 + in2)) (\<lambda>lb.
                rbind (propagate lm slotenv path t2 lb st3) (\<lambda>(l2, st4).
                  Inr (listConcat l1 l2, st4)))))))))
    | BvSplit t1 t2 \<Rightarrow>
        rbind (type_of_box t1 st) (\<lambda>(r1, st1). rbind (type_of_box t2 st1) (\<lambda>(r2, st2).
          rbind (propagate lm slotenv path t1 lsig st2) (\<lambda>(l1, st3).
            rbind (known r2) (\<lambda>(in2, out2). rbind (split_list l1 in2) (\<lambda>l2.
              propagate lm slotenv path t2 l2 st3)))))
    | BvMerge t1 t2 \<Rightarrow>
        rbind (type_of_box t1 st) (\<lambda>(r1, st1). rbind (type_of_box t2 st1) (\<lambda>(r2, st2).
          rbind (propagate lm slotenv path t1 lsig st2) (\<lambda>(l1, st3).
            rbind (known r2) (\<lambda>(in2, out2). rbind (mix l1 in2) (\<lambda>l2.
              propagate lm slotenv path t2 l2 st3)))))
    | BvRec t1 t2 \<Rightarrow>
        rbind (type_of_box t1 st) (\<lambda>(r1, st1). rbind (type_of_box t2 st1) (\<lambda>(r2, st2).
          rbind (known r2) (\<lambda>(in2, out2). rbind (makeMemSigProjList (ref 1) in2) (\<lambda>l0.
            rbind (propagate lm (lift slotenv) path t2 l0 st2) (\<lambda>(l1, st3).
              rbind (propagate lm (lift slotenv) path t1 (listConcat l1 (listLift lsig)) st3) (\<lambda>(l2, st4).
                rbind (known r1) (\<lambda>(in1, out1).
                  rbind (makeSigProjList (rec (listConvert l2)) out1) (\<lambda>l. Inr (l, st4)))))))))
    | _ \<Rightarrow> Inl (FaustException ''unrecognised box expression''))"
  by pat_completeness auto
termination
  by (relation "measure (case_sum (\<lambda>(lm, e, p, t, l, st). 2 * size t + 1) (\<lambda>(lm, e, p, t, l, st). 2 * size t))")
    (auto intro!: twice_less intro: box_view_less)

declare propagate.simps [simp del] realPropagate.simps [simp del]

definition boxPropagateSig :: "libm \<Rightarrow> tree \<Rightarrow> tree \<Rightarrow> tree list \<Rightarrow> tree pm" where
  "boxPropagateSig lm path box lsig st =
     rbind (propagate lm nil path box lsig st) (\<lambda>(l, st1). Inr (listConvert l, st1))"

definition start_state :: pstate where
  "start_state = \<lparr>gDummyInput = 10000, propagated = Map.empty, boxtypes = Map.empty\<rparr>"

section \<open>Scoped signals\<close>

definition sig_ok :: "int set \<Rightarrow> tree \<Rightarrow> bool" where
  "sig_ok A s \<longleftrightarrow> db_wf s \<and> free_refs s \<subseteq> A"

definition lift_set :: "int set \<Rightarrow> int set" where
  "lift_set A = insert 1 ((\<lambda>x. x + 1) ` A)"

lemma sig_ok_mono: "sig_ok A s \<Longrightarrow> A \<subseteq> B \<Longrightarrow> sig_ok B s"
  by (auto simp: sig_ok_def)

lemma sig_ok_node [simp]:
  "n \<noteq> NSym (KTree DEBRUIJNREF) \<Longrightarrow> n \<noteq> NSym (KTree DEBRUIJN) \<Longrightarrow>
   sig_ok A (Tree n br) \<longleftrightarrow> (\<forall>b \<in> set br. sig_ok A b)"
  by (auto simp: sig_ok_def)

lemma sig_ok_leaf [simp]:
  "n \<noteq> NSym (KTree DEBRUIJNREF) \<Longrightarrow> n \<noteq> NSym (KTree DEBRUIJN) \<Longrightarrow> sig_ok A (leaf n)"
  by (simp add: leaf_def)

lemma sig_ok_cons [simp]: "sig_ok A (cons a b) \<longleftrightarrow> sig_ok A a \<and> sig_ok A b" "sig_ok A nil"
  by (simp_all add: cons_def nil_def)

lemma sig_ok_list_tree [simp]: "sig_ok A (list_tree xs) \<longleftrightarrow> (\<forall>x \<in> set xs. sig_ok A x)"
  by (induction xs) auto

lemma sig_ok_ref [simp]: "sig_ok A (ref n) \<longleftrightarrow> 0 < n \<and> n \<in> A"
  by (auto simp: sig_ok_def)

lemma sig_ok_rec: "sig_ok (lift_set A) b \<Longrightarrow> sig_ok A (rec b)"
  by (auto simp: sig_ok_def lift_set_def)

lemma sig_ok_lift: "sig_ok A s \<Longrightarrow> sig_ok (lift_set A) (lift s)"
proof -
  assume s: "sig_ok A s"
  then have "free_refs (lift s) = (\<lambda>x. if x < 1 then x else x + 1) ` free_refs s"
    by (simp add: lift_def sig_ok_def liftn_free_refs_gen)
  also have "\<dots> \<subseteq> lift_set A" using s free_refs_pos [of s] by (force simp: sig_ok_def lift_set_def)
  finally show ?thesis using s by (simp add: sig_ok_def lift_def liftn_wf)
qed

lemma lift_closed: "sig_ok {} s \<Longrightarrow> lift s = s"
  by (simp add: sig_ok_def lift_def liftn_closed isClosed_iff)

lemma sig_ok_lift_set: "sig_ok {} s \<Longrightarrow> sig_ok A s"
  by (auto simp: sig_ok_def)

lemma sig_ok_casts [simp]: "sig_ok A s \<Longrightarrow> sig_ok A (sigIntCast s)" "sig_ok A s \<Longrightarrow> sig_ok A (sigFloatCast s)"
  by (simp_all add: sigIntCast_def sigFloatCast_def split: node.splits)

lemma sig_ok_constructors [simp]:
  "sig_ok A (sigInt i)" "sig_ok A (sigReal r)" "sig_ok A (sigInput i)"
  "sig_ok A (sigProj i t) \<longleftrightarrow> sig_ok A t" "sig_ok A (sigDelay1 t) \<longleftrightarrow> sig_ok A t"
  "sig_ok A (sigBinOp op t u) \<longleftrightarrow> sig_ok A t \<and> sig_ok A u"
  by (simp_all add: sig_constructor_defs)

lemma nth_sig_ok: "\<forall>s \<in> set l. sig_ok A s \<Longrightarrow> i < length l \<Longrightarrow> sig_ok A (l ! i)"
  by simp

lemma prim_apply_ok:
  assumes "length l = prim_arity p" "\<forall>s \<in> set l. sig_ok A s"
  shows "\<exists>s. prim_apply p l = Inr s \<and> sig_ok A s"
  using assms nth_sig_ok [OF assms(2)]
  by (cases p) (simp_all add: prim_apply_def prim_arity_def sigFixDelay_def sigPrefix_def sigAttach_def sigSelect2_def
      sigSelect3_def sigReadOnlyTable_def sigWriteReadTable_def sigRDTbl_def sigWRTbl_def sigTable_def sigGen_def)

lemma fold_output_ok:
  "sig_ok A x \<Longrightarrow> fold1 p f [x] = Inr s \<Longrightarrow> sig_ok A s"
  "sig_ok A x \<Longrightarrow> sig_ok A y \<Longrightarrow> fold2 p g [x, y] = Inr s \<Longrightarrow> sig_ok A s"
  "sig_ok A x \<Longrightarrow> sig_ok A y \<Longrightarrow> minmax_output p g h [x, y] = Inr s \<Longrightarrow> sig_ok A s"
  "sig_ok A x \<Longrightarrow> absprim_output [x] = Inr s \<Longrightarrow> sig_ok A s"
  by (auto simp: fold1_def fold2_def minmax_output_def absprim_output_def arg_at_def xt_node1_def xt_node2_def
      split: option.splits node.splits)

lemma computeSigOutput_ok:
  assumes "length l = xarity p" "\<forall>s \<in> set l. sig_ok A s"
  shows "\<exists>s. computeSigOutput lm p l = Inr s \<and> sig_ok A s"
proof -
  obtain s where s: "computeSigOutput lm p l = Inr s" using computeSigOutput_total [OF assms(1)] by blast
  moreover have "sig_ok A s"
  proof (cases "xarity p = 1")
    case True
    then obtain x where "l = [x]" using assms(1) by (auto simp: length_Suc_conv)
    with True s assms(2) show ?thesis
      by (cases p) (auto simp: computeSigOutput_def output_defs(2-) xarity_def intro: fold_output_ok)
  next
    case False
    then have "xarity p = 2" by (auto simp: xarity_def split: if_splits)
    then obtain x y where "l = [x, y]" using assms(1) by (auto simp: numeral_2_eq_2 length_Suc_conv)
    with False s assms(2) show ?thesis
      by (cases p) (auto simp: computeSigOutput_def output_defs(2-) xarity_def intro: fold_output_ok)
  qed
  ultimately show ?thesis by blast
qed

lemma listConvert_list_tree [simp]: "listConvert l = list_tree l"
  by (simp add: listConvert_def)

lemma treelist2siglist_list_tree [simp]: "treelist2siglist (list_tree xs) = Inr xs"
  by (induction xs) (simp_all add: treelist2siglist.simps [of nil] treelist2siglist.simps [of "cons _ _"])

lemma listRange_take:
  assumes "0 \<le> i" "i \<le> j" "j \<le> int (length l)"
  shows "listRange l i j = Inr (take (nat (j - i)) (drop (nat i) l))"
proof -
  have "map (\<lambda>x. l ! nat (i + int x)) [0..<nat (j - i)] = take (nat (j - i)) (drop (nat i) l)"
    using assms by (intro nth_equalityI) (auto simp: nat_add_distrib)
  with assms show ?thesis by (auto simp: listRange_def)
qed

lemma mix_loop_ok:
  "\<forall>s \<in> set l. sig_ok A s \<Longrightarrow> sig_ok A t \<Longrightarrow> sig_ok A (mix_loop l k i t)"
proof (induction l k i t rule: mix_loop.induct)
  case (1 l k i t)
  then show ?case by (subst mix_loop.simps) auto
qed

lemma mix_ok:
  assumes "\<forall>s \<in> set l. sig_ok A s"
  shows "\<exists>r. mix l (int n) = Inr r \<and> length r = n \<and> (\<forall>s \<in> set r. sig_ok A s)"
  using assms by (auto simp: mix_def intro!: mix_loop_ok)

lemma split_list_ok:
  assumes "\<forall>s \<in> set l. sig_ok A s" "l \<noteq> []"
  shows "\<exists>r. split_list l (int n) = Inr r \<and> length r = n \<and> (\<forall>s \<in> set r. sig_ok A s)"
  using assms by (auto simp: split_list_def)

lemma proj_lists_ok:
  "sig_ok A t \<Longrightarrow> \<exists>r. makeMemSigProjList t (int n) = Inr r \<and> length r = n \<and> (\<forall>s \<in> set r. sig_ok A s)"
  "sig_ok A t \<Longrightarrow> \<exists>r. makeSigProjList t (int n) = Inr r \<and> length r = n \<and> (\<forall>s \<in> set r. sig_ok A s)"
  by (auto simp: makeMemSigProjList_def makeSigProjList_def sigDelay0_def sigFixDelay_def)

lemma nthT_ok: "sig_ok A l \<Longrightarrow> sig_ok A (nthT l i)"
proof (induction l i rule: nthT.induct)
  case (1 l i)
  show ?case
  proof (cases "asList l")
    case (Some p)
    obtain h t where ht: "asList l = Some (h, t)" using Some by (cases p) auto
    then have l: "l = cons h t" by (simp add: asList_Some)
    show ?thesis using 1(1) [OF ht refl] "1.prems" l ht by (subst nthT.simps) simp
  qed (simp add: nthT.simps [of l])
qed

section \<open>Paths, environments and boxes\<close>

definition label_ok :: "tree \<Rightarrow> bool" where
  "label_ok l \<longleftrightarrow> sig_ok {} l \<and> (isList l \<or> (\<exists>s. node l = NSym (Name s)))"

definition path_ok :: "tree \<Rightarrow> bool" where
  "path_ok p \<longleftrightarrow> (\<exists>ls. p = list_tree ls \<and> (\<forall>l \<in> set ls. label_ok l))"

lemma concatPath_total:
  assumes "\<forall>e \<in> set es. sig_ok {} e" "sig_ok {} a"
  shows "\<exists>r. concatPath (list_tree es) a = Inr r \<and> sig_ok {} r"
  using assms
proof (induction es arbitrary: a)
  case Nil
  then show ?case by (subst concatPath.simps) simp
next
  case (Cons e es)
  then show ?case by (subst concatPath.simps) (auto simp: asList_Some split: option.splits)
qed

lemma label2path_ok: "\<exists>es. label2path s = list_tree es \<and> (\<forall>e \<in> set es. sig_ok {} e)"
proof (induction s rule: label2path.induct)
  case (1 label)
  have base: "\<exists>es. cons (str_tree s) nil = list_tree es \<and> (\<forall>e \<in> set es. sig_ok {} e)" for s
    by (rule exI [of _ "[str_tree s]"]) (simp add: str_tree_def)
  have step: "\<exists>es. cons x l = list_tree es \<and> (\<forall>e \<in> set es. sig_ok {} e)"
    if "sig_ok {} x" "\<exists>es. l = list_tree es \<and> (\<forall>e \<in> set es. sig_ok {} e)" for x l
  proof -
    from that(2) obtain es where "l = list_tree es" "\<forall>e \<in> set es. sig_ok {} e" by blast
    with that(1) show ?thesis by (intro exI [of _ "x # es"]) simp
  qed
  have elems: "sig_ok {} pathRoot" "sig_ok {} pathParent" "sig_ok {} (encodeName g n)" for g n
    by (simp_all add: pathRoot_def pathParent_def encodeName_def str_tree_def)
  show ?case using 1 base step elems by (subst label2path.simps) simp
qed

lemma normalizeLabel_total:
  assumes "label_ok l" "sig_ok {} p"
  shows "\<exists>q. normalizeLabel l p = Inr q \<and> sig_ok {} q"
proof (cases "isList l")
  case True
  with assms show ?thesis by (simp add: normalizeLabel_def label_ok_def)
next
  case False
  with assms(1) obtain s where s: "node l = NSym (Name s)" by (auto simp: label_ok_def)
  obtain es where "label2path s = list_tree es" "\<forall>e \<in> set es. sig_ok {} e" using label2path_ok by blast
  with concatPath_total [of es p] assms(2) s False show ?thesis by (simp add: normalizeLabel_def)
qed

lemma normalizePath_total: "path_ok p \<Longrightarrow> \<exists>q. normalizePath p = Inr q \<and> sig_ok {} q"
proof -
  assume "path_ok p"
  then obtain ls where "p = list_tree ls" "\<forall>l \<in> set ls. label_ok l" by (auto simp: path_ok_def)
  moreover have "\<forall>l \<in> set ls. label_ok l \<Longrightarrow> \<exists>q. normalizePath (list_tree ls) = Inr q \<and> sig_ok {} q" for ls
  proof (induction ls)
    case (Cons l ls)
    then show ?case using normalizeLabel_total by fastforce
  qed simp
  ultimately show ?thesis by simp
qed

lemma path_ok_cons: "label_ok l \<Longrightarrow> path_ok p \<Longrightarrow> path_ok (cons l p)"
  unfolding path_ok_def by (elim exE conjE, rule exI [of _ "l # _"]) auto

lemma label_ok_group: "sig_ok {} l \<Longrightarrow> label_ok (cons (leaf (NInt k)) l)"
  by (simp add: label_ok_def)

definition env_ok :: "int set \<Rightarrow> tree \<Rightarrow> bool" where
  "env_ok A e \<longleftrightarrow> (\<exists>al. e = list_tree (map (\<lambda>(k, v). cons k v) al) \<and>
     (\<forall>(k, v) \<in> set al. sig_ok {} k \<and> sig_ok A v))"

lemma env_ok_nil: "env_ok A nil"
  unfolding env_ok_def by (rule exI [of _ "[]"]) simp

lemma env_ok_push: "env_ok A e \<Longrightarrow> sig_ok {} k \<Longrightarrow> sig_ok A v \<Longrightarrow> env_ok A (pushEnv k v e)"
  unfolding env_ok_def pushEnv_def by (elim exE conjE, rule exI [of _ "(k, v) # _"]) auto

lemma env_ok_search: "env_ok A e \<Longrightarrow> \<exists>r. searchEnv k e = Inr r \<and> (\<forall>v. r = Some v \<longrightarrow> sig_ok A v)"
  unfolding env_ok_def by (auto simp: searchEnv_list_tree dest!: map_of_SomeD)

lemma env_ok_sig: "env_ok A e \<Longrightarrow> sig_ok A e"
  unfolding env_ok_def by (fastforce intro: sig_ok_lift_set)

lemma lift_cons: "sig_ok A a \<Longrightarrow> sig_ok A b \<Longrightarrow> lift (cons a b) = cons (lift a) (lift b)"
  by (simp add: lift_def sig_ok_def liftn_eq_lift_all cons_def)

lemma lift_env:
  "(\<forall>(k, v) \<in> set al. sig_ok {} k \<and> sig_ok A v) \<Longrightarrow>
   lift (list_tree (map (\<lambda>(k, v). cons k v) al)) = list_tree (map (\<lambda>(k, v). cons k v) (map (\<lambda>(k, v). (k, lift v)) al))"
proof (induction al)
  case Nil
  then show ?case by (simp add: lift_closed)
next
  case (Cons p al)
  obtain k v where p: "p = (k, v)" by (cases p)
  with Cons.prems have kv: "sig_ok {} k" "sig_ok A v" by auto
  have rest: "sig_ok A (list_tree (map (\<lambda>(k, v). cons k v) al))" using Cons.prems by (fastforce intro: sig_ok_lift_set)
  show ?case using Cons p kv lift_cons [OF _ rest, of "cons k v"] lift_cons [of A k v]
    by (simp add: sig_ok_lift_set lift_closed)
qed

lemma env_ok_lift: "env_ok A e \<Longrightarrow> env_ok (lift_set A) (lift e)"
proof -
  assume "env_ok A e"
  then obtain al where al: "e = list_tree (map (\<lambda>(k, v). cons k v) al)"
    "\<forall>(k, v) \<in> set al. sig_ok {} k \<and> sig_ok A v" by (auto simp: env_ok_def)
  show ?thesis unfolding env_ok_def al(1) lift_env [OF al(2)]
    by (rule exI [of _ "map (\<lambda>(k, v). (k, lift v)) al"]) (use al(2) in \<open>auto simp: sig_ok_lift\<close>)
qed

lemma env_ok_mono: "env_ok A e \<Longrightarrow> A \<subseteq> B \<Longrightarrow> env_ok B e"
  unfolding env_ok_def by (fastforce intro: sig_ok_mono)

text \<open>
  Boxes the propagation is called on: each primitive pointer fits the arity of its box and the
  labels of widgets are names or lists.
\<close>

fun box_ok :: "tree \<Rightarrow> bool" where
  "box_ok t = (case box_view t of
      BvPrim k w \<Rightarrow> (case node w of NPtr (PPrim p) \<Rightarrow> prim_arity p = k | _ \<Rightarrow> False)
    | BvButton l \<Rightarrow> label_ok l
    | BvCheckbox l \<Rightarrow> label_ok l
    | BvVSlider l _ \<Rightarrow> label_ok l
    | BvHSlider l _ \<Rightarrow> label_ok l
    | BvNumEntry l _ \<Rightarrow> label_ok l
    | BvVBargraph l _ _ \<Rightarrow> label_ok l
    | BvHBargraph l _ _ \<Rightarrow> label_ok l
    | BvVGroup l a \<Rightarrow> box_ok a
    | BvHGroup l a \<Rightarrow> box_ok a
    | BvTGroup l a \<Rightarrow> box_ok a
    | BvSymbolic s b \<Rightarrow> box_ok b
    | BvSeq a b \<Rightarrow> box_ok a \<and> box_ok b
    | BvPar a b \<Rightarrow> box_ok a \<and> box_ok b
    | BvSplit a b \<Rightarrow> box_ok a \<and> box_ok b
    | BvMerge a b \<Rightarrow> box_ok a \<and> box_ok b
    | BvRec a b \<Rightarrow> box_ok a \<and> box_ok b
    | _ \<Rightarrow> True)"

declare box_ok.simps [simp del]

definition call_ok :: "int set \<Rightarrow> tree \<Rightarrow> tree \<Rightarrow> tree \<Rightarrow> tree list \<Rightarrow> nat \<Rightarrow> nat \<Rightarrow> bool" where
  "call_ok A env path box lsig n m \<longleftrightarrow>
     box_type box (int n) (int m) \<and> box_ok box \<and> sig_ok {} box \<and> ffuns_ok box \<and>
     env_ok A env \<and> path_ok path \<and> length lsig = n \<and> (\<forall>s \<in> set lsig. sig_ok A s)"

definition outputs_ok :: "int set \<Rightarrow> nat \<Rightarrow> tree list \<Rightarrow> bool" where
  "outputs_ok A m out \<longleftrightarrow> length out = m \<and> (\<forall>s \<in> set out. sig_ok A s)"

definition state_ok :: "pstate \<Rightarrow> bool" where
  "state_ok st \<longleftrightarrow> types_ok (boxtypes st) \<and>
     (\<forall>env path box lsig v. propagated st (propagate_args env path box lsig) = Some v \<longrightarrow>
        (\<exists>out. v = list_tree out \<and> (\<forall>A n m. call_ok A env path box lsig n m \<longrightarrow> outputs_ok A m out)))"

definition runs :: "int set \<Rightarrow> nat \<Rightarrow> (tree list \<times> pstate) result \<Rightarrow> bool" where
  "runs A m r \<longleftrightarrow> (\<exists>out st. r = Inr (out, st) \<and> outputs_ok A m out \<and> state_ok st)"

definition frees :: "tree \<Rightarrow> tree list \<Rightarrow> int set" where
  "frees env lsig = free_refs env \<union> (\<Union>s \<in> set lsig. free_refs s)"

lemma runs_Inr [simp]: "runs A m (Inr (out, st)) \<longleftrightarrow> outputs_ok A m out \<and> state_ok st"
  by (simp add: runs_def)

lemma runs_bind:
  assumes "runs A m r" "\<And>out st. outputs_ok A m out \<Longrightarrow> state_ok st \<Longrightarrow> runs B k (f (out, st))"
  shows "runs B k (rbind r f)"
  using assms by (auto simp: runs_def)

lemma runs_mono: "runs A m r \<Longrightarrow> A \<subseteq> B \<Longrightarrow> runs B m r"
  unfolding runs_def outputs_ok_def using sig_ok_mono by blast

lemma type_of_box_ok:
  assumes "state_ok st" "box_type t i j"
  shows "\<exists>st'. type_of_box t st = Inr (Some (i, j), st') \<and> state_ok st'"
proof -
  have "agrees (getBoxType t (boxtypes st)) (boxType t)"
    using assms(1) by (intro getBoxType_agrees(1)) (simp add: state_ok_def)
  with assms(2) obtain m where "getBoxType t (boxtypes st) = Inr (Some (i, j), m)" "types_ok m"
    by (cases "getBoxType t (boxtypes st)") (auto simp: box_type_iff)
  with assms(1) show ?thesis by (simp add: type_of_box_def state_ok_def)
qed

lemma propagate_args_inject:
  "propagate_args e p b l = propagate_args e' p' b' l' \<longleftrightarrow> e = e' \<and> p = p' \<and> b = b' \<and> l = l'"
  by (simp add: propagate_args_def)

lemma call_ok_frees:
  assumes "call_ok A env path box lsig n m"
  shows "call_ok (frees env lsig) env path box lsig n m" "frees env lsig \<subseteq> A"
proof -
  obtain al where al: "env = list_tree (map (\<lambda>(k, v). cons k v) al)"
    "\<forall>(k, v) \<in> set al. sig_ok {} k \<and> sig_ok A v" using assms by (auto simp: call_ok_def env_ok_def)
  have "sig_ok (free_refs env) env" using env_ok_sig [of A env] assms by (simp add: call_ok_def sig_ok_def)
  then have "\<forall>(k, v) \<in> set al. sig_ok (free_refs env) v" unfolding al(1) by auto
  then have "env_ok (free_refs env) env" using al unfolding env_ok_def by blast
  then have "env_ok (frees env lsig) env" by (rule env_ok_mono) (simp add: frees_def)
  moreover have "\<forall>s \<in> set lsig. sig_ok (frees env lsig) s"
    using assms by (auto simp: call_ok_def sig_ok_def frees_def)
  ultimately show "call_ok (frees env lsig) env path box lsig n m"
    using assms unfolding call_ok_def by blast
  show "frees env lsig \<subseteq> A"
    using assms env_ok_sig [of A env] by (auto simp: call_ok_def sig_ok_def frees_def)
qed

lemma state_ok_store:
  assumes "state_ok st" "call_ok A env path box lsig n m" "outputs_ok (frees env lsig) m out"
  shows "state_ok (setPropagateProperty (propagate_args env path box lsig) out st)"
proof -
  have "outputs_ok B k out" if "call_ok B env path box lsig j k" for B j k
  proof -
    have "k = m" using that assms(2) box_type_deterministic unfolding call_ok_def by (metis of_nat_eq_iff)
    then show ?thesis using assms(3) call_ok_frees(2) [OF that] sig_ok_mono unfolding outputs_ok_def by blast
  qed
  with assms(1) show ?thesis
    unfolding state_ok_def setPropagateProperty_def by (auto simp: propagate_args_inject)
qed

lemma propagate_from_real:
  assumes "state_ok st" "call_ok A env path box lsig n m"
    and real: "call_ok (frees env lsig) env path box lsig n m \<Longrightarrow>
      runs (frees env lsig) m (realPropagate lm env path box lsig st)"
  shows "runs A m (propagate lm env path box lsig st)"
proof (cases "propagated st (propagate_args env path box lsig)")
  case (Some v)
  with assms(1,2) obtain out where "v = list_tree out" "outputs_ok A m out"
    unfolding state_ok_def by blast
  with Some assms(1) show ?thesis by (subst propagate.simps) (simp add: getPropagateProperty_def Let_def)
next
  case None
  have "runs (frees env lsig) m (realPropagate lm env path box lsig st)"
    using real call_ok_frees(1) [OF assms(2)] by blast
  then obtain out st' where r: "realPropagate lm env path box lsig st = Inr (out, st')"
    "outputs_ok (frees env lsig) m out" "state_ok st'" by (auto simp: runs_def)
  then have "outputs_ok A m out" "state_ok (setPropagateProperty (propagate_args env path box lsig) out st')"
    using state_ok_store [OF r(3) assms(2) r(2)] call_ok_frees(2) [OF assms(2)] sig_ok_mono
    unfolding outputs_ok_def by blast+
  then show ?thesis using None r(1) by (subst propagate.simps) (simp add: getPropagateProperty_def Let_def)
qed

lemma view_parts:
  assumes "sig_ok {} t" "ffuns_ok t"
  shows "box_view t = BvSeq a b \<Longrightarrow> sig_ok {} a \<and> sig_ok {} b \<and> ffuns_ok a \<and> ffuns_ok b"
    "box_view t = BvPar a b \<Longrightarrow> sig_ok {} a \<and> sig_ok {} b \<and> ffuns_ok a \<and> ffuns_ok b"
    "box_view t = BvSplit a b \<Longrightarrow> sig_ok {} a \<and> sig_ok {} b \<and> ffuns_ok a \<and> ffuns_ok b"
    "box_view t = BvMerge a b \<Longrightarrow> sig_ok {} a \<and> sig_ok {} b \<and> ffuns_ok a \<and> ffuns_ok b"
    "box_view t = BvRec a b \<Longrightarrow> sig_ok {} a \<and> sig_ok {} b \<and> ffuns_ok a \<and> ffuns_ok b"
    "box_view t = BvSymbolic a b \<Longrightarrow> sig_ok {} a \<and> sig_ok {} b \<and> ffuns_ok b"
    "box_view t = BvVGroup a b \<Longrightarrow> sig_ok {} a \<and> sig_ok {} b \<and> ffuns_ok b"
    "box_view t = BvHGroup a b \<Longrightarrow> sig_ok {} a \<and> sig_ok {} b \<and> ffuns_ok b"
    "box_view t = BvTGroup a b \<Longrightarrow> sig_ok {} a \<and> sig_ok {} b \<and> ffuns_ok b"
    "box_view t = BvVSlider a ps \<Longrightarrow> sig_ok {} ps" "box_view t = BvHSlider a ps \<Longrightarrow> sig_ok {} ps"
    "box_view t = BvNumEntry a ps \<Longrightarrow> sig_ok {} ps"
    "box_view t = BvVBargraph a x y \<Longrightarrow> sig_ok {} x \<and> sig_ok {} y"
    "box_view t = BvHBargraph a x y \<Longrightarrow> sig_ok {} x \<and> sig_ok {} y"
    "box_view t = BvFConst a x y \<Longrightarrow> sig_ok {} a \<and> sig_ok {} x \<and> sig_ok {} y"
    "box_view t = BvFVar a x y \<Longrightarrow> sig_ok {} a \<and> sig_ok {} x \<and> sig_ok {} y"
    "box_view t = BvFFun ff \<Longrightarrow> sig_ok {} ff"
    "box_view t = BvWaveform \<Longrightarrow> \<forall>b \<in> set (branches t). sig_ok {} b"
  using assms
  by - (drule box_viewD, cases t, simp add: has_form_def box_constructor_defs ffuns_ok.simps)+

lemma box_type_inv:
  "box_type t i j \<Longrightarrow> box_view t = BvSeq a b \<Longrightarrow> \<exists>v. box_type a i v \<and> box_type b v j"
  "box_type t i j \<Longrightarrow> box_view t = BvPar a b \<Longrightarrow>
     \<exists>u v x y. box_type a u v \<and> box_type b x y \<and> i = u + x \<and> j = v + y"
  "box_type t i j \<Longrightarrow> box_view t = BvSplit a b \<Longrightarrow>
     \<exists>v x. box_type a i v \<and> box_type b x j \<and> v \<noteq> 0 \<and> x \<noteq> 0 \<and> v dvd x"
  "box_type t i j \<Longrightarrow> box_view t = BvMerge a b \<Longrightarrow>
     \<exists>v x. box_type a i v \<and> box_type b x j \<and> v \<noteq> 0 \<and> x \<noteq> 0 \<and> x dvd v"
  "box_type t i j \<Longrightarrow> box_view t = BvRec a b \<Longrightarrow>
     \<exists>u x y. box_type a u j \<and> box_type b x y \<and> x \<le> j \<and> y \<le> u \<and> i = u - y"
  "box_type t i j \<Longrightarrow> box_view t = BvSymbolic a b \<Longrightarrow> \<exists>k. box_type b k j \<and> i = k + 1"
  "box_type t i j \<Longrightarrow> box_view t = BvVGroup a b \<or> box_view t = BvHGroup a b \<or> box_view t = BvTGroup a b \<Longrightarrow>
     box_type b i j"
  by (erule box_type.cases; fastforce)+

lemma box_type_leaf:
  "box_type t i j \<Longrightarrow> box_view t = BvXtended p \<Longrightarrow> i = int (xarity p) \<and> j = 1"
  "box_type t i j \<Longrightarrow> box_view t = BvInt c \<or> box_view t = BvReal r \<Longrightarrow> i = 0 \<and> j = 1"
  "box_type t i j \<Longrightarrow> box_view t = BvWaveform \<Longrightarrow> i = 0 \<and> j = 2"
  "box_type t i j \<Longrightarrow> box_view t = BvWire \<Longrightarrow> i = 1 \<and> j = 1"
  "box_type t i j \<Longrightarrow> box_view t = BvCut \<Longrightarrow> i = 1 \<and> j = 0"
  "box_type t i j \<Longrightarrow> box_view t = BvSlot w \<Longrightarrow> i = 0 \<and> j = 1"
  "box_type t i j \<Longrightarrow> box_view t = BvPrim k w \<Longrightarrow> i = int k \<and> j = 1"
  "box_type t i j \<Longrightarrow> box_view t = BvFFun ff \<Longrightarrow> ffarity ff = Inr i \<and> j = 1"
  "box_type t i j \<Longrightarrow> box_view t = BvFConst x y z \<or> box_view t = BvFVar x y z \<Longrightarrow> i = 0 \<and> j = 1"
  "box_type t i j \<Longrightarrow> box_view t = BvButton l \<or> box_view t = BvCheckbox l \<or> box_view t = BvVSlider l ps \<or>
     box_view t = BvHSlider l ps \<or> box_view t = BvNumEntry l ps \<Longrightarrow> i = 0 \<and> j = 1"
  "box_type t i j \<Longrightarrow> box_view t = BvVBargraph l x y \<or> box_view t = BvHBargraph l x y \<Longrightarrow> i = 1 \<and> j = 1"
  by (erule box_type.cases; fastforce)+

lemma box_type_nat:
  assumes "box_type t i j" "ffuns_ok t"
  obtains n m where "i = int n" "j = int m"
  using box_type_nonneg [OF assms] that by (metis nonneg_int_cases)

lemma widget_ok:
  assumes "state_ok st" "path_ok path" "label_ok l" "length lsig = n"
    "\<And>p. sig_ok {} p \<Longrightarrow> sig_ok A (mk p)"
  shows "runs A 1 (widget l path n lsig mk st)"
proof -
  obtain p where "normalizePath (cons l path) = Inr p" "sig_ok {} p"
    using normalizePath_total [OF path_ok_cons [OF assms(3,2)]] by blast
  with assms show ?thesis by (simp add: widget_def makeList_def outputs_ok_def)
qed

lemma slot_ok:
  assumes "state_ok st" "env_ok A env"
  shows "\<exists>s st'. slot_signal env box st = Inr (s, st') \<and> sig_ok A s \<and> state_ok st'"
proof -
  obtain r where r: "searchEnv box env = Inr r" "\<forall>v. r = Some v \<longrightarrow> sig_ok A v"
    using env_ok_search [OF assms(2)] by blast
  show ?thesis
  proof (cases r)
    case None
    have "state_ok (st\<lparr>gDummyInput := g\<rparr>)" for g using assms(1) by (simp add: state_ok_def)
    with None r show ?thesis by (simp add: slot_signal_def Let_def)
  qed (use r assms in \<open>simp add: slot_signal_def\<close>)
qed

section \<open>Propagation respects the types\<close>

definition sound :: "libm \<Rightarrow> tree \<Rightarrow> bool" where
  "sound lm box \<longleftrightarrow> (\<forall>A env path lsig n m st. state_ok st \<longrightarrow> call_ok A env path box lsig n m \<longrightarrow>
     runs A m (propagate lm env path box lsig st))"

lemma soundD:
  "sound lm box \<Longrightarrow> state_ok st \<Longrightarrow> call_ok A env path box lsig n m \<Longrightarrow>
   runs A m (propagate lm env path box lsig st)"
  by (simp add: sound_def)

lemma type_pair_ok:
  assumes "state_ok st" "box_type t1 u v" "box_type t2 x y"
    and "\<And>st. state_ok st \<Longrightarrow> runs A m (f (Some (u, v)) (Some (x, y)) st)"
  shows "runs A m (rbind (type_of_box t1 st) (\<lambda>(r1, st1). rbind (type_of_box t2 st1) (\<lambda>(r2, st2). f r1 r2 st2)))"
proof -
  obtain st1 where 1: "type_of_box t1 st = Inr (Some (u, v), st1)" "state_ok st1"
    using type_of_box_ok [OF assms(1,2)] by blast
  obtain st2 where "type_of_box t2 st1 = Inr (Some (x, y), st2)" "state_ok st2"
    using type_of_box_ok [OF 1(2) assms(3)] by blast
  with 1 assms(4) show ?thesis by simp
qed

lemma known_simps [simp]: "known (Some a) = Inr a"
  by (simp add: known_def)

lemma seq_sound:
  assumes "sound lm a" "sound lm b" "state_ok st" "call_ok A env path t lsig n m" and v: "box_view t = BvSeq a b"
  shows "runs A m (realPropagate lm env path t lsig st)"
proof -
  have c: "box_type t (int n) (int m)" "sig_ok {} t" "ffuns_ok t" "box_ok a" "box_ok b"
    using assms(4) v by (simp_all add: call_ok_def box_ok.simps [of t])
  obtain w where w: "box_type a (int n) w" "box_type b w (int m)" using box_type_inv(1) [OF c(1) v] by blast
  note parts = view_parts(1) [OF c(2,3) v]
  obtain k where k: "w = int k" using box_type_nat [OF w(1)] parts by metis
  have a: "call_ok A env path a lsig n k" using assms(4) c w k parts by (simp add: call_ok_def)
  have b: "call_ok A env path b l k m" if "outputs_ok A k l" for l
    using assms(4) c w k parts that by (simp add: call_ok_def outputs_ok_def)
  show ?thesis unfolding realPropagate.simps [of lm env path t] v box_form.case
    by (rule type_pair_ok [OF assms(3) w])
      (auto intro!: runs_bind [OF soundD [OF assms(1) _ a]] soundD [OF assms(2) _ b])
qed

lemma split_sound:
  assumes "sound lm a" "sound lm b" "state_ok st" "call_ok A env path t lsig n m" and v: "box_view t = BvSplit a b"
  shows "runs A m (realPropagate lm env path t lsig st)"
proof -
  have c: "box_type t (int n) (int m)" "sig_ok {} t" "ffuns_ok t" "box_ok a" "box_ok b"
    using assms(4) v by (simp_all add: call_ok_def box_ok.simps [of t])
  obtain w x where w: "box_type a (int n) w" "box_type b x (int m)" "w \<noteq> 0"
    using box_type_inv(3) [OF c(1) v] by blast
  note parts = view_parts(3) [OF c(2,3) v]
  obtain k j where k: "w = int k" "x = int j" using box_type_nat [OF w(1)] box_type_nat [OF w(2)] parts by metis
  have a: "call_ok A env path a lsig n k" using assms(4) c w k parts by (simp add: call_ok_def)
  have b: "runs A m (rbind (split_list l (int j)) (\<lambda>l2. propagate lm env path b l2 st'))"
    if l: "outputs_ok A k l" and st': "state_ok st'" for l st'
  proof -
    obtain l2 where "split_list l (int j) = Inr l2" "length l2 = j" "\<forall>s \<in> set l2. sig_ok A s"
      using split_list_ok [of l A j] l w k by (auto simp: outputs_ok_def)
    then show ?thesis using soundD [OF assms(2) st'] assms(4) c w k parts by (simp add: call_ok_def)
  qed
  show ?thesis unfolding realPropagate.simps [of lm env path t] v box_form.case
    by (rule type_pair_ok [OF assms(3) w(1,2)]) (auto simp: k intro!: runs_bind [OF soundD [OF assms(1) _ a]] b)
qed

lemma merge_sound:
  assumes "sound lm a" "sound lm b" "state_ok st" "call_ok A env path t lsig n m" and v: "box_view t = BvMerge a b"
  shows "runs A m (realPropagate lm env path t lsig st)"
proof -
  have c: "box_type t (int n) (int m)" "sig_ok {} t" "ffuns_ok t" "box_ok a" "box_ok b"
    using assms(4) v by (simp_all add: call_ok_def box_ok.simps [of t])
  obtain w x where w: "box_type a (int n) w" "box_type b x (int m)"
    using box_type_inv(4) [OF c(1) v] by blast
  note parts = view_parts(4) [OF c(2,3) v]
  obtain k j where k: "w = int k" "x = int j" using box_type_nat [OF w(1)] box_type_nat [OF w(2)] parts by metis
  have a: "call_ok A env path a lsig n k" using assms(4) c w k parts by (simp add: call_ok_def)
  have b: "runs A m (rbind (mix l (int j)) (\<lambda>l2. propagate lm env path b l2 st'))"
    if l: "outputs_ok A k l" and st': "state_ok st'" for l st'
  proof -
    obtain l2 where "mix l (int j) = Inr l2" "length l2 = j" "\<forall>s \<in> set l2. sig_ok A s"
      using mix_ok [of l A j] l by (auto simp: outputs_ok_def)
    then show ?thesis using soundD [OF assms(2) st'] assms(4) c w k parts by (simp add: call_ok_def)
  qed
  show ?thesis unfolding realPropagate.simps [of lm env path t] v box_form.case
    by (rule type_pair_ok [OF assms(3) w(1,2)]) (auto simp: k intro!: runs_bind [OF soundD [OF assms(1) _ a]] b)
qed

lemma par_sound:
  assumes "sound lm a" "sound lm b" "state_ok st" "call_ok A env path t lsig n m" and v: "box_view t = BvPar a b"
  shows "runs A m (realPropagate lm env path t lsig st)"
proof -
  have c: "box_type t (int n) (int m)" "sig_ok {} t" "ffuns_ok t" "box_ok a" "box_ok b"
    using assms(4) v by (simp_all add: call_ok_def box_ok.simps [of t])
  note parts = view_parts(2) [OF c(2,3) v]
  obtain u w x y where w: "box_type a u w" "box_type b x y" "int n = u + x" "int m = w + y"
    using box_type_inv(2) [OF c(1) v] by blast
  obtain u' w' x' y' where k: "u = int u'" "w = int w'" "x = int x'" "y = int y'"
    using box_type_nat [OF w(1)] box_type_nat [OF w(2)] parts by metis
  with w have n: "n = u' + x'" "m = w' + y'" by simp_all
  have len: "length lsig = u' + x'" and ok: "\<forall>s \<in> set lsig. sig_ok A s" using assms(4) n by (simp_all add: call_ok_def)
  have ranges: "listRange lsig 0 u = Inr (take u' lsig)" "listRange lsig u (u + x) = Inr (drop u' lsig)"
    using len k by (simp_all add: listRange_take)
  have a: "call_ok A env path a (take u' lsig) u' w'"
    using assms(4) c w k parts len by (auto simp: call_ok_def dest: in_set_takeD)
  have b: "call_ok A env path b (drop u' lsig) x' y'"
    using assms(4) c w k parts len by (auto simp: call_ok_def dest: in_set_dropD)
  have "runs A m (rbind (propagate lm env path a (take u' lsig) st') (\<lambda>(l1, st3).
      rbind (propagate lm env path b (drop u' lsig) st3) (\<lambda>(l2, st4). Inr (listConcat l1 l2, st4))))"
    if "state_ok st'" for st'
    by (rule runs_bind [OF soundD [OF assms(1) that a]], simp, rule runs_bind [OF soundD [OF assms(2) _ b]])
      (auto simp: outputs_ok_def listConcat_def n)
  then show ?thesis unfolding realPropagate.simps [of lm env path t] v box_form.case
    by (intro type_pair_ok [OF assms(3) w(1,2)]) (simp add: ranges)
qed

lemma rec_sound:
  assumes "sound lm a" "sound lm b" "state_ok st" "call_ok A env path t lsig n m" and v: "box_view t = BvRec a b"
  shows "runs A m (realPropagate lm env path t lsig st)"
proof -
  have c: "box_type t (int n) (int m)" "sig_ok {} t" "ffuns_ok t" "box_ok a" "box_ok b" "env_ok A env"
    "length lsig = n" "\<forall>s \<in> set lsig. sig_ok A s"
    using assms(4) v by (simp_all add: call_ok_def box_ok.simps [of t])
  note parts = view_parts(5) [OF c(2,3) v]
  obtain u x y where w: "box_type a u (int m)" "box_type b x y" "y \<le> u" "int n = u - y"
    using box_type_inv(5) [OF c(1) v] by blast
  obtain u' x' y' where k: "u = int u'" "x = int x'" "y = int y'"
    using box_type_nat [OF w(1)] box_type_nat [OF w(2)] parts by metis
  with w have n: "u' = y' + n" by simp
  let ?A = "lift_set A" and ?env = "lift env"
  obtain l0 where l0: "makeMemSigProjList (ref 1) (int x') = Inr l0" "length l0 = x'" "\<forall>s \<in> set l0. sig_ok ?A s"
    using proj_lists_ok(1) [of ?A "ref 1" x'] by (auto simp: lift_set_def)
  have b: "call_ok ?A ?env path b l0 x' y'"
    using assms(4) c w k parts l0 env_ok_lift [OF c(6)] by (simp add: call_ok_def)
  have a: "call_ok ?A ?env path a (listConcat l1 (listLift lsig)) u' m" if "outputs_ok ?A y' l1" for l1
  proof -
    have "\<forall>s \<in> set (listConcat l1 (listLift lsig)). sig_ok ?A s" "length (listConcat l1 (listLift lsig)) = u'"
      using that c(7,8) n sig_ok_lift by (auto simp: outputs_ok_def listConcat_def listLift_def)
    then show ?thesis using assms(4) c(4) w(1) k(1) parts env_ok_lift [OF c(6)] by (simp add: call_ok_def)
  qed
  have out: "runs A m (rbind (makeSigProjList (rec (listConvert l2)) (int m)) (\<lambda>l. Inr (l, st')))"
    if l2: "outputs_ok ?A m l2" and st': "state_ok st'" for l2 st'
  proof -
    have "sig_ok A (rec (list_tree l2))" using l2 by (intro sig_ok_rec) (simp add: outputs_ok_def)
    from proj_lists_ok(2) [OF this, of m] st' show ?thesis by (auto simp: outputs_ok_def)
  qed
  have "runs A m (rbind (propagate lm ?env path b l0 st') (\<lambda>(l1, st3).
      rbind (propagate lm ?env path a (listConcat l1 (listLift lsig)) st3) (\<lambda>(l2, st4).
        rbind (makeSigProjList (rec (listConvert l2)) (int m)) (\<lambda>l. Inr (l, st4)))))"
    if "state_ok st'" for st'
  proof (rule runs_bind [OF soundD [OF assms(2) that b]], unfold prod.case)
    fix l1 st3 assume l1: "outputs_ok ?A y' l1" "state_ok st3"
    show "runs A m (rbind (propagate lm ?env path a (listConcat l1 (listLift lsig)) st3) (\<lambda>(l2, st4).
        rbind (makeSigProjList (rec (listConvert l2)) (int m)) (\<lambda>l. Inr (l, st4))))"
      by (rule runs_bind [OF soundD [OF assms(1) l1(2) a [OF l1(1)]]], unfold prod.case, rule out)
  qed
  then show ?thesis unfolding realPropagate.simps [of lm env path t] v box_form.case
    by (intro type_pair_ok [OF assms(3) w(1,2)]) (simp add: k l0)
qed

lemma symbolic_sound:
  assumes "sound lm b" "state_ok st" "call_ok A env path t lsig n m" and v: "box_view t = BvSymbolic s b"
  shows "runs A m (realPropagate lm env path t lsig st)"
proof -
  have c: "box_type t (int n) (int m)" "sig_ok {} t" "ffuns_ok t" "box_ok b" "env_ok A env" "path_ok path"
    "length lsig = n" "\<forall>s \<in> set lsig. sig_ok A s"
    using assms(3) v by (simp_all add: call_ok_def box_ok.simps [of t])
  note parts = view_parts(6) [OF c(2,3) v]
  obtain k where k: "box_type b k (int m)" "int n = k + 1" using box_type_inv(6) [OF c(1) v] by blast
  then obtain k' where k': "k = int k'" using box_type_nat [OF k(1)] parts by metis
  with k have n: "n = Suc k'" by simp
  then obtain s0 rest where l: "lsig = s0 # rest" "length rest = k'" using c(7) by (cases lsig) auto
  have "listRange lsig 1 (int (length lsig)) = Inr rest" using l by (simp add: listRange_take)
  moreover have "call_ok A (pushEnv s s0 env) path b rest k' m"
    using c k k' parts l env_ok_push [OF c(5)] by (simp add: call_ok_def)
  ultimately show ?thesis using soundD [OF assms(1,2)] l v by (simp add: realPropagate.simps [of lm env path t])
qed

lemma group_sound:
  assumes "sound lm b" "state_ok st" "call_ok A env path t lsig n m"
    and v: "box_view t = BvVGroup l b \<or> box_view t = BvHGroup l b \<or> box_view t = BvTGroup l b"
  shows "runs A m (realPropagate lm env path t lsig st)"
proof -
  have c: "sig_ok {} t" "ffuns_ok t" "box_ok b" "path_ok path"
    using assms(3) v by (auto simp: call_ok_def box_ok.simps [of t])
  have parts: "sig_ok {} l \<and> sig_ok {} b \<and> ffuns_ok b" using view_parts(7-9) [OF c(1,2)] v by blast
  have "box_type b (int n) (int m)" using box_type_inv(7) [OF _ v] assms(3) by (simp add: call_ok_def)
  then have "call_ok A env (cons (cons (leaf (NInt k)) l) path) b lsig n m" for k
    using assms(3) c parts path_ok_cons [OF label_ok_group] by (simp add: call_ok_def)
  note run = soundD [OF assms(1,2) this]
  show ?thesis using v run by (elim disjE) (simp_all add: realPropagate.simps [of lm env path t])
qed

lemma const_output_ok: "length lsig = n \<Longrightarrow> state_ok st \<Longrightarrow> outputs_ok A m out \<Longrightarrow> runs A m (const_output n lsig out st)"
  by (simp add: const_output_def)

lemma leaf_sound:
  assumes "state_ok st" "call_ok A env path t lsig n m"
    and v: "box_view t \<in> {BvWaveform, BvCut, BvWire} \<union> range BvXtended \<union> range BvInt \<union> range BvReal \<union> range BvSlot"
  shows "runs A m (realPropagate lm env path t lsig st)"
proof -
  have c: "box_type t (int n) (int m)" "sig_ok {} t" "ffuns_ok t" "env_ok A env"
    "length lsig = n" "\<forall>s \<in> set lsig. sig_ok A s"
    using assms(2) by (simp_all add: call_ok_def)
  note leaf = box_type_leaf(1-6) [OF c(1)]
  from v consider (wf) "box_view t = BvWaveform" | (cut) "box_view t = BvCut" | (wire) "box_view t = BvWire"
    | (xt) p where "box_view t = BvXtended p" | (num) i r where "box_view t = BvInt i \<or> box_view t = BvReal r"
    | (slot) w where "box_view t = BvSlot w" by blast
  then show ?thesis
  proof cases
    case (xt p)
    with leaf(1) c obtain s where "computeSigOutput lm p lsig = Inr s" "sig_ok A s" "length lsig = xarity p" "m = 1"
      using computeSigOutput_ok [of lsig p A lm] by auto
    with xt assms(1) show ?thesis by (simp add: realPropagate.simps [of lm env path t] makeList_def outputs_ok_def)
  next
    case wf
    with leaf(3) c view_parts(18) [OF c(2,3)] assms(1) show ?thesis
      by (auto simp: realPropagate.simps [of lm env path t] makeList_def outputs_ok_def const_output_def listConcat_def
          sigWaveform_def sig_ok_lift_set)
  next
    case (slot w)
    obtain s st' where "slot_signal env t st = Inr (s, st')" "sig_ok A s" "state_ok st'"
      using slot_ok [OF assms(1) c(4)] by blast
    with slot leaf(6) c show ?thesis by (auto simp: realPropagate.simps [of lm env path t] makeList_def outputs_ok_def)
  next
    case num
    with leaf(2) c assms(1) show ?thesis
      by (auto simp: realPropagate.simps [of lm env path t] makeList_def outputs_ok_def const_output_def)
  qed (use leaf c assms(1) in \<open>auto simp: realPropagate.simps [of lm env path t] outputs_ok_def const_output_def\<close>)
qed

lemma foreign_sound:
  assumes "state_ok st" "call_ok A env path t lsig n m"
    and v: "box_view t = BvFFun ff \<or> box_view t = BvFConst x y z \<or> box_view t = BvFVar x y z \<or> box_view t = BvPrim k w"
  shows "runs A m (realPropagate lm env path t lsig st)"
proof -
  have c: "box_type t (int n) (int m)" "sig_ok {} t" "ffuns_ok t" "box_ok t"
    "length lsig = n" "\<forall>s \<in> set lsig. sig_ok A s"
    using assms(2) by (simp_all add: call_ok_def)
  note leaf = box_type_leaf(7-9) [OF c(1)] and parts = view_parts(15-17) [OF c(2,3)]
  from v consider "box_view t = BvFFun ff" | "box_view t = BvFConst x y z \<or> box_view t = BvFVar x y z"
    | "box_view t = BvPrim k w" by blast
  then show ?thesis
  proof cases
    case 1
    with leaf(2) c parts(3) assms(1) show ?thesis
      by (auto simp: realPropagate.simps [of lm env path t] makeList_def outputs_ok_def sigFFun_def sig_ok_lift_set)
  next
    case 2
    with leaf(3) c parts assms(1) show ?thesis
      by (auto simp: realPropagate.simps [of lm env path t] makeList_def outputs_ok_def const_output_def
          sigFConst_def sigFVar_def sig_ok_lift_set)
  next
    case 3
    with c(4) obtain p where p: "node w = NPtr (PPrim p)" "prim_arity p = k"
      by (auto simp: box_ok.simps [of t] split: node.splits pointer.splits)
    then obtain s where "prim_apply p lsig = Inr s" "sig_ok A s"
      using prim_apply_ok [of lsig p A] leaf(1) 3 c by auto
    with p 3 leaf(1) c assms(1) show ?thesis
      by (auto simp: realPropagate.simps [of lm env path t] makeList_def outputs_ok_def call_prim_def)
  qed
qed

lemma widget_sound:
  assumes "state_ok st" "call_ok A env path t lsig n m"
    and v: "box_view t = BvButton l \<or> box_view t = BvCheckbox l \<or> box_view t = BvVSlider l ps \<or>
      box_view t = BvHSlider l ps \<or> box_view t = BvNumEntry l ps \<or>
      box_view t = BvVBargraph l x y \<or> box_view t = BvHBargraph l x y"
  shows "runs A m (realPropagate lm env path t lsig st)"
proof -
  have c: "box_type t (int n) (int m)" "sig_ok {} t" "ffuns_ok t" "box_ok t" "path_ok path"
    "length lsig = n" "\<forall>s \<in> set lsig. sig_ok A s"
    using assms(2) by (simp_all add: call_ok_def)
  have l: "label_ok l" using v c(4) by (auto simp: box_ok.simps [of t])
  have m: "m = 1" and lsig: "n = 1 \<Longrightarrow> sig_ok A (lsig ! 0)"
    using v box_type_leaf(10,11) [OF c(1)] c(6,7) by auto
  have ps: "sig_ok {} ps \<Longrightarrow> sig_ok A (list4 (nthT ps 0) (nthT ps 1) (nthT ps 2) (nthT ps 3))"
    by (simp add: nthT_ok sig_ok_lift_set list4_def list3_def list2_def list1_def)
  note run = widget_ok [OF assms(1) c(5) l, of lsig _ A]
  note leaf = box_type_leaf(10,11) [OF c(1)] and parts = view_parts(10-14) [OF c(2,3)]
  show ?thesis using v
  proof (elim disjE)
    assume *: "box_view t = BvButton l"
    with leaf(1) c(6) show ?thesis unfolding realPropagate.simps [of lm env path t] * box_form.case m
      by (intro run) (auto simp: sigButton_def sig_ok_lift_set)
  next
    assume *: "box_view t = BvCheckbox l"
    with leaf(1) c(6) show ?thesis unfolding realPropagate.simps [of lm env path t] * box_form.case m
      by (intro run) (auto simp: sigCheckbox_def sig_ok_lift_set)
  next
    assume *: "box_view t = BvVSlider l ps"
    with leaf(1) c(6) ps [OF parts(1) [OF *]] show ?thesis
      unfolding realPropagate.simps [of lm env path t] * box_form.case m
      by (intro run) (auto simp: sigVSlider_def sig_ok_lift_set)
  next
    assume *: "box_view t = BvHSlider l ps"
    with leaf(1) c(6) ps [OF parts(2) [OF *]] show ?thesis
      unfolding realPropagate.simps [of lm env path t] * box_form.case m
      by (intro run) (auto simp: sigHSlider_def sig_ok_lift_set)
  next
    assume *: "box_view t = BvNumEntry l ps"
    with leaf(1) c(6) ps [OF parts(3) [OF *]] show ?thesis
      unfolding realPropagate.simps [of lm env path t] * box_form.case m
      by (intro run) (auto simp: sigNumEntry_def sig_ok_lift_set)
  next
    assume *: "box_view t = BvVBargraph l x y"
    with leaf(2) have "n = 1" by simp
    with c(6) lsig parts(4) [OF *] show ?thesis unfolding realPropagate.simps [of lm env path t] * box_form.case m
      by (intro run) (auto simp: sigVBargraph_def sig_ok_lift_set)
  next
    assume *: "box_view t = BvHBargraph l x y"
    with leaf(2) have "n = 1" by simp
    with c(6) lsig parts(5) [OF *] show ?thesis unfolding realPropagate.simps [of lm env path t] * box_form.case m
      by (intro run) (auto simp: sigHBargraph_def sig_ok_lift_set)
  qed
qed

lemma realPropagate_sound:
  assumes IH: "\<And>b. size b < size t \<Longrightarrow> sound lm b" and "state_ok st" "call_ok A env path t lsig n m"
  shows "runs A m (realPropagate lm env path t lsig st)"
proof -
  note less = box_view_less [THEN IH]
  have bt: "boxType t = Inr (Some (int n, int m))" using assms(3) by (simp add: call_ok_def box_type_iff)
  show ?thesis
  proof (cases "box_view t")
    case (BvSeq a b)
    show ?thesis by (rule seq_sound [OF less(2) [OF BvSeq] less(3) [OF BvSeq] assms(2,3) BvSeq])
  next
    case (BvPar a b)
    show ?thesis by (rule par_sound [OF less(4) [OF BvPar] less(5) [OF BvPar] assms(2,3) BvPar])
  next
    case (BvRec a b)
    show ?thesis by (rule rec_sound [OF less(6) [OF BvRec] less(7) [OF BvRec] assms(2,3) BvRec])
  next
    case (BvSplit a b)
    show ?thesis by (rule split_sound [OF less(8) [OF BvSplit] less(9) [OF BvSplit] assms(2,3) BvSplit])
  next
    case (BvMerge a b)
    show ?thesis by (rule merge_sound [OF less(10) [OF BvMerge] less(11) [OF BvMerge] assms(2,3) BvMerge])
  next
    case (BvSymbolic s b)
    show ?thesis by (rule symbolic_sound [OF less(1) [OF BvSymbolic] assms(2,3) BvSymbolic])
  next
    case (BvHGroup l b)
    then show ?thesis by (intro group_sound [OF less(24) [OF BvHGroup] assms(2,3)]) simp
  next
    case (BvVGroup l b)
    then show ?thesis by (intro group_sound [OF less(25) [OF BvVGroup] assms(2,3)]) simp
  next
    case (BvTGroup l b)
    then show ?thesis by (intro group_sound [OF less(26) [OF BvTGroup] assms(2,3)]) simp
  qed (use bt leaf_sound [OF assms(2,3)] foreign_sound [OF assms(2,3)] widget_sound [OF assms(2,3)] in
      \<open>simp_all add: boxType.simps [of t]\<close>)
qed

lemma propagate_sound: "sound lm box"
proof (induction "size box" arbitrary: box rule: less_induct)
  case less
  show ?case unfolding sound_def
    using propagate_from_real realPropagate_sound less by blast
qed

lemma start_state_ok: "state_ok start_state"
  by (simp add: state_ok_def start_state_def)

text \<open>
  Property C1 (\<^verbatim>\<open>propagate.cpp\<close>): propagation is type safe.  A block diagram of type \<open>n \<rightarrow> m\<close>, given \<open>n\<close>
  closed signals, is propagated without exception, failed assertion or out of range access, and
  gives exactly \<open>m\<close> signals, all closed again: the recursive compositions bind every reference
  they introduce, and the environment and the inputs are lifted on the way.
\<close>

theorem propagation_type_safe:
  assumes "box_type box (int n) (int m)" and "box_ok box" and "sig_ok {} box" and "ffuns_ok box"
    and "path_ok path" and "length lsig = n" and "\<forall>s \<in> set lsig. db_wf s \<and> isClosed s"
  shows "\<exists>out st. boxPropagateSig lm path box lsig start_state = Inr (list_tree out, st) \<and>
    length out = m \<and> (\<forall>s \<in> set out. db_wf s \<and> isClosed s)"
proof -
  have closed: "db_wf s \<and> isClosed s \<longleftrightarrow> sig_ok {} s" for s by (auto simp: sig_ok_def isClosed_iff)
  have "call_ok {} nil path box lsig n m" using assms env_ok_nil by (simp add: call_ok_def closed)
  then have "runs {} m (propagate lm nil path box lsig start_state)"
    by (rule soundD [OF propagate_sound start_state_ok])
  then show ?thesis unfolding closed by (auto simp: runs_def boxPropagateSig_def outputs_ok_def)
qed

theorem propagation_type_safe_witness:
  "\<exists>out st. boxPropagateSig nan_libm nil (boxRec (boxPrim2 (PPrim P_sigAdd)) boxWire) [sigInput 0] start_state =
     Inr (list_tree out, st) \<and> length out = 1"
proof -
  let ?box = "boxRec (boxPrim2 (PPrim P_sigAdd)) boxWire"
  have a: "box_type (boxPrim2 (PPrim P_sigAdd)) 2 1" using box_type.prim [of "boxPrim2 (PPrim P_sigAdd)" 2] by simp
  have w: "box_type boxWire 1 1" by (rule box_type.wire) simp
  have t: "box_type ?box (int 1) (int 1)" using box_type.rec [OF _ a w, of ?box] by simp
  have ok: "box_ok ?box"
    by (simp add: box_ok.simps [of ?box] box_ok.simps [of boxWire] box_ok.simps [of "boxPrim2 (PPrim P_sigAdd)"]
        prim_arity_def leaf_def)
  have closed: "sig_ok {} ?box" "ffuns_ok ?box"
    by (simp_all add: boxRec_def boxPrim2_def boxWire_def leaf_def ffuns_ok.simps)
  have p: "path_ok nil" unfolding path_ok_def by (rule exI [of _ "[]"]) simp
  have "db_wf (sigInput 0) \<and> isClosed (sigInput 0)" by (simp add: sigInput_def leaf_def isClosed_def)
  then have "\<forall>s \<in> set [sigInput 0]. db_wf s \<and> isClosed s" by simp
  from propagation_type_safe [OF t ok closed p _ this, of nan_libm] show ?thesis by auto
qed

section \<open>Splitting and mixing\<close>

lemma filter_congruent:
  assumes "0 < n" "i < len"
  shows "filter (\<lambda>j. j mod n = i mod n) [i..<len] = i # filter (\<lambda>j. j mod n = (i + n) mod n) [i + n..<len]"
proof -
  have none: "filter (\<lambda>j. j mod n = i mod n) [Suc i..<k] = []" if "k \<le> i + n" for k
  proof -
    have "j mod n \<noteq> i mod n" if j: "i < j" "j < i + n" for j
    proof
      assume "j mod n = i mod n"
      then have "(j - i) mod n = 0" using j by (metis less_imp_le_nat mod_eq_dvd_iff_nat mod_eq_0_iff_dvd)
      moreover have "(j - i) mod n = j - i" using j by simp
      ultimately show False using j by simp
    qed
    then show ?thesis using \<open>k \<le> i + n\<close> by (auto simp: filter_empty_conv)
  qed
  have "[Suc i..<len] = [Suc i..<min len (i + n)] @ [i + n..<len]"
    using assms upt_add_eq_append [of "Suc i" "i + n" "len - (i + n)"]
    by (cases "len \<le> i + n") (auto simp: min_def)
  then have "filter (\<lambda>j. j mod n = i mod n) [Suc i..<len] = filter (\<lambda>j. j mod n = i mod n) [i + n..<len]"
    using none [of "min len (i + n)"] by simp
  then show ?thesis using assms by (simp add: upt_conv_Cons)
qed

lemma mix_loop_sum:
  assumes "0 < n"
  shows "mix_loop l n i t = foldl (sigBinOp kAdd) t (map ((!) l) (filter (\<lambda>j. j mod n = i mod n) [i..<length l]))"
  using assms
proof (induction l n i t rule: mix_loop.induct)
  case (1 l n i t)
  show ?case
  proof (cases "i < length l")
    case True
    with 1 filter_congruent [of n i "length l"] show ?thesis by (subst mix_loop.simps) simp
  qed (simp add: mix_loop.simps [of l])
qed

text \<open>
  Property C30 (\<^verbatim>\<open>propagate.cpp\<close>, \<^verbatim>\<open>split\<close> and \<^verbatim>\<open>mix\<close>): splitting repeats the lines cyclically on the
  buses; mixing sums on bus \<open>b\<close>, from left to right, the lines whose number is \<open>b\<close> modulo the
  number of buses, so that each line is used on exactly one bus.
\<close>

theorem split_and_mix:
  assumes "0 < nbus" and "l \<noteq> []"
  shows "split_list l (int nbus) = Inr (map (\<lambda>b. l ! (b mod length l)) [0..<nbus]) \<and>
    (nbus \<le> length l \<longrightarrow> mix l (int nbus) = Inr (map (\<lambda>b. foldl (sigBinOp kAdd) (l ! b)
       (map ((!) l) (filter (\<lambda>j. j mod nbus = b mod nbus) [b + nbus..<length l]))) [0..<nbus]))"
  using assms by (auto simp: split_list_def mix_def mix_loop_sum)

theorem split_and_mix_witness:
  "mix [sigInput 0, sigInput 1, sigInput 2, sigInput 3] 2 =
     Inr [sigBinOp kAdd (sigInput 0) (sigInput 2), sigBinOp kAdd (sigInput 1) (sigInput 3)]"
proof -
  have "[0..<2] = [0, Suc 0]" by (simp add: numeral_2_eq_2)
  then show ?thesis using split_and_mix [of 2 "[sigInput 0, sigInput 1, sigInput 2, sigInput 3]"] by simp
qed

end
