(* ===== verification/Interval.thy ===== *)
theory Interval
  imports Xtended
begin

text \<open>
  Intervals of signal values (\<^verbatim>\<open>compiler/signals/interval.hh\<close>).

  The compiler bounds every signal by an interval of doubles; delay lines and tables are sized
  with them.  An \<open>interval\<close> here has the three fields of the C++ struct, the operations are its
  overloaded operators, prefixed with \<open>i_\<close>.  \<open>in_ival\<close> is the meaning of an interval and the
  soundness theorems say that each operator encloses the pointwise operation.
\<close>

record interval =
  iv_valid :: bool
  iv_lo :: double
  iv_hi :: double

definition interval0 :: interval where
  "interval0 = \<lparr>iv_valid = False, iv_lo = DInf True, iv_hi = DInf False\<rparr>"

definition interval1 :: "double \<Rightarrow> interval" where
  "interval1 n = \<lparr>iv_valid = True, iv_lo = n, iv_hi = n\<rparr>"

definition interval2 :: "double \<Rightarrow> double \<Rightarrow> interval" where
  "interval2 n m = \<lparr>iv_valid = True, iv_lo = dmin n m, iv_hi = dmax n m\<rparr>"

definition min4 :: "double \<Rightarrow> double \<Rightarrow> double \<Rightarrow> double \<Rightarrow> double" where
  "min4 a b c d = dmin (dmin a b) (dmin c d)"

definition max4 :: "double \<Rightarrow> double \<Rightarrow> double \<Rightarrow> double \<Rightarrow> double" where
  "max4 a b c d = dmax (dmax a b) (dmax c d)"

definition isconst :: "interval \<Rightarrow> bool" where
  "isconst x \<longleftrightarrow> iv_valid x \<and> deq (iv_lo x) (iv_hi x)"

definition reunion :: "interval \<Rightarrow> interval \<Rightarrow> interval" where
  "reunion x y =
     (if iv_valid x \<and> iv_valid y
      then interval2 (dmin (iv_lo x) (iv_lo y)) (dmax (iv_hi x) (iv_hi y)) else interval0)"

definition i_add :: "interval \<Rightarrow> interval \<Rightarrow> interval" where
  "i_add x y =
     (if iv_valid x \<and> iv_valid y
      then interval2 (dadd (iv_lo x) (iv_lo y)) (dadd (iv_hi x) (iv_hi y)) else interval0)"

definition i_sub :: "interval \<Rightarrow> interval \<Rightarrow> interval" where
  "i_sub x y =
     (if iv_valid x \<and> iv_valid y
      then interval2 (dsub (iv_lo x) (iv_hi y)) (dsub (iv_hi x) (iv_lo y)) else interval0)"

definition i_mul :: "interval \<Rightarrow> interval \<Rightarrow> interval" where
  "i_mul x y =
     (if iv_valid x \<and> iv_valid y
      then let a = dmul (iv_lo x) (iv_lo y); b = dmul (iv_lo x) (iv_hi y);
               c = dmul (iv_hi x) (iv_lo y); d = dmul (iv_hi x) (iv_hi y)
           in interval2 (min4 a b c d) (max4 a b c d)
      else interval0)"

definition i_div :: "interval \<Rightarrow> interval \<Rightarrow> interval" where
  "i_div x y =
     (if iv_valid x \<and> iv_valid y \<and> (dlt (DFin 0) (iv_lo y) \<or> dlt (iv_hi y) (DFin 0))
      then i_mul x (interval2 (ddiv (DFin 1) (iv_hi y)) (ddiv (DFin 1) (iv_lo y)))
      else interval0)"

definition i_rem :: "interval \<Rightarrow> interval \<Rightarrow> interval" where
  "i_rem x y =
     (if iv_valid x \<and> iv_valid y \<and> dle (DFin 0) (iv_lo x) \<and> dlt (DFin 0) (iv_lo y)
      then interval2 (DFin 0) (iv_hi y) else interval0)"

subsection \<open>Bit masks\<close>

unbundle bit_operations_syntax

definition smear :: "int \<Rightarrow> int" where
  "smear v = fold (\<lambda>i v. v OR drop_bit i v) [1, 2, 4, 8, 16] v"

definition bitmask :: "double \<Rightarrow> int" where
  "bitmask x = smear (int_of_double x)"

definition i_and :: "interval \<Rightarrow> interval \<Rightarrow> interval" where
  "i_and x y =
     (if iv_valid x \<and> iv_valid y
      then if dle (DFin 0) (iv_lo x) \<and> dle (DFin 0) (iv_lo y)
           then interval2 (DFin 0) (double_of_int (bitmask (iv_hi x) AND bitmask (iv_hi y)))
           else if dle (DFin 0) (iv_lo y) then interval2 (DFin 0) (double_of_int (bitmask (iv_hi y)))
           else if dle (DFin 0) (iv_lo x) then interval2 (DFin 0) (double_of_int (bitmask (iv_hi y)))
           else interval0
      else if iv_valid x \<and> dle (DFin 0) (iv_lo x) then interval2 (DFin 0) (double_of_int (bitmask (iv_hi x)))
      else if iv_valid y \<and> dle (DFin 0) (iv_lo y) then interval2 (DFin 0) (double_of_int (bitmask (iv_hi y)))
      else interval0)"

definition i_or :: "interval \<Rightarrow> interval \<Rightarrow> interval" where
  "i_or x y =
     (if iv_valid x \<and> iv_valid y \<and> dle (DFin 0) (iv_lo x) \<and> dle (DFin 0) (iv_lo y)
      then interval2 (DFin 0) (double_of_int (bitmask (iv_hi x) OR bitmask (iv_hi y))) else interval0)"

definition i_xor :: "interval \<Rightarrow> interval \<Rightarrow> interval" where "i_xor x y = interval0"

definition i_lsh :: "interval \<Rightarrow> interval \<Rightarrow> interval" where "i_lsh x y = interval0"

definition i_rsh :: "interval \<Rightarrow> interval \<Rightarrow> interval" where "i_rsh x y = interval0"

subsection \<open>Comparisons, minimum, maximum, power and absolute value\<close>

definition i_lt :: "interval \<Rightarrow> interval \<Rightarrow> interval" where "i_lt x y = interval2 (DFin 0) (DFin 1)"

definition i_le :: "interval \<Rightarrow> interval \<Rightarrow> interval" where "i_le x y = interval2 (DFin 0) (DFin 1)"

definition i_gt :: "interval \<Rightarrow> interval \<Rightarrow> interval" where "i_gt x y = interval2 (DFin 0) (DFin 1)"

definition i_ge :: "interval \<Rightarrow> interval \<Rightarrow> interval" where "i_ge x y = interval2 (DFin 0) (DFin 1)"

definition i_eq :: "interval \<Rightarrow> interval \<Rightarrow> interval" where "i_eq x y = interval2 (DFin 0) (DFin 1)"

definition i_ne :: "interval \<Rightarrow> interval \<Rightarrow> interval" where "i_ne x y = interval2 (DFin 0) (DFin 1)"

definition i_min :: "interval \<Rightarrow> interval \<Rightarrow> interval" where
  "i_min x y = interval2 (dmin (iv_lo x) (iv_lo y)) (dmin (iv_hi x) (iv_hi y))"

definition i_max :: "interval \<Rightarrow> interval \<Rightarrow> interval" where
  "i_max x y = interval2 (dmax (iv_lo x) (iv_lo y)) (dmax (iv_hi x) (iv_hi y))"

definition i_pow :: "libm \<Rightarrow> interval \<Rightarrow> interval \<Rightarrow> interval" where
  "i_pow m x y =
     (if dlt (DFin 0) (iv_lo x)
      then let a = lm_pow m (iv_lo x) (iv_lo y); b = lm_pow m (iv_lo x) (iv_hi y);
               c = lm_pow m (iv_hi x) (iv_lo y); d = lm_pow m (iv_hi x) (iv_hi y)
           in interval2 (min4 a b c d) (max4 a b c d)
      else interval0)"

definition i_abs :: "interval \<Rightarrow> interval" where
  "i_abs x =
     (if iv_valid x
      then if dle (DFin 0) (iv_lo x) then x
           else if dlt (iv_hi x) (DFin 0) then interval2 (dabs (iv_hi x)) (dabs (iv_lo x))
           else interval2 (DFin 0) (dmax (dabs (iv_lo x)) (iv_hi x))
      else x)"

subsection \<open>Meaning\<close>

text \<open>
  A value is in an interval when it is between the bounds (so NaN is in none).  The invariant
  \<open>ival_wf\<close> holds of every interval the constructors build from bounds that are not NaN.
\<close>

definition in_ival :: "interval \<Rightarrow> double \<Rightarrow> bool" where
  "in_ival i x \<longleftrightarrow> dle (iv_lo i) x \<and> dle x (iv_hi i)"

definition ival_wf :: "interval \<Rightarrow> bool" where
  "ival_wf i \<longleftrightarrow> dle (iv_lo i) (iv_hi i) \<and> (\<not> iv_valid i \<longrightarrow> i = interval0)"

definition bounded :: "interval \<Rightarrow> bool" where
  "bounded i \<longleftrightarrow> (iv_valid i \<longrightarrow> dfinite (iv_lo i) \<and> dfinite (iv_hi i))"

lemma interval0_simps [simp]:
  "iv_valid interval0 = False" "in_ival interval0 x \<longleftrightarrow> x \<noteq> DNaN" "ival_wf interval0"
  by (auto simp: interval0_def in_ival_def ival_wf_def)

lemma interval2_wf: "a \<noteq> DNaN \<Longrightarrow> b \<noteq> DNaN \<Longrightarrow> ival_wf (interval2 a b)"
  by (metis (no_types, lifting) dle_trans dmax_ge dmin_le interval.select_convs interval2_def ival_wf_def)

lemma in_interval2:
  "dle a x \<Longrightarrow> dle x b \<Longrightarrow> in_ival (interval2 a b) x"
  unfolding in_ival_def interval2_def
  by (metis dle_not_NaN dle_trans dmax_ge dmin_le interval.select_convs(2,3))

lemma in_interval2_iff:
  "dle a b \<Longrightarrow> in_ival (interval2 a b) x \<longleftrightarrow> dle a x \<and> dle x b"
  unfolding in_ival_def interval2_def
  by (auto simp: dmin_def dmax_def dlt_def)  (metis dle_trans)+

lemma in_ival_not_NaN: "in_ival i x \<Longrightarrow> x \<noteq> DNaN"
  unfolding in_ival_def using dle_not_NaN by blast

lemma in_ival_finite:
  "in_ival i x \<Longrightarrow> bounded i \<Longrightarrow> iv_valid i \<Longrightarrow>
     dfinite x \<and> dfinite (iv_lo i) \<and> dfinite (iv_hi i) \<and> dval (iv_lo i) \<le> dval x \<and> dval x \<le> dval (iv_hi i)"
  by (cases x) (auto simp: in_ival_def bounded_def dle_def)

subsection \<open>Sums, differences, unions\<close>

lemma dsub_finite_not_NaN [simp]: "dfinite x \<Longrightarrow> dfinite y \<Longrightarrow> dsub x y \<noteq> DNaN"
  by (simp add: dsub_def)

lemma reunion_upper: "in_ival i x \<or> in_ival j x \<Longrightarrow> ival_wf i \<Longrightarrow> ival_wf j \<Longrightarrow> in_ival (reunion i j) x"
proof (cases "iv_valid i \<and> iv_valid j")
  case True
  assume x: "in_ival i x \<or> in_ival j x" and wf: "ival_wf i" "ival_wf j"
  have n: "iv_lo i \<noteq> DNaN" "iv_lo j \<noteq> DNaN" "iv_hi i \<noteq> DNaN" "iv_hi j \<noteq> DNaN"
    using wf dle_not_NaN unfolding ival_wf_def by blast+
  have "dle (dmin (iv_lo i) (iv_lo j)) x"
    using x dmin_le [OF n(1,2)] unfolding in_ival_def by (auto intro: dle_trans)
  moreover have "dle x (dmax (iv_hi i) (iv_hi j))"
    using x dmax_ge [OF n(3,4)] unfolding in_ival_def by (auto intro: dle_trans)
  ultimately
  show ?thesis using True by (simp add: reunion_def in_interval2)
qed (auto simp: reunion_def dest: in_ival_not_NaN)

lemma i_add_sound:
  assumes "in_ival i x" "in_ival j y" "bounded i" "bounded j" "dadd x y \<noteq> DNaN"
  shows "in_ival (i_add i j) (dadd x y)"
proof (cases "iv_valid i \<and> iv_valid j")
  case True
  have "dle (dadd (iv_lo i) (iv_lo j)) (dadd x y)" "dle (dadd x y) (dadd (iv_hi i) (iv_hi j))"
    using in_ival_finite [OF assms(1,3)] in_ival_finite [OF assms(2,4)] assms True
    by (auto intro!: dadd_mono simp: in_ival_def)
  then show ?thesis using True by (simp add: i_add_def in_interval2)
next
  case False
  then show ?thesis using assms(5) unfolding i_add_def by auto
qed

lemma i_sub_sound:
  assumes "in_ival i x" "in_ival j y" "bounded i" "bounded j" "dsub x y \<noteq> DNaN"
  shows "in_ival (i_sub i j) (dsub x y)"
proof (cases "iv_valid i \<and> iv_valid j")
  case True
  have "dle (dsub (iv_lo i) (iv_hi j)) (dsub x y)" "dle (dsub x y) (dsub (iv_hi i) (iv_lo j))"
    using in_ival_finite [OF assms(1,3)] in_ival_finite [OF assms(2,4)] assms True
    by (auto intro!: dsub_mono simp: in_ival_def)
  then show ?thesis using True by (simp add: i_sub_def in_interval2)
next
  case False
  then show ?thesis using assms(5) unfolding i_sub_def by auto
qed

subsection \<open>Products and quotients\<close>

lemma corner_below:
  fixes a b c d x y :: rat
  assumes "a \<le> x" "x \<le> b" "c \<le> y" "y \<le> d"
  shows "\<exists>u\<in>{a, b}. \<exists>v\<in>{c, d}. u * v \<le> x * y" and "\<exists>u\<in>{a, b}. \<exists>v\<in>{c, d}. x * y \<le> u * v"
proof -
  have one: "(\<exists>u\<in>{l, h}. u * z \<le> w * z) \<and> (\<exists>u\<in>{l, h}. w * z \<le> u * z)"
    if "l \<le> w" "w \<le> h" for l w h z :: rat
    using that by (cases "0 \<le> z") (auto intro: mult_right_mono mult_right_mono_neg)
  obtain u where u: "u \<in> {a, b}" "u * y \<le> x * y" using one [OF assms(1,2)] by blast
  obtain v where v: "v \<in> {c, d}" "v * u \<le> y * u" using one [OF assms(3,4)] by blast
  obtain u' where u': "u' \<in> {a, b}" "x * y \<le> u' * y" using one [OF assms(1,2)] by blast
  obtain v' where v': "v' \<in> {c, d}" "y * u' \<le> v' * u'" using one [OF assms(3,4)] by blast
  show "\<exists>u\<in>{a, b}. \<exists>v\<in>{c, d}. u * v \<le> x * y"
    using u v by (metis mult.commute order_trans)
  show "\<exists>u\<in>{a, b}. \<exists>v\<in>{c, d}. x * y \<le> u * v"
    using u' v' by (metis mult.commute order_trans)
qed

lemma min4_le:
  assumes "a \<noteq> DNaN" "b \<noteq> DNaN" "c \<noteq> DNaN" "d \<noteq> DNaN" "e \<in> {a, b, c, d}"
  shows "dle (min4 a b c d) e" and "dle e (max4 a b c d)"
proof -
  have "dmin a b \<noteq> DNaN" "dmin c d \<noteq> DNaN" "dmax a b \<noteq> DNaN" "dmax c d \<noteq> DNaN"
    using assms dmin_cases [of a b] dmin_cases [of c d] dmax_cases [of a b] dmax_cases [of c d] by auto
  note m = dmin_le [OF assms(1,2)] dmin_le [OF assms(3,4)] dmin_le [OF this(1,2)]
    dmax_ge [OF assms(1,2)] dmax_ge [OF assms(3,4)] dmax_ge [OF this(3,4)]
  from m assms(5) show "dle (min4 a b c d) e" "dle e (max4 a b c d)"
    unfolding min4_def max4_def by (auto intro: dle_trans)
qed

lemma i_mul_sound:
  assumes "in_ival i x" "in_ival j y" "bounded i" "bounded j" "dmul x y \<noteq> DNaN"
  shows "in_ival (i_mul i j) (dmul x y)"
proof (cases "iv_valid i \<and> iv_valid j")
  case True
  note f = in_ival_finite [OF assms(1,3)] in_ival_finite [OF assms(2,4)]
  let ?p = "\<lambda>u v. dmul u v"
  let ?a = "?p (iv_lo i) (iv_lo j)" and ?b = "?p (iv_lo i) (iv_hi j)"
  let ?c = "?p (iv_hi i) (iv_lo j)" and ?d = "?p (iv_hi i) (iv_hi j)"
  have n: "?a \<noteq> DNaN" "?b \<noteq> DNaN" "?c \<noteq> DNaN" "?d \<noteq> DNaN" using f True by auto
  have mono: "dle (?p u v) (?p w z)"
    if "dfinite u" "dfinite v" "dfinite w" "dfinite z" "dval u * dval v \<le> dval w * dval z" for u v w z
    using that by (simp add: dmul_le round64_mono)
  have "\<exists>e\<in>{?a, ?b, ?c, ?d}. dle e (dmul x y)"
    using corner_below(1) [of "dval (iv_lo i)" "dval x" "dval (iv_hi i)" "dval (iv_lo j)" "dval y" "dval (iv_hi j)"]
      f True mono by auto
  moreover have "\<exists>e\<in>{?a, ?b, ?c, ?d}. dle (dmul x y) e"
    using corner_below(2) [of "dval (iv_lo i)" "dval x" "dval (iv_hi i)" "dval (iv_lo j)" "dval y" "dval (iv_hi j)"]
      f True mono by auto
  ultimately have "dle (min4 ?a ?b ?c ?d) (dmul x y)" "dle (dmul x y) (max4 ?a ?b ?c ?d)"
    using min4_le [OF n] dle_trans by blast+
  then show ?thesis using True by (simp add: i_mul_def Let_def in_interval2)
next
  case False
  then show ?thesis using assms(5) unfolding i_mul_def by auto
qed


lemma recip_antimono:
  assumes "dfinite a" "dfinite b" "dval a \<le> dval b" "0 < dval a \<or> dval b < 0"
  shows "dle (ddiv (DFin 1) b) (ddiv (DFin 1) a)"
proof -
  have "1 / dval b \<le> 1 / dval a"
    using assms(3,4) by (auto simp: field_simps)
  moreover have "ddiv (DFin 1) b = round64 (1 / dval b)" "ddiv (DFin 1) a = round64 (1 / dval a)"
    using assms by (auto simp: ddiv_def)
  ultimately show "dle (ddiv (DFin 1) b) (ddiv (DFin 1) a)" by (simp add: round64_mono)
qed

lemma i_div_sound:
  assumes "in_ival i x" "in_ival j y" "bounded i" "bounded j"
    and "bounded (interval2 (ddiv (DFin 1) (iv_hi j)) (ddiv (DFin 1) (iv_lo j)))"
    and "dmul x (ddiv (DFin 1) y) \<noteq> DNaN"
  shows "in_ival (i_div i j) (dmul x (ddiv (DFin 1) y))"
proof (cases "iv_valid i \<and> iv_valid j \<and> (dlt (DFin 0) (iv_lo j) \<or> dlt (iv_hi j) (DFin 0))")
  case True
  note f = in_ival_finite [OF assms(2,4)]
  then have "0 < dval (iv_lo j) \<or> dval (iv_hi j) < 0" using True by (auto simp: dlt_def)
  then have "in_ival (interval2 (ddiv (DFin 1) (iv_hi j)) (ddiv (DFin 1) (iv_lo j))) (ddiv (DFin 1) y)"
    using f True by (intro in_interval2 recip_antimono) auto
  then show ?thesis using True i_mul_sound [OF assms(1) _ assms(3,5,6)] by (simp add: i_div_def)
next
  case False
  then show ?thesis using assms(6) unfolding i_div_def by auto
qed

subsection \<open>Minimum, maximum, absolute value\<close>

lemma i_min_sound:
  assumes "in_ival i x" "in_ival j y"
  shows "in_ival (i_min i j) (dmin x y)"
  using assms unfolding i_min_def by (intro in_interval2 dmin_mono) (auto simp: in_ival_def)

lemma i_max_sound:
  assumes "in_ival i x" "in_ival j y"
  shows "in_ival (i_max i j) (dmax x y)"
  using assms unfolding i_max_def by (intro in_interval2 dmax_mono) (auto simp: in_ival_def)

lemma dabs_simps:
  "dle (DFin 0) x \<Longrightarrow> dle (dabs x) z \<longleftrightarrow> dle x z"
  "dle (DFin 0) x \<Longrightarrow> dle z (dabs x) \<longleftrightarrow> dle z x"
  "dle x (DFin 0) \<Longrightarrow> dle (dabs x) z \<longleftrightarrow> dle (dneg x) z"
  "dle x (DFin 0) \<Longrightarrow> dle z (dabs x) \<longleftrightarrow> dle z (dneg x)"
  by (cases x; cases z; auto simp: dabs_def dle_def dneg_def)+

lemma dabs_nonneg: "x \<noteq> DNaN \<Longrightarrow> dle (DFin 0) (dabs x)"
  by (cases x) (auto simp: dabs_def dle_def dneg_def)

lemma i_abs_sound:
  assumes "in_ival i x" "ival_wf i"
  shows "in_ival (i_abs i) (dabs x)"
proof -
  have b: "dle (iv_lo i) x" "dle x (iv_hi i)" and n: "x \<noteq> DNaN" "iv_lo i \<noteq> DNaN" "iv_hi i \<noteq> DNaN"
    using assms dle_not_NaN unfolding in_ival_def by blast+
  consider "\<not> iv_valid i" | "iv_valid i" "dle (DFin 0) (iv_lo i)"
    | "iv_valid i" "\<not> dle (DFin 0) (iv_lo i)" "dlt (iv_hi i) (DFin 0)"
    | "iv_valid i" "\<not> dle (DFin 0) (iv_lo i)" "\<not> dlt (iv_hi i) (DFin 0)"
    by blast
  then show ?thesis
  proof cases
    case 1
    then have "i = interval0" using assms(2) by (simp add: ival_wf_def)
    then show ?thesis using n dabs_nonneg dle_not_NaN by (auto simp: i_abs_def)
  next
    case 2
    then have "dle (DFin 0) x" using b dle_trans by blast
    then show ?thesis using 2 b by (simp add: i_abs_def in_ival_def dabs_simps)
  next
    case 3
    then have h: "dle (iv_hi i) (DFin 0)" by (simp add: dlt_def)
    then have x: "dle x (DFin 0)" using b dle_trans by blast
    then have "dle (iv_lo i) (DFin 0)" using b dle_trans by blast
    with h x b show ?thesis using 3
      by (auto simp: i_abs_def dabs_simps intro!: in_interval2 dneg_le)
  next
    case 4
    have l: "dle (iv_lo i) (DFin 0)" using 4(2) n dle_total [of "DFin 0" "iv_lo i"] by auto
    have "dabs (iv_lo i) \<noteq> DNaN" using n dabs_nonneg dle_not_NaN by blast
    note m = dmax_ge [OF this n(3)]
    have "dle (dabs x) (dmax (dabs (iv_lo i)) (iv_hi i))"
    proof (cases "dle (DFin 0) x")
      case True
      then show ?thesis using b m by (auto simp: dabs_simps intro: dle_trans)
    next
      case False
      then have x: "dle x (DFin 0)" using n dle_total [of "DFin 0" x] by auto
      have "dle (dneg x) (dabs (iv_lo i))" using l b by (auto simp: dabs_simps intro: dneg_le)
      then show ?thesis using x m by (auto simp: dabs_simps intro: dle_trans)
    qed
    then show ?thesis using 4 n dabs_nonneg by (simp add: i_abs_def in_interval2)
  qed
qed

subsection \<open>Bit masks\<close>

definition spread :: "int \<Rightarrow> nat \<Rightarrow> nat \<Rightarrow> bool" where
  "spread v m n \<longleftrightarrow> (\<exists>k<m. bit v (n + k))"

lemma spread_double: "spread v (2 * m) n \<longleftrightarrow> spread v m n \<or> spread v m (n + m)"
proof -
  have "k < 2 * m \<longleftrightarrow> k < m \<or> (\<exists>l<m. k = m + l)" for k
    by presburger
  then show ?thesis unfolding spread_def by (metis add.assoc)
qed

lemma smear_step:
  assumes "\<And>n. bit w n \<longleftrightarrow> spread v m n"
  shows "bit (w OR drop_bit m w) n \<longleftrightarrow> spread v (2 * m) n"
  by (simp add: bit_simps assms spread_double add.commute)

lemma bit_smear: "bit (smear v) n \<longleftrightarrow> spread v 32 n"
proof -
  have s1: "bit v n \<longleftrightarrow> spread v 1 n" for n by (simp add: spread_def)
  note s2 = smear_step [OF s1, simplified]
  note s4 = smear_step [OF s2, simplified]
  note s8 = smear_step [OF s4, simplified]
  note s16 = smear_step [OF s8, simplified]
  note s32 = smear_step [OF s16, simplified]
  then show ?thesis by (simp add: smear_def)
qed

lemma smear_mask:
  assumes "0 \<le> v" "v < 2 ^ 31"
  obtains k where "k \<le> 31" "smear v = 2 ^ k - 1" "v < 2 ^ k"
proof -
  define k where "k = (LEAST k. v < 2 ^ k)"
  have lt: "v < 2 ^ k" unfolding k_def using assms(2) by (rule LeastI)
  have k31: "k \<le> 31" unfolding k_def using assms(2) by (rule Least_le)
  have high: "\<not> bit v m" if "k \<le> m" for m
  proof -
    have "v < 2 ^ m" using lt that by (meson less_le_trans one_le_numeral power_increasing)
    then show ?thesis using assms(1) by (simp add: bit_iff_odd)
  qed
  have top: "bit v (k - 1)" if "0 < k"
  proof -
    have "k - 1 < (LEAST k. v < 2 ^ k)" using that by (simp flip: k_def)
    from not_less_Least [OF this] have "\<not> v < 2 ^ (k - 1)" .
    moreover have "v < 2 * 2 ^ (k - 1)" using lt that by (metis Suc_diff_1 power_Suc)
    ultimately have "v div 2 ^ (k - 1) = 1" using assms(1) by (simp add: div_pos_geq)
    then show ?thesis by (simp add: bit_iff_odd)
  qed
  have "spread v 32 n \<longleftrightarrow> n < k" for n
  proof
    assume "spread v 32 n"
    then obtain j where "bit v (n + j)" by (auto simp: spread_def)
    then show "n < k" using high [of "n + j"] by (cases "n + j < k") auto
  next
    assume "n < k"
    then have "k - 1 - n < 32" "n + (k - 1 - n) = k - 1" using k31 by auto
    then show "spread v 32 n" unfolding spread_def using top \<open>n < k\<close> by (metis gr_implies_not0 not_gr_zero)
  qed
  then have "smear v = mask k" by (intro bit_eqI) (simp add: bit_smear bit_mask_iff)
  then show ?thesis using that k31 lt by (simp add: mask_eq_exp_minus_1)
qed


definition int_bounded :: "interval \<Rightarrow> bool" where
  "int_bounded i \<longleftrightarrow> (iv_valid i \<longrightarrow> dle (iv_hi i) (double_of_int int_max))"

lemma in_ival_int:
  assumes "in_ival x (double_of_int i)" "in_int32 i" "int_bounded x" "iv_valid x" "dle (DFin 0) (iv_lo x)"
  obtains k where "k \<le> 31" "bitmask (iv_hi x) = 2 ^ k - 1" "0 \<le> i" "i < 2 ^ k"
proof -
  have e: "double_of_int i = DFin (of_int i)" using assms(2) by (rule double_of_int_exact)
  have m: "double_of_int int_max = DFin (of_int int_max)"
    by (rule double_of_int_exact) (simp add: int32_defs)
  have "dle (DFin 0) (DFin (of_int i))"
    using assms(1,5) dle_trans unfolding in_ival_def e by blast
  then have i: "0 \<le> i" by simp
  have h: "dle (DFin (of_int i)) (iv_hi x)" "dle (iv_hi x) (DFin (of_int int_max))"
    using assms(1,3,4) by (simp_all add: in_ival_def int_bounded_def e m)
  then have f: "dfinite (iv_hi x)" by (cases "iv_hi x") (auto simp: dle_def)
  with h have r: "of_int i \<le> dval (iv_hi x)" "dval (iv_hi x) \<le> of_int int_max" by simp_all
  then have fl: "i \<le> \<lfloor>dval (iv_hi x)\<rfloor>" "\<lfloor>dval (iv_hi x)\<rfloor> \<le> int_max"
    by (simp_all add: le_floor_iff floor_le_iff)
  have "(0::rat) \<le> of_int i" using i by simp
  then have "0 \<le> dval (iv_hi x)" using r(1) by (rule order_trans)
  then have c: "int_of_double (iv_hi x) = \<lfloor>dval (iv_hi x)\<rfloor>"
    using f fl i by (simp add: int_of_double_def trunc_rat_def in_int32_def int_min_def)
  have "0 \<le> int_of_double (iv_hi x)" "int_of_double (iv_hi x) < 2 ^ 31"
    unfolding c using fl i unfolding int_max_def by linarith+
  then obtain k where "k \<le> 31" "smear (int_of_double (iv_hi x)) = 2 ^ k - 1" "int_of_double (iv_hi x) < 2 ^ k"
    by (rule smear_mask)
  then show ?thesis using that c fl i by (simp add: bitmask_def)
qed

lemma in_mask_interval:
  assumes "0 \<le> i" "i < 2 ^ k" "k \<le> 31"
  shows "in_ival (interval2 (DFin 0) (double_of_int (2 ^ k - 1))) (double_of_int i)"
proof -
  have "(2::int) ^ k \<le> 2 ^ 31" using assms(3) by (intro power_increasing) simp_all
  then have "in_int32 i" "in_int32 (2 ^ k - 1)" using assms by (simp_all add: int32_defs)
  moreover have "rat_of_int i \<le> of_int (2 ^ k - 1)" using assms(2) by (simp only: of_int_le_iff)
  ultimately show ?thesis using assms(1) by (auto intro!: in_interval2 simp: double_of_int_exact)
qed

lemma mask_and_or:
  "(2 ^ k - 1) AND (2 ^ l - 1) = (2 ^ min k l - 1 :: int)"
  "(2 ^ k - 1) OR (2 ^ l - 1) = (2 ^ max k l - 1 :: int)"
  unfolding mask_eq_exp_minus_1 [symmetric]
  by (rule bit_eqI; auto simp: bit_simps)+

lemma and_below: "0 \<le> i \<Longrightarrow> i < 2 ^ k \<Longrightarrow> 0 \<le> i AND j \<and> i AND j < (2 ^ k :: int)"
  by (meson AND_lower AND_upper1 order_le_less_trans)

lemma double_of_int_not_NaN [simp]: "double_of_int i \<noteq> DNaN"
  by (simp add: double_of_int_def)

lemma i_and_sound:
  assumes i: "in_ival x (double_of_int i)" "in_int32 i" "int_bounded x"
    and j: "in_ival y (double_of_int j)" "in_int32 j" "int_bounded y"
    and ok: "\<not> (iv_valid x \<and> iv_valid y \<and> dle (DFin 0) (iv_lo x) \<and> \<not> dle (DFin 0) (iv_lo y))"
  shows "in_ival (i_and x y) (double_of_int (i AND j))"
proof -
  consider "iv_valid x" "iv_valid y" "dle (DFin 0) (iv_lo x)" "dle (DFin 0) (iv_lo y)"
    | "iv_valid y" "dle (DFin 0) (iv_lo y)" "\<not> (iv_valid x \<and> dle (DFin 0) (iv_lo x))"
    | "iv_valid x" "dle (DFin 0) (iv_lo x)" "\<not> iv_valid y"
    | "i_and x y = interval0"
    using ok unfolding i_and_def by presburger
  then show ?thesis
  proof cases
    case 1
    obtain k where k: "k \<le> 31" "bitmask (iv_hi x) = 2 ^ k - 1" "0 \<le> i" "i < 2 ^ k"
      using in_ival_int [OF i 1(1,3)] by blast
    obtain l where l: "l \<le> 31" "bitmask (iv_hi y) = 2 ^ l - 1" "0 \<le> j" "j < 2 ^ l"
      using in_ival_int [OF j 1(2,4)] by blast
    have "0 \<le> i AND j" "i AND j < 2 ^ min k l"
      using and_below [OF k(3,4), of j] and_below [OF l(3,4), of i] by (auto simp: min_def and.commute)
    then show ?thesis using 1 k l in_mask_interval [of "i AND j" "min k l"]
      by (simp add: i_and_def mask_and_or)
  next
    case 2
    obtain l where l: "l \<le> 31" "bitmask (iv_hi y) = 2 ^ l - 1" "0 \<le> j" "j < 2 ^ l"
      using in_ival_int [OF j 2(1,2)] by blast
    have "0 \<le> i AND j" "i AND j < 2 ^ l"
      using and_below [OF l(3,4), of i] by (simp_all add: and.commute)
    then show ?thesis using 2 l(1,2) in_mask_interval [of "i AND j" l] by (auto simp: i_and_def)
  next
    case 3
    obtain k where k: "k \<le> 31" "bitmask (iv_hi x) = 2 ^ k - 1" "0 \<le> i" "i < 2 ^ k"
      using in_ival_int [OF i 3(1,2)] by blast
    with and_below [OF k(3,4), of j] show ?thesis
      using 3 in_mask_interval [of "i AND j" k] by (auto simp: i_and_def)
  next
    case 4
    then show ?thesis by simp
  qed
qed

lemma i_or_sound:
  assumes i: "in_ival x (double_of_int i)" "in_int32 i" "int_bounded x"
    and j: "in_ival y (double_of_int j)" "in_int32 j" "int_bounded y"
  shows "in_ival (i_or x y) (double_of_int (i OR j))"
proof (cases "iv_valid x \<and> iv_valid y \<and> dle (DFin 0) (iv_lo x) \<and> dle (DFin 0) (iv_lo y)")
  case True
  obtain k where k: "k \<le> 31" "bitmask (iv_hi x) = 2 ^ k - 1" "0 \<le> i" "i < 2 ^ k"
    using in_ival_int [OF i] True by blast
  obtain l where l: "l \<le> 31" "bitmask (iv_hi y) = 2 ^ l - 1" "0 \<le> j" "j < 2 ^ l"
    using in_ival_int [OF j] True by blast
  have "(2::int) ^ k \<le> 2 ^ max k l" "(2::int) ^ l \<le> 2 ^ max k l" by simp_all
  then have "i < 2 ^ max k l" "j < 2 ^ max k l" using k l by linarith+
  then have "0 \<le> i OR j" "i OR j < 2 ^ max k l" using k l OR_upper by auto
  then show ?thesis using True k l in_mask_interval [of "i OR j" "max k l"]
    by (simp add: i_or_def mask_and_or)
next
  case False
  then show ?thesis unfolding i_or_def by auto
qed

lemma i_rem_sound:
  assumes i: "in_ival x (double_of_int i)" "in_int32 i"
    and j: "in_ival y (double_of_int j)" "in_int32 j"
  shows "in_ival (i_rem x y) (double_of_int (trem i j))"
proof (cases "iv_valid x \<and> iv_valid y \<and> dle (DFin 0) (iv_lo x) \<and> dlt (DFin 0) (iv_lo y)")
  case True
  have e: "double_of_int i = DFin (of_int i)" "double_of_int j = DFin (of_int j)"
    using i(2) j(2) by (auto intro: double_of_int_exact)
  have "dle (DFin 0) (DFin (of_int i))"
    using True i(1) dle_trans unfolding in_ival_def e by blast
  moreover have "dlt (DFin 0) (DFin (of_int j))"
    using True j(1) dle_trans unfolding in_ival_def e dlt_def by blast
  ultimately have ij: "0 \<le> i" "0 < j" by (simp_all add: dlt_def)
  then have "trem i j = i mod j"
    by (simp add: trem_def tdiv_def minus_mult_div_eq_mod sgn_if)
  with ij have r: "0 \<le> trem i j" "trem i j < j" by simp_all
  with j(2) have "double_of_int (trem i j) = DFin (of_int (trem i j))"
    by (intro double_of_int_exact) (simp add: int32_defs)
  moreover have "dle (DFin (of_int (trem i j))) (DFin (of_int j))" using r by simp
  then have "dle (DFin (of_int (trem i j))) (iv_hi y)" using j(1) dle_trans unfolding in_ival_def e by blast
  ultimately show ?thesis using True r by (auto simp: i_rem_def intro!: in_interval2)
next
  case False
  then show ?thesis unfolding i_rem_def by auto
qed


section \<open>Properties\<close>



text \<open>
  Property C23 (integer operations on intervals).  For 32-bit integers \<open>i\<close> and \<open>j\<close> in intervals
  whose upper bounds are representable as integers, remainder and bitwise \<open>or\<close> are enclosed by
  the interval the operators compute, and so is bitwise \<open>and\<close>, except when the first interval is
  non-negative and the second is not: there the code takes the mask of the second upper bound
  instead of the first, and the interval computed for \<open>[7,7] & [-1,0]\<close> does not contain
  \<open>7 & -1\<close>.
\<close>

theorem interval_bits_sound:
  assumes "in_ival x (double_of_int i)" "in_int32 i" "int_bounded x"
    and "in_ival y (double_of_int j)" "in_int32 j" "int_bounded y"
  shows "in_ival (i_rem x y) (double_of_int (trem i j)) \<and>
     in_ival (i_or x y) (double_of_int (i OR j)) \<and>
     (\<not> (iv_valid x \<and> iv_valid y \<and> dle (DFin 0) (iv_lo x) \<and> \<not> dle (DFin 0) (iv_lo y)) \<longrightarrow>
        in_ival (i_and x y) (double_of_int (i AND j))) \<and>
     \<not> in_ival (i_and (interval1 (DFin 7)) (interval2 (DFin (- 1)) (DFin 0))) (double_of_int (7 AND - 1))"
proof -
  have "i_and (interval1 (DFin 7)) (interval2 (DFin (- 1)) (DFin 0)) = interval2 (DFin 0) (DFin 0)"
    by (simp add: i_and_def interval1_def interval2_def dmin_def dmax_def dlt_def bitmask_def
        int_of_double_def in_int32_def int_min_def int_max_def smear_def double_of_int_def
        round64_def trunc_rat_def)
  moreover have "double_of_int (7 AND - 1) = DFin 7"
    using double_of_int_exact [of 7] by (simp add: int32_defs)
  ultimately have "\<not> in_ival (i_and (interval1 (DFin 7)) (interval2 (DFin (- 1)) (DFin 0)))
      (double_of_int (7 AND - 1))"
    by (simp add: in_ival_def interval2_def dmax_def dlt_def)
  then show ?thesis using assms i_rem_sound i_or_sound i_and_sound by blast
qed

theorem interval_bits_sound_witness:
  "in_ival (i_or (interval1 (DFin 5)) (interval1 (DFin 2))) (double_of_int (5 OR 2))"
proof -
  have e: "double_of_int 5 = DFin 5" "double_of_int 2 = DFin 2" "double_of_int int_max = DFin 2147483647"
    using double_of_int_exact [of 5] double_of_int_exact [of 2] double_of_int_exact [of int_max]
    by (simp_all add: int32_defs)
  have r: "in_int32 5" "in_int32 2" by (simp_all add: in_int32_def int_min_def int_max_def)
  have "in_ival (interval1 (DFin 5)) (double_of_int 5)" "in_int32 5" "int_bounded (interval1 (DFin 5))"
    "in_ival (interval1 (DFin 2)) (double_of_int 2)" "in_int32 2" "int_bounded (interval1 (DFin 2))"
    by (simp_all add: e r in_ival_def interval1_def int_bounded_def)
  from interval_bits_sound [OF this] show ?thesis by simp
qed

end
