(* ===== verification/SigType.thy ===== *)
theory SigType
  imports Interval "HOL-Library.Product_Lexorder"
begin

text \<open>
  The types of signals (\<^verbatim>\<open>signals/sigtype.hh\<close>, \<^verbatim>\<open>signals/sigtype.cpp\<close>).

  The record \<open>quals\<close> holds the qualities every \<^verbatim>\<open>AudioType\<close> has: nature, variability,
  computability, vectorability, booleanity (the values of the C++ enumerations, combined with a
  bitwise or) and the interval of the values.  \<open>audiotype\<close> has a constructor for each of the
  three subclasses.

  The \<^verbatim>\<open>make...Type\<close> functions share equal types in the table \<^verbatim>\<open>gMemoizedTypes\<close>; their models with
  the table (\<open>..._memo\<close>) are proved equal to the plain constructors.  The operator \<^verbatim>\<open>|\<close> is proved
  to be a join.
\<close>

unbundle bit_operations_syntax

section \<open>Types\<close>

abbreviation (input) kInt :: int where "kInt \<equiv> 0"
abbreviation (input) kReal :: int where "kReal \<equiv> 1"
abbreviation (input) kNum :: int where "kNum \<equiv> 0"
abbreviation (input) kBool :: int where "kBool \<equiv> 1"
abbreviation (input) kKonst :: int where "kKonst \<equiv> 0"
abbreviation (input) kBlock :: int where "kBlock \<equiv> 1"
abbreviation (input) kSamp :: int where "kSamp \<equiv> 3"
abbreviation (input) kComp :: int where "kComp \<equiv> 0"
abbreviation (input) kInit :: int where "kInit \<equiv> 1"
abbreviation (input) kExec :: int where "kExec \<equiv> 3"
abbreviation (input) kVect :: int where "kVect \<equiv> 0"
abbreviation (input) kScal :: int where "kScal \<equiv> 1"
abbreviation (input) kTrueScal :: int where "kTrueScal \<equiv> 3"

record quals =
  q_nature :: int
  q_variability :: int
  q_computability :: int
  q_vectorability :: int
  q_boolean :: int
  q_interval :: interval

datatype audiotype =
    SimpleType quals
  | TableType quals audiotype
  | TupletType quals "audiotype list"

fun quals_of :: "audiotype \<Rightarrow> quals" where
  "quals_of (SimpleType q) = q"
| "quals_of (TableType q _) = q"
| "quals_of (TupletType q _) = q"

definition nature :: "audiotype \<Rightarrow> int" where "nature t = q_nature (quals_of t)"

definition variability :: "audiotype \<Rightarrow> int" where "variability t = q_variability (quals_of t)"

definition computability :: "audiotype \<Rightarrow> int" where "computability t = q_computability (quals_of t)"

definition vectorability :: "audiotype \<Rightarrow> int" where "vectorability t = q_vectorability (quals_of t)"

definition boolean :: "audiotype \<Rightarrow> int" where "boolean t = q_boolean (quals_of t)"

definition getInterval :: "audiotype \<Rightarrow> interval" where "getInterval t = q_interval (quals_of t)"

lemmas attribute_defs = nature_def variability_def computability_def vectorability_def boolean_def getInterval_def

definition mkquals :: "int \<Rightarrow> int \<Rightarrow> int \<Rightarrow> int \<Rightarrow> int \<Rightarrow> interval \<Rightarrow> quals" where
  "mkquals n v c vec b i = \<lparr>q_nature = n, q_variability = v, q_computability = c,
     q_vectorability = vec, q_boolean = b, q_interval = i\<rparr>"

subsection \<open>Merging the qualities of a vector of types\<close>

definition mergenature :: "audiotype list \<Rightarrow> int" where
  "mergenature v = fold (\<lambda>t r. r OR nature t) v 0"

definition mergevariability :: "audiotype list \<Rightarrow> int" where
  "mergevariability v = fold (\<lambda>t r. r OR variability t) v 0"

definition mergecomputability :: "audiotype list \<Rightarrow> int" where
  "mergecomputability v = fold (\<lambda>t r. r OR computability t) v 0"

definition mergevectorability :: "audiotype list \<Rightarrow> int" where
  "mergevectorability v = fold (\<lambda>t r. r OR vectorability t) v 0"

definition mergeboolean :: "audiotype list \<Rightarrow> int" where
  "mergeboolean v = fold (\<lambda>t r. r OR boolean t) v 0"

fun merge_from :: "double \<Rightarrow> double \<Rightarrow> audiotype list \<Rightarrow> interval" where
  "merge_from lo hi [] = interval2 lo hi"
| "merge_from lo hi (t # ts) = (let r = getInterval t in
     if \<not> iv_valid r then r else merge_from (dmin lo (iv_lo r)) (dmax hi (iv_hi r)) ts)"

definition mergeinterval :: "audiotype list \<Rightarrow> interval" where
  "mergeinterval v = (case v of [] \<Rightarrow> interval0
     | t # ts \<Rightarrow> (let r = getInterval t in
         if \<not> iv_valid r then r else merge_from (iv_lo r) (iv_hi r) ts))"

subsection \<open>Construction\<close>

definition makeSimpleType :: "int \<Rightarrow> int \<Rightarrow> int \<Rightarrow> int \<Rightarrow> int \<Rightarrow> interval \<Rightarrow> audiotype" where
  "makeSimpleType n v c vec b i = SimpleType (mkquals n v c vec b i)"

definition makeTableType :: "audiotype \<Rightarrow> audiotype" where
  "makeTableType t = TableType
     (mkquals (nature t) (variability t) (computability t) (vectorability t) (boolean t) interval0) t"

definition promotedTableType :: "audiotype \<Rightarrow> int \<Rightarrow> int \<Rightarrow> int \<Rightarrow> int \<Rightarrow> int \<Rightarrow> interval \<Rightarrow> audiotype" where
  "promotedTableType t n v c vec b i = TableType
     (mkquals (nature t OR n) (variability t OR v) (computability t OR c) (vectorability t OR vec)
       (boolean t OR b) i) t"

definition emptyTupletType :: audiotype where
  "emptyTupletType = TupletType (mkquals 0 0 0 kVect kNum interval0) []"

definition newTupletType :: "audiotype list \<Rightarrow> audiotype" where
  "newTupletType vt = TupletType (mkquals (mergenature vt) (mergevariability vt) (mergecomputability vt)
     (mergevectorability vt) (mergeboolean vt) (mergeinterval vt)) vt"

definition promotedTupletType :: "audiotype list \<Rightarrow> int \<Rightarrow> int \<Rightarrow> int \<Rightarrow> int \<Rightarrow> int \<Rightarrow> interval \<Rightarrow> audiotype" where
  "promotedTupletType vt n v c vec b i = TupletType (mkquals (n OR mergenature vt) (v OR mergevariability vt)
     (c OR mergecomputability vt) (vec OR mergevectorability vt) (b OR mergeboolean vt) i) vt"

subsection \<open>Promotion\<close>

text \<open>
  Promoting a table type calls \<^verbatim>\<open>makeTableType\<close> with the promoted qualities; that function builds
  the type from the content alone (see \<open>makeTableType_promoted_memo\<close> below), so the table types
  come back unchanged.
\<close>

definition promote :: "(quals \<Rightarrow> quals) \<Rightarrow> audiotype \<Rightarrow> audiotype" where
  "promote f t = (case t of
      SimpleType q \<Rightarrow> SimpleType (f q)
    | TableType _ ct \<Rightarrow> makeTableType ct
    | TupletType q vt \<Rightarrow> (let r = f q in promotedTupletType vt (q_nature r) (q_variability r)
        (q_computability r) (q_vectorability r) (q_boolean r) (q_interval r)))"

definition promoteNature :: "int \<Rightarrow> audiotype \<Rightarrow> audiotype" where
  "promoteNature n = promote (\<lambda>q. q\<lparr>q_nature := n OR q_nature q\<rparr>)"

definition promoteVariability :: "int \<Rightarrow> audiotype \<Rightarrow> audiotype" where
  "promoteVariability v = promote (\<lambda>q. q\<lparr>q_variability := v OR q_variability q\<rparr>)"

definition promoteComputability :: "int \<Rightarrow> audiotype \<Rightarrow> audiotype" where
  "promoteComputability c = promote (\<lambda>q. q\<lparr>q_computability := c OR q_computability q\<rparr>)"

definition promoteVectorability :: "int \<Rightarrow> audiotype \<Rightarrow> audiotype" where
  "promoteVectorability vec = promote (\<lambda>q. q\<lparr>q_vectorability := vec OR q_vectorability q\<rparr>)"

definition promoteBoolean :: "int \<Rightarrow> audiotype \<Rightarrow> audiotype" where
  "promoteBoolean b = promote (\<lambda>q. q\<lparr>q_boolean := b OR q_boolean q\<rparr>)"

subsection \<open>Casts\<close>

definition intCast :: "audiotype \<Rightarrow> audiotype" where
  "intCast t = makeSimpleType kInt (variability t) (computability t) (vectorability t) (boolean t) (getInterval t)"

definition floatCast :: "audiotype \<Rightarrow> audiotype" where
  "floatCast t = makeSimpleType kReal (variability t) (computability t) (vectorability t) (boolean t) (getInterval t)"

definition sampCast :: "audiotype \<Rightarrow> audiotype" where
  "sampCast t = makeSimpleType (nature t) kSamp (computability t) (vectorability t) (boolean t) (getInterval t)"

definition boolCast :: "audiotype \<Rightarrow> audiotype" where
  "boolCast t = makeSimpleType kInt (variability t) (computability t) (vectorability t) kBool (getInterval t)"

definition numCast :: "audiotype \<Rightarrow> audiotype" where
  "numCast t = makeSimpleType (nature t) (variability t) (computability t) (vectorability t) kNum (getInterval t)"

definition vecCast :: "audiotype \<Rightarrow> audiotype" where
  "vecCast t = makeSimpleType (nature t) (variability t) (computability t) kVect (boolean t) (getInterval t)"

definition scalCast :: "audiotype \<Rightarrow> audiotype" where
  "scalCast t = makeSimpleType (nature t) (variability t) (computability t) kScal (boolean t) (getInterval t)"

definition truescalCast :: "audiotype \<Rightarrow> audiotype" where
  "truescalCast t = makeSimpleType (nature t) (variability t) (computability t) kTrueScal (boolean t) (getInterval t)"

definition castInterval :: "audiotype \<Rightarrow> interval \<Rightarrow> audiotype" where
  "castInterval t i = makeSimpleType (nature t) (variability t) (computability t) (vectorability t) (boolean t) i"

subsection \<open>Combination, comparison, product\<close>

fun isMaximal :: "audiotype \<Rightarrow> bool" where
  "isMaximal (SimpleType q) = (q_nature q = kReal \<and> q_variability q = kSamp \<and> q_computability q = kExec)"
| "isMaximal (TableType q _) = (q_nature q = kReal \<and> q_variability q = kSamp \<and> q_computability q = kExec)"
| "isMaximal (TupletType _ vt) = (\<forall>t \<in> set vt. isMaximal t)"

fun type_or :: "audiotype \<Rightarrow> audiotype \<Rightarrow> audiotype result"
and types_or :: "audiotype list \<Rightarrow> audiotype list \<Rightarrow> audiotype list result" where
  "type_or (SimpleType q) (SimpleType r) = Inr (makeSimpleType (q_nature q OR q_nature r)
     (q_variability q OR q_variability r) (q_computability q OR q_computability r)
     (q_vectorability q OR q_vectorability r) (q_boolean q OR q_boolean r)
     (reunion (q_interval q) (q_interval r)))"
| "type_or (TableType _ a) (TableType _ b) = rbind (type_or a b) (\<lambda>c. Inr (makeTableType c))"
| "type_or (TupletType _ as) (TupletType _ bs) = rbind (types_or as bs) (\<lambda>v. Inr (newTupletType v))"
| "type_or _ _ = Inl (FaustException ''trying to combine incompatible types'')"
| "types_or (a # as) (b # bs) = rbind (type_or a b) (\<lambda>c. rbind (types_or as bs) (\<lambda>cs. Inr (c # cs)))"
| "types_or _ _ = Inr []"

definition quals_eq :: "quals \<Rightarrow> quals \<Rightarrow> bool" where
  "quals_eq q r \<longleftrightarrow> q_nature q = q_nature r \<and> q_variability q = q_variability r \<and>
     q_computability q = q_computability r \<and> q_vectorability q = q_vectorability r \<and>
     q_boolean q = q_boolean r \<and> deq (iv_lo (q_interval q)) (iv_lo (q_interval r)) \<and>
     deq (iv_hi (q_interval q)) (iv_hi (q_interval r)) \<and>
     iv_valid (q_interval q) = iv_valid (q_interval r)"

fun type_eq :: "audiotype \<Rightarrow> audiotype \<Rightarrow> bool"
and types_eq :: "audiotype list \<Rightarrow> audiotype list \<Rightarrow> bool" where
  "type_eq t1 t2 = (variability t1 = variability t2 \<and> computability t1 = computability t2 \<and>
     (case (t1, t2) of
        (SimpleType q, SimpleType r) \<Rightarrow> quals_eq q r
      | (TableType _ a, TableType _ b) \<Rightarrow> type_eq a b
      | (TupletType _ as, TupletType _ bs) \<Rightarrow> types_eq as bs
      | _ \<Rightarrow> False))"
| "types_eq [] [] = True"
| "types_eq (a # as) (b # bs) = (type_eq a b \<and> types_eq as bs)"
| "types_eq _ _ = False"

declare type_eq.simps [simp del]

definition type_le :: "audiotype \<Rightarrow> audiotype \<Rightarrow> bool result" where
  "type_le t1 t2 = rbind (type_or t1 t2) (\<lambda>t. Inr (type_eq t t2))"

fun components :: "audiotype \<Rightarrow> audiotype list" where
  "components (TupletType _ vt) = vt"
| "components t = [t]"

definition type_times :: "audiotype \<Rightarrow> audiotype \<Rightarrow> audiotype" where
  "type_times t1 t2 = newTupletType (components t1 @ components t2)"

subsection \<open>Checks\<close>

definition checkInt :: "audiotype \<Rightarrow> audiotype result" where
  "checkInt t = (case t of
      SimpleType q \<Rightarrow> if q_nature q > kInt then Inl (FaustException ''checkInt failed'') else Inr t
    | _ \<Rightarrow> Inl (FaustException ''checkInt failed''))"

definition checkKonst :: "audiotype \<Rightarrow> audiotype result" where
  "checkKonst t = (if variability t > kKonst then Inl (FaustException ''checkKonst failed'') else Inr t)"

definition checkInit :: "audiotype \<Rightarrow> audiotype result" where
  "checkInit t = (if computability t > kInit then Inl (FaustException ''checkInit failed'') else Inr t)"

definition checkIntParam :: "audiotype \<Rightarrow> audiotype result" where
  "checkIntParam t = rbind (checkInt t) (\<lambda>t. rbind (checkKonst t) checkInit)"

definition checkWRTbl :: "audiotype \<Rightarrow> audiotype \<Rightarrow> audiotype result" where
  "checkWRTbl tbl wr = (if nature wr > nature tbl then Inl (FaustException ''checkWRTbl failed'') else Inr tbl)"

definition checkDelayInterval :: "audiotype \<Rightarrow> int" where
  "checkDelayInterval t = (let i = getInterval t in
     if iv_valid i \<and> dle (DFin 0) (iv_lo i) then int_of_double (dadd (iv_hi i) (DFin (1 / 2))) else - 1)"

datatype vartype = VInt | VFloat

definition ctType :: "audiotype \<Rightarrow> vartype" where
  "ctType t = (if nature t = kInt then VInt else VFloat)"

section \<open>Sharing of types\<close>

fun codeAudioType :: "audiotype \<Rightarrow> tree" where
  "codeAudioType (SimpleType st) = Tree (NSym (KTree SIMPLETYPE))
     [leaf (NInt (q_nature st)), leaf (NInt (q_variability st)), leaf (NInt (q_computability st)),
      leaf (NInt (q_vectorability st)), leaf (NInt (q_boolean st)),
      leaf (NInt (of_bool (iv_valid (q_interval st)))),
      leaf (NDouble (iv_lo (q_interval st))), leaf (NDouble (iv_hi (q_interval st)))]"
| "codeAudioType (TableType _ ct) = Tree (NSym (KTree TABLETYPE)) [codeAudioType ct]"
| "codeAudioType (TupletType _ vt) = Tree (NSym (KTree TUPLETTYPE)) (map codeAudioType vt)"

type_synonym typetable = "tree \<rightharpoonup> audiotype"

definition share :: "audiotype \<Rightarrow> audiotype \<Rightarrow> typetable \<Rightarrow> audiotype \<times> typetable" where
  "share prototype new m = (let code = codeAudioType prototype in
     case m code of Some t \<Rightarrow> (t, m) | None \<Rightarrow> (new, m(code \<mapsto> new)))"

definition makeSimpleType_memo ::
  "int \<Rightarrow> int \<Rightarrow> int \<Rightarrow> int \<Rightarrow> int \<Rightarrow> interval \<Rightarrow> typetable \<Rightarrow> audiotype \<times> typetable" where
  "makeSimpleType_memo n v c vec b i =
     share (SimpleType (mkquals n v c vec b i)) (SimpleType (mkquals n v c vec b i))"

definition makeTableType_memo :: "audiotype \<Rightarrow> typetable \<Rightarrow> audiotype \<times> typetable" where
  "makeTableType_memo ct = share (makeTableType ct) (makeTableType ct)"

definition makeTableType_promoted_memo ::
  "audiotype \<Rightarrow> int \<Rightarrow> int \<Rightarrow> int \<Rightarrow> int \<Rightarrow> int \<Rightarrow> interval \<Rightarrow> typetable \<Rightarrow> audiotype \<times> typetable" where
  "makeTableType_promoted_memo ct n v c vec b i =
     share (promotedTableType ct n v c vec b i) (makeTableType ct)"

definition makeTableType_promoted4_memo ::
  "audiotype \<Rightarrow> int \<Rightarrow> int \<Rightarrow> int \<Rightarrow> int \<Rightarrow> typetable \<Rightarrow> audiotype \<times> typetable" where
  "makeTableType_promoted4_memo ct n v c vec =
     share (promotedTableType ct n v c vec kNum interval0) (makeTableType ct)"

definition makeTupletType_memo :: "audiotype list \<Rightarrow> typetable \<Rightarrow> audiotype \<times> typetable" where
  "makeTupletType_memo vt = share (newTupletType vt) (newTupletType vt)"

definition makeTupletType_promoted_memo ::
  "audiotype list \<Rightarrow> int \<Rightarrow> int \<Rightarrow> int \<Rightarrow> int \<Rightarrow> int \<Rightarrow> interval \<Rightarrow> typetable \<Rightarrow> audiotype \<times> typetable" where
  "makeTupletType_promoted_memo vt n v c vec b i =
     share (promotedTupletType vt n v c vec b i) (promotedTupletType vt n v c vec b i)"

section \<open>Predefined types\<close>

definition TINPUT :: audiotype where
  "TINPUT = makeSimpleType kReal kSamp kExec kVect kNum interval0"

definition TGUI :: audiotype where
  "TGUI = makeSimpleType kReal kBlock kExec kVect kNum interval0"

definition TGUI01 :: audiotype where
  "TGUI01 = makeSimpleType kReal kBlock kExec kVect kNum (interval2 (DFin 0) (DFin 1))"

definition INT_TGUI :: audiotype where
  "INT_TGUI = makeSimpleType kInt kBlock kExec kVect kNum interval0"

definition TREC :: audiotype where
  "TREC = makeSimpleType kInt kSamp kInit kScal kNum interval0"


section \<open>Joins that may fail\<close>

text \<open>
  The contract of the operator \<^verbatim>\<open>|\<close>: a join that may fail, up to the equality the code compares
  types with.  The order \<^verbatim>\<open><=\<close> of the code is derived from it.
\<close>

locale partial_join =
  fixes wf :: "'a \<Rightarrow> bool" and join :: "'a \<Rightarrow> 'a \<Rightarrow> 'a result" and eqv :: "'a \<Rightarrow> 'a \<Rightarrow> bool"
  assumes eqv_refl: "wf a \<Longrightarrow> eqv a a"
    and eqv_sym: "wf a \<Longrightarrow> wf b \<Longrightarrow> eqv a b \<Longrightarrow> eqv b a"
    and eqv_trans: "wf a \<Longrightarrow> wf b \<Longrightarrow> wf c \<Longrightarrow> eqv a b \<Longrightarrow> eqv b c \<Longrightarrow> eqv a c"
    and join_wf: "wf a \<Longrightarrow> wf b \<Longrightarrow> join a b = Inr c \<Longrightarrow> wf c"
    and join_cong: "wf a \<Longrightarrow> wf b \<Longrightarrow> wf c \<Longrightarrow> eqv a b \<Longrightarrow> join b c = Inr x \<Longrightarrow> \<exists>y. join a c = Inr y \<and> eqv y x"
    and join_commute: "wf a \<Longrightarrow> wf b \<Longrightarrow> join a b = Inr x \<Longrightarrow> \<exists>y. join b a = Inr y \<and> eqv x y"
    and join_idem: "wf a \<Longrightarrow> \<exists>y. join a a = Inr y \<and> eqv y a"
    and join_assoc: "wf a \<Longrightarrow> wf b \<Longrightarrow> wf c \<Longrightarrow> join a b = Inr x \<Longrightarrow> join x c = Inr l \<Longrightarrow>
      join b c = Inr y \<Longrightarrow> \<exists>r. join a y = Inr r \<and> eqv l r"
    and join_defined: "wf a \<Longrightarrow> wf b \<Longrightarrow> wf c \<Longrightarrow> join a b = Inr x \<Longrightarrow> eqv x b \<Longrightarrow>
      join b c = Inr y \<Longrightarrow> eqv y c \<Longrightarrow> \<exists>r. join a c = Inr r"
begin

definition below :: "'a \<Rightarrow> 'a \<Rightarrow> bool" where
  "below a b \<longleftrightarrow> (\<exists>c. join a b = Inr c \<and> eqv c b)"

lemma below_refl: "wf a \<Longrightarrow> below a a"
  using join_idem unfolding below_def by blast

lemma below_antisym:
  assumes "wf a" "wf b" "below a b" "below b a"
  shows "eqv a b"
proof -
  obtain c d where c: "join a b = Inr c" "eqv c b" and d: "join b a = Inr d" "eqv d a"
    using assms unfolding below_def by blast
  have w: "wf c" "wf d" using join_wf assms(1,2) c d by blast+
  have "eqv c d" using join_commute [OF assms(1,2) c(1)] d by auto
  then have "eqv b d" using eqv_trans eqv_sym assms w c by blast
  then show ?thesis using eqv_trans eqv_sym assms w d by blast
qed

lemma upper1:
  assumes "wf a" "wf b" "join a b = Inr c"
  shows "below a c"
proof -
  obtain i where i: "join a a = Inr i" "eqv i a" using join_idem assms by blast
  have wi: "wf i" "wf c" using join_wf assms i by blast+
  obtain y where y: "join i b = Inr y" "eqv y c" using join_cong [OF wi(1) assms(1,2) i(2) assms(3)] by blast
  obtain r where r: "join a c = Inr r" "eqv y r"
    using join_assoc [OF assms(1,1,2) i(1) y(1) assms(3)] by blast
  have "wf y" "wf r" using join_wf assms wi y r by blast+
  then show ?thesis unfolding below_def using r y eqv_sym eqv_trans wi by blast
qed

lemma eqv_below: "wf a \<Longrightarrow> wf b \<Longrightarrow> eqv a b \<Longrightarrow> below a b"
  unfolding below_def using join_cong [of a b b] join_idem [of b] eqv_trans join_wf by blast

lemma upper2:
  assumes "wf a" "wf b" "join a b = Inr c"
  shows "\<exists>d. join b a = Inr d \<and> eqv c d \<and> below b d"
  using join_commute [OF assms] upper1 assms by blast

lemma below_trans:
  assumes "wf a" "wf b" "wf c" "below a b" "below b c"
  shows "below a c"
proof -
  obtain x y where x: "join a b = Inr x" "eqv x b" and y: "join b c = Inr y" "eqv y c"
    using assms unfolding below_def by blast
  have w: "wf x" "wf y" using join_wf assms x y by blast+
  obtain l where l: "join x c = Inr l" "eqv l y" using join_cong [OF w(1) assms(2,3) x(2) y(1)] by blast
  obtain r where r: "join a c = Inr r" using join_defined [OF assms(1-3) x y] by blast
  obtain s where s: "join a y = Inr s" "eqv l s" using join_assoc [OF assms(1-3) x(1) l(1) y(1)] by blast
  obtain u where u: "join c a = Inr u" "eqv r u" using join_commute [OF assms(1,3) r] by blast
  obtain v where v: "join y a = Inr v" "eqv v u" using join_cong [OF w(2) assms(3,1) y(2) u(1)] by blast
  have v': "eqv v s"
    using join_commute [OF w(2) assms(1) v(1)] s(1) by auto
  have ww: "wf l" "wf r" "wf s" "wf u" "wf v" using join_wf assms w l r s u v by blast+
  have "eqv u s" by (rule eqv_trans [OF ww(4,5,3) eqv_sym [OF ww(5,4) v(2)] v'])
  then have "eqv r s" by (rule eqv_trans [OF ww(2,4,3) u(2)])
  then have "eqv r l" by (rule eqv_trans [OF ww(2,3,1) _ eqv_sym [OF ww(1,3) s(2)]])
  then have "eqv r y" by (rule eqv_trans [OF ww(2,1) w(2) _ l(2)])
  then have "eqv r c" by (rule eqv_trans [OF ww(2) w(2) assms(3) _ y(2)])
  then show ?thesis unfolding below_def using r by blast
qed

lemma least:
  assumes "wf a" "wf b" "wf c" "below a c" "below b c" "join a b = Inr d"
  shows "below d c"
proof -
  define eq where "eq x y \<longleftrightarrow> wf x \<and> wf y \<and> eqv x y" for x y
  have sym: "eq y x" if "eq x y" for x y using that eqv_sym unfolding eq_def by blast
  have trans: "eq x z" if "eq x y" "eq y z" for x y z using that eqv_trans unfolding eq_def by blast
  obtain z0 y0 where z0: "join a c = Inr z0" "eqv z0 c" and y0: "join b c = Inr y0" "eqv y0 c"
    using assms unfolding below_def by blast
  obtain x where x: "join c b = Inr x" "eqv y0 x" using join_commute [OF assms(2,3) y0(1)] by blast
  obtain w where w: "join c a = Inr w" "eqv z0 w" using join_commute [OF assms(1,3) z0(1)] by blast
  have e1: "eq z0 c" "eq y0 c" "eq y0 x" "eq z0 w"
    using join_wf assms x w z0 y0 unfolding eq_def by blast+
  have xc: "eq x c" using e1 sym trans by blast
  then obtain l where l: "join x a = Inr l" "eqv l w"
    using join_cong [of x c a w] assms w unfolding eq_def by blast
  obtain y where y: "join b a = Inr y" "eqv d y" using join_commute [OF assms(1,2,6)] by blast
  obtain r where r: "join c y = Inr r" "eqv l r" using join_assoc [OF assms(3,2,1) x(1) l(1) y(1)] by blast
  have wy: "wf x" "wf w" "wf y" "wf d" "wf l" "wf r" using xc e1 join_wf assms y l r x unfolding eq_def by blast+
  obtain r' where r': "join y c = Inr r'" "eqv r r'" using join_commute [OF assms(3) wy(3) r(1)] by blast
  obtain e where e: "join d c = Inr e" "eqv e r'" using join_cong [OF wy(4,3) assms(3) y(2) r'(1)] by blast
  have "wf r'" "wf e" using join_wf assms wy r' e by blast+
  then have "eq l w" "eq l r" "eq r r'" "eq e r'" using wy l r r' e unfolding eq_def by blast+
  moreover have "eq w c" using e1 sym trans by blast
  ultimately have "eq e c" using sym trans by meson
  then show ?thesis unfolding below_def eq_def using e by blast
qed

end

section \<open>Abstract types\<close>

text \<open>
  The shape of a type: the qualities of its simple components, with bounds compared as the code
  compares them (so that the two zeros are one).  The qualities of tables and tuplets follow from
  their components in well-formed types.
\<close>

type_synonym key = "int \<times> rat"

definition dkey :: "double \<Rightarrow> key" where
  "dkey x = (case x of DInf s \<Rightarrow> (if s then - 1 else 1, 0) | DFin q \<Rightarrow> (0, q) | _ \<Rightarrow> (0, 0))"

definition ikey :: "interval \<Rightarrow> (key \<times> key) option" where
  "ikey i = (if iv_valid i then Some (dkey (iv_lo i), dkey (iv_hi i)) else None)"

datatype shape = AS int int int int int "(key \<times> key) option" | ATable shape | ATuplet "shape list"

fun shape_of :: "audiotype \<Rightarrow> shape" where
  "shape_of (SimpleType q) = AS (q_nature q) (q_variability q) (q_computability q) (q_vectorability q)
     (q_boolean q) (ikey (q_interval q))"
| "shape_of (TableType _ t) = ATable (shape_of t)"
| "shape_of (TupletType _ v) = ATuplet (map shape_of v)"

definition kjoin :: "(key \<times> key) option \<Rightarrow> (key \<times> key) option \<Rightarrow> (key \<times> key) option" where
  "kjoin i j = (case (i, j) of (Some (a, b), Some (c, d)) \<Rightarrow> Some (min a c, max b d) | _ \<Rightarrow> None)"

fun sjoin :: "shape \<Rightarrow> shape \<Rightarrow> shape option"
and sjoins :: "shape list \<Rightarrow> shape list \<Rightarrow> shape list option" where
  "sjoin (AS n v c w b i) (AS n' v' c' w' b' i') =
     Some (AS (n OR n') (v OR v') (c OR c') (w OR w') (b OR b') (kjoin i i'))"
| "sjoin (ATable a) (ATable b) = map_option ATable (sjoin a b)"
| "sjoin (ATuplet as) (ATuplet bs) = map_option ATuplet (sjoins as bs)"
| "sjoin _ _ = None"
| "sjoins (a # as) (b # bs) = (case sjoin a b of None \<Rightarrow> None | Some c \<Rightarrow> map_option (Cons c) (sjoins as bs))"
| "sjoins _ _ = Some []"

fun type_wf :: "audiotype \<Rightarrow> bool" where
  "type_wf (SimpleType q) = ival_wf (q_interval q)"
| "type_wf (TableType q t) = (type_wf t \<and> q = quals_of (makeTableType t))"
| "type_wf (TupletType q v) = ((\<forall>t \<in> set v. type_wf t) \<and> q = quals_of (newTupletType v))"

subsection \<open>Laws of the abstract join\<close>

lemma kjoin_laws:
  "kjoin i j = kjoin j i" "kjoin i i = i" "kjoin (kjoin i j) k = kjoin i (kjoin j k)"
  by (auto simp: kjoin_def min.commute max.commute split: option.splits prod.splits)
    (metis min.left_commute min.commute, metis max.left_commute max.commute)

lemma sjoin_commute: "sjoin a b = sjoin b a" and "sjoins as bs = sjoins bs as"
  by (induction a b and as bs rule: sjoin_sjoins.induct)
    (auto simp: or.commute kjoin_laws(1) split: option.splits)

lemma sjoin_idem: "sjoin a a = Some a"
proof (induction a)
  case (ATuplet as)
  then have "sjoins as as = Some as" by (induction as) auto
  then show ?case by simp
qed (simp_all add: kjoin_laws)

lemma map_option_ATable [simp]:
  "map_option ATable m = Some x \<longleftrightarrow> (\<exists>a. m = Some a \<and> x = ATable a)"
  "map_option ATuplet n = Some x \<longleftrightarrow> (\<exists>a. n = Some a \<and> x = ATuplet a)"
  "map_option (Cons c) n = Some xs \<longleftrightarrow> (\<exists>a. n = Some a \<and> xs = c # a)"
  by auto

lemma sjoin_assoc:
  "sjoin a b = Some x \<Longrightarrow> sjoin x c = Some l \<Longrightarrow> sjoin b c = Some y \<Longrightarrow> sjoin a y = Some l"
  "sjoins as bs = Some xs \<Longrightarrow> sjoins xs cs = Some ls \<Longrightarrow> sjoins bs cs = Some ys \<Longrightarrow> sjoins as ys = Some ls"
proof (induction a b and as bs arbitrary: c x l y and cs xs ls ys rule: sjoin_sjoins.induct)
  case (1 n v c w b i n' v' c' w' b' i')
  then show ?case by (cases c) (auto simp: or.assoc kjoin_laws(3))
next
  case (2 a b)
  from "2.prems" obtain x' c' l' y' where e: "x = ATable x'" "c = ATable c'" "l = ATable l'" "y = ATable y'"
    and j: "sjoin a b = Some x'" "sjoin x' c' = Some l'" "sjoin b c' = Some y'"
    by (cases c) auto
  from "2.IH" [OF j] show ?case by (simp add: e)
next
  case (3 as bs)
  from "3.prems" obtain x' c' l' y' where e: "x = ATuplet x'" "c = ATuplet c'" "l = ATuplet l'" "y = ATuplet y'"
    and j: "sjoins as bs = Some x'" "sjoins x' c' = Some l'" "sjoins bs c' = Some y'"
    by (cases c) auto
  from "3.IH" [OF j] show ?case by (simp add: e)
next
  case (5 a as b bs)
  show ?case
  proof (cases cs)
    case Nil
    then show ?thesis using "5.prems" by (auto split: option.splits)
  next
    case (Cons c cs')
    from "5.prems" Cons obtain x xs' l ls' y ys' where e: "xs = x # xs'" "ls = l # ls'" "ys = y # ys'"
      and j: "sjoin a b = Some x" "sjoin x c = Some l" "sjoin b c = Some y"
      and k: "sjoins as bs = Some xs'" "sjoins xs' cs' = Some ls'" "sjoins bs cs' = Some ys'"
      by (auto split: option.splits)
    from "5.IH"(1) [OF j] "5.IH"(2) [OF j(1) k] e show ?thesis by simp
  qed
qed auto

lemma sjoin_below_trans:
  "sjoin a b = Some b \<Longrightarrow> sjoin b c = Some c \<Longrightarrow> sjoin a c = Some c"
  "sjoins as bs = Some bs \<Longrightarrow> sjoins bs cs = Some cs \<Longrightarrow> sjoins as cs = Some cs"
proof (induction a b and as bs arbitrary: c and cs rule: sjoin_sjoins.induct)
  case (1 n v c w b i n' v' c' w' b' i')
  then show ?case using sjoin_assoc(1) by (cases c) fastforce+
next
  case (2 a b)
  then show ?case by (cases c) auto
next
  case (3 as bs)
  then show ?case by (cases c) auto
next
  case (5 a as b bs)
  then show ?case by (cases cs) (auto split: option.splits)
qed (auto elim: sjoins.elims)


subsection \<open>The code implements the abstract join\<close>

lemma dkey_le: "x \<noteq> DNaN \<Longrightarrow> y \<noteq> DNaN \<Longrightarrow> dle x y \<longleftrightarrow> dkey x \<le> dkey y"
  by (cases x; cases y) (auto simp: dle_def dkey_def less_eq_prod_def)

lemma dkey_eq: "x \<noteq> DNaN \<Longrightarrow> y \<noteq> DNaN \<Longrightarrow> deq x y \<longleftrightarrow> dkey x = dkey y"
  by (auto simp: deq_def dkey_le)

lemma dkey_min: "x \<noteq> DNaN \<Longrightarrow> y \<noteq> DNaN \<Longrightarrow> dkey (dmin x y) = min (dkey x) (dkey y)"
  by (auto simp: dmin_def dlt_def dkey_le min_def)

lemma dkey_max: "x \<noteq> DNaN \<Longrightarrow> y \<noteq> DNaN \<Longrightarrow> dkey (dmax x y) = max (dkey x) (dkey y)"
  by (auto simp: dmax_def dlt_def dkey_le max_def)

lemma ival_wf_not_NaN: "ival_wf i \<Longrightarrow> iv_lo i \<noteq> DNaN \<and> iv_hi i \<noteq> DNaN"
  unfolding ival_wf_def using dle_not_NaN by blast

lemma dmin_not_NaN: "x \<noteq> DNaN \<Longrightarrow> y \<noteq> DNaN \<Longrightarrow> dmin x y \<noteq> DNaN \<and> dmax x y \<noteq> DNaN"
  by (simp add: dmin_def dmax_def)

lemma reunion_wf:
  assumes "ival_wf i" "ival_wf j"
  shows "ival_wf (reunion i j)"
  using ival_wf_not_NaN [OF assms(1)] ival_wf_not_NaN [OF assms(2)]
  by (auto simp: reunion_def dmin_not_NaN intro!: interval2_wf)

lemma reunion_key:
  assumes "ival_wf i" "ival_wf j"
  shows "ikey (reunion i j) = kjoin (ikey i) (ikey j)"
proof (cases "iv_valid i \<and> iv_valid j")
  case True
  note n = ival_wf_not_NaN [OF assms(1)] ival_wf_not_NaN [OF assms(2)]
  have le: "dkey (iv_lo i) \<le> dkey (iv_hi i)" "dkey (iv_lo j) \<le> dkey (iv_hi j)"
    using assms n by (simp_all add: ival_wf_def dkey_le)
  then have "min (dkey (iv_lo i)) (dkey (iv_lo j)) \<le> max (dkey (iv_hi i)) (dkey (iv_hi j))"
    by (meson le_max_iff_disj min_le_iff_disj)
  then show ?thesis using True n dmin_not_NaN
    by (auto simp: reunion_def ikey_def kjoin_def interval2_def dkey_min dkey_max min_def max_def)
qed (auto simp: reunion_def ikey_def kjoin_def interval0_def)

lemma quals_eq_shape:
  assumes "ival_wf (q_interval q)" "ival_wf (q_interval r)"
  shows "quals_eq q r \<longleftrightarrow> shape_of (SimpleType q) = shape_of (SimpleType r)"
proof -
  have "iv_valid (q_interval q) \<or> q_interval q = interval0" "iv_valid (q_interval r) \<or> q_interval r = interval0"
    using assms by (auto simp: ival_wf_def)
  then show ?thesis
    using ival_wf_not_NaN [OF assms(1)] ival_wf_not_NaN [OF assms(2)]
    by (auto simp: quals_eq_def dkey_eq ikey_def split: if_splits)
qed

fun svar :: "shape \<Rightarrow> int" where
  "svar (AS n v c w b i) = v"
| "svar (ATable s) = svar s"
| "svar (ATuplet l) = fold (\<lambda>s r. r OR svar s) l 0"

fun scomp :: "shape \<Rightarrow> int" where
  "scomp (AS n v c w b i) = c"
| "scomp (ATable s) = scomp s"
| "scomp (ATuplet l) = fold (\<lambda>s r. r OR scomp s) l 0"

lemma fold_or_cong: "(\<And>t. t \<in> set v \<Longrightarrow> f t = g t) \<Longrightarrow> fold (\<lambda>t r. r OR f t) v a = fold (\<lambda>t r. r OR g t) v (a::int)"
  by (induction v arbitrary: a) auto

lemma variability_shape: "type_wf t \<Longrightarrow> variability t = svar (shape_of t)"
proof (induction t)
  case (TupletType q v)
  then have "variability (TupletType q v) = mergevariability v"
    by (simp add: newTupletType_def variability_def mkquals_def)
  with TupletType show ?case by (simp add: mergevariability_def fold_map comp_def cong: fold_cong)
qed (simp_all add: variability_def makeTableType_def mkquals_def)

lemma computability_shape: "type_wf t \<Longrightarrow> computability t = scomp (shape_of t)"
proof (induction t)
  case (TupletType q v)
  then have "computability (TupletType q v) = mergecomputability v"
    by (simp add: newTupletType_def computability_def mkquals_def)
  with TupletType show ?case by (simp add: mergecomputability_def fold_map comp_def cong: fold_cong)
qed (simp_all add: computability_def makeTableType_def mkquals_def)

lemma type_eq_shape:
  "type_wf a \<Longrightarrow> type_wf b \<Longrightarrow> type_eq a b \<longleftrightarrow> shape_of a = shape_of b"
  "(\<forall>t \<in> set as. type_wf t) \<Longrightarrow> (\<forall>t \<in> set bs. type_wf t) \<Longrightarrow> types_eq as bs \<longleftrightarrow> map shape_of as = map shape_of bs"
proof (induction a b and as bs rule: type_eq_types_eq.induct)
  case (1 t1 t2)
  have "variability t1 = variability t2 \<and> computability t1 = computability t2" if "shape_of t1 = shape_of t2"
    using 1 that by (simp add: variability_shape computability_shape)
  with 1 show ?case
    by (cases t1; cases t2) (auto simp: type_eq.simps quals_eq_shape)
qed auto

lemma newTupletType_wf: "(\<forall>t \<in> set v. type_wf t) \<Longrightarrow> type_wf (newTupletType v)"
  by (simp add: newTupletType_def)

lemma type_or_shape:
  "type_wf a \<Longrightarrow> type_wf b \<Longrightarrow> (case type_or a b of Inl e \<Rightarrow> sjoin (shape_of a) (shape_of b) = None
     | Inr c \<Rightarrow> sjoin (shape_of a) (shape_of b) = Some (shape_of c) \<and> type_wf c)"
  "(\<forall>t \<in> set as. type_wf t) \<Longrightarrow> (\<forall>t \<in> set bs. type_wf t) \<Longrightarrow>
     (case types_or as bs of Inl e \<Rightarrow> sjoins (map shape_of as) (map shape_of bs) = None
     | Inr cs \<Rightarrow> sjoins (map shape_of as) (map shape_of bs) = Some (map shape_of cs) \<and> (\<forall>t \<in> set cs. type_wf t))"
proof (induction a b and as bs rule: type_or_types_or.induct)
  case (1 q r)
  then show ?case by (simp add: makeSimpleType_def mkquals_def reunion_key reunion_wf)
next
  case (2 q a r b)
  then show ?case by (cases "type_or a b") (auto simp: makeTableType_def)
next
  case (3 q as r bs)
  then show ?case by (cases "types_or as bs") (auto simp: newTupletType_def)
next
  case (5 a as b bs)
  then show ?case by (cases "type_or a b"; cases "types_or as bs") auto
qed auto

lemma type_or_Inr:
  assumes "type_wf a" "type_wf b"
  shows "type_or a b = Inr c \<Longrightarrow> sjoin (shape_of a) (shape_of b) = Some (shape_of c) \<and> type_wf c"
    and "sjoin (shape_of a) (shape_of b) = Some s \<Longrightarrow> \<exists>c. type_or a b = Inr c \<and> shape_of c = s \<and> type_wf c"
  using type_or_shape(1) [OF assms] by (auto split: sum.splits)

interpretation types: partial_join type_wf type_or type_eq
proof
  fix a b c x y l
  assume w: "type_wf a" "type_wf b" "type_wf c"
  note s = type_or_Inr type_eq_shape(1)
  show "type_wf x" if "type_or a b = Inr x" using s(1) [OF w(1,2) that] by simp
  show "\<exists>y. type_or a c = Inr y \<and> type_eq y x" if "type_eq a b" "type_or b c = Inr x"
    using that s(1) [OF w(2,3) that(2)] s(2) [OF w(1,3)] w by (auto simp: s(3))
  show "\<exists>y. type_or b a = Inr y \<and> type_eq x y" if "type_or a b = Inr x"
    using s(1) [OF w(1,2) that] s(2) [OF w(2,1)] sjoin_commute w by (metis s(3))
  show "\<exists>y. type_or a a = Inr y \<and> type_eq y a"
    using s(2) [OF w(1,1) sjoin_idem] w by (metis s(3))
  show "\<exists>r. type_or a y = Inr r \<and> type_eq l r"
    if "type_or a b = Inr x" "type_or x c = Inr l" "type_or b c = Inr y"
  proof -
    have x: "sjoin (shape_of a) (shape_of b) = Some (shape_of x)" "type_wf x" using s(1) [OF w(1,2) that(1)] by auto
    have y: "sjoin (shape_of b) (shape_of c) = Some (shape_of y)" "type_wf y" using s(1) [OF w(2,3) that(3)] by auto
    have l: "sjoin (shape_of x) (shape_of c) = Some (shape_of l)" "type_wf l" using s(1) [OF x(2) w(3) that(2)] by auto
    from s(2) [OF w(1) y(2) sjoin_assoc(1) [OF x(1) l(1) y(1)]] l(2) show ?thesis by (auto simp: s(3))
  qed
  show "\<exists>r. type_or a c = Inr r"
    if "type_or a b = Inr x" "type_eq x b" "type_or b c = Inr y" "type_eq y c"
  proof -
    have "sjoin (shape_of a) (shape_of b) = Some (shape_of b)" using s(1) [OF w(1,2) that(1)] that(2) w by (auto simp: s(3))
    moreover have "sjoin (shape_of b) (shape_of c) = Some (shape_of c)" using s(1) [OF w(2,3) that(3)] that(4) w by (auto simp: s(3))
    ultimately show ?thesis using s(2) [OF w(1,3) sjoin_below_trans(1)] by blast
  qed
qed (simp_all add: type_eq_shape)


lemma below_type_le: "types.below a b \<longleftrightarrow> type_le a b = Inr True"
  by (auto simp: types.below_def type_le_def rbind_eq_Inr)

subsection \<open>Sharing\<close>

fun derived :: "audiotype \<Rightarrow> bool" where
  "derived (SimpleType q) = True"
| "derived (TableType q t) = (derived t \<and> q = quals_of (makeTableType t))"
| "derived (TupletType q v) = ((\<forall>t \<in> set v. derived t) \<and> q = quals_of (newTupletType v))"

definition table_ok :: "typetable \<Rightarrow> bool" where
  "table_ok m \<longleftrightarrow> (\<forall>code t. m code = Some t \<longrightarrow> derived t \<and> codeAudioType t = code)"

lemma codeAudioType_inj: "derived a \<Longrightarrow> derived b \<Longrightarrow> codeAudioType a = codeAudioType b \<Longrightarrow> a = b"
proof (induction a arbitrary: b)
  case (SimpleType q)
  then show ?case by (cases b) (auto simp: leaf_def of_bool_def split: if_splits)
next
  case (TableType q t)
  then show ?case by (cases b) auto
next
  case (TupletType q v)
  then obtain r u where b: "b = TupletType r u" "map codeAudioType v = map codeAudioType u" by (cases b) auto
  have "v = u"
  proof (rule nth_equalityI)
    show "length v = length u" using b(2) map_eq_imp_length_eq by blast
    fix i assume "i < length v"
    moreover from this have "codeAudioType (v ! i) = codeAudioType (u ! i)" "i < length u"
      using b(2) by (metis length_map nth_map)+
    ultimately show "v ! i = u ! i" using TupletType b(1) by simp
  qed
  with TupletType b show ?case by simp
qed

lemma share_transparent:
  assumes "table_ok m" "derived new" "codeAudioType prototype = codeAudioType new"
  shows "fst (share prototype new m) = new \<and> table_ok (snd (share prototype new m))"
proof (cases "m (codeAudioType new)")
  case None
  then show ?thesis using assms by (auto simp: share_def table_ok_def)
next
  case (Some t)
  then have "t = new" using assms codeAudioType_inj unfolding table_ok_def by blast
  then show ?thesis using Some assms by (simp add: share_def)
qed

lemma derived_constructors [simp]:
  "derived (makeSimpleType n v c vec b i)" "derived t \<Longrightarrow> derived (makeTableType t)"
  "(\<forall>t \<in> set vt. derived t) \<Longrightarrow> derived (newTupletType vt)"
  by (simp_all add: makeSimpleType_def makeTableType_def newTupletType_def)

section \<open>Properties\<close>

text \<open>
  Property C11 (the combination of types is a join).  On well-formed types, up to the equality the
  compiler tests, \<^verbatim>\<open>|\<close> is commutative, idempotent and associative; \<^verbatim>\<open><=\<close> is reflexive, transitive and
  antisymmetric; and \<^verbatim>\<open>t1 | t2\<close>, when it does not fail, is well formed and the least upper bound of
  its arguments.
\<close>

theorem type_join_laws:
  assumes "type_wf a" "type_wf b" "type_wf c"
  shows "(\<exists>i. type_or a a = Inr i \<and> type_eq i a) \<and>
     (\<forall>x. type_or a b = Inr x \<longrightarrow> type_wf x \<and> (\<exists>y. type_or b a = Inr y \<and> type_eq x y)) \<and>
     (\<forall>x l y. type_or a b = Inr x \<and> type_or x c = Inr l \<and> type_or b c = Inr y \<longrightarrow>
        (\<exists>r. type_or a y = Inr r \<and> type_eq l r)) \<and>
     type_le a a = Inr True \<and>
     (type_le a b = Inr True \<and> type_le b a = Inr True \<longrightarrow> type_eq a b) \<and>
     (type_le a b = Inr True \<and> type_le b c = Inr True \<longrightarrow> type_le a c = Inr True) \<and>
     (\<forall>d. type_or a b = Inr d \<longrightarrow> type_le a d = Inr True \<and> type_le b d = Inr True \<and>
        (type_le a c = Inr True \<and> type_le b c = Inr True \<longrightarrow> type_le d c = Inr True))"
proof -
  have "types.below b d" if d: "type_or a b = Inr d" for d
  proof -
    obtain e where e: "type_or b a = Inr e" "type_eq d e" "types.below b e"
      using types.upper2 [OF assms(1,2) d] by blast
    have "type_wf d" "type_wf e" using types.join_wf assms d e by blast+
    then show ?thesis using e types.below_trans [OF assms(2)] types.eqv_below types.eqv_sym by blast
  qed
  then show ?thesis
    unfolding below_type_le [symmetric]
    using types.join_idem [OF assms(1)] types.below_refl [OF assms(1)] types.join_wf [OF assms(1,2)]
      types.join_commute [OF assms(1,2)] types.join_assoc [OF assms] types.below_antisym [OF assms(1,2)]
      types.below_trans [OF assms] types.upper1 [OF assms(1,2)] types.least [OF assms]
    by simp
qed

theorem type_join_laws_witness:
  "type_le (makeSimpleType 0 0 0 0 0 interval0) (makeSimpleType 0 0 0 0 0 interval0) = Inr True"
proof -
  have w: "type_wf (makeSimpleType 0 0 0 0 0 interval0)" by (simp add: makeSimpleType_def mkquals_def)
  show ?thesis using type_join_laws [OF w w w] by blast
qed

text \<open>
  Property C24 (sharing of types).  When every entry of the table \<^verbatim>\<open>gMemoizedTypes\<close> is a type stored
  under its own code, the memoised constructors return exactly the type they were asked for and
  keep the table so.  The constructors of table types with promotions return the type of the plain
  table: the promotions are lost.
\<close>

theorem type_sharing_transparent:
  assumes "table_ok m" "derived ct" "\<forall>t \<in> set vt. derived t"
  shows "(let r = makeSimpleType_memo n v c vec b i m in fst r = makeSimpleType n v c vec b i \<and> table_ok (snd r)) \<and>
     (let r = makeTableType_memo ct m in fst r = makeTableType ct \<and> table_ok (snd r)) \<and>
     (let r = makeTableType_promoted_memo ct n v c vec b i m in fst r = makeTableType ct \<and> table_ok (snd r)) \<and>
     (let r = makeTableType_promoted4_memo ct n v c vec m in fst r = makeTableType ct \<and> table_ok (snd r)) \<and>
     (let r = makeTupletType_memo vt m in fst r = newTupletType vt \<and> table_ok (snd r))"
  using assms
  by (simp add: Let_def makeSimpleType_memo_def makeTableType_memo_def makeTableType_promoted_memo_def
      makeTableType_promoted4_memo_def makeTupletType_memo_def share_transparent makeSimpleType_def [symmetric]
      promotedTableType_def) (simp add: share_transparent makeTableType_def)

theorem type_sharing_transparent_witness:
  "fst (makeTableType_promoted4_memo TINPUT 0 3 3 0 Map.empty) = makeTableType TINPUT"
proof -
  have "table_ok Map.empty" "derived TINPUT" "\<forall>t \<in> set [TINPUT]. derived t"
    by (simp_all add: table_ok_def TINPUT_def)
  from type_sharing_transparent [OF this, of 0 3 3 0] show ?thesis by (simp add: Let_def)
qed

text \<open>
  Property C21 (delay bound).  If \<^verbatim>\<open>checkDelayInterval\<close> accepts the type of a delay signal, every
  integer value the interval of the type allows is between zero and the maximal delay it returns,
  which sizes the delay line.
\<close>

theorem checkDelayInterval_bound:
  assumes "in_int32 d" "in_ival (getInterval t) (double_of_int d)" "0 \<le> checkDelayInterval t"
  shows "0 \<le> d \<and> d \<le> checkDelayInterval t \<and> in_int32 (checkDelayInterval t)"
proof -
  define i where "i = getInterval t"
  define s where "s = dadd (iv_hi i) (DFin (1 / 2))"
  have c: "dle (DFin 0) (iv_lo i)" "checkDelayInterval t = int_of_double s"
    using assms(3) by (auto simp: checkDelayInterval_def Let_def i_def s_def split: if_splits)
  have e: "double_of_int d = DFin (of_int d)" using assms(1) by (rule double_of_int_exact)
  have b: "dle (iv_lo i) (DFin (of_int d))" "dle (DFin (of_int d)) (iv_hi i)"
    using assms(2) by (simp_all add: in_ival_def e i_def)
  then have d0: "0 \<le> d" using dle_trans [OF c(1) b(1)] by simp
  have f: "dfinite s" "in_int32 (trunc_rat (dval s))"
    using assms(3) c(2) by (auto simp: int_of_double_def int_min_def split: if_splits)
  have "dle (round64 (of_int d)) (round64 (of_int d + 1 / 2))" by (intro round64_mono) simp
  then have "dle (DFin (of_int d)) (dadd (DFin (of_int d)) (DFin (1 / 2)))"
    using assms(1) e by (simp add: dadd_le double_of_int_def [symmetric])
  moreover have "dle (dadd (DFin (of_int d)) (DFin (1 / 2))) s"
    unfolding s_def using b f by (intro dadd_mono) (auto simp: s_def)
  ultimately have "dle (DFin (of_int d)) s" using dle_trans by blast
  then have "of_int d \<le> dval s" using f by simp
  then have "d \<le> trunc_rat (dval s)" using d0 by (simp add: trunc_rat_def le_floor_iff) 
  then show ?thesis using d0 f by (simp add: c(2)) (simp add: int_of_double_def)
qed

theorem checkDelayInterval_bound_witness:
  "(5::int) \<le> checkDelayInterval (makeSimpleType 0 0 0 0 0 (interval1 (DFin 5)))"
proof -
  let ?t = "makeSimpleType 0 0 0 0 0 (interval1 (DFin 5))"
  have r: "in_int32 5" by (simp add: in_int32_def int_min_def int_max_def)
  have "in_ival (getInterval ?t) (double_of_int 5)" using double_of_int_exact [OF r]
    by (simp add: getInterval_def makeSimpleType_def mkquals_def in_ival_def interval1_def)
  moreover have "0 \<le> checkDelayInterval ?t" by code_simp
  ultimately show ?thesis using checkDelayInterval_bound [OF r] by blast
qed

end
