(* ===== verification/Memo.thy ===== *)
theory Memo
  imports Trees
begin

text \<open>
  Computations that store their results on the trees they visit.

  Many passes of the compiler follow one scheme: look the tree up in a property table, and if it
  is not there compute the answer from the answers on smaller trees and store it.  \<open>mret\<close>,
  \<open>mlift\<close>, \<open>mbind\<close> and \<open>mmap\<close> compose computations that read and write a state of any type.
  The rule of a pass is written once, over an arbitrary state; with the table as state it is the
  pass of the compiler, with the unit state it is the same rule without a table.  The locale
  \<open>memoised\<close> shows that the two agree, once for all passes.
\<close>

type_synonym ('s, 'a) mm = "'s \<Rightarrow> ('a \<times> 's) result"

definition mret :: "'a \<Rightarrow> ('s, 'a) mm" where
  "mret a = (\<lambda>s. Inr (a, s))"

definition mlift :: "'a result \<Rightarrow> ('s, 'a) mm" where
  "mlift r = (\<lambda>s. rbind r (\<lambda>a. Inr (a, s)))"

definition mbind :: "('s, 'a) mm \<Rightarrow> ('a \<Rightarrow> ('s, 'b) mm) \<Rightarrow> ('s, 'b) mm" where
  "mbind c f = (\<lambda>s. rbind (c s) (\<lambda>(a, s1). f a s1))"

fun mmap :: "('a \<Rightarrow> ('s, 'b) mm) \<Rightarrow> 'a list \<Rightarrow> ('s, 'b list) mm" where
  "mmap f [] = mret []"
| "mmap f (x # xs) = mbind (f x) (\<lambda>y. mbind (mmap f xs) (\<lambda>ys. mret (y # ys)))"

lemma mbind_cong [fundef_cong]:
  "c = c' \<Longrightarrow> (\<And>a. f a = f' a) \<Longrightarrow> mbind c f = mbind c' f'"
  by (simp add: mbind_def)

lemma mmap_cong [fundef_cong]:
  "xs = ys \<Longrightarrow> (\<And>x. x \<in> set ys \<Longrightarrow> f x = g x) \<Longrightarrow> mmap f xs = mmap g ys"
  by (induction xs arbitrary: ys) auto

lemma mm_simps [simp]:
  "mret a s = Inr (a, s)" "mbind (mret a) f = f a" "mlift (Inr a) = mret a" "mlift (Inl e) s = Inl e"
  by (simp_all add: mret_def mlift_def mbind_def)

lemma mbind_apply: "mbind c f s = rbind (c s) (\<lambda>(a, s1). f a s1)"
  by (simp add: mbind_def)

section \<open>Agreement of a computation with its reference\<close>

definition follows :: "('s \<Rightarrow> bool) \<Rightarrow> ('s, 'a) mm \<Rightarrow> (unit, 'a) mm \<Rightarrow> bool" where
  "follows ok c p \<longleftrightarrow> (\<forall>s. ok s \<longrightarrow> (case c s of Inl e \<Rightarrow> p () = Inl e
     | Inr (a, s1) \<Rightarrow> p () = Inr (a, ()) \<and> ok s1))"

named_theorems follows_intros \<open>agreement of composed computations\<close>

lemma follows_mret [follows_intros]: "follows ok (mret a) (mret a)"
  by (simp add: follows_def)

lemma follows_mlift [follows_intros]: "follows ok (mlift r) (mlift r)"
  by (cases r) (simp_all add: follows_def)

lemma follows_mbind [follows_intros]:
  assumes "follows ok c p" "\<And>a. follows ok (f a) (g a)"
  shows "follows ok (mbind c f) (mbind p g)"
  unfolding follows_def
proof (intro allI impI)
  fix s assume s: "ok s"
  show "case mbind c f s of Inl e \<Rightarrow> mbind p g () = Inl e
    | Inr (a, s1) \<Rightarrow> mbind p g () = Inr (a, ()) \<and> ok s1"
  proof (cases "c s")
    case (Inl e)
    with assms(1) s have "p () = Inl e" by (auto simp: follows_def)
    with Inl show ?thesis by (simp add: mbind_def)
  next
    case (Inr r)
    then obtain a s1 where r: "c s = Inr (a, s1)" by (cases r) auto
    with assms(1) s have p: "p () = Inr (a, ())" and s1: "ok s1" by (auto simp: follows_def split: sum.splits)
    have e: "mbind c f s = f a s1" "mbind p g () = g a ()" using r p by (simp_all add: mbind_def)
    show ?thesis unfolding e using assms(2) [of a] s1 unfolding follows_def by blast
  qed
qed

lemma follows_mmap [follows_intros]:
  "(\<And>x. x \<in> set xs \<Longrightarrow> follows ok (f x) (g x)) \<Longrightarrow> follows ok (mmap f xs) (mmap g xs)"
  by (induction xs) (auto intro!: follows_mret follows_mbind)

lemma follows_if [follows_intros]:
  "(b \<Longrightarrow> follows ok c p) \<Longrightarrow> (\<not> b \<Longrightarrow> follows ok d q) \<Longrightarrow> follows ok (if b then c else d) (if b then p else q)"
  by simp

lemma followsD:
  "follows ok c p \<Longrightarrow> ok s \<Longrightarrow> c s = Inr (a, s1) \<Longrightarrow> p () = Inr (a, ()) \<and> ok s1"
  "follows ok c p \<Longrightarrow> ok s \<Longrightarrow> c s = Inl e \<Longrightarrow> p () = Inl e"
  by (auto simp: follows_def split: sum.splits)

section \<open>The scheme\<close>

definition cached :: "('k \<rightharpoonup> 'a) \<Rightarrow> 'k \<Rightarrow> ('k \<rightharpoonup> 'a, 'a) mm \<Rightarrow> ('a \<times> ('k \<rightharpoonup> 'a)) result" where
  "cached m t c = (case m t of Some a \<Rightarrow> Inr (a, m)
     | None \<Rightarrow> mbind c (\<lambda>a m1. Inr (a, m1(t \<mapsto> a))) m)"

lemma cached_cong [fundef_cong]:
  "m = m' \<Longrightarrow> t = t' \<Longrightarrow> c = c' \<Longrightarrow> cached m t c = cached m' t' c'"
  by simp

text \<open>
  The clients of the scheme: \<open>body\<close> is the rule of the pass over the table, \<open>rbody\<close> over the unit
  state, \<open>get\<close> and \<open>reference\<close> the recursive functions, \<open>given\<close> the answers that were in the table
  at the start.
\<close>

locale memoised =
  fixes given :: "tree \<rightharpoonup> 'a"
    and body :: "(tree \<Rightarrow> (tree \<rightharpoonup> 'a, 'a) mm) \<Rightarrow> tree \<Rightarrow> (tree \<rightharpoonup> 'a, 'a) mm"
    and rbody :: "(tree \<Rightarrow> (unit, 'a) mm) \<Rightarrow> tree \<Rightarrow> (unit, 'a) mm"
    and get :: "tree \<Rightarrow> (tree \<rightharpoonup> 'a, 'a) mm"
    and reference :: "tree \<Rightarrow> (unit, 'a) mm"
  assumes get_eq: "get t m = cached m t (body get t)"
    and reference_eq: "reference t = (case given t of Some a \<Rightarrow> mret a | None \<Rightarrow> rbody reference t)"
    and compatible: "(\<And>s. size s < size t \<Longrightarrow> follows ok (get s) (reference s)) \<Longrightarrow>
      follows ok (body get t) (rbody reference t)"
begin

definition table_ok :: "(tree \<rightharpoonup> 'a) \<Rightarrow> bool" where
  "table_ok m \<longleftrightarrow> given \<subseteq>\<^sub>m m \<and> (\<forall>t a. m t = Some a \<longrightarrow> reference t () = Inr (a, ()))"

lemma table_ok_given: "table_ok given"
  by (simp add: table_ok_def reference_eq)

lemma get_follows: "follows table_ok (get t) (reference t)"
proof (induction t rule: measure_induct_rule [where f = size])
  case (less t)
  show ?case unfolding follows_def
  proof (intro allI impI)
    fix m assume ok: "table_ok m"
    show "case get t m of Inl e \<Rightarrow> reference t () = Inl e
      | Inr (a, m1) \<Rightarrow> reference t () = Inr (a, ()) \<and> table_ok m1"
    proof (cases "m t")
      case (Some a)
      with ok show ?thesis by (auto simp: get_eq cached_def table_ok_def)
    next
      case None
      with ok have g: "given t = None"
        by (cases "given t") (auto simp: table_ok_def map_le_def dom_def)
      have f: "follows table_ok (body get t) (rbody reference t)" by (rule compatible) (rule less)
      show ?thesis
      proof (cases "body get t m")
        case (Inl e)
        with followsD(2) [OF f, OF ok] None g show ?thesis by (simp add: get_eq cached_def mbind_def reference_eq)
      next
        case (Inr r)
        then obtain a m1 where b: "body get t m = Inr (a, m1)" by (cases r) auto
        from followsD(1) [OF f, OF ok b] have r: "reference t () = Inr (a, ())" and "table_ok m1"
          using g by (simp_all add: reference_eq)
        then have "table_ok (m1(t \<mapsto> a))" using g by (auto simp: table_ok_def map_le_def)
        with r show ?thesis using None b by (simp add: get_eq cached_def mbind_def)
      qed
    qed
  qed
qed

lemma get_transparent:
  assumes "table_ok m"
  shows "get t m = Inl e \<Longrightarrow> reference t () = Inl e"
    and "get t m = Inr (a, m1) \<Longrightarrow> reference t () = Inr (a, ()) \<and> table_ok m1"
  using followsD [OF get_follows, OF assms] by blast+

end

end
