(* ===== verification/SubSignals.thy ===== *)
theory SubSignals
  imports Xtended Memo
begin

text \<open>
  The subsignals of a signal (\<^verbatim>\<open>signals/subsignals.cpp\<close>), its order (\<^verbatim>\<open>signals/sigorderrules.cpp\<close>), the
  recursive symbols it reaches and its recursiveness (\<^verbatim>\<open>signals/recursivness.cpp\<close>).

  A symbolic recursive signal is a tree \<^verbatim>\<open>SYMREC(var)\<close> whose definition is stored on it under the
  property \<^verbatim>\<open>RECDEF\<close>; the list of these definitions is the argument \<open>defs\<close>.  The order of a signal
  is stored under \<^verbatim>\<open>ORDERPROP\<close> and its recursiveness under \<^verbatim>\<open>RECURSIVNESS\<close>: the two tables are
  state.
\<close>

type_synonym recdefs = "(tree \<times> tree) list"

section \<open>The parts of a signal are smaller\<close>

lemma size_branches: "t = Tree n br \<Longrightarrow> x \<in> set br \<Longrightarrow> size x < size t"
  using size_branch [of x t] by simp

definition view_trees :: "sig_form \<Rightarrow> tree list" where
  "view_trees v = (case v of
      SvXtended p br \<Rightarrow> br
    | SvOutput i a \<Rightarrow> [a] | SvProj i a \<Rightarrow> [a] | SvTuple i a \<Rightarrow> [a] | SvBinOp i a b \<Rightarrow> [a, b]
    | SvDelay1 a \<Rightarrow> [a] | SvPrefix a b \<Rightarrow> [a, b] | SvIota a \<Rightarrow> [a] | SvRDTbl a b \<Rightarrow> [a, b]
    | SvWRTbl a b c d \<Rightarrow> [a, b, c, d] | SvTable a b c \<Rightarrow> [a, b, c] | SvGen a \<Rightarrow> [a]
    | SvDocConstantTbl a b \<Rightarrow> [a, b] | SvDocWriteTbl a b c d \<Rightarrow> [a, b, c, d] | SvDocAccessTbl a b \<Rightarrow> [a, b]
    | SvFFun a b \<Rightarrow> [a, b] | SvHBargraph a b c d \<Rightarrow> [a, b, c, d] | SvVBargraph a b c d \<Rightarrow> [a, b, c, d]
    | SvAttach a b \<Rightarrow> [a, b] | SvTupleAccess a b \<Rightarrow> [a, b] | SvFixDelay a b \<Rightarrow> [a, b]
    | SvSelect2 a b c \<Rightarrow> [a, b, c] | SvSelect3 a b c d \<Rightarrow> [a, b, c, d]
    | SvIntCast a \<Rightarrow> [a] | SvFloatCast a \<Rightarrow> [a] | SvList a b \<Rightarrow> [a, b]
    | _ \<Rightarrow> [])"

lemma view_trees_branches: "x \<in> set (view_trees (sig_view t)) \<Longrightarrow> x \<in> set (branches t)"
  using sig_view_form [of t]
  by (auto simp: has_sig_form_def view_trees_def sig_constructor_defs cons_def split: sig_form.splits)

lemma view_trees_less: "x \<in> set (view_trees (sig_view t)) \<Longrightarrow> size x < size t"
  using view_trees_branches size_branch by blast

lemma sig_view_xtended_less: "sig_view t = SvXtended p br \<Longrightarrow> x \<in> set br \<Longrightarrow> size x < size t"
  by (rule view_trees_less) (simp add: view_trees_def)

lemma sig_view_less [termination_simp]:
  "sig_view t = SvDelay1 a \<Longrightarrow> size a < size t"
  "sig_view t = SvPrefix a b \<Longrightarrow> size a < size t"
  "sig_view t = SvPrefix a b \<Longrightarrow> size b < size t"
  "sig_view t = SvIota a \<Longrightarrow> size a < size t"
  "sig_view t = SvRDTbl a b \<Longrightarrow> size a < size t"
  "sig_view t = SvRDTbl a b \<Longrightarrow> size b < size t"
  "sig_view t = SvWRTbl a b c d \<Longrightarrow> size a < size t"
  "sig_view t = SvWRTbl a b c d \<Longrightarrow> size b < size t"
  "sig_view t = SvWRTbl a b c d \<Longrightarrow> size c < size t"
  "sig_view t = SvWRTbl a b c d \<Longrightarrow> size d < size t"
  "sig_view t = SvTable a b c \<Longrightarrow> size a < size t"
  "sig_view t = SvTable a b c \<Longrightarrow> size b < size t"
  "sig_view t = SvTable a b c \<Longrightarrow> size c < size t"
  "sig_view t = SvGen a \<Longrightarrow> size a < size t"
  "sig_view t = SvDocConstantTbl a b \<Longrightarrow> size a < size t"
  "sig_view t = SvDocConstantTbl a b \<Longrightarrow> size b < size t"
  "sig_view t = SvDocWriteTbl a b c d \<Longrightarrow> size a < size t"
  "sig_view t = SvDocWriteTbl a b c d \<Longrightarrow> size b < size t"
  "sig_view t = SvDocWriteTbl a b c d \<Longrightarrow> size c < size t"
  "sig_view t = SvDocWriteTbl a b c d \<Longrightarrow> size d < size t"
  "sig_view t = SvDocAccessTbl a b \<Longrightarrow> size a < size t"
  "sig_view t = SvDocAccessTbl a b \<Longrightarrow> size b < size t"
  "sig_view t = SvFFun a b \<Longrightarrow> size a < size t"
  "sig_view t = SvFFun a b \<Longrightarrow> size b < size t"
  "sig_view t = SvHBargraph a b c d \<Longrightarrow> size a < size t"
  "sig_view t = SvHBargraph a b c d \<Longrightarrow> size b < size t"
  "sig_view t = SvHBargraph a b c d \<Longrightarrow> size c < size t"
  "sig_view t = SvHBargraph a b c d \<Longrightarrow> size d < size t"
  "sig_view t = SvVBargraph a b c d \<Longrightarrow> size a < size t"
  "sig_view t = SvVBargraph a b c d \<Longrightarrow> size b < size t"
  "sig_view t = SvVBargraph a b c d \<Longrightarrow> size c < size t"
  "sig_view t = SvVBargraph a b c d \<Longrightarrow> size d < size t"
  "sig_view t = SvAttach a b \<Longrightarrow> size a < size t"
  "sig_view t = SvAttach a b \<Longrightarrow> size b < size t"
  "sig_view t = SvTupleAccess a b \<Longrightarrow> size a < size t"
  "sig_view t = SvTupleAccess a b \<Longrightarrow> size b < size t"
  "sig_view t = SvFixDelay a b \<Longrightarrow> size a < size t"
  "sig_view t = SvFixDelay a b \<Longrightarrow> size b < size t"
  "sig_view t = SvSelect2 a b c \<Longrightarrow> size a < size t"
  "sig_view t = SvSelect2 a b c \<Longrightarrow> size b < size t"
  "sig_view t = SvSelect2 a b c \<Longrightarrow> size c < size t"
  "sig_view t = SvSelect3 a b c d \<Longrightarrow> size a < size t"
  "sig_view t = SvSelect3 a b c d \<Longrightarrow> size b < size t"
  "sig_view t = SvSelect3 a b c d \<Longrightarrow> size c < size t"
  "sig_view t = SvSelect3 a b c d \<Longrightarrow> size d < size t"
  "sig_view t = SvIntCast a \<Longrightarrow> size a < size t"
  "sig_view t = SvFloatCast a \<Longrightarrow> size a < size t"
  "sig_view t = SvList a b \<Longrightarrow> size a < size t"
  "sig_view t = SvList a b \<Longrightarrow> size b < size t"
  "sig_view t = SvOutput i a \<Longrightarrow> size a < size t"
  "sig_view t = SvProj i a \<Longrightarrow> size a < size t"
  "sig_view t = SvTuple i a \<Longrightarrow> size a < size t"
  "sig_view t = SvBinOp i a b \<Longrightarrow> size a < size t"
  "sig_view t = SvBinOp i a b \<Longrightarrow> size b < size t"
  by (rule view_trees_less; simp add: view_trees_def)+

lemma tlist_view_less: "x \<in> set (tlist t) \<Longrightarrow> size x < size t"
  by (rule tlist_size)

section \<open>Subsignals\<close>

fun list_args :: "tree \<Rightarrow> tree list result" where
  "list_args largs = (if isNil largs then Inr []
     else rbind (hdT largs) (\<lambda>h. rbind (tlT largs) (\<lambda>t. rbind (list_args t) (\<lambda>r. Inr (h # r)))))"

declare list_args.simps [simp del]

definition getSubSignals :: "recdefs \<Rightarrow> tree \<Rightarrow> bool \<Rightarrow> tree list result" where
  "getSubSignals defs sig visitgen = (case sig_view sig of
      SvXtended _ br \<Rightarrow> Inr br
    | SvInt _ \<Rightarrow> Inr []
    | SvReal _ \<Rightarrow> Inr []
    | SvWaveform \<Rightarrow> Inr (branches sig)
    | SvInput _ \<Rightarrow> Inr []
    | SvOutput _ x \<Rightarrow> Inr [x]
    | SvDelay1 x \<Rightarrow> Inr [x]
    | SvFixDelay x y \<Rightarrow> Inr [x, y]
    | SvPrefix x y \<Rightarrow> Inr [x, y]
    | SvIota x \<Rightarrow> Inr [x]
    | SvBinOp _ x y \<Rightarrow> Inr [x, y]
    | SvFFun _ largs \<Rightarrow> list_args largs
    | SvFConst _ _ _ \<Rightarrow> Inr []
    | SvFVar _ _ _ \<Rightarrow> Inr []
    | SvTable _ x y \<Rightarrow> Inr [x, y]
    | SvWRTbl _ x y z \<Rightarrow> Inr [x, y, z]
    | SvRDTbl x y \<Rightarrow> Inr [x, y]
    | SvDocConstantTbl x y \<Rightarrow> Inr [x, y]
    | SvDocWriteTbl x y u v \<Rightarrow> Inr [x, y, u, v]
    | SvDocAccessTbl x y \<Rightarrow> Inr [x, y]
    | SvSelect2 sel x y \<Rightarrow> Inr [sel, x, y]
    | SvSelect3 sel x y z \<Rightarrow> Inr [sel, x, y, z]
    | SvGen x \<Rightarrow> Inr (if visitgen then [x] else [])
    | SvProj _ x \<Rightarrow> Inr [x]
    | SvSymRec _ \<Rightarrow> (case map_of defs sig of Some le \<Rightarrow> Inr [le] | None \<Rightarrow> Inl (Undefined ''null definition''))
    | SvIntCast x \<Rightarrow> Inr [x]
    | SvFloatCast x \<Rightarrow> Inr [x]
    | SvButton _ \<Rightarrow> Inr []
    | SvCheckbox _ \<Rightarrow> Inr []
    | SvVSlider _ _ \<Rightarrow> Inr []
    | SvHSlider _ _ \<Rightarrow> Inr []
    | SvNumEntry _ _ \<Rightarrow> Inr []
    | SvVBargraph _ _ _ z \<Rightarrow> Inr [z]
    | SvHBargraph _ _ _ z \<Rightarrow> Inr [z]
    | SvAttach x y \<Rightarrow> Inr [x, y]
    | SvList h t \<Rightarrow> Inr [h, t]
    | SvNil \<Rightarrow> Inr []
    | _ \<Rightarrow> Inl (FaustException ''getSubSignals unrecognized signal''))"

section \<open>Order\<close>

definition infereSigOrder :: "(tree \<Rightarrow> ('s, int) mm) \<Rightarrow> tree \<Rightarrow> ('s, int) mm" where
  "infereSigOrder O1 sig = (case sig_view sig of
      SvXtended p br \<Rightarrow> mbind (mmap O1 br) (\<lambda>args. mlift (xtInfereSigOrder p args))
    | SvInt _ \<Rightarrow> mret 0
    | SvReal _ \<Rightarrow> mret 0
    | SvWaveform \<Rightarrow> mret 3
    | SvInput _ \<Rightarrow> mret 3
    | SvOutput _ _ \<Rightarrow> mret 3
    | SvDelay1 _ \<Rightarrow> mret 3
    | SvPrefix _ _ \<Rightarrow> mret 3
    | SvFixDelay _ _ \<Rightarrow> mret 3
    | SvBinOp _ s1 s2 \<Rightarrow> mbind (O1 s1) (\<lambda>x. mbind (O1 s2) (\<lambda>y. mret (max x y)))
    | SvIntCast s1 \<Rightarrow> O1 s1
    | SvFloatCast s1 \<Rightarrow> O1 s1
    | SvFFun ff ls \<Rightarrow> (if isNil ls then mret 1 else mbind (O1 ls) (\<lambda>x. mret (max 1 x)))
    | SvFConst _ _ _ \<Rightarrow> mret 1
    | SvFVar _ _ _ \<Rightarrow> mret 2
    | SvButton _ \<Rightarrow> mret 2
    | SvCheckbox _ \<Rightarrow> mret 2
    | SvVSlider _ _ \<Rightarrow> mret 2
    | SvHSlider _ _ \<Rightarrow> mret 2
    | SvNumEntry _ _ \<Rightarrow> mret 2
    | SvHBargraph _ _ _ s1 \<Rightarrow> O1 s1
    | SvVBargraph _ _ _ s1 \<Rightarrow> O1 s1
    | SvAttach s1 _ \<Rightarrow> O1 s1
    | SvSymRec _ \<Rightarrow> mlift (Inl (FaustException ''infering signal order : isRec''))
    | SvProj _ _ \<Rightarrow> mret 3
    | SvTable _ _ _ \<Rightarrow> mret 3
    | SvWRTbl _ _ _ _ \<Rightarrow> mret 3
    | SvRDTbl _ _ \<Rightarrow> mret 3
    | SvDocConstantTbl _ _ \<Rightarrow> mret 3
    | SvDocWriteTbl _ _ _ _ \<Rightarrow> mret 3
    | SvDocAccessTbl _ _ \<Rightarrow> mret 3
    | SvGen _ \<Rightarrow> mret 3
    | SvSelect2 _ _ _ \<Rightarrow> mret 3
    | SvSelect3 _ _ _ _ \<Rightarrow> mret 3
    | SvList _ _ \<Rightarrow> mbind (mmap O1 (tlist sig)) (\<lambda>xs. mret (fold (\<lambda>x r. if x > r then x else r) xs 0))
    | _ \<Rightarrow> mlift (Inl (FaustException ''infering signal order : unrecognized signal'')))"

lemma infereSigOrder_cong [fundef_cong]:
  "sig = sig' \<Longrightarrow> (\<And>s. size s < size sig' \<Longrightarrow> g s = g' s) \<Longrightarrow> infereSigOrder g sig = infereSigOrder g' sig'"
  unfolding infereSigOrder_def
  by (auto split: sig_form.split intro!: mbind_cong mmap_cong dest: sig_view_less sig_view_xtended_less tlist_view_less)

fun getSigOrder :: "tree \<Rightarrow> (tree \<rightharpoonup> int, int) mm" where
  "getSigOrder sig m = cached m sig (infereSigOrder getSigOrder sig)"

fun sigOrder :: "tree \<Rightarrow> (unit, int) mm" where
  "sigOrder sig u = infereSigOrder sigOrder sig u"

declare getSigOrder.simps [simp del] sigOrder.simps [simp del]

lemma infereSigOrder_follows:
  "(\<And>s. size s < size sig \<Longrightarrow> follows ok (g s) (h s)) \<Longrightarrow> follows ok (infereSigOrder g sig) (infereSigOrder h sig)"
  unfolding infereSigOrder_def
  by (auto split: sig_form.split intro!: follows_intros dest: sig_view_less sig_view_xtended_less tlist_view_less)

interpretation orders: memoised Map.empty infereSigOrder infereSigOrder getSigOrder sigOrder
  by unfold_locales (auto simp: getSigOrder.simps sigOrder.simps fun_eq_iff intro: infereSigOrder_follows)


text \<open>
  The signals the compiler may treat as numbers: built from numbers with operators, casts and
  primitives only (an attached signal and the bounds of a bargraph are not looked at).
\<close>

inductive numeric :: "tree \<Rightarrow> bool" where
  number: "sig_view t = SvInt i \<or> sig_view t = SvReal r \<Longrightarrow> numeric t"
| xtended: "sig_view t = SvXtended p br \<Longrightarrow> xarity p \<le> length br \<Longrightarrow> (\<And>i. i < xarity p \<Longrightarrow> numeric (br ! i)) \<Longrightarrow> numeric t"
| binop: "sig_view t = SvBinOp op a b \<Longrightarrow> numeric a \<Longrightarrow> numeric b \<Longrightarrow> numeric t"
| cast: "sig_view t = SvIntCast a \<or> sig_view t = SvFloatCast a \<Longrightarrow> numeric a \<Longrightarrow> numeric t"
| view: "sig_view t = SvHBargraph l x y a \<or> sig_view t = SvVBargraph l x y a \<or> sig_view t = SvAttach a b \<Longrightarrow>
    numeric a \<Longrightarrow> numeric t"
| args: "sig_view t = SvList h r \<Longrightarrow> (\<And>a. a \<in> set (tlist t) \<Longrightarrow> numeric a) \<Longrightarrow> numeric t"

inductive_cases numericE: "numeric t"

definition order_ok :: "int \<Rightarrow> bool \<Rightarrow> bool" where
  "order_ok k num \<longleftrightarrow> 0 \<le> k \<and> k \<le> 3 \<and> (k = 0 \<longleftrightarrow> num)"

lemma mmap_unit:
  "mmap f xs u = Inr (ys, v) \<longleftrightarrow> length ys = length xs \<and> (\<forall>i < length xs. f (xs ! i) () = Inr (ys ! i, ()))"
  for f :: "'a \<Rightarrow> (unit, 'b) mm"
proof (induction xs arbitrary: ys u v)
  case (Cons x xs)
  show ?case
    by (cases ys) (auto simp: mbind_def rbind_eq_Inr Cons.IH nth_Cons split: nat.splits)
qed auto

lemma numeric_iff:
  "numeric t \<longleftrightarrow> (case sig_view t of
      SvInt _ \<Rightarrow> True | SvReal _ \<Rightarrow> True
    | SvXtended p br \<Rightarrow> xarity p \<le> length br \<and> (\<forall>i < xarity p. numeric (br ! i))
    | SvBinOp op a b \<Rightarrow> numeric a \<and> numeric b
    | SvIntCast a \<Rightarrow> numeric a | SvFloatCast a \<Rightarrow> numeric a
    | SvHBargraph l x y a \<Rightarrow> numeric a | SvVBargraph l x y a \<Rightarrow> numeric a | SvAttach a b \<Rightarrow> numeric a
    | SvList h r \<Rightarrow> (\<forall>a \<in> set (tlist t). numeric a)
    | _ \<Rightarrow> False)"
  by (rule iffI, erule numericE; auto split: sig_form.splits intro: numeric.intros)

lemma xtInfereSigOrder_arity:
  "\<exists>c. xtInfereSigOrder p args = (if xarity p = 1 then unary_order c args else binary_order c args)"
  by (cases p) (auto simp: xtInfereSigOrder_def xarity_def)

lemma xtInfereSigOrder_cases:
  assumes "xtInfereSigOrder p args = Inr k"
  shows "xarity p \<le> length args \<and> k = (if xarity p = 1 then args ! 0 else max (args ! 0) (args ! 1))"
proof -
  have "xarity p = 1 \<or> xarity p = 2" by (simp add: xarity_def)
  moreover obtain c where "(if xarity p = 1 then unary_order c args else binary_order c args) = Inr k"
    using xtInfereSigOrder_arity [of p args] assms by auto
  ultimately show ?thesis
    by (auto simp: unary_order_def binary_order_def order_at_def rbind_eq_Inr Suc_le_eq split: if_splits)
qed

lemma order_fold:
  "fold (\<lambda>x r. if x > r then x else r) xs (a::int) = fold max xs a"
  by (induction xs arbitrary: a) (auto simp: max_def)

lemma fold_max_ok:
  "0 \<le> a \<Longrightarrow> a \<le> 3 \<Longrightarrow> (\<And>i. i < length xs \<Longrightarrow> order_ok (xs ! i) (P i)) \<Longrightarrow>
   order_ok (fold max xs (a::int)) (a = 0 \<and> (\<forall>i < length xs. P i))"
proof (induction xs arbitrary: a P)
  case (Cons x xs)
  have x: "order_ok x (P 0)" using Cons.prems(3) [of 0] by simp
  have xs: "order_ok (xs ! i) (P (Suc i))" if "i < length xs" for i
    using Cons.prems(3) [of "Suc i"] that by simp
  have "order_ok (fold max xs (max x a)) (max x a = 0 \<and> (\<forall>i < length xs. P (Suc i)))"
    using x Cons.prems(1,2) by (intro Cons.IH xs) (auto simp: order_ok_def)
  moreover have "max x a = 0 \<longleftrightarrow> P 0 \<and> a = 0" using x Cons.prems(1) by (auto simp: order_ok_def max_def)
  moreover have "(\<forall>i < length (x # xs). P i) \<longleftrightarrow> P 0 \<and> (\<forall>i < length xs. P (Suc i))"
    by (auto simp: less_Suc_eq_0_disj)
  ultimately show ?case by (auto simp: order_ok_def)
qed (simp add: order_ok_def)

lemma all_less_two: "(\<forall>i < 2. P i) \<longleftrightarrow> P 0 \<and> P (1::nat)"
  by (auto simp: less_2_cases_iff)

lemma sigOrder_ok: "sigOrder t () = Inr (k, ()) \<Longrightarrow> order_ok k (numeric t)"
proof (induction t arbitrary: k rule: measure_induct_rule [where f = size])
  case (less t)
  note IH = less.IH
  have eq: "infereSigOrder sigOrder t () = Inr (k, ())" using less.prems by (simp add: sigOrder.simps)
  have mx: "order_ok (max a b) (P \<and> Q)" if "order_ok a P" "order_ok b Q" for a b P Q
    using that by (auto simp: order_ok_def max_def)
  have mem: "sigOrder a () = Inr r \<Longrightarrow> r = (fst r, ())" for a r by (cases r) simp
  show ?case
  proof (cases "sig_view t")
    case (SvXtended p br)
    with eq obtain args where args: "mmap sigOrder br () = Inr (args, ())" "xtInfereSigOrder p args = Inr k"
      by (auto simp: infereSigOrder_def mbind_def mlift_def rbind_eq_Inr)
    have o: "order_ok (args ! i) (numeric (br ! i))" "length args = length br" if "i < length br" for i
      using args(1) that IH [of "br ! i"] sig_view_xtended_less [OF SvXtended] by (auto simp: mmap_unit)
    note x = xtInfereSigOrder_cases [OF args(2)]
    have l: "length args = length br" using args(1) by (simp add: mmap_unit)
    have two: "xarity p = 1 \<or> xarity p = 2" by (simp add: xarity_def)
    then have "br \<noteq> []" using conjunct1 [OF x] l by auto
    with two show ?thesis
      using x l o(1) [of 0] o(1) [of 1] mx [of "args ! 0" "numeric (br ! 0)" "args ! 1" "numeric (br ! 1)"]
      by (auto simp: numeric_iff [of t] SvXtended all_less_two)
  next
    case (SvBinOp op a b)
    then show ?thesis using eq IH [of a] IH [of b] sig_view_less [of t] mx
      by (auto simp: infereSigOrder_def mbind_def rbind_eq_Inr numeric_iff [of t])
  next
    case (SvFFun ff ls)
    then show ?thesis using eq IH [of ls] sig_view_less [of t]
      by (auto simp: infereSigOrder_def mbind_def rbind_eq_Inr numeric_iff [of t] order_ok_def split: if_splits)
  next
    case (SvList h r)
    then obtain xs where xs: "mmap sigOrder (tlist t) () = Inr (xs, ())" "k = fold max xs 0"
      using eq by (auto simp: infereSigOrder_def mbind_def rbind_eq_Inr order_fold)
    have "order_ok (fold max xs 0) (0 = (0::int) \<and> (\<forall>i < length xs. numeric (tlist t ! i)))"
      by (rule fold_max_ok) (use xs(1) IH tlist_size in \<open>auto simp: mmap_unit\<close>)
    then show ?thesis using xs by (auto simp: numeric_iff [of t] SvList mmap_unit all_set_conv_all_nth)
  qed (insert eq IH sig_view_less [of t], auto simp: infereSigOrder_def numeric_iff [of t] order_ok_def)
qed


section \<open>Properties\<close>

text \<open>
  Property C22 (order of a signal).  Whatever correct orders are already stored, \<^verbatim>\<open>getSigOrder\<close>
  answers the order the rules give without stored properties, or fails where they fail, and stores
  correct orders; an order is
  between 0 and 3, and it is 0 exactly for the signals built from numbers alone.
\<close>

theorem getSigOrder_classifies:
  assumes "\<forall>t k. m t = Some k \<longrightarrow> sigOrder t () = Inr (k, ())"
  shows "case getSigOrder sig m of
      Inl e \<Rightarrow> sigOrder sig () = Inl e
    | Inr (k, m1) \<Rightarrow> sigOrder sig () = Inr (k, ()) \<and> (\<forall>t k. m1 t = Some k \<longrightarrow> sigOrder t () = Inr (k, ())) \<and>
        0 \<le> k \<and> k \<le> 3 \<and> (k = 0 \<longleftrightarrow> numeric sig)"
proof -
  have ok: "orders.table_ok m" using assms by (simp add: orders.table_ok_def)
  show ?thesis
  proof (cases "getSigOrder sig m")
    case (Inl e)
    then show ?thesis using orders.get_transparent(1) [OF ok] by simp
  next
    case (Inr r)
    then obtain k m1 where r: "getSigOrder sig m = Inr (k, m1)" by (cases r) auto
    from orders.get_transparent(2) [OF ok r]
    have o: "sigOrder sig () = Inr (k, ())" and "orders.table_ok m1" by simp_all
    then show ?thesis using r sigOrder_ok [OF o] by (simp add: orders.table_ok_def order_ok_def)
  qed
qed

theorem getSigOrder_classifies_witness:
  "numeric (sigBinOp kAdd (sigInt 1) (sigReal (DFin 2)))"
proof -
  let ?s = "sigBinOp kAdd (sigInt 1) (sigReal (DFin 2))"
  obtain m1 where "getSigOrder ?s Map.empty = Inr (0, m1)"
    by (simp add: getSigOrder.simps cached_def infereSigOrder_def mbind_def sigInt_def sigReal_def leaf_def sigBinOp_def
        sig_view_def sig_view_sym_def isSigInt_def)
  then show ?thesis using getSigOrder_classifies [of Map.empty ?s] by simp
qed

end
