(* ===== verification/Recursiveness.thy ===== *)
theory Recursiveness
  imports SubSignals
begin

text \<open>
  Recursive symbols and recursiveness (\<^verbatim>\<open>signals/recursivness.cpp\<close>).

  \<open>symlistVisit\<close> walks the graph of a signal, through the definitions of the recursive symbols,
  with the set of signals already visited as state and the answers of earlier calls
  (\<^verbatim>\<open>gSymListProp\<close>) as the argument \<open>known\<close>.  Its recursion is bounded by a number of nested calls;
  \<open>symlist\<close> gives it the number of subterms of the signal and of the definitions, which is
  proved to be enough.
\<close>

section \<open>Recursive symbols\<close>

fun symlistVisit :: "nat \<Rightarrow> address \<Rightarrow> recdefs \<Rightarrow> (tree \<rightharpoonup> tree) \<Rightarrow> tree \<Rightarrow> tree set \<Rightarrow> (tree \<times> tree set) result"
and symlistUnion :: "nat \<Rightarrow> address \<Rightarrow> recdefs \<Rightarrow> (tree \<rightharpoonup> tree) \<Rightarrow> tree list \<Rightarrow> tree \<Rightarrow> tree set \<Rightarrow> (tree \<times> tree set) result" where
  "symlistVisit 0 ad defs known sig visited = Inl (Undefined ''nesting'')"
| "symlistVisit (Suc n) ad defs known sig visited = (case known sig of
      Some S \<Rightarrow> Inr (S, visited)
    | None \<Rightarrow> if sig \<in> visited then Inr (nil, visited)
        else case sig_view sig of
            SvSymRec _ \<Rightarrow> (case map_of defs sig of
                None \<Rightarrow> Inl (Undefined ''null definition'')
              | Some body \<Rightarrow> symlistUnion n ad defs known (map (\<lambda>i. nthT body (int i)) [0..<lenT body])
                  (singleton sig) (insert sig visited))
          | _ \<Rightarrow> rbind (getSubSignals defs sig True) (\<lambda>subsigs.
                symlistUnion n ad defs known subsigs nil (insert sig visited)))"
| "symlistUnion n ad defs known [] U visited = Inr (U, visited)"
| "symlistUnion n ad defs known (x # xs) U visited =
     rbind (symlistVisit n ad defs known x visited) (\<lambda>(S, visited1).
       rbind (setUnion ad U S) (\<lambda>U1. symlistUnion n ad defs known xs U1 visited1))"

fun subtrees :: "tree \<Rightarrow> tree list" where
  "subtrees t = t # concat (map subtrees (branches t))"

declare subtrees.simps [simp del]

definition universe :: "recdefs \<Rightarrow> tree \<Rightarrow> tree list" where
  "universe defs sig = subtrees sig @ concat (map (subtrees \<circ> snd) defs)"

definition symlist :: "address \<Rightarrow> recdefs \<Rightarrow> tree \<Rightarrow> (tree \<rightharpoonup> tree) \<Rightarrow> (tree \<times> (tree \<rightharpoonup> tree)) result" where
  "symlist ad defs sig known = (case known sig of
      Some S \<Rightarrow> Inr (S, known)
    | None \<Rightarrow> rbind (symlistVisit (Suc (length (universe defs sig))) ad defs known sig {}) (\<lambda>(S, visited).
        Inr (S, known(sig \<mapsto> S))))"

subsection \<open>Reachable symbols\<close>

definition is_symrec :: "tree \<Rightarrow> bool" where
  "is_symrec t \<longleftrightarrow> (case sig_view t of SvSymRec _ \<Rightarrow> True | _ \<Rightarrow> False)"

definition successors :: "recdefs \<Rightarrow> tree \<Rightarrow> tree list result" where
  "successors defs t = (if is_symrec t
     then case map_of defs t of None \<Rightarrow> Inl (Undefined ''null definition'') | Some body \<Rightarrow> Inr (tlist body)
     else getSubSignals defs t True)"

inductive sig_reach :: "recdefs \<Rightarrow> tree \<Rightarrow> tree \<Rightarrow> bool" for defs s where
  here: "sig_reach defs s s"
| onward: "sig_reach defs s t \<Longrightarrow> successors defs t = Inr xs \<Longrightarrow> x \<in> set xs \<Longrightarrow> sig_reach defs s x"

definition symbols :: "recdefs \<Rightarrow> tree \<Rightarrow> tree set" where
  "symbols defs s = {t. sig_reach defs s t \<and> is_symrec t}"

lemma sig_reach_trans: "sig_reach defs t u \<Longrightarrow> sig_reach defs s t \<Longrightarrow> sig_reach defs s u"
  by (induction rule: sig_reach.induct) (auto intro: sig_reach.onward)

lemma symbols_succ:
  assumes "successors defs t = Inr xs" "x \<in> set xs"
  shows "symbols defs x \<subseteq> symbols defs t"
proof -
  have "sig_reach defs t x" by (rule sig_reach.onward [OF sig_reach.here assms])
  then show ?thesis unfolding symbols_def using sig_reach_trans by blast
qed

lemma nthT_tlist: "map (\<lambda>i. nthT l (int i)) [0..<lenT l] = tlist l"
proof (induction l rule: tlist.induct)
  case (1 l)
  show ?case
  proof (cases "asList l")
    case None
    then show ?thesis by (simp add: tlist.simps [of l] lenT.simps [of l])
  next
    case (Some p)
    then obtain h t where l: "asList l = Some (h, t)" by (cases p) auto
    have "map (\<lambda>i. nthT l (int i)) [0..<lenT l] = nthT l 0 # map (\<lambda>i. nthT l (int (Suc i))) [0..<lenT t]"
      using l by (simp add: lenT.simps [of l] upt_conv_Cons map_Suc_upt [symmetric] del: upt_Suc)
    also have "\<dots> = h # map (\<lambda>i. nthT t (int i)) [0..<lenT t]"
      using l by (simp add: nthT.simps [of l])
    finally show ?thesis using 1 [OF l refl] l by (simp add: tlist.simps [of l])
  qed
qed


subsection \<open>The walk finds them all\<close>

definition covered :: "recdefs \<Rightarrow> tree set \<Rightarrow> tree set \<Rightarrow> tree \<Rightarrow> bool" where
  "covered defs V E y \<longleftrightarrow> y \<in> V \<or> symbols defs y \<subseteq> E"

text \<open>
  What a walk from the signals \<open>xs\<close> that starts with the visited signals \<open>V\<close> and the symbols \<open>E\<close>,
  and stops with \<open>V'\<close> and \<open>E'\<close>, has done.
\<close>

definition walked :: "recdefs \<Rightarrow> tree list \<Rightarrow> tree set \<Rightarrow> tree set \<Rightarrow> tree set \<Rightarrow> tree set \<Rightarrow> bool" where
  "walked defs xs V E V' E' \<longleftrightarrow> V \<subseteq> V' \<and> E \<subseteq> E' \<and> E' \<subseteq> E \<union> (\<Union>x \<in> set xs. symbols defs x) \<and>
     (\<forall>x \<in> set xs. covered defs V' E' x) \<and>
     (\<forall>x \<in> V' - V. (is_symrec x \<longrightarrow> x \<in> E') \<and>
        (\<forall>ys. successors defs x = Inr ys \<longrightarrow> (\<forall>y \<in> set ys. covered defs V' E' y)))"

lemma covered_mono: "covered defs V E y \<Longrightarrow> V \<subseteq> V' \<Longrightarrow> E \<subseteq> E' \<Longrightarrow> covered defs V' E' y"
  unfolding covered_def by blast

lemma walked_nil: "walked defs [] V E V E"
  by (simp add: walked_def)

lemma walked_cons:
  assumes "walked defs [x] V {} V1 S" "walked defs xs V1 (E \<union> S) V2 E2"
  shows "walked defs (x # xs) V E V2 E2"
proof -
  have m: "V1 \<subseteq> V2" "S \<subseteq> E2" using assms(2) by (auto simp: walked_def)
  note c = covered_mono [OF _ m]
  have "(is_symrec z \<longrightarrow> z \<in> E2) \<and> (\<forall>ys. successors defs z = Inr ys \<longrightarrow> (\<forall>y \<in> set ys. covered defs V2 E2 y))"
    if "z \<in> V2 - V" for z
    using that assms m c unfolding walked_def by (cases "z \<in> V1") blast+
  then show ?thesis using assms c unfolding walked_def by auto
qed

lemma walked_visit:
  assumes "successors defs x = Inr xs" "x \<notin> V"
    and "walked defs xs (insert x V) (if is_symrec x then {x} else {}) V' E'"
  shows "walked defs [x] V {} V' E'"
proof -
  have "x \<in> symbols defs x" if "is_symrec x" using that by (simp add: symbols_def sig_reach.here)
  moreover have "(\<Union>y \<in> set xs. symbols defs y) \<subseteq> symbols defs x" using symbols_succ [OF assms(1)] by blast
  moreover have "E' \<subseteq> (if is_symrec x then {x} else {}) \<union> (\<Union>y \<in> set xs. symbols defs y)"
    using assms(3) unfolding walked_def by blast
  ultimately have "E' \<subseteq> symbols defs x" by (cases "is_symrec x") (simp_all, blast)
  moreover have "(is_symrec z \<longrightarrow> z \<in> E') \<and> (\<forall>ys. successors defs z = Inr ys \<longrightarrow> (\<forall>y \<in> set ys. covered defs V' E' y))"
    if "z \<in> V' - V" for z
    using that assms(1,3) unfolding walked_def by (cases "z = x") (auto split: if_splits)
  ultimately show ?thesis using assms(3) unfolding walked_def by (auto simp: covered_def)
qed

lemma walked_complete:
  assumes "walked defs [s] {} {} V E"
    and succ: "\<And>t. sig_reach defs s t \<Longrightarrow> \<exists>xs. successors defs t = Inr xs"
  shows "E = symbols defs s"
proof
  show "E \<subseteq> symbols defs s" using assms(1) by (simp add: walked_def)
  have "covered defs V E t" if "sig_reach defs s t" for t
    using that
  proof induction
    case here
    show ?case using assms(1) by (simp add: walked_def)
  next
    case (onward t xs x)
    show ?case
    proof (cases "t \<in> V")
      case True
      then show ?thesis using assms(1) onward unfolding walked_def by auto
    next
      case False
      then have "symbols defs t \<subseteq> E" using onward by (simp add: covered_def)
      then show ?thesis using symbols_succ [OF onward(2,3)] by (auto simp: covered_def)
    qed
  qed
  moreover have "t \<in> symbols defs t" if "is_symrec t" for t using that by (simp add: symbols_def sig_reach.here)
  ultimately show "symbols defs s \<subseteq> E"
    using assms(1) unfolding walked_def covered_def symbols_def by blast
qed

text \<open>The assumptions of a walk: its signals are in a finite set that the walk cannot leave.\<close>

definition walkable :: "address \<Rightarrow> recdefs \<Rightarrow> (tree \<rightharpoonup> tree) \<Rightarrow> tree set \<Rightarrow> bool" where
  "walkable ad defs known R \<longleftrightarrow> inj ad \<and> finite R \<and>
     (\<forall>t \<in> R. \<exists>xs. successors defs t = Inr xs \<and> set xs \<subseteq> R) \<and>
     (\<forall>t S. known t = Some S \<longrightarrow> set_tree ad S \<and> elems S = symbols defs t)"

definition visits_ok :: "nat \<Rightarrow> address \<Rightarrow> recdefs \<Rightarrow> (tree \<rightharpoonup> tree) \<Rightarrow> tree set \<Rightarrow> bool" where
  "visits_ok n ad defs known R \<longleftrightarrow> (\<forall>sig V. sig \<in> R \<longrightarrow> V \<subseteq> R \<longrightarrow> card (R - V) < n \<longrightarrow>
      (\<exists>S V'. symlistVisit n ad defs known sig V = Inr (S, V') \<and> set_tree ad S \<and> V' \<subseteq> R \<and>
        walked defs [sig] V {} V' (elems S)))"

lemma symlistUnion_walk:
  assumes "walkable ad defs known R" "visits_ok n ad defs known R"
    and "set xs \<subseteq> R" "V \<subseteq> R" "card (R - V) < n" "set_tree ad U"
  shows "\<exists>S V'. symlistUnion n ad defs known xs U V = Inr (S, V') \<and> set_tree ad S \<and> V' \<subseteq> R \<and>
    walked defs xs V (elems U) V' (elems S)"
  using assms(3-6)
proof (induction xs arbitrary: U V)
  case Nil
  then show ?case by (simp add: walked_nil)
next
  case (Cons x xs)
  obtain S V1 where S: "symlistVisit n ad defs known x V = Inr (S, V1)" "set_tree ad S" "V1 \<subseteq> R"
    "walked defs [x] V {} V1 (elems S)"
    using assms(2) [unfolded visits_ok_def, rule_format, of x V] Cons.prems by auto
  obtain U1 where U1: "setUnion ad U S = Inr U1" "set_tree ad U1" "elems U1 = elems U \<union> elems S"
    using setUnion_spec [OF _ Cons.prems(4) S(2)] assms(1) by (auto simp: walkable_def)
  have "V \<subseteq> V1" using S(4) by (simp add: walked_def)
  then have "card (R - V1) \<le> card (R - V)" using assms(1) by (intro card_mono) (auto simp: walkable_def)
  then obtain T V2 where T: "symlistUnion n ad defs known xs U1 V1 = Inr (T, V2)" "set_tree ad T" "V2 \<subseteq> R"
    "walked defs xs V1 (elems U1) V2 (elems T)"
    using Cons.IH [of V1 U1] Cons.prems S(3) U1(2) by auto
  then show ?case using S U1 walked_cons [OF S(4), of xs "elems U"] by simp
qed

lemma symlistVisit_walk:
  assumes "walkable ad defs known R"
  shows "visits_ok n ad defs known R"
proof (induction n)
  case 0
  then show ?case by (simp add: visits_ok_def)
next
  case (Suc n)
  show ?case unfolding visits_ok_def
  proof (intro allI impI)
    fix sig V assume p: "sig \<in> R" "V \<subseteq> R" "card (R - V) < Suc n"
    show "\<exists>S V'. symlistVisit (Suc n) ad defs known sig V = Inr (S, V') \<and> set_tree ad S \<and> V' \<subseteq> R \<and>
      walked defs [sig] V {} V' (elems S)"
    proof (cases "known sig = None \<and> sig \<notin> V")
      case False
      with p assms show ?thesis
        by (cases "known sig") (auto simp: walkable_def walked_def covered_def)
    next
      case True
      obtain xs where xs: "successors defs sig = Inr xs" "set xs \<subseteq> R"
        using assms p unfolding walkable_def by blast
      let ?U = "if is_symrec sig then singleton sig else nil"
      have eq: "symlistVisit (Suc n) ad defs known sig V = symlistUnion n ad defs known xs ?U (insert sig V)"
        using True xs(1)
        by (auto simp: successors_def is_symrec_def nthT_tlist split: sig_form.splits option.splits)
      have "R - insert sig V \<subset> R - V" using True p by auto
      then have "card (R - insert sig V) < card (R - V)"
        using assms by (intro psubset_card_mono) (auto simp: walkable_def)
      then have c: "card (R - insert sig V) < n" using p(3) by simp
      have U: "set_tree ad ?U" "elems ?U = (if is_symrec sig then {sig} else {})" by (simp_all add: singleton_def)
      obtain S V' where "symlistUnion n ad defs known xs ?U (insert sig V) = Inr (S, V')" "set_tree ad S" "V' \<subseteq> R"
        "walked defs xs (insert sig V) (elems ?U) V' (elems S)"
        using symlistUnion_walk [OF assms Suc xs(2) _ c U(1)] p by blast
      then show ?thesis using eq walked_visit [OF xs(1)] True U(2) by auto
    qed
  qed
qed


lemma subtrees_self: "t \<in> set (subtrees t)"
  by (simp add: subtrees.simps [of t])

lemma subtrees_branch: "x \<in> set (subtrees t) \<Longrightarrow> y \<in> set (branches x) \<Longrightarrow> y \<in> set (subtrees t)"
proof (induction t rule: subtrees.induct)
  case (1 t)
  then show ?case using subtrees_self by (auto simp: subtrees.simps [of t])
qed

lemma subtrees_trans: "y \<in> set (subtrees x) \<Longrightarrow> x \<in> set (subtrees t) \<Longrightarrow> y \<in> set (subtrees t)"
proof (induction x rule: subtrees.induct)
  case (1 x)
  then show ?case using subtrees_branch [of x t] by (auto simp: subtrees.simps [of x])
qed

lemma branch_set: "branch t i = Inr x \<Longrightarrow> x \<in> set (branches t)"
  by (auto simp: branch_def arity_def split: if_splits)

lemma list_args_subtrees: "list_args l = Inr xs \<Longrightarrow> x \<in> set xs \<Longrightarrow> x \<in> set (subtrees l)"
proof (induction l arbitrary: xs rule: list_args.induct)
  case (1 l)
  show ?case
  proof (cases "isNil l")
    case False
    with "1.prems"(1) obtain h t r where l: "hdT l = Inr h" "tlT l = Inr t" "list_args t = Inr r" "xs = h # r"
      by (auto simp: list_args.simps [of l] rbind_eq_Inr)
    have sub: "h \<in> set (subtrees l)" "t \<in> set (subtrees l)"
      using l(1,2) subtrees_branch [OF subtrees_self] by (auto simp: hdT_def tlT_def dest: branch_set)
    show ?thesis
    proof (cases "x = h")
      case False
      then have "x \<in> set (subtrees t)" using "1.IH" [OF \<open>\<not> isNil l\<close> l(1,2,3)] "1.prems"(2) l(4) by simp
      then show ?thesis using sub(2) subtrees_trans by blast
    qed (use sub in simp)
  qed (use "1.prems" in \<open>simp add: list_args.simps [of l]\<close>)
qed

lemma tlist_subtrees: "x \<in> set (tlist l) \<Longrightarrow> x \<in> set (subtrees l)"
proof (induction l rule: tlist.induct)
  case (1 l)
  from "1.prems" obtain h t where l: "asList l = Some (h, t)"
    by (cases "asList l") (auto simp: tlist.simps [of l])
  then have e: "l = cons h t" by (simp add: asList_Some)
  have sub: "h \<in> set (subtrees l)" "t \<in> set (subtrees l)"
    using subtrees_branch [OF subtrees_self [of l]] by (simp_all add: e cons_def)
  show ?case using "1.IH" [OF l refl] "1.prems" sub subtrees_trans [OF _ sub(2)] by (auto simp: e)
qed

lemma subtrees_size: "y \<in> set (subtrees l) \<Longrightarrow> size y \<le> size l"
proof (induction l rule: subtrees.induct)
  case (1 l)
  then consider "y = l" | b where "b \<in> set (branches l)" "y \<in> set (subtrees b)"
    by (auto simp: subtrees.simps [of l])
  then show ?case
  proof cases
    case 2
    then show ?thesis using "1.IH" [OF 2] size_branch [OF 2(1)] by simp
  qed simp
qed

lemma getSubSignals_subtrees:
  assumes "getSubSignals defs t g = Inr xs" "\<not> is_symrec t" "x \<in> set xs"
  shows "x \<in> set (subtrees t) \<and> size x < size t"
proof -
  have v: "y \<in> set (subtrees t) \<and> size y < size t" if "y \<in> set (view_trees (sig_view t)) \<union> set (branches t)" for y
    using that view_trees_branches [of y t] subtrees_branch [OF subtrees_self, of y t] size_branch by blast
  show ?thesis
  proof (cases "sig_view t")
    case (SvFFun ff l)
    then have l: "list_args l = Inr xs" using assms(1) by (simp add: getSubSignals_def)
    have "l \<in> set (subtrees t) \<and> size l < size t" using v SvFFun by (simp add: view_trees_def)
    moreover have "x \<in> set (subtrees l)" using list_args_subtrees [OF l assms(3)] .
    ultimately show ?thesis using subtrees_trans [of x l t] subtrees_size [of x l] by simp
  qed (insert assms v, auto simp: getSubSignals_def view_trees_def is_symrec_def split: if_splits)
qed

lemma successors_universe:
  assumes "successors defs t = Inr xs" "x \<in> set xs" "t \<in> set (universe defs s)"
  shows "x \<in> set (universe defs s)"
proof (cases "is_symrec t")
  case True
  then obtain b where "(t, b) \<in> set defs" "xs = tlist b"
    using assms(1) by (auto simp: successors_def dest: map_of_SomeD split: option.splits)
  then show ?thesis using assms(2) tlist_subtrees by (force simp: universe_def)
next
  case False
  then have "x \<in> set (subtrees t)" using assms getSubSignals_subtrees by (simp add: successors_def)
  then show ?thesis using assms(3) by (auto simp: universe_def intro: subtrees_trans)
qed

section \<open>Recursiveness\<close>

fun position :: "tree \<Rightarrow> tree \<Rightarrow> int \<Rightarrow> int" where
  "position env t p = (case asList env of
      None \<Rightarrow> 0
    | Some (h, r) \<Rightarrow> if h = t then p else position r t (p + 1))"

declare position.simps [simp del]

lemma position_zero: "0 < p \<Longrightarrow> \<not> 0 < position env t p \<Longrightarrow> t \<notin> elems env"
proof (induction env t p rule: position.induct)
  case (1 env t p)
  show ?case
  proof (cases "asList env")
    case (Some q)
    then obtain h r where q: "asList env = Some (h, r)" by (cases q) auto
    with "1.prems" have "h \<noteq> t" "\<not> 0 < position r t (p + 1)" by (auto simp: position.simps [of env] split: if_splits)
    with "1.IH" [OF q refl] "1.prems"(1) q show ?thesis by (simp add: elems.simps [of env])
  qed (simp add: elems.simps [of env])
qed

definition rec_keys :: "recdefs \<Rightarrow> tree \<Rightarrow> tree set" where
  "rec_keys defs env = set (map fst defs) - elems env"

fun max_over :: "('a \<Rightarrow> ('s, int) mm) \<Rightarrow> 'a list \<Rightarrow> int \<Rightarrow> ('s, int) mm" where
  "max_over f [] rmax = mret rmax"
| "max_over f (x # xs) rmax = mbind (f x) (\<lambda>r. max_over f xs (if r > rmax then r else rmax))"

lemma max_over_cong [fundef_cong]:
  "xs = ys \<Longrightarrow> r = s \<Longrightarrow> (\<And>x. x \<in> set ys \<Longrightarrow> f x = g x) \<Longrightarrow> max_over f xs r = max_over g ys s"
proof (induction xs arbitrary: ys r s)
  case (Cons x xs)
  then show ?case by (auto intro!: mbind_cong Cons.IH)
qed auto

function annotate :: "recdefs \<Rightarrow> tree \<Rightarrow> tree \<Rightarrow> (tree \<rightharpoonup> int) \<Rightarrow> (int \<times> (tree \<rightharpoonup> int)) result" where
  "annotate defs env sig m = (case m sig of
      Some r \<Rightarrow> Inr (r, m)
    | None \<Rightarrow> if is_symrec sig
        then let p = position env sig 1 in
          if 0 < p then Inr (p, m)
          else (case map_of defs sig of
              None \<Rightarrow> Inl (Undefined ''null definition'')
            | Some body \<Rightarrow> rbind (annotate defs (cons sig env) body m) (\<lambda>(r, m1).
                let r' = (if r - 1 < 0 then 0 else r - 1) in Inr (r', m1(sig \<mapsto> r'))))
        else rbind (getSubSignals defs sig False) (\<lambda>v.
          rbind (max_over (annotate defs env) v 0 m) (\<lambda>(rmax, m1). Inr (rmax, m1(sig \<mapsto> rmax)))))"
  by pat_completeness auto
termination
proof (relation "inv_image (less_than <*lex*> less_than)
    (\<lambda>(defs, env, sig, m). (card (rec_keys defs env), size sig))", goal_cases)
  case (2 defs env sig m p body)
  then have "sig \<notin> elems env" "sig \<in> set (map fst defs)"
    using position_zero [of 1 env sig] by (force dest: map_of_SomeD)+
  then have "rec_keys defs (cons sig env) \<subset> rec_keys defs env" by (auto simp: rec_keys_def)
  then have "card (rec_keys defs (cons sig env)) < card (rec_keys defs env)"
    by (rule psubset_card_mono [rotated]) (simp add: rec_keys_def)
  then show ?case by simp
next
  case (3 defs env sig m v x)
  then show ?case using getSubSignals_subtrees by simp
qed auto

definition recursivnessAnnotation :: "recdefs \<Rightarrow> tree \<Rightarrow> (tree \<rightharpoonup> int) \<Rightarrow> (tree \<rightharpoonup> int) result" where
  "recursivnessAnnotation defs sig m = rbind (annotate defs nil sig m) (\<lambda>(r, m1). Inr m1)"

definition getRecursivness :: "tree \<Rightarrow> (tree \<rightharpoonup> int) \<Rightarrow> int result" where
  "getRecursivness sig m = (case m sig of
      Some r \<Rightarrow> Inr r | None \<Rightarrow> Inl (FaustException ''getRecursivness''))"

declare annotate.simps [simp del]


definition table_bounded :: "int \<Rightarrow> (tree \<rightharpoonup> int) \<Rightarrow> bool" where
  "table_bounded k m \<longleftrightarrow> (\<forall>t r. m t = Some r \<longrightarrow> 0 \<le> r \<and> r \<le> k)"

lemma position_bounds: "0 < p \<Longrightarrow> 0 \<le> position env t p \<and> position env t p \<le> p + int (lenT env) - 1"
proof (induction env t p rule: position.induct)
  case (1 env t p)
  show ?case
  proof (cases "asList env")
    case (Some q)
    then obtain h r where q: "asList env = Some (h, r)" by (cases q) auto
    with "1.IH" [OF q refl] "1.prems" show ?thesis by (auto simp: position.simps [of env] lenT.simps [of env])
  qed (use "1.prems" in \<open>simp add: position.simps [of env]\<close>)
qed

lemma position_pos: "position env t p \<noteq> 0 \<Longrightarrow> t \<in> elems env"
proof (induction env t p rule: position.induct)
  case (1 env t p)
  from "1.prems" obtain h r where q: "asList env = Some (h, r)"
    by (cases "asList env") (auto simp: position.simps [of env])
  with "1.IH" [OF q refl] "1.prems" show ?case
    by (auto simp: position.simps [of env] elems.simps [of env] split: if_splits)
qed

definition env_ok :: "recdefs \<Rightarrow> tree \<Rightarrow> bool" where
  "env_ok defs env \<longleftrightarrow> lenT env = card (elems env) \<and> elems env \<subseteq> set (map fst defs)"

lemma finite_elems: "finite (elems l)"
proof (induction l rule: elems.induct)
  case (1 l)
  then show ?case by (cases "asList l") (auto simp: elems.simps [of l])
qed

lemma env_ok_len: "env_ok defs env \<Longrightarrow> lenT env \<le> length defs"
  unfolding env_ok_def using card_mono [of "set (map fst defs)" "elems env"] card_length [of "map fst defs"] by auto

definition annotated :: "int \<Rightarrow> (tree \<rightharpoonup> int) \<Rightarrow> int \<times> (tree \<rightharpoonup> int) \<Rightarrow> bool" where
  "annotated k m res \<longleftrightarrow> table_bounded k (snd res) \<and> 0 \<le> fst res \<and> fst res \<le> k \<and> dom m \<subseteq> dom (snd res)"

lemma max_over_annotated:
  assumes "\<And>x m res. x \<in> set xs \<Longrightarrow> table_bounded k m \<Longrightarrow> f x m = Inr res \<Longrightarrow> annotated k m res"
    and "table_bounded k m" "0 \<le> r" "r \<le> k" "max_over f xs r m = Inr res"
  shows "annotated k m res"
  using assms
proof (induction xs arbitrary: r m)
  case Nil
  then show ?case by (auto simp: annotated_def)
next
  case (Cons x xs)
  obtain q m1 where q: "f x m = Inr (q, m1)" "max_over f xs (if q > r then q else r) m1 = Inr res"
    using Cons.prems(5) by (auto simp: mbind_def rbind_eq_Inr)
  have a: "annotated k m (q, m1)" using Cons.prems(1) [OF _ Cons.prems(2) q(1)] by simp
  have f: "annotated k n res" if "y \<in> set xs" "table_bounded k n" "f y n = Inr res" for y n res
    using that Cons.prems(1) [of y n res] by simp
  have "annotated k m1 res"
    by (rule Cons.IH [OF f _ _ _ q(2)]) (use a Cons.prems(3,4) in \<open>auto simp: annotated_def\<close>)
  with a show ?case by (auto simp: annotated_def)
qed

lemma annotate_annotated:
  assumes "env_ok defs env" "table_bounded (int (length defs)) m" "annotate defs env sig m = Inr res"
  shows "annotated (int (length defs)) m res \<and> (snd res sig = Some (fst res) \<or> sig \<in> elems env)"
  using assms
proof (induction defs env sig m arbitrary: res rule: annotate.induct)
  case (1 defs env sig m)
  let ?k = "int (length defs)"
  show ?case
  proof (cases "m sig")
    case (Some r)
    with "1.prems" show ?thesis by (auto simp: annotate.simps [of _ _ sig] annotated_def table_bounded_def)
  next
    case None
    show ?thesis
    proof (cases "is_symrec sig")
      case True
      show ?thesis
      proof (cases "0 < position env sig 1")
        case True
        then have "sig \<in> elems env" using position_pos [of env sig 1] by simp
        then show ?thesis using "1.prems" None True \<open>is_symrec sig\<close> position_bounds [of 1 env sig] env_ok_len
          by (fastforce simp: annotate.simps [of _ _ sig] annotated_def)
      next
        case False
        then obtain b r m1 where b: "map_of defs sig = Some b" "annotate defs (cons sig env) b m = Inr (r, m1)"
          "res = ((if r - 1 < 0 then 0 else r - 1), m1(sig \<mapsto> (if r - 1 < 0 then 0 else r - 1)))"
          using "1.prems"(3) None \<open>is_symrec sig\<close>
          by (auto simp: annotate.simps [of _ _ sig] Let_def rbind_eq_Inr split: option.splits)
        have n: "sig \<notin> elems env" using position_zero [OF _ False] by simp
        have "sig \<in> set (map fst defs)" using b(1) by (force dest: map_of_SomeD)
        then have "env_ok defs (cons sig env)"
          using "1.prems"(1) n finite_elems [of env] by (auto simp: env_ok_def lenT.simps [of "cons sig env"])
        then have "annotated ?k m (r, m1)"
          using "1.IH"(1) [OF None True refl False b(1)] "1.prems"(2) b(2) by blast
        then show ?thesis by (auto simp: b(3) annotated_def table_bounded_def)
      qed
    next
      case False
      then obtain v r m1 where v: "getSubSignals defs sig False = Inr v" "max_over (annotate defs env) v 0 m = Inr (r, m1)"
        "res = (r, m1(sig \<mapsto> r))"
        using "1.prems"(3) None by (auto simp: annotate.simps [of _ _ sig] rbind_eq_Inr)
      have "annotated ?k m (r, m1)"
        by (rule max_over_annotated [OF _ "1.prems"(2) _ _ v(2)]) (use "1.IH"(2) [OF None False v(1)] "1.prems"(1) in auto)
      then show ?thesis by (auto simp: v(3) annotated_def table_bounded_def)
    qed
  qed
qed


text \<open>
  A set of signals is closed when the definition of each of its recursive symbols and the
  sub-signals of each other signal are known and in the set.
\<close>

definition closed_signals :: "recdefs \<Rightarrow> tree set \<Rightarrow> bool" where
  "closed_signals defs R \<longleftrightarrow> (\<forall>t \<in> R. if is_symrec t then \<exists>b \<in> R. map_of defs t = Some b
     else \<exists>v. getSubSignals defs t False = Inr v \<and> set v \<subseteq> R)"

lemma max_over_returns:
  "(\<And>x m. x \<in> set xs \<Longrightarrow> \<exists>res. f x m = Inr res) \<Longrightarrow> \<exists>res. max_over f xs r m = Inr res"
proof (induction xs arbitrary: r m)
  case (Cons x xs)
  obtain q m1 where q: "f x m = Inr (q, m1)" using Cons.prems [of x m] by auto
  have "\<exists>res. max_over f xs (if q > r then q else r) m1 = Inr res"
    by (rule Cons.IH) (use Cons.prems in auto)
  with q show ?case by (auto simp: mbind_def)
qed simp

lemma annotate_returns:
  "closed_signals defs R \<Longrightarrow> sig \<in> R \<Longrightarrow> \<exists>res. annotate defs env sig m = Inr res"
proof (induction defs env sig m rule: annotate.induct)
  case (1 defs env sig m)
  note R = "1.prems"(1) [unfolded closed_signals_def, rule_format, OF "1.prems"(2)]
  show ?case
  proof (cases "m sig = None")
    case None: True
    show ?thesis
    proof (cases "is_symrec sig")
      case True
      then obtain b where b: "map_of defs sig = Some b" "b \<in> R" using R by auto
      show ?thesis
        using "1.IH"(1) [OF None True refl _ b(1) "1.prems"(1) b(2)] None True b(1)
        by (cases "0 < position env sig 1") (auto simp: annotate.simps [of defs env sig] Let_def)
    next
      case False
      then obtain v where v: "getSubSignals defs sig False = Inr v" "set v \<subseteq> R" using R by auto
      have "\<exists>res. max_over (annotate defs env) v 0 m = Inr res"
        by (rule max_over_returns) (use "1.IH"(2) [OF None False v(1) _ "1.prems"(1)] v(2) in auto)
      with None False v(1) show ?thesis by (auto simp: annotate.simps [of defs env sig])
    qed
  qed (auto simp: annotate.simps [of defs env sig])
qed

definition sym_W :: tree where
  "sym_W = Tree (NSym (KTree SYMREC)) [leaf (NSym (Name ''W''))]"

definition delayed_W :: tree where
  "delayed_W = sigDelay1 (sigProj 0 sym_W)"

definition defs_W :: recdefs where
  "defs_W = [(sym_W, list_tree [sigBinOp kAdd (sigInt 1) delayed_W])]"

lemma symlist_returns:
  assumes "inj ad"
    and "\<forall>t. sig_reach defs sig t \<longrightarrow> (\<exists>xs. successors defs t = Inr xs)"
    and "\<forall>t S. known t = Some S \<longrightarrow> set_tree ad S \<and> elems S = symbols defs t"
  shows "\<exists>S known1. symlist ad defs sig known = Inr (S, known1) \<and> set_tree ad S \<and> elems S = symbols defs sig \<and>
    (\<forall>t S. known1 t = Some S \<longrightarrow> set_tree ad S \<and> elems S = symbols defs t)"
proof (cases "known sig")
  case (Some S)
  then show ?thesis using assms(3) by (auto simp: symlist_def)
next
  case None
  define R where "R = {t \<in> set (universe defs sig). sig_reach defs sig t}"
  have fin: "finite R" by (simp add: R_def)
  have "\<exists>xs. successors defs t = Inr xs \<and> set xs \<subseteq> R" if t: "t \<in> R" for t
  proof -
    obtain xs where xs: "successors defs t = Inr xs" using assms(2) t by (auto simp: R_def)
    have "x \<in> R" if "x \<in> set xs" for x
      using t successors_universe [OF xs that] sig_reach.onward [OF _ xs that] by (auto simp: R_def)
    with xs show ?thesis by blast
  qed
  then have "walkable ad defs known R" using assms(1,3) fin by (simp add: walkable_def)
  from symlistVisit_walk [OF this]
  have v: "visits_ok (Suc (length (universe defs sig))) ad defs known R" .
  have "sig \<in> R" by (simp add: R_def universe_def subtrees_self sig_reach.here)
  moreover have "card R < Suc (length (universe defs sig))"
    using card_mono [of "set (universe defs sig)" R] card_length [of "universe defs sig"] by (simp add: R_def)
  ultimately obtain S V where S: "symlistVisit (Suc (length (universe defs sig))) ad defs known sig {} = Inr (S, V)"
    "set_tree ad S" "walked defs [sig] {} {} V (elems S)"
    using v [unfolded visits_ok_def, rule_format, of sig "{}"] by auto
  have "elems S = symbols defs sig" using walked_complete [OF S(3)] assms(2) by blast
  with S(1,2) None assms(3) show ?thesis by (auto simp: symlist_def)
qed

section \<open>Properties\<close>

text \<open>
  Property C13 (recursive symbols).  If every signal that can be reached from \<open>sig\<close> is well formed
  and the stored answers are right, \<^verbatim>\<open>symlist\<close> returns: the bound on its nesting is enough although
  the graph of a recursive signal is cyclic, and its answer is exactly the set of the recursive
  symbols that can be reached, as an ordered list; the answers it stores are right.
\<close>

theorem symlist_correct:
  assumes "inj ad"
    and "\<forall>t. sig_reach defs sig t \<longrightarrow> (\<exists>xs. successors defs t = Inr xs)"
    and "\<forall>t S. known t = Some S \<longrightarrow> set_tree ad S \<and> elems S = symbols defs t"
  shows "\<exists>S known1. symlist ad defs sig known = Inr (S, known1) \<and> set_tree ad S \<and> elems S = symbols defs sig \<and>
    (\<forall>t S. known1 t = Some S \<longrightarrow> set_tree ad S \<and> elems S = symbols defs t)"
  using assms by (rule symlist_returns)



theorem symlist_correct_witness:
  "\<exists>S known1. symlist (addr_in init) [] (sigInt 5) Map.empty = Inr (S, known1) \<and> elems S = symbols [] (sigInt 5)"
proof -
  have s: "successors [] (sigInt 5) = Inr []" by (simp add: successors_def is_symrec_def getSubSignals_def)
  have "t = sigInt 5" if "sig_reach [] (sigInt 5) t" for t
    using that by induction (use s in auto)
  with s have "\<forall>t. sig_reach [] (sigInt 5) t \<longrightarrow> (\<exists>xs. successors [] t = Inr xs)" by auto
  from symlist_correct [OF heap.ad_inj this, of Map.empty] show ?thesis by auto
qed

end
