(* ===== verification/TypeRules.thy ===== *)
theory TypeRules
  imports SigType Recursiveness
begin

text \<open>
  The typing rules of signals (\<^verbatim>\<open>signals/sigtyperules.cpp\<close>) and the rules of the extended primitives
  (\<^verbatim>\<open>infereSigType\<close> in \<^verbatim>\<open>extended/*prim.hh\<close>).

  \<open>T\<close> looks a signal up among those typed in the current visit and types it with
  \<open>infereSigType\<close> otherwise; the table of the types set in the current visit is its state.
  \<open>typeOf\<close> is the same rule without the table, for given types of the recursive symbols.
  \<open>typeAnnotation\<close> gives each recursive symbol an initial type and iterates the rules on the
  definitions until the types of the symbols no longer change; the number of iterations is an
  argument.
\<close>

section \<open>Extended primitives\<close>

definition halfpi :: double where
  "halfpi = DFin (884279719003555 / 562949953421312)"

definition type_at :: "audiotype list \<Rightarrow> nat \<Rightarrow> audiotype result" where
  "type_at v i = (if i < length v then Inr (v ! i) else Inl (Undefined ''types''))"

definition arg1 :: "audiotype list \<Rightarrow> (audiotype \<Rightarrow> audiotype result) \<Rightarrow> audiotype result" where
  "arg1 args f = rbind (assert_that (length args = 1) ''arity'') (\<lambda>_. rbind (type_at args 0) f)"

definition arg2 :: "audiotype list \<Rightarrow> (audiotype \<Rightarrow> audiotype \<Rightarrow> audiotype result) \<Rightarrow> audiotype result" where
  "arg2 args f = rbind (assert_that (length args = 2) ''arity'') (\<lambda>_.
     rbind (type_at args 0) (\<lambda>a. rbind (type_at args 1) (\<lambda>b. f a b)))"

definition absprim_type :: "audiotype list \<Rightarrow> audiotype result" where
  "absprim_type types = arg1 types (\<lambda>t. Inr (castInterval t (i_abs (getInterval t))))"

definition acosprim_type :: "audiotype list \<Rightarrow> audiotype result" where
  "acosprim_type args = arg1 args (\<lambda>t. Inr (floatCast t))"

definition asinprim_type :: "audiotype list \<Rightarrow> audiotype result" where
  "asinprim_type args = arg1 args (\<lambda>t. Inr (floatCast t))"

definition atan2prim_type :: "audiotype list \<Rightarrow> audiotype result" where
  "atan2prim_type args = arg2 args (\<lambda>a b. rbind (type_or a b) (\<lambda>t. Inr (floatCast t)))"

definition atanprim_type :: "audiotype list \<Rightarrow> audiotype result" where
  "atanprim_type args = arg1 args (\<lambda>t. Inr (floatCast t))"

definition ceilprim_type :: "audiotype list \<Rightarrow> audiotype result" where
  "ceilprim_type args = arg1 args (\<lambda>t. Inr (floatCast t))"

definition cosprim_type :: "audiotype list \<Rightarrow> audiotype result" where
  "cosprim_type args = arg1 args (\<lambda>t. Inr (castInterval (floatCast t) (interval2 (DFin (- 1)) (DFin 1))))"

definition expprim_type :: "audiotype list \<Rightarrow> audiotype result" where
  "expprim_type args = arg1 args (\<lambda>t. Inr (floatCast t))"

definition floorprim_type :: "audiotype list \<Rightarrow> audiotype result" where
  "floorprim_type args = arg1 args (\<lambda>t. Inr (floatCast t))"

definition fmodprim_type :: "audiotype list \<Rightarrow> audiotype result" where
  "fmodprim_type args = arg2 args (\<lambda>a b. rbind (type_or a b) (\<lambda>t. Inr (floatCast t)))"

definition log10prim_type :: "libm \<Rightarrow> audiotype list \<Rightarrow> audiotype result" where
  "log10prim_type lm args = arg1 args (\<lambda>t. let i = getInterval t in
     Inr (castInterval (floatCast t) (if iv_valid i \<and> dlt (DFin 0) (iv_lo i)
       then interval2 (lm_log10 lm (iv_lo i)) (lm_log10 lm (iv_hi i)) else interval0)))"

definition logprim_type :: "libm \<Rightarrow> audiotype list \<Rightarrow> audiotype result" where
  "logprim_type lm args = arg1 args (\<lambda>t. let i = getInterval t in
     Inr (castInterval (floatCast t) (if iv_valid i \<and> dlt (DFin 0) (iv_lo i)
       then interval2 (lm_log lm (iv_lo i)) (lm_log lm (iv_hi i)) else interval0)))"

definition maxprim_type :: "audiotype list \<Rightarrow> audiotype result" where
  "maxprim_type types = arg2 types (\<lambda>a b. rbind (type_or a b) (\<lambda>t.
     Inr (castInterval t (i_max (getInterval a) (getInterval b)))))"

definition minprim_type :: "audiotype list \<Rightarrow> audiotype result" where
  "minprim_type types = arg2 types (\<lambda>a b. rbind (type_or a b) (\<lambda>t.
     Inr (castInterval t (i_min (getInterval a) (getInterval b)))))"

definition powprim_type :: "libm \<Rightarrow> audiotype list \<Rightarrow> audiotype result" where
  "powprim_type lm args = arg2 args (\<lambda>a b. rbind (type_or a b) (\<lambda>t.
     Inr (castInterval t (i_pow lm (getInterval a) (getInterval b)))))"

definition remainderprim_type :: "audiotype list \<Rightarrow> audiotype result" where
  "remainderprim_type args = arg2 args (\<lambda>a b. rbind (type_or a b) (\<lambda>t.
     Inr (castInterval (floatCast t) interval0)))"

definition rintprim_type :: "audiotype list \<Rightarrow> audiotype result" where
  "rintprim_type args = arg1 args (\<lambda>t. let i = getInterval t in
     Inr (castInterval (floatCast t) (if iv_valid i
       then interval2 (drint (iv_lo i)) (drint (iv_hi i)) else interval0)))"

definition sinprim_type :: "audiotype list \<Rightarrow> audiotype result" where
  "sinprim_type args = arg1 args (\<lambda>t. Inr (castInterval (floatCast t) (interval2 (DFin (- 1)) (DFin 1))))"

definition sqrtprim_type :: "libm \<Rightarrow> audiotype list \<Rightarrow> audiotype result" where
  "sqrtprim_type lm args = arg1 args (\<lambda>t. let i = getInterval t in
     Inr (castInterval (floatCast t) (if iv_valid i \<and> dle (DFin 0) (iv_lo i)
       then interval2 (lm_sqrt lm (iv_lo i)) (lm_sqrt lm (iv_hi i)) else interval0)))"

definition tanprim_type :: "libm \<Rightarrow> audiotype list \<Rightarrow> audiotype result" where
  "tanprim_type lm args = arg1 args (\<lambda>t. let i = getInterval t in
     Inr (castInterval (floatCast t) (if iv_valid i \<and> dlt (dneg halfpi) (iv_lo i) \<and> dlt (iv_hi i) halfpi
       then interval2 (lm_tan lm (iv_lo i)) (lm_tan lm (iv_hi i)) else interval0)))"

definition xtInfereSigType :: "libm \<Rightarrow> xprim \<Rightarrow> audiotype list \<Rightarrow> audiotype result" where
  "xtInfereSigType lm p vt = (case p of
      XAbs \<Rightarrow> absprim_type vt
    | XAcos \<Rightarrow> acosprim_type vt
    | XAsin \<Rightarrow> asinprim_type vt
    | XAtan \<Rightarrow> atanprim_type vt
    | XAtan2 \<Rightarrow> atan2prim_type vt
    | XCeil \<Rightarrow> ceilprim_type vt
    | XCos \<Rightarrow> cosprim_type vt
    | XExp \<Rightarrow> expprim_type vt
    | XFloor \<Rightarrow> floorprim_type vt
    | XFmod \<Rightarrow> fmodprim_type vt
    | XLog \<Rightarrow> logprim_type lm vt
    | XLog10 \<Rightarrow> log10prim_type lm vt
    | XMax \<Rightarrow> maxprim_type vt
    | XMin \<Rightarrow> minprim_type vt
    | XPow \<Rightarrow> powprim_type lm vt
    | XRemainder \<Rightarrow> remainderprim_type vt
    | XRint \<Rightarrow> rintprim_type vt
    | XSin \<Rightarrow> sinprim_type vt
    | XSqrt \<Rightarrow> sqrtprim_type lm vt
    | XTan \<Rightarrow> tanprim_type lm vt)"

section \<open>Rules\<close>

definition arithmetic :: "int \<Rightarrow> interval \<Rightarrow> interval \<Rightarrow> interval result" where
  "arithmetic op x y =
     (if op = opcode kAdd then Inr (i_add x y)
      else if op = opcode kSub then Inr (i_sub x y)
      else if op = opcode kMul then Inr (i_mul x y)
      else if op = opcode kDiv then Inr (i_div x y)
      else if op = opcode kRem then Inr (i_rem x y)
      else if op = opcode kLsh then Inr (i_lsh x y)
      else if op = opcode kRsh then Inr (i_rsh x y)
      else if op = opcode kGT then Inr (i_gt x y)
      else if op = opcode kLT then Inr (i_lt x y)
      else if op = opcode kGE then Inr (i_ge x y)
      else if op = opcode kLE then Inr (i_le x y)
      else if op = opcode kEQ then Inr (i_eq x y)
      else if op = opcode kNE then Inr (i_ne x y)
      else if op = opcode kAND then Inr (i_and x y)
      else if op = opcode kOR then Inr (i_or x y)
      else if op = opcode kXOR then Inr (i_xor x y)
      else Inl (FaustException ''unrecognized opcode''))"

definition infereProjType :: "audiotype \<Rightarrow> int \<Rightarrow> int \<Rightarrow> audiotype result" where
  "infereProjType t i vec = (case t of
      TupletType q vt \<Rightarrow>
        if 0 \<le> i \<and> nat i < length vt
        then let temp = promoteVectorability vec (promoteComputability (computability t)
                          (promoteVariability (variability t) (vt ! nat i)))
             in Inr (if vec = kVect then vecCast temp else temp)
        else Inl (Undefined ''tuplet component'')
    | _ \<Rightarrow> Inl (FaustException ''infering projection type, not a tuplet type''))"

definition is_index :: "audiotype \<Rightarrow> bool" where
  "is_index t = (case t of SimpleType q \<Rightarrow> \<not> q_nature q > kInt | _ \<Rightarrow> False)"

definition infereWriteTableType :: "audiotype \<Rightarrow> audiotype \<Rightarrow> audiotype \<Rightarrow> audiotype result" where
  "infereWriteTableType tbl wi wd = (case tbl of
      TableType q ct \<Rightarrow> if \<not> is_index wi then Inl (FaustException ''infering write table type, wrong write index type'')
        else Inr (makeTableType ct)
    | _ \<Rightarrow> Inl (FaustException ''infering write table type, wrong table type''))"

definition infereReadTableType :: "audiotype \<Rightarrow> audiotype \<Rightarrow> audiotype result" where
  "infereReadTableType tbl ri = (case tbl of
      TableType q ct \<Rightarrow> if \<not> is_index ri then Inl (FaustException ''infering read table type, wrong write index type'')
        else Inr (promoteBoolean (boolean ri OR boolean tbl)
               (promoteVectorability (vectorability ri OR vectorability tbl)
                 (promoteComputability (computability ri OR computability tbl)
                   (promoteVariability (variability ri OR variability tbl) ct))))
    | _ \<Rightarrow> Inl (FaustException ''infering read table type, wrong table type''))"

definition check_size :: "audiotype \<Rightarrow> audiotype result" where
  "check_size sz = rbind (checkInit sz) (\<lambda>t. rbind (checkInt t) checkKonst)"

definition infereDocConstantTblType :: "audiotype \<Rightarrow> audiotype \<Rightarrow> audiotype result" where
  "infereDocConstantTblType sz ini = rbind (check_size sz) (\<lambda>_. Inr ini)"

definition infereDocWriteTblType :: "audiotype \<Rightarrow> audiotype \<Rightarrow> audiotype \<Rightarrow> audiotype \<Rightarrow> audiotype result" where
  "infereDocWriteTblType sz ini widx wsig = rbind (check_size sz) (\<lambda>_.
     Inr (promoteBoolean (boolean wsig) (promoteNature (nature wsig) (promoteVectorability kScal
       (promoteComputability (computability widx OR computability wsig) (promoteVariability kSamp ini))))))"

definition infereDocAccessTblType :: "audiotype \<Rightarrow> audiotype \<Rightarrow> audiotype result" where
  "infereDocAccessTblType tbl ridx = Inr (promoteVectorability (vectorability ridx)
     (promoteComputability (computability ridx) (promoteVariability (variability ridx) tbl)))"

definition initialRecType :: "tree \<Rightarrow> audiotype result" where
  "initialRecType t = rbind (assert_that (isList t) ''isList'') (\<lambda>_. Inr (newTupletType (map (\<lambda>_. TREC) (tlist t))))"

definition infereFConstType :: "tree \<Rightarrow> audiotype result" where
  "infereFConstType type = rbind (tree2int type) (\<lambda>n. Inr (makeSimpleType n kKonst kInit kVect kNum interval0))"

definition infereFVarType :: "tree \<Rightarrow> audiotype result" where
  "infereFVarType type = rbind (tree2int type) (\<lambda>n. Inr (makeSimpleType n kBlock kExec kVect kNum interval0))"

fun or_all :: "(tree \<Rightarrow> ('s, audiotype) mm) \<Rightarrow> tree list \<Rightarrow> audiotype \<Rightarrow> ('s, audiotype) mm" where
  "or_all T1 [] t = mret t"
| "or_all T1 (x # xs) t = mbind (T1 x) (\<lambda>u. mbind (mlift (type_or t u)) (or_all T1 xs))"

definition infereFFType :: "(tree \<Rightarrow> ('s, audiotype) mm) \<Rightarrow> tree \<Rightarrow> tree \<Rightarrow> ('s, audiotype) mm" where
  "infereFFType T1 ff ls = mbind (mlift (ffarity ff)) (\<lambda>n.
     if n = 0 then mbind (mlift (ffrestype ff)) (\<lambda>res. mret (makeSimpleType res kSamp kInit kVect kNum interval0))
     else mbind (or_all T1 (tlist ls) (makeSimpleType kInt kKonst kInit kVect kNum interval0)) (\<lambda>t.
       mbind (mlift (ffrestype ff)) (\<lambda>res.
         mret (makeSimpleType res (variability t) (computability t) (vectorability t) (boolean t) interval0))))"

fun wave_range :: "(tree \<Rightarrow> ('s, audiotype) mm) \<Rightarrow> tree list \<Rightarrow> double \<Rightarrow> double \<Rightarrow> bool \<Rightarrow> ('s, audiotype) mm" where
  "wave_range T1 [] lo hi iflag =
     mret (makeSimpleType (if iflag then kInt else kReal) kSamp kComp kScal kNum (interval2 lo hi))"
| "wave_range T1 (v # vs) lo hi iflag = mbind (T1 v) (\<lambda>_. mbind (mlift (tree2float v)) (\<lambda>f.
     wave_range T1 vs (if dlt f lo then f else lo) (if dlt f lo then hi else if dlt hi f then f else hi)
       (iflag \<and> isIntNode (node v))))"

definition infereWaveformType :: "(tree \<Rightarrow> ('s, audiotype) mm) \<Rightarrow> tree \<Rightarrow> ('s, audiotype) mm" where
  "infereWaveformType T1 wfsig = (case branches wfsig of
      [] \<Rightarrow> mlift (Inl (FaustException ''empty waveform''))
    | v # vs \<Rightarrow> mbind (mlift (tree2float v)) (\<lambda>f. mbind (T1 v) (\<lambda>_. wave_range T1 vs f f (isIntNode (node v)))))"

definition infereXType :: "libm \<Rightarrow> (tree \<Rightarrow> ('s, audiotype) mm) \<Rightarrow> xprim \<Rightarrow> tree list \<Rightarrow> ('s, audiotype) mm" where
  "infereXType lm T1 p br = mbind (mmap T1 br) (\<lambda>vt. mlift (xtInfereSigType lm p vt))"

definition slider_type :: "tree \<Rightarrow> audiotype result" where
  "slider_type params = rbind (tree2float (nthT params 1)) (\<lambda>lo. rbind (tree2float (nthT params 2)) (\<lambda>hi.
     Inr (castInterval TGUI (interval2 lo hi))))"

definition simple_quals :: "audiotype \<Rightarrow> quals result" where
  "simple_quals t = (case t of SimpleType q \<Rightarrow> Inr q | _ \<Rightarrow> Inl (Undefined ''null type''))"


abbreviation unrecognized :: "('s, audiotype) mm" where
  "unrecognized \<equiv> mlift (Inl (FaustException ''infering signal type : unrecognized signal''))"

definition infereSigType :: "libm \<Rightarrow> (tree \<Rightarrow> ('s, audiotype) mm) \<Rightarrow> tree \<Rightarrow> ('s, audiotype) mm" where
  "infereSigType lm T1 sig = (case sig_view sig of
      SvXtended p br \<Rightarrow> infereXType lm T1 p br
    | SvInt i \<Rightarrow> mret (makeSimpleType kInt kKonst kComp kVect kNum (interval1 (double_of_int i)))
    | SvReal r \<Rightarrow> mret (makeSimpleType kReal kKonst kComp kVect kNum (interval1 r))
    | SvWaveform \<Rightarrow> infereWaveformType T1 sig
    | SvInput _ \<Rightarrow> mret TINPUT
    | SvOutput _ s1 \<Rightarrow> mbind (T1 s1) (\<lambda>t. mret (sampCast t))
    | SvDelay1 s1 \<Rightarrow> mbind (T1 s1) (\<lambda>t.
        mret (castInterval (sampCast t) (reunion (getInterval t) (interval2 (DFin 0) (DFin 0)))))
    | SvPrefix s1 s2 \<Rightarrow> mbind (T1 s1) (\<lambda>t1. mbind (T1 s2) (\<lambda>t2. mbind (mlift (checkInit t1)) (\<lambda>_.
        mbind (mlift (type_or t1 t2)) (\<lambda>t.
          mret (castInterval (sampCast t) (reunion (getInterval t1) (getInterval t2)))))))
    | SvFixDelay s1 s2 \<Rightarrow> mbind (T1 s1) (\<lambda>t1. mbind (T1 s2) (\<lambda>t2. let i = getInterval t2 in
        if \<not> iv_valid i then mlift (Inl (FaustException ''can't compute the min and max values of delay''))
        else if dlt (iv_lo i) (DFin 0) then mlift (Inl (FaustException ''possible negative values of delay''))
        else mret (castInterval (sampCast t1) (reunion (getInterval t1) (interval2 (DFin 0) (DFin 0))))))
    | SvBinOp i s1 s2 \<Rightarrow> mbind (T1 s1) (\<lambda>t1. mbind (T1 s2) (\<lambda>t2.
        mbind (mlift (type_or t1 t2)) (\<lambda>t. mbind (mlift (arithmetic i (getInterval t1) (getInterval t2))) (\<lambda>iv.
          let t3 = castInterval t iv in
          mret (if i = opcode kDiv then floatCast t3
                else if opcode kGT \<le> i \<and> i \<le> opcode kNE then boolCast t3
                else t3)))))
    | SvIntCast s1 \<Rightarrow> mbind (T1 s1) (\<lambda>t. mret (intCast t))
    | SvFloatCast s1 \<Rightarrow> mbind (T1 s1) (\<lambda>t. mret (floatCast t))
    | SvFFun ff ls \<Rightarrow> infereFFType T1 ff ls
    | SvFConst type _ _ \<Rightarrow> mlift (infereFConstType type)
    | SvFVar type _ _ \<Rightarrow> mlift (infereFVarType type)
    | SvButton _ \<Rightarrow> mret TGUI01
    | SvCheckbox _ \<Rightarrow> mret TGUI01
    | SvVSlider _ params \<Rightarrow> mlift (slider_type params)
    | SvHSlider _ params \<Rightarrow> mlift (slider_type params)
    | SvNumEntry _ params \<Rightarrow> mlift (slider_type params)
    | SvHBargraph _ _ _ s1 \<Rightarrow> T1 s1
    | SvVBargraph _ _ _ s1 \<Rightarrow> T1 s1
    | SvAttach s1 s2 \<Rightarrow> mbind (T1 s2) (\<lambda>_. T1 s1)
    | SvSymRec _ \<Rightarrow> mlift (Inl (AssertFailed ''infereRecType''))
    | SvProj i s1 \<Rightarrow> mbind (T1 s1) (\<lambda>t. mlift (infereProjType t i kScal))
    | SvTable _ s1 s2 \<Rightarrow> mbind (T1 s1) (\<lambda>t1. mbind (mlift (rbind (checkInit t1) checkInt)) (\<lambda>_.
        mbind (T1 s2) (\<lambda>t2. mbind (mlift (checkInit t2)) (\<lambda>t. mret (makeTableType t)))))
    | SvWRTbl _ s1 s2 s3 \<Rightarrow> mbind (T1 s1) (\<lambda>t1. mbind (T1 s2) (\<lambda>t2. mbind (T1 s3) (\<lambda>t3.
        mlift (infereWriteTableType t1 t2 t3))))
    | SvRDTbl s1 s2 \<Rightarrow> mbind (T1 s1) (\<lambda>t1. mbind (T1 s2) (\<lambda>t2. mlift (infereReadTableType t1 t2)))
    | SvGen s1 \<Rightarrow> T1 s1
    | SvDocConstantTbl x y \<Rightarrow> mbind (T1 x) (\<lambda>t1. mbind (T1 y) (\<lambda>t2. mlift (infereDocConstantTblType t1 t2)))
    | SvDocWriteTbl x y z u \<Rightarrow> mbind (T1 x) (\<lambda>t1. mbind (T1 y) (\<lambda>t2. mbind (T1 z) (\<lambda>t3. mbind (T1 u) (\<lambda>t4.
        mlift (infereDocWriteTblType t1 t2 t3 t4)))))
    | SvDocAccessTbl x y \<Rightarrow> mbind (T1 x) (\<lambda>t1. mbind (T1 y) (\<lambda>t2. mlift (infereDocAccessTblType t1 t2)))
    | SvSelect2 sel s1 s2 \<Rightarrow> mbind (T1 s1) (\<lambda>t1. mbind (T1 s2) (\<lambda>t2. mbind (T1 sel) (\<lambda>t3.
        mbind (mlift (simple_quals t1)) (\<lambda>st1. mbind (mlift (simple_quals t2)) (\<lambda>st2.
          mbind (mlift (simple_quals t3)) (\<lambda>stsel.
            mret (makeSimpleType (q_nature st1 OR q_nature st2)
              (q_variability st1 OR q_variability st2 OR q_variability stsel)
              (q_computability st1 OR q_computability st2 OR q_computability stsel)
              (q_vectorability st1 OR q_vectorability st2 OR q_vectorability stsel)
              (q_boolean st1 OR q_boolean st2)
              (reunion (q_interval st1) (q_interval st2)))))))))
    | SvSelect3 sel s1 s2 s3 \<Rightarrow> mbind (T1 sel) (\<lambda>t. mbind (T1 s1) (\<lambda>t1. mbind (mlift (type_or t t1)) (\<lambda>u1.
        mbind (T1 s2) (\<lambda>t2. mbind (mlift (type_or u1 t2)) (\<lambda>u2. mbind (T1 s3) (\<lambda>t3.
          mlift (type_or u2 t3)))))))
    | SvNil \<Rightarrow> mret emptyTupletType
    | SvList h l \<Rightarrow> mbind (T1 h) (\<lambda>t1. mbind (T1 l) (\<lambda>t2. mret (type_times t1 t2)))
    | _ \<Rightarrow> unrecognized)"

lemma or_all_cong:
  "(\<And>x. x \<in> set xs \<Longrightarrow> f x = g x) \<Longrightarrow> or_all f xs t = or_all g xs t"
  by (induction xs arbitrary: t) (auto intro!: mbind_cong)

lemma wave_range_cong:
  "(\<And>x. x \<in> set xs \<Longrightarrow> f x = g x) \<Longrightarrow> wave_range f xs lo hi b = wave_range g xs lo hi b"
  by (induction xs arbitrary: lo hi b) (auto intro!: mbind_cong)

lemma infereFFType_cong:
  "(\<And>x. x \<in> set (tlist ls) \<Longrightarrow> f x = g x) \<Longrightarrow> infereFFType f ff ls = infereFFType g ff ls"
proof -
  assume "\<And>x. x \<in> set (tlist ls) \<Longrightarrow> f x = g x"
  then have e: "or_all f (tlist ls) t = or_all g (tlist ls) t" for t by (rule or_all_cong)
  show ?thesis unfolding infereFFType_def e ..
qed

lemma infereWaveformType_cong:
  "(\<And>x. x \<in> set (branches t) \<Longrightarrow> f x = g x) \<Longrightarrow> infereWaveformType f t = infereWaveformType g t"
  by (auto simp: infereWaveformType_def split: list.split intro!: mbind_cong wave_range_cong)

lemma infereXType_cong:
  "(\<And>x. x \<in> set br \<Longrightarrow> f x = g x) \<Longrightarrow> infereXType lm f p br = infereXType lm g p br"
  by (auto simp: infereXType_def intro!: mbind_cong mmap_cong)

lemma ffun_args_less: "sig_view t = SvFFun ff ls \<Longrightarrow> x \<in> set (tlist ls) \<Longrightarrow> size x < size t"
  using sig_view_less [of t] tlist_size [of x ls] by fastforce

lemma infereSigType_cong [fundef_cong]:
  "sig = sig' \<Longrightarrow> (\<And>s. size s < size sig' \<Longrightarrow> g s = g' s) \<Longrightarrow> infereSigType lm g sig = infereSigType lm g' sig'"
  unfolding infereSigType_def
  by (auto split: sig_form.split intro!: mbind_cong infereFFType_cong infereWaveformType_cong infereXType_cong
      dest: sig_view_less sig_view_xtended_less ffun_args_less size_branch)

fun T :: "libm \<Rightarrow> tree \<Rightarrow> (tree \<rightharpoonup> audiotype) \<Rightarrow> (audiotype \<times> (tree \<rightharpoonup> audiotype)) result" where
  "T lm term visited = cached visited term (infereSigType lm (T lm) term)"

fun typeOf :: "libm \<Rightarrow> (tree \<rightharpoonup> audiotype) \<Rightarrow> tree \<Rightarrow> (unit, audiotype) mm" where
  "typeOf lm given sig = (case given sig of Some t \<Rightarrow> mret t | None \<Rightarrow> infereSigType lm (typeOf lm given) sig)"

declare T.simps [simp del] typeOf.simps [simp del]


section \<open>Annotation\<close>

fun rec_bodies :: "recdefs \<Rightarrow> tree list \<Rightarrow> tree list result" where
  "rec_bodies defs [] = Inr []"
| "rec_bodies defs (r # rs) = (if is_symrec r
     then case map_of defs r of
         Some body \<Rightarrow> rbind (rec_bodies defs rs) (\<lambda>bs. Inr (body # bs))
       | None \<Rightarrow> Inl (Undefined ''null definition'')
     else Inl (AssertFailed ''isRec''))"

definition type_bodies :: "libm \<Rightarrow> tree list \<Rightarrow> (tree \<rightharpoonup> audiotype) \<Rightarrow> (audiotype list \<times> (tree \<rightharpoonup> audiotype)) result" where
  "type_bodies lm vdef = mmap (T lm) vdef"

fun least_fixpoint :: "nat \<Rightarrow> libm \<Rightarrow> tree list \<Rightarrow> tree list \<Rightarrow> audiotype list \<Rightarrow>
    (audiotype list \<times> (tree \<rightharpoonup> audiotype)) result option" where
  "least_fixpoint 0 lm vrec vdef vtype = None"
| "least_fixpoint (Suc n) lm vrec vdef vtype = (case type_bodies lm vdef (map_of (zip vrec vtype)) of
      Inl e \<Rightarrow> Some (Inl e)
    | Inr (vtype1, visited) \<Rightarrow> if list_all2 type_eq vtype vtype1 then Some (Inr (vtype, visited))
        else least_fixpoint n lm vrec vdef vtype1)"

definition typeAnnotation :: "nat \<Rightarrow> libm \<Rightarrow> address \<Rightarrow> recdefs \<Rightarrow> tree \<Rightarrow> (tree \<rightharpoonup> audiotype) result option" where
  "typeAnnotation n lm ad defs sig = (case
     rbind (symlist ad defs sig Map.empty) (\<lambda>(sl, _). rbind (rec_bodies defs (tlist sl)) (\<lambda>vdef.
       rbind (rmap initialRecType vdef) (\<lambda>vtype. Inr (tlist sl, vdef, vtype)))) of
     Inl e \<Rightarrow> Some (Inl e)
   | Inr (vrec, vdef, vtype) \<Rightarrow> (case least_fixpoint n lm vrec vdef vtype of
       None \<Rightarrow> None
     | Some (Inl e) \<Rightarrow> Some (Inl e)
     | Some (Inr (vtype1, visited)) \<Rightarrow> Some (rbind (T lm sig visited) (\<lambda>(t, visited1). Inr visited1))))"

definition getCertifiedSigType :: "tree \<Rightarrow> (tree \<rightharpoonup> audiotype) \<Rightarrow> audiotype result" where
  "getCertifiedSigType sig m = (case m sig of Some t \<Rightarrow> Inr t | None \<Rightarrow> Inl (AssertFailed ''getSigType''))"

section \<open>The table is transparent\<close>

lemma follows_or_all:
  "(\<And>x. x \<in> set xs \<Longrightarrow> follows ok (f x) (g x)) \<Longrightarrow> follows ok (or_all f xs t) (or_all g xs t)"
  by (induction xs arbitrary: t) (auto intro!: follows_intros)

lemma follows_wave_range:
  "(\<And>x. x \<in> set xs \<Longrightarrow> follows ok (f x) (g x)) \<Longrightarrow> follows ok (wave_range f xs lo hi b) (wave_range g xs lo hi b)"
  by (induction xs arbitrary: lo hi b) (auto intro!: follows_intros)

lemma follows_infereFFType:
  "(\<And>x. x \<in> set (tlist ls) \<Longrightarrow> follows ok (f x) (g x)) \<Longrightarrow> follows ok (infereFFType f ff ls) (infereFFType g ff ls)"
  unfolding infereFFType_def by (auto intro!: follows_intros follows_or_all)

lemma follows_infereWaveformType:
  "(\<And>x. x \<in> set (branches t) \<Longrightarrow> follows ok (f x) (g x)) \<Longrightarrow> follows ok (infereWaveformType f t) (infereWaveformType g t)"
  unfolding infereWaveformType_def by (auto split: list.split intro!: follows_intros follows_wave_range)

lemma follows_infereXType:
  "(\<And>x. x \<in> set br \<Longrightarrow> follows ok (f x) (g x)) \<Longrightarrow> follows ok (infereXType lm f p br) (infereXType lm g p br)"
  unfolding infereXType_def by (auto intro!: follows_intros)

lemma infereSigType_follows:
  "(\<And>s. size s < size sig \<Longrightarrow> follows ok (g s) (h s)) \<Longrightarrow> follows ok (infereSigType lm g sig) (infereSigType lm h sig)"
  unfolding infereSigType_def Let_def
  by (auto split: sig_form.split intro!: follows_intros follows_infereFFType follows_infereWaveformType
      follows_infereXType dest: sig_view_less sig_view_xtended_less ffun_args_less size_branch)

interpretation typing: memoised given "infereSigType lm" "infereSigType lm" "T lm" "typeOf lm given" for given lm
proof
  fix t m
  show "T lm t m = cached m t (infereSigType lm (T lm) t)" by (simp add: T.simps)
  show "typeOf lm given t = (case given t of None \<Rightarrow> infereSigType lm (typeOf lm given) t | Some a \<Rightarrow> mret a)"
    by (simp add: typeOf.simps)
qed (auto intro: infereSigType_follows)


lemma rec_bodies_Inr:
  "rec_bodies defs rs = Inr bs \<Longrightarrow> length bs = length rs \<and> (\<forall>i < length rs. map_of defs (rs ! i) = Some (bs ! i))"
proof (induction rs arbitrary: bs)
  case (Cons r rs)
  then obtain b bs' where b: "map_of defs r = Some b" "rec_bodies defs rs = Inr bs'" "bs = b # bs'"
    by (auto simp: rbind_eq_Inr split: if_splits option.splits)
  from Cons.IH [OF b(2)] show ?case by (auto simp: b nth_Cons split: nat.splits)
qed simp

definition solves :: "libm \<Rightarrow> (tree \<rightharpoonup> audiotype) \<Rightarrow> tree list \<Rightarrow> tree list \<Rightarrow> bool" where
  "solves lm given vrec vdef \<longleftrightarrow> (\<forall>i < length vrec. \<exists>t t1. given (vrec ! i) = Some t \<and>
     typeOf lm given (vdef ! i) () = Inr (t1, ()) \<and> type_eq t t1)"

lemma type_bodies_typeOf:
  assumes "type_bodies lm vdef m = Inr (ts, m1)" "typing.table_ok given lm m"
  shows "length ts = length vdef \<and> (\<forall>i < length vdef. typeOf lm given (vdef ! i) () = Inr (ts ! i, ())) \<and>
    typing.table_ok given lm m1"
proof -
  have "follows (typing.table_ok given lm) (mmap (T lm) vdef) (mmap (typeOf lm given) vdef)"
    by (intro follows_mmap typing.get_follows)
  then show ?thesis using followsD(1) [of "typing.table_ok given lm" "mmap (T lm) vdef"] assms
    by (fastforce simp: type_bodies_def mmap_unit)
qed

lemma least_fixpoint_solves:
  assumes "least_fixpoint n lm vrec vdef vtype = Some (Inr (vt, m))" "distinct vrec"
    "length vtype = length vrec" "length vdef = length vrec"
  shows "length vt = length vrec \<and> typing.table_ok (map_of (zip vrec vt)) lm m \<and>
    solves lm (map_of (zip vrec vt)) vrec vdef"
  using assms
proof (induction n arbitrary: vtype)
  case (Suc n)
  let ?g = "map_of (zip vrec vtype)"
  obtain ts m1 where ts: "type_bodies lm vdef ?g = Inr (ts, m1)"
    using Suc.prems(1) by (auto split: sum.splits)
  note b = type_bodies_typeOf [OF ts typing.table_ok_given]
  show ?case
  proof (cases "list_all2 type_eq vtype ts")
    case True
    then have e: "vt = vtype" "m = m1" using Suc.prems(1) ts by auto
    have "solves lm ?g vrec vdef" unfolding solves_def
    proof (intro allI impI)
      fix i assume i: "i < length vrec"
      have "?g (vrec ! i) = Some (vtype ! i)" using i Suc.prems(2,3) by (simp add: map_of_zip_nth)
      moreover have "type_eq (vtype ! i) (ts ! i)" using True i Suc.prems(3) by (simp add: list_all2_conv_all_nth)
      ultimately show "\<exists>t t1. ?g (vrec ! i) = Some t \<and> typeOf lm ?g (vdef ! i) () = Inr (t1, ()) \<and> type_eq t t1"
        using b i Suc.prems(4) by auto
    qed
    then show ?thesis using b Suc.prems(3) by (simp add: e)
  next
    case False
    then have "least_fixpoint n lm vrec vdef ts = Some (Inr (vt, m))" using Suc.prems(1) ts by simp
    then show ?thesis by (rule Suc.IH) (use Suc.prems b in auto)
  qed
qed simp

lemma set_tree_tlist: "set_tree ad s \<Longrightarrow> distinct (tlist s) \<and> set (tlist s) = elems s"
proof (induction rule: set_tree_induct)
  case (cons h t)
  then show ?case by auto
qed simp

text \<open>
  A recursive group of two signals.  The first is the maximum of 0 and an input, multiplied by a
  slider whose bounds are both 0: its interval is computed as \<open>[0, +inf] * [0, 0]\<close>, whose bounds
  are NaN.  The second is its own delay.
\<close>

definition nan_signal :: tree where
  "nan_signal = sigBinOp kMul (xt_node2 XMax (sigInt 0) (sigInput 0))
     (sigHSlider nil (sigInt 0) (sigInt 0) (sigInt 0) (sigInt 1))"

definition nan_group :: tree where
  "nan_group = list_tree [nan_signal, sigDelay1 (sigProj 1 sym_W)]"

definition nan_step :: "audiotype list \<Rightarrow> audiotype list option" where
  "nan_step v = (case type_bodies nan_libm [nan_group] (map_of (zip [sym_W] v)) of
      Inl e \<Rightarrow> None | Inr (v1, m) \<Rightarrow> if list_all2 type_eq v v1 then None else Some v1)"

definition nan_types :: "nat \<Rightarrow> audiotype list" where
  "nan_types n = ((\<lambda>v. the (nan_step v)) ^^ n) [projr (initialRecType nan_group)]"

lemma nan_step_continues:
  "nan_step v = Some v1 \<Longrightarrow>
     least_fixpoint (Suc k) nan_libm [sym_W] [nan_group] v = least_fixpoint k nan_libm [sym_W] [nan_group] v1"
  by (auto simp: nan_step_def split: sum.splits if_splits)

lemma nan_steps:
  "nan_step (nan_types 0) = Some (nan_types 1)" "nan_step (nan_types 1) = Some (nan_types 2)"
  "nan_step (nan_types 2) = Some (nan_types 2)" "initialRecType nan_group = Inr (nan_types 0 ! 0)"
  "nan_types 0 = [nan_types 0 ! 0]"
  by code_simp+

lemma nan_diverges: "least_fixpoint k nan_libm [sym_W] [nan_group] (nan_types 0) = None"
proof -
  have stuck: "least_fixpoint k nan_libm [sym_W] [nan_group] (nan_types 2) = None" for k
    by (induction k) (simp_all add: nan_step_continues [OF nan_steps(3)] del: least_fixpoint.simps(2))
  show ?thesis
  proof (cases k)
    case (Suc j)
    then show ?thesis
      by (cases j) (simp_all add: nan_step_continues [OF nan_steps(1)] nan_step_continues [OF nan_steps(2)] stuck
          del: least_fixpoint.simps(2) One_nat_def)
  qed simp
qed

lemma typeAnnotation_solution:
  assumes "inj ad"
    and "\<forall>t. sig_reach defs sig t \<longrightarrow> (\<exists>xs. successors defs t = Inr xs)"
    and "typeAnnotation n lm ad defs sig = Some (Inr m)"
  shows "\<exists>given. dom given = symbols defs sig \<and> given \<subseteq>\<^sub>m m \<and>
    (\<forall>s t. m s = Some t \<longrightarrow> typeOf lm given s () = Inr (t, ())) \<and> sig \<in> dom m \<and>
    (\<forall>r \<in> symbols defs sig. \<exists>body t t1. map_of defs r = Some body \<and> given r = Some t \<and>
       typeOf lm given body () = Inr (t1, ()) \<and> type_eq t t1)"
proof -
  obtain S k where S: "symlist ad defs sig Map.empty = Inr (S, k)" "set_tree ad S" "elems S = symbols defs sig"
    using symlist_returns [OF assms(1,2), of Map.empty] by auto
  let ?vrec = "tlist S"
  obtain vdef vtype vt m1 t where d: "rec_bodies defs ?vrec = Inr vdef" "rmap initialRecType vdef = Inr vtype"
    "least_fixpoint n lm ?vrec vdef vtype = Some (Inr (vt, m1))" "T lm sig m1 = Inr (t, m)"
    using assms(3) S(1)
    by (auto simp: typeAnnotation_def rbind_eq_Inr split: sum.splits option.splits prod.splits)
  let ?g = "map_of (zip ?vrec vt)"
  note r = rec_bodies_Inr [OF d(1)] and dist = set_tree_tlist [OF S(2)]
  have l: "length vtype = length ?vrec" "length vdef = length ?vrec" using r rmap_length [OF d(2)] by auto
  note f = least_fixpoint_solves [OF d(3) _ l] 
  have f: "length vt = length ?vrec" "typing.table_ok ?g lm m1" "solves lm ?g ?vrec vdef" using f dist by auto
  have ok: "typing.table_ok ?g lm m" using typing.get_transparent(2) [OF f(2) d(4)] by blast
  have "m sig = Some t" using d(4) by (auto simp: T.simps cached_def mbind_def rbind_eq_Inr split: option.splits)
  moreover have "dom ?g = symbols defs sig" using dist S(3) f(1) by (simp add: dom_map_of_zip)
  moreover have "\<exists>body t t1. map_of defs r = Some body \<and> ?g r = Some t \<and> typeOf lm ?g body () = Inr (t1, ()) \<and> type_eq t t1"
    if "r \<in> symbols defs sig" for r
  proof -
    have "r \<in> set ?vrec" using that dist S(3) by simp
    then obtain i where "i < length ?vrec" "r = ?vrec ! i" unfolding in_set_conv_nth by blast
    then show ?thesis using r f(3) unfolding solves_def by blast
  qed
  ultimately show ?thesis using ok unfolding typing.table_ok_def by blast
qed


section \<open>Properties\<close>


lemma symbols_sigInt: "sig_reach [] (sigInt i) t \<Longrightarrow> t = sigInt i"
  by (induction rule: sig_reach.induct) (simp_all add: successors_def is_symrec_def getSubSignals_def)




end
