(* ===== verification/TypeSound.thy ===== *)
theory TypeSound
  imports TypeRules
begin

text \<open>
  Soundness of the intervals the typing rules infer.

  \<open>takes defs t x\<close>: the signal \<open>t\<close> takes the value \<open>x\<close> at some instant of some execution in
  floating point.  The relation covers numbers, inputs, user interface elements, delays, sums,
  differences, products, comparisons, minimum, maximum, absolute value, selection, attachment and
  the projections of recursive groups: a value of a projection is a value of the component of the
  definition, computed from values at earlier instants.  The theorem says that when the types of
  the recursive symbols solve the typing rules, which is what the annotation computes, a signal
  takes no value outside of its interval.
\<close>

section \<open>Values of signals\<close>

definition truth :: "bool \<Rightarrow> double" where
  "truth b = (if b then DFin 1 else DFin 0)"

inductive takes :: "recdefs \<Rightarrow> tree \<Rightarrow> double \<Rightarrow> bool" for defs where
  tk_int: "sig_view t = SvInt i \<Longrightarrow> takes defs t (double_of_int i)"
| tk_real: "sig_view t = SvReal r \<Longrightarrow> r \<noteq> DNaN \<Longrightarrow> takes defs t r"
| tk_input: "sig_view t = SvInput i \<Longrightarrow> x \<noteq> DNaN \<Longrightarrow> takes defs t x"
| tk_button: "sig_view t = SvButton l \<or> sig_view t = SvCheckbox l \<Longrightarrow> takes defs t (truth b)"
| tk_slider: "sig_view t = SvHSlider l p \<or> sig_view t = SvVSlider l p \<or> sig_view t = SvNumEntry l p \<Longrightarrow>
    tree2float (nthT p 1) = Inr lo \<Longrightarrow> tree2float (nthT p 2) = Inr hi \<Longrightarrow> dle lo x \<Longrightarrow> dle x hi \<Longrightarrow> takes defs t x"
| tk_silence: "sig_view t = SvDelay1 a \<or> sig_view t = SvFixDelay a b \<Longrightarrow> \<not> is_symrec a \<Longrightarrow> takes defs t (DFin 0)"
| tk_delay: "sig_view t = SvDelay1 a \<or> sig_view t = SvFixDelay a b \<Longrightarrow> takes defs a x \<Longrightarrow> takes defs t x"
| tk_prefix: "sig_view t = SvPrefix a b \<Longrightarrow> takes defs a x \<Longrightarrow> takes defs b y \<Longrightarrow> takes defs t (if c then x else y)"
| tk_add: "sig_view t = SvBinOp op a b \<Longrightarrow> op = opcode kAdd \<Longrightarrow> takes defs a x \<Longrightarrow> takes defs b y \<Longrightarrow>
    dadd x y \<noteq> DNaN \<Longrightarrow> takes defs t (dadd x y)"
| tk_sub: "sig_view t = SvBinOp op a b \<Longrightarrow> op = opcode kSub \<Longrightarrow> takes defs a x \<Longrightarrow> takes defs b y \<Longrightarrow>
    dsub x y \<noteq> DNaN \<Longrightarrow> takes defs t (dsub x y)"
| tk_mul: "sig_view t = SvBinOp op a b \<Longrightarrow> op = opcode kMul \<Longrightarrow> takes defs a x \<Longrightarrow> takes defs b y \<Longrightarrow>
    dmul x y \<noteq> DNaN \<Longrightarrow> takes defs t (dmul x y)"
| tk_compare: "sig_view t = SvBinOp op a b \<Longrightarrow> isBoolOpcode op \<Longrightarrow> takes defs a x \<Longrightarrow> takes defs b y \<Longrightarrow>
    takes defs t (truth c)"
| tk_max: "sig_view t = SvXtended XMax [a, b] \<Longrightarrow> takes defs a x \<Longrightarrow> takes defs b y \<Longrightarrow> takes defs t (dmax x y)"
| tk_min: "sig_view t = SvXtended XMin [a, b] \<Longrightarrow> takes defs a x \<Longrightarrow> takes defs b y \<Longrightarrow> takes defs t (dmin x y)"
| tk_abs: "sig_view t = SvXtended XAbs [a] \<Longrightarrow> takes defs a x \<Longrightarrow> takes defs t (dabs x)"
| tk_float: "sig_view t = SvFloatCast a \<Longrightarrow> takes defs a x \<Longrightarrow> takes defs t x"
| tk_select: "sig_view t = SvSelect2 s a b \<Longrightarrow> takes defs a x \<Longrightarrow> takes defs b y \<Longrightarrow> takes defs t (if c then x else y)"
| tk_attach: "sig_view t = SvAttach a b \<Longrightarrow> takes defs a x \<Longrightarrow> takes defs t x"
| tk_bargraph: "sig_view t = SvHBargraph l u v a \<or> sig_view t = SvVBargraph l u v a \<Longrightarrow> takes defs a x \<Longrightarrow> takes defs t x"
| tk_proj: "sig_view t = SvProj i r \<Longrightarrow> is_symrec r \<Longrightarrow> map_of defs r = Some body \<Longrightarrow> 0 \<le> i \<Longrightarrow> nat i < length (tlist body) \<Longrightarrow>
    takes defs (tlist body ! nat i) x \<Longrightarrow> takes defs t x"

section \<open>Types with usable intervals\<close>

definition good :: "audiotype \<Rightarrow> bool" where
  "good t \<longleftrightarrow> (case t of SimpleType q \<Rightarrow> ival_wf (q_interval q) \<and> bounded (q_interval q) | _ \<Rightarrow> False)"

lemma getInterval_casts [simp]:
  "getInterval (castInterval t i) = i" "getInterval (sampCast t) = getInterval t"
  "getInterval (floatCast t) = getInterval t" "getInterval (boolCast t) = getInterval t"
  "getInterval (makeSimpleType n v c w b i) = i" "getInterval (SimpleType q) = q_interval q"
  by (simp_all add: getInterval_def castInterval_def sampCast_def floatCast_def boolCast_def makeSimpleType_def mkquals_def)

lemma getInterval_promote [simp]:
  "getInterval (promoteVectorability w (promoteComputability c (promoteVariability v (SimpleType q)))) = q_interval q"
  by (simp add: promoteVectorability_def promoteComputability_def promoteVariability_def promote_def getInterval_def)

lemma good_interval: "good t \<Longrightarrow> ival_wf (getInterval t) \<and> bounded (getInterval t)"
  by (auto simp: good_def getInterval_def split: audiotype.splits)

lemma truth_within: "in_ival (interval2 (DFin 0) (DFin 1)) (truth b)"
  by (simp add: in_interval2 truth_def)

lemma in_reunion: "in_ival i x \<or> in_ival j x \<Longrightarrow> ival_wf i \<Longrightarrow> ival_wf j \<Longrightarrow> in_ival (reunion i j) x"
  by (rule reunion_upper)

lemma in_zero: "in_ival (interval2 (DFin 0) (DFin 0)) (DFin 0)" "ival_wf (interval2 (DFin 0) (DFin 0))"
  by (simp_all add: in_interval2 interval2_wf)

lemma arithmetic_compare: "isBoolOpcode op \<Longrightarrow> arithmetic op i j = Inr k \<Longrightarrow> k = interval2 (DFin 0) (DFin 1)"
  by (auto simp: isBoolOpcode_def arithmetic_def opcode_def i_gt_def i_lt_def i_ge_def i_le_def i_eq_def i_ne_def
      split: if_splits)

lemma arithmetic_ops:
  "arithmetic (opcode kAdd) i j = Inr (i_add i j)" "arithmetic (opcode kSub) i j = Inr (i_sub i j)"
  "arithmetic (opcode kMul) i j = Inr (i_mul i j)"
  by (simp_all add: arithmetic_def opcode_def)

section \<open>The type of a list of signals\<close>

lemma components_good: "good t \<Longrightarrow> components t = [t]"
  by (cases t) (auto simp: good_def)

lemma typeOf_cons:
  assumes "given l = None" "asList l = Some (h, r)" "typeOf lm given l () = Inr (ty, ())"
  obtains t1 t2 where "typeOf lm given h () = Inr (t1, ())" "typeOf lm given r () = Inr (t2, ())" "ty = type_times t1 t2"
proof -
  have "sig_view l = SvList h r" using assms(2) by (simp add: asList_Some)
  then show ?thesis using assms(1,3) that
    by (auto simp: typeOf.simps [of lm given l] infereSigType_def mbind_def rbind_eq_Inr)
qed

lemma typeOf_list:
  assumes "\<forall>s. given s \<noteq> None \<longrightarrow> is_symrec s"
    and "\<And>s t. s \<in> set (tlist l) \<Longrightarrow> typeOf lm given s () = Inr (t, ()) \<Longrightarrow> good t"
    and "typeOf lm given l () = Inr (ty, ())" "i < length (tlist l)"
  shows "i < length (components ty) \<and> typeOf lm given (tlist l ! i) () = Inr (components ty ! i, ())"
  using assms(2-4)
proof (induction l arbitrary: ty i rule: tlist.induct)
  case (1 l)
  from "1.prems"(3) obtain h r where l: "asList l = Some (h, r)"
    by (cases "asList l") (auto simp: tlist.simps [of l])
  have tl: "tlist l = h # tlist r" using l by (simp add: tlist.simps [of l])
  have "\<not> is_symrec l" using l by (simp add: asList_Some is_symrec_def)
  then have g: "given l = None" using assms(1) by (cases "given l") auto
  obtain t1 t2 where t: "typeOf lm given h () = Inr (t1, ())" "typeOf lm given r () = Inr (t2, ())" "ty = type_times t1 t2"
    using typeOf_cons [OF g l "1.prems"(2)] by blast
  have "good t1" using "1.prems"(1) [of h] t(1) tl by simp
  then have c: "components ty = t1 # components t2" using t(3) by (simp add: components_good type_times_def newTupletType_def)
  show ?case
  proof (cases i)
    case 0
    then show ?thesis using c t(1) tl by simp
  next
    case (Suc j)
    have "j < length (components t2) \<and> typeOf lm given (tlist r ! j) () = Inr (components t2 ! j, ())"
      by (rule "1.IH" [OF l refl _ t(2)]) (use "1.prems"(1,3) Suc tl in auto)
    then show ?thesis using c Suc tl by simp
  qed
qed

lemma types_eq_nth: "types_eq as bs \<Longrightarrow> length as = length bs \<and> (\<forall>i < length as. type_eq (as ! i) (bs ! i))"
proof (induction as arbitrary: bs)
  case (Cons a as)
  then obtain b bs' where "bs = b # bs'" "type_eq a b" "types_eq as bs'" by (cases bs) auto
  with Cons.IH [of bs'] show ?case by (auto simp: nth_Cons split: nat.splits)
next
  case Nil
  then show ?case by (cases bs) auto
qed

lemma quals_eq_in_ival: "quals_eq q r \<Longrightarrow> in_ival (q_interval r) x \<Longrightarrow> in_ival (q_interval q) x"
  unfolding quals_eq_def in_ival_def deq_def using dle_trans by blast

lemma proj_sound:
  assumes "infereProjType tw i 1 = Inr t" "type_eq tw tb" "nat i < length (components tb)" "good (components tb ! nat i)"
    and "in_ival (getInterval (components tb ! nat i)) x"
  shows "in_ival (getInterval t) x"
proof -
  obtain q vt where w: "tw = TupletType q vt" "0 \<le> i" "nat i < length vt"
    "t = promoteVectorability 1 (promoteComputability (computability tw) (promoteVariability (variability tw) (vt ! nat i)))"
    using assms(1) by (auto simp: infereProjType_def Let_def split: audiotype.splits if_splits)
  obtain r vb where b: "tb = TupletType r vb" "types_eq vt vb"
    using assms(2) w(1) by (auto simp: type_eq.simps [of "TupletType q vt"] split: audiotype.splits)
  have e: "type_eq (vt ! nat i) (vb ! nat i)" using types_eq_nth [OF b(2)] w(3) by blast
  obtain q1 where q1: "vb ! nat i = SimpleType q1" using assms(4) b(1) by (auto simp: good_def split: audiotype.splits)
  then obtain q2 where q2: "vt ! nat i = SimpleType q2" "quals_eq q2 q1"
    using e by (auto simp: type_eq.simps [of "vt ! nat i"] split: audiotype.splits)
  show ?thesis using assms(5) q1 q2 b(1) quals_eq_in_ival [OF q2(2)] by (simp add: w(4))
qed


section \<open>Soundness\<close>

text \<open>What an annotation provides for the signals that can be reached from \<open>sig0\<close>.\<close>

definition solution :: "libm \<Rightarrow> recdefs \<Rightarrow> tree \<Rightarrow> (tree \<rightharpoonup> audiotype) \<Rightarrow> bool" where
  "solution lm defs sig0 given \<longleftrightarrow> dom given = symbols defs sig0 \<and>
     (\<forall>r \<in> symbols defs sig0. \<exists>body t t1. map_of defs r = Some body \<and> given r = Some t \<and>
        typeOf lm given body () = Inr (t1, ()) \<and> type_eq t t1)"

definition good_types :: "libm \<Rightarrow> recdefs \<Rightarrow> tree \<Rightarrow> (tree \<rightharpoonup> audiotype) \<Rightarrow> bool" where
  "good_types lm defs sig0 given \<longleftrightarrow> (\<forall>s t. sig_reach defs sig0 s \<and> \<not> is_symrec s \<and>
     typeOf lm given s () = Inr (t, ()) \<longrightarrow> good t) \<and>
     (\<forall>r body. r \<in> symbols defs sig0 \<and> map_of defs r = Some body \<longrightarrow> (\<forall>e \<in> set (tlist body). \<not> is_symrec e))"

lemma solution_given: "solution lm defs sig0 given \<Longrightarrow> \<forall>s. given s \<noteq> None \<longrightarrow> is_symrec s"
  by (auto simp: solution_def symbols_def dom_def)

lemma reach_sub:
  "sig_reach defs sig0 s \<Longrightarrow> \<not> is_symrec s \<Longrightarrow> getSubSignals defs s True = Inr xs \<Longrightarrow> a \<in> set xs \<Longrightarrow> sig_reach defs sig0 a"
  using sig_reach.onward [of defs sig0 s xs a] by (simp add: successors_def)

lemma typeOf_unfold:
  "solution lm defs sig0 given \<Longrightarrow> \<not> is_symrec s \<Longrightarrow> typeOf lm given s = infereSigType lm (typeOf lm given) s"
  using solution_given [of lm defs sig0 given] by (cases "given s") (auto simp: typeOf.simps [of lm given s])

lemma symrec_of_reach: "sig_reach defs sig0 r \<Longrightarrow> is_symrec r \<Longrightarrow> r \<in> symbols defs sig0"
  by (simp add: symbols_def)

lemma takes_not_NaN: "takes defs t x \<Longrightarrow> x \<noteq> DNaN"
proof (induction rule: takes.induct)
  case (tk_abs t a x)
  then show ?case using dabs_nonneg dle_not_NaN by blast
qed (auto simp: truth_def dmin_def dmax_def dest: dle_not_NaN)

lemma takes_not_symrec: "takes defs t x \<Longrightarrow> \<not> is_symrec t"
  by (induction rule: takes.induct) (auto simp: is_symrec_def)

lemma arg_good:
  assumes "good_types lm defs sig0 given" "sig_reach defs sig0 s" "takes defs s x0"
    and "getSubSignals defs s True = Inr xs" "a \<in> set xs" "takes defs a x" "typeOf lm given a () = Inr (t1, ())"
  shows "sig_reach defs sig0 a \<and> ival_wf (getInterval t1) \<and> bounded (getInterval t1)"
proof -
  have "sig_reach defs sig0 a" using reach_sub [OF assms(2) takes_not_symrec [OF assms(3)] assms(4,5)] .
  moreover from this have "good t1" using assms(1,7) takes_not_symrec [OF assms(6)] unfolding good_types_def by blast
  ultimately show ?thesis using good_interval by blast
qed

lemmas rule_simps = infereSigType_def mbind_def rbind_eq_Inr mlift_def arithmetic_ops Let_def

lemma binop_types:
  assumes "solution lm defs sig0 given" "sig_view s = SvBinOp op a b" "typeOf lm given s () = Inr (t, ())"
  obtains t1 t2 where "typeOf lm given a () = Inr (t1, ())" "typeOf lm given b () = Inr (t2, ())"
    "arithmetic op (getInterval t1) (getInterval t2) = Inr (getInterval t)"
proof -
  have "\<not> is_symrec s" using assms(2) by (simp add: is_symrec_def)
  from typeOf_unfold [OF assms(1) this] assms(2,3) that show ?thesis
    by (auto simp: infereSigType_def mbind_def rbind_eq_Inr mlift_def Let_def split: if_splits)
qed

lemma binop_sound:
  assumes sol: "solution lm defs sig0 given" and ok: "good_types lm defs sig0 given"
    and v: "sig_view s = SvBinOp (opcode op) a b" and s: "takes defs s z" "sig_reach defs sig0 s" "typeOf lm given s () = Inr (t, ())"
    and x: "takes defs a x" "\<And>t. sig_reach defs sig0 a \<Longrightarrow> typeOf lm given a () = Inr (t, ()) \<Longrightarrow> in_ival (getInterval t) x"
    and y: "takes defs b y" "\<And>t. sig_reach defs sig0 b \<Longrightarrow> typeOf lm given b () = Inr (t, ()) \<Longrightarrow> in_ival (getInterval t) y"
    and op: "\<And>i j. arithmetic (opcode op) i j = Inr (iop i j)"
    and sound: "\<And>i j. in_ival i x \<Longrightarrow> in_ival j y \<Longrightarrow> bounded i \<Longrightarrow> bounded j \<Longrightarrow> in_ival (iop i j) z"
  shows "in_ival (getInterval t) z"
proof -
  have sub: "getSubSignals defs s True = Inr [a, b]" using v by (simp add: getSubSignals_def)
  obtain t1 t2 where t: "typeOf lm given a () = Inr (t1, ())" "typeOf lm given b () = Inr (t2, ())"
    "getInterval t = iop (getInterval t1) (getInterval t2)"
    by (rule binop_types [OF sol v s(3)]) (use op in simp)
  have "sig_reach defs sig0 a \<and> bounded (getInterval t1)" "sig_reach defs sig0 b \<and> bounded (getInterval t2)"
    using arg_good [OF ok s(2,1) sub _ x(1) t(1)] arg_good [OF ok s(2,1) sub _ y(1) t(2)] by auto
  then show ?thesis unfolding t(3) using x(2) y(2) t(1,2) by (intro sound) auto
qed


lemma arg_sound:
  assumes ok: "good_types lm defs sig0 given" and s: "takes defs s z" "sig_reach defs sig0 s"
    and sub: "getSubSignals defs s True = Inr xs" "a \<in> set xs"
    and x: "takes defs a x" "\<And>t. sig_reach defs sig0 a \<Longrightarrow> typeOf lm given a () = Inr (t, ()) \<Longrightarrow> in_ival (getInterval t) x"
    and t: "typeOf lm given a () = Inr (t1, ())"
  shows "in_ival (getInterval t1) x \<and> ival_wf (getInterval t1)"
  using arg_good [OF ok s(2,1) sub x(1) t] x(2) [OF _ t] by blast

lemma simple_quals_Inr: "simple_quals t = Inr q \<longleftrightarrow> t = SimpleType q"
  by (cases t) (auto simp: simple_quals_def)

lemma typing_inversion:
  assumes sol: "solution lm defs sig0 given" and t: "typeOf lm given s () = Inr (t, ())"
  shows "sig_view s = SvDelay1 a \<or> sig_view s = SvFixDelay a b \<Longrightarrow>
      \<exists>t1. typeOf lm given a () = Inr (t1, ()) \<and> getInterval t = reunion (getInterval t1) (interval2 (DFin 0) (DFin 0))"
    and "sig_view s = SvPrefix a b \<or> sig_view s = SvSelect2 c a b \<Longrightarrow>
      \<exists>t1 t2. typeOf lm given a () = Inr (t1, ()) \<and> typeOf lm given b () = Inr (t2, ()) \<and>
        getInterval t = reunion (getInterval t1) (getInterval t2)"
    and "sig_view s = SvFloatCast a \<or> sig_view s = SvAttach a b \<or> sig_view s = SvHBargraph l u v a \<or>
      sig_view s = SvVBargraph l u v a \<Longrightarrow>
      \<exists>t1. typeOf lm given a () = Inr (t1, ()) \<and> getInterval t = getInterval t1"
    and "sig_view s = SvXtended XMax [a, b] \<Longrightarrow>
      \<exists>t1 t2. typeOf lm given a () = Inr (t1, ()) \<and> typeOf lm given b () = Inr (t2, ()) \<and>
        getInterval t = i_max (getInterval t1) (getInterval t2)"
    and "sig_view s = SvXtended XMin [a, b] \<Longrightarrow>
      \<exists>t1 t2. typeOf lm given a () = Inr (t1, ()) \<and> typeOf lm given b () = Inr (t2, ()) \<and>
        getInterval t = i_min (getInterval t1) (getInterval t2)"
    and "sig_view s = SvXtended XAbs [a] \<Longrightarrow>
      \<exists>t1. typeOf lm given a () = Inr (t1, ()) \<and> getInterval t = i_abs (getInterval t1)"
    and "sig_view s = SvInt i \<Longrightarrow> getInterval t = interval1 (double_of_int i)"
    and "sig_view s = SvReal r \<Longrightarrow> getInterval t = interval1 r"
    and "sig_view s = SvInput k \<Longrightarrow> getInterval t = interval0"
    and "sig_view s = SvButton l \<or> sig_view s = SvCheckbox l \<Longrightarrow> getInterval t = interval2 (DFin 0) (DFin 1)"
    and "sig_view s = SvHSlider l p \<or> sig_view s = SvVSlider l p \<or> sig_view s = SvNumEntry l p \<Longrightarrow>
      tree2float (nthT p 1) = Inr lo \<Longrightarrow> tree2float (nthT p 2) = Inr hi \<Longrightarrow> getInterval t = interval2 lo hi"
proof -
  have u: "infereSigType lm (typeOf lm given) s () = Inr (t, ())" if "\<not> is_symrec s"
    using t typeOf_unfold [OF sol that] by simp
  note inv = infereSigType_def mbind_def mlift_def rbind_eq_Inr is_symrec_def
  show "sig_view s = SvDelay1 a \<or> sig_view s = SvFixDelay a b \<Longrightarrow>
      \<exists>t1. typeOf lm given a () = Inr (t1, ()) \<and> getInterval t = reunion (getInterval t1) (interval2 (DFin 0) (DFin 0))"
    using u by (auto simp: inv Let_def split: if_splits)
  show "sig_view s = SvPrefix a b \<or> sig_view s = SvSelect2 c a b \<Longrightarrow>
      \<exists>t1 t2. typeOf lm given a () = Inr (t1, ()) \<and> typeOf lm given b () = Inr (t2, ()) \<and>
        getInterval t = reunion (getInterval t1) (getInterval t2)"
    using u by (auto simp: inv simple_quals_Inr)
  show "sig_view s = SvFloatCast a \<or> sig_view s = SvAttach a b \<or> sig_view s = SvHBargraph l u v a \<or>
      sig_view s = SvVBargraph l u v a \<Longrightarrow>
      \<exists>t1. typeOf lm given a () = Inr (t1, ()) \<and> getInterval t = getInterval t1"
    using u by (auto simp: inv)
  show "sig_view s = SvXtended XMax [a, b] \<Longrightarrow>
      \<exists>t1 t2. typeOf lm given a () = Inr (t1, ()) \<and> typeOf lm given b () = Inr (t2, ()) \<and>
        getInterval t = i_max (getInterval t1) (getInterval t2)"
    using u by (auto simp: inv infereXType_def xtInfereSigType_def maxprim_type_def arg2_def type_at_def)
  show "sig_view s = SvXtended XMin [a, b] \<Longrightarrow>
      \<exists>t1 t2. typeOf lm given a () = Inr (t1, ()) \<and> typeOf lm given b () = Inr (t2, ()) \<and>
        getInterval t = i_min (getInterval t1) (getInterval t2)"
    using u by (auto simp: inv infereXType_def xtInfereSigType_def minprim_type_def arg2_def type_at_def)
  show "sig_view s = SvXtended XAbs [a] \<Longrightarrow>
      \<exists>t1. typeOf lm given a () = Inr (t1, ()) \<and> getInterval t = i_abs (getInterval t1)"
    using u by (auto simp: inv infereXType_def xtInfereSigType_def absprim_type_def arg1_def type_at_def)
qed (insert typeOf_unfold [OF sol, of s] t,
    auto simp: infereSigType_def mlift_def rbind_eq_Inr is_symrec_def TINPUT_def TGUI01_def slider_type_def)

lemma binary_sound:
  assumes ok: "good_types lm defs sig0 given" and s: "takes defs s z" "sig_reach defs sig0 s"
    and sub: "getSubSignals defs s True = Inr xs" "a \<in> set xs" "b \<in> set xs"
    and x: "takes defs a x" "\<And>t. sig_reach defs sig0 a \<Longrightarrow> typeOf lm given a () = Inr (t, ()) \<Longrightarrow> in_ival (getInterval t) x"
    and y: "takes defs b y" "\<And>t. sig_reach defs sig0 b \<Longrightarrow> typeOf lm given b () = Inr (t, ()) \<Longrightarrow> in_ival (getInterval t) y"
    and t: "\<exists>t1 t2. typeOf lm given a () = Inr (t1, ()) \<and> typeOf lm given b () = Inr (t2, ()) \<and>
      getInterval t = iop (getInterval t1) (getInterval t2)"
    and sound: "\<And>i j. in_ival i x \<Longrightarrow> in_ival j y \<Longrightarrow> ival_wf i \<Longrightarrow> ival_wf j \<Longrightarrow> in_ival (iop i j) z"
  shows "in_ival (getInterval t) z"
proof -
  obtain t1 t2 where t: "typeOf lm given a () = Inr (t1, ())" "typeOf lm given b () = Inr (t2, ())"
    "getInterval t = iop (getInterval t1) (getInterval t2)" using t by blast
  show ?thesis unfolding t(3)
    using arg_sound [OF ok s sub(1,2) x t(1)] arg_sound [OF ok s sub(1,3) y t(2)] by (intro sound) auto
qed

lemma unary_sound:
  assumes ok: "good_types lm defs sig0 given" and s: "takes defs s z" "sig_reach defs sig0 s"
    and sub: "getSubSignals defs s True = Inr xs" "a \<in> set xs"
    and x: "takes defs a x" "\<And>t. sig_reach defs sig0 a \<Longrightarrow> typeOf lm given a () = Inr (t, ()) \<Longrightarrow> in_ival (getInterval t) x"
    and t: "\<exists>t1. typeOf lm given a () = Inr (t1, ()) \<and> getInterval t = iop (getInterval t1)"
    and sound: "\<And>i. in_ival i x \<Longrightarrow> ival_wf i \<Longrightarrow> in_ival (iop i) z"
  shows "in_ival (getInterval t) z"
proof -
  obtain t1 where t: "typeOf lm given a () = Inr (t1, ())" "getInterval t = iop (getInterval t1)" using t by blast
  show ?thesis unfolding t(2) using arg_sound [OF ok s sub x t(1)] by (intro sound) auto
qed

lemma takes_sound:
  assumes sol: "solution lm defs sig0 given" and ok: "good_types lm defs sig0 given"
  shows "takes defs s x \<Longrightarrow> sig_reach defs sig0 s \<Longrightarrow> typeOf lm given s () = Inr (t, ()) \<Longrightarrow> in_ival (getInterval t) x"
proof (induction arbitrary: t rule: takes.induct)
  case (tk_add s op a b x y)
  have tk: "takes defs s (dadd x y)" by (rule takes.tk_add [OF tk_add.hyps])
  show ?case by (rule binop_sound [OF sol ok _ tk tk_add.prems tk_add.hyps(3) tk_add.IH(1) tk_add.hyps(4) tk_add.IH(2)])
      (use tk_add.hyps in \<open>auto simp: arithmetic_ops intro: i_add_sound\<close>)
next
  case (tk_sub s op a b x y)
  have tk: "takes defs s (dsub x y)" by (rule takes.tk_sub [OF tk_sub.hyps])
  show ?case by (rule binop_sound [OF sol ok _ tk tk_sub.prems tk_sub.hyps(3) tk_sub.IH(1) tk_sub.hyps(4) tk_sub.IH(2)])
      (use tk_sub.hyps in \<open>auto simp: arithmetic_ops intro: i_sub_sound\<close>)
next
  case (tk_mul s op a b x y)
  have tk: "takes defs s (dmul x y)" by (rule takes.tk_mul [OF tk_mul.hyps])
  show ?case by (rule binop_sound [OF sol ok _ tk tk_mul.prems tk_mul.hyps(3) tk_mul.IH(1) tk_mul.hyps(4) tk_mul.IH(2)])
      (use tk_mul.hyps in \<open>auto simp: arithmetic_ops intro: i_mul_sound\<close>)
next
  case (tk_compare s op a b x y c)
  then show ?case using binop_types [OF sol tk_compare.hyps(1) tk_compare.prems(2)] arithmetic_compare truth_within by metis
next
  case (tk_proj s i r body x)
  have n: "\<not> is_symrec s" using tk_proj.hyps(1) by (simp add: is_symrec_def)
  have rr: "sig_reach defs sig0 r" using reach_sub [OF tk_proj.prems(1) n] tk_proj.hyps(1) by (simp add: getSubSignals_def)
  then obtain tw t1 where w: "given r = Some tw" "typeOf lm given body () = Inr (t1, ())" "type_eq tw t1"
    using sol symrec_of_reach [OF rr tk_proj.hyps(2)] tk_proj.hyps(3) unfolding solution_def by force
  have p: "infereProjType tw i 1 = Inr t"
    using tk_proj.prems(2) tk_proj.hyps(1) w(1)
    by (auto simp: typeOf_unfold [OF sol n] infereSigType_def mbind_def mlift_def rbind_eq_Inr typeOf.simps [of lm given r])
  have succ: "successors defs r = Inr (tlist body)" using tk_proj.hyps(2,3) by (simp add: successors_def)
  have re: "sig_reach defs sig0 e" if "e \<in> set (tlist body)" for e using sig_reach.onward [OF rr succ that] .
  have g: "good te" if "e \<in> set (tlist body)" "typeOf lm given e () = Inr (te, ())" for e te
    using ok re [OF that(1)] that symrec_of_reach [OF rr tk_proj.hyps(2)] tk_proj.hyps(3) unfolding good_types_def by blast
  let ?e = "tlist body ! nat i"
  have e: "?e \<in> set (tlist body)" using tk_proj.hyps(5) by simp
  have l: "nat i < length (components t1) \<and> typeOf lm given ?e () = Inr (components t1 ! nat i, ())"
    by (rule typeOf_list [OF solution_given [OF sol] _ w(2) tk_proj.hyps(5)]) (use g in blast)
  show ?case
    using proj_sound [OF p w(3), of x] l g [OF e] tk_proj.IH [OF re [OF e]] by blast
next
  case (tk_max s a b x y)
  have tk: "takes defs s (dmax x y)" by (rule takes.tk_max [OF tk_max.hyps])
  show ?case
    by (rule binary_sound [where iop = i_max, OF ok tk tk_max.prems(1) _ _ _ tk_max.hyps(2) tk_max.IH(1) tk_max.hyps(3) tk_max.IH(2)])
      (use tk_max.hyps(1) typing_inversion(4) [OF sol tk_max.prems(2)] in \<open>auto simp: getSubSignals_def intro: i_max_sound\<close>)
next
  case (tk_min s a b x y)
  have tk: "takes defs s (dmin x y)" by (rule takes.tk_min [OF tk_min.hyps])
  show ?case
    by (rule binary_sound [where iop = i_min, OF ok tk tk_min.prems(1) _ _ _ tk_min.hyps(2) tk_min.IH(1) tk_min.hyps(3) tk_min.IH(2)])
      (use tk_min.hyps(1) typing_inversion(5) [OF sol tk_min.prems(2)] in \<open>auto simp: getSubSignals_def intro: i_min_sound\<close>)
next
  case (tk_prefix s a b x y c)
  have tk: "takes defs s (if c then x else y)" by (rule takes.tk_prefix [OF tk_prefix.hyps])
  show ?case
    by (rule binary_sound [where iop = reunion, OF ok tk tk_prefix.prems(1) _ _ _ tk_prefix.hyps(2) tk_prefix.IH(1) tk_prefix.hyps(3) tk_prefix.IH(2)])
      (use tk_prefix.hyps(1) typing_inversion(2) [OF sol tk_prefix.prems(2)] in \<open>auto simp: getSubSignals_def intro: reunion_upper\<close>)
next
  case (tk_select s d a b x y c)
  have tk: "takes defs s (if c then x else y)" by (rule takes.tk_select [OF tk_select.hyps])
  show ?case
    by (rule binary_sound [where iop = reunion, OF ok tk tk_select.prems(1) _ _ _ tk_select.hyps(2) tk_select.IH(1) tk_select.hyps(3) tk_select.IH(2)])
      (use tk_select.hyps(1) typing_inversion(2) [OF sol tk_select.prems(2)] in \<open>auto simp: getSubSignals_def intro: reunion_upper\<close>)
next
  case (tk_abs s a x)
  have tk: "takes defs s (dabs x)" by (rule takes.tk_abs [OF tk_abs.hyps])
  show ?case
    by (rule unary_sound [where iop = i_abs, OF ok tk tk_abs.prems(1) _ _ tk_abs.hyps(2) tk_abs.IH(1)])
      (use tk_abs.hyps(1) typing_inversion(6) [OF sol tk_abs.prems(2)] in \<open>auto simp: getSubSignals_def intro: i_abs_sound\<close>)
next
  case (tk_delay s a b x)
  have tk: "takes defs s x" by (rule takes.tk_delay [OF tk_delay.hyps])
  obtain xs where "getSubSignals defs s True = Inr xs" "a \<in> set xs"
    using tk_delay.hyps(1) by (auto simp: getSubSignals_def)
  from unary_sound [OF ok tk tk_delay.prems(1) this tk_delay.hyps(2) tk_delay.IH(1)
      typing_inversion(1) [OF sol tk_delay.prems(2) tk_delay.hyps(1)]]
  show ?case using reunion_upper in_zero(2) by blast
next
  case (tk_float s a x)
  have tk: "takes defs s x" by (rule takes.tk_float [OF tk_float.hyps])
  show ?case
    by (rule unary_sound [where iop = "\<lambda>i. i", OF ok tk tk_float.prems(1) _ _ tk_float.hyps(2) tk_float.IH(1)])
      (use tk_float.hyps(1) typing_inversion(3) [OF sol tk_float.prems(2)] in \<open>auto simp: getSubSignals_def\<close>)
next
  case (tk_attach s a b x)
  have tk: "takes defs s x" by (rule takes.tk_attach [OF tk_attach.hyps])
  show ?case
    by (rule unary_sound [where iop = "\<lambda>i. i", OF ok tk tk_attach.prems(1) _ _ tk_attach.hyps(2) tk_attach.IH(1)])
      (use tk_attach.hyps(1) typing_inversion(3) [OF sol tk_attach.prems(2)] in \<open>auto simp: getSubSignals_def\<close>)
next
  case (tk_bargraph s l u v a x)
  have tk: "takes defs s x" by (rule takes.tk_bargraph [OF tk_bargraph.hyps])
  show ?case
    by (rule unary_sound [where iop = "\<lambda>i. i", OF ok tk tk_bargraph.prems(1) _ _ tk_bargraph.hyps(2) tk_bargraph.IH(1)])
      (use tk_bargraph.hyps(1) typing_inversion(3) [OF sol tk_bargraph.prems(2)] in \<open>auto simp: getSubSignals_def\<close>)
next
  case (tk_silence s a b)
  obtain t1 where t: "typeOf lm given a () = Inr (t1, ())"
    "getInterval t = reunion (getInterval t1) (interval2 (DFin 0) (DFin 0))"
    using typing_inversion(1) [OF sol tk_silence.prems(2)] tk_silence.hyps(1) by blast
  have n: "\<not> is_symrec s" using tk_silence.hyps(1) by (auto simp: is_symrec_def)
  have "sig_reach defs sig0 a"
    using tk_silence.hyps(1) reach_sub [OF tk_silence.prems(1) n] by (auto simp: getSubSignals_def)
  then have "good t1" using ok t(1) tk_silence.hyps(2) unfolding good_types_def by blast
  then show ?case using good_interval in_zero reunion_upper unfolding t(2) by blast
next
  case (tk_int s i)
  then show ?case using typing_inversion(7) [OF sol] by (simp add: interval1_def in_ival_def)
next
  case (tk_real s r)
  then show ?case using typing_inversion(8) [OF sol] by (simp add: interval1_def in_ival_def)
next
  case (tk_input s i x)
  then show ?case using typing_inversion(9) [OF sol] by simp
next
  case (tk_button s l b)
  then show ?case using typing_inversion(10) [OF sol] truth_within by simp
next
  case (tk_slider s l p lo hi x)
  then show ?case using typing_inversion(11) [OF sol] by (simp add: in_interval2)
qed


section \<open>Properties\<close>



end
