(* ===== verification/AddressMap.thy ===== *)
theory AddressMap
  imports Lists
begin

text \<open>
  Maps whose keys are trees.  A \<^verbatim>\<open>map<Tree,_>\<close> of the source orders its keys by their addresses;
  here it is a list of pairs in that order, which is also the order of an iteration.  \<open>mp_update\<close> is
  the assignment to a key, with the value computed from the one that is there.
\<close>

section \<open>Maps ordered by address\<close>

fun mp_update :: "address \<Rightarrow> ('v option \<Rightarrow> 'v) \<Rightarrow> tree \<Rightarrow> (tree \<times> 'v) list \<Rightarrow> (tree \<times> 'v) list" where
  "mp_update ad f k [] = [(k, f None)]"
| "mp_update ad f k ((k', v) # xs) = (if ad k < ad k' then (k, f None) # (k', v) # xs
     else if k = k' then (k, f (Some v)) # xs else (k', v) # mp_update ad f k xs)"

definition mp_ok :: "address \<Rightarrow> (tree \<times> 'v) list \<Rightarrow> bool" where
  "mp_ok ad xs \<longleftrightarrow> sorted_wrt (<) (map (ad \<circ> fst) xs)"

lemma mp_ok_simps [simp]:
  "mp_ok ad []" "mp_ok ad ((k, v) # xs) \<longleftrightarrow> (\<forall>(k', _) \<in> set xs. ad k < ad k') \<and> mp_ok ad xs"
  by (auto simp: mp_ok_def)

lemma mp_update_keys: "fst ` set (mp_update ad f k xs) = insert k (fst ` set xs)"
  by (induction xs rule: mp_update.induct [of _ ad f k]) auto

lemma mp_update_ok:
  assumes "inj ad" "mp_ok ad xs"
  shows "mp_ok ad (mp_update ad f k xs)"
  using assms(2)
proof (induction xs)
  case (Cons p xs)
  obtain k' v where p: "p = (k', v)" by (cases p)
  show ?case
  proof (cases "ad k < ad k'")
    case True
    with Cons.prems p show ?thesis by auto
  next
    case False
    with assms(1) have "k = k' \<or> ad k' < ad k" by (metis inj_eq linorder_neqE_nat)
    moreover have "ad k' < ad q" if "ad k' < ad k" "q \<in> fst ` set (mp_update ad f k xs)" for q
      using Cons.prems p that unfolding mp_update_keys by auto
    ultimately show ?thesis using Cons False p by (force split: prod.splits)
  qed
qed simp

lemma mp_ok_map_of: "inj ad \<Longrightarrow> mp_ok ad xs \<Longrightarrow> (k, v) \<in> set xs \<longleftrightarrow> map_of xs k = Some v"
  by (induction xs) (force simp: map_of_eq_None_iff split: if_splits)+

lemma map_of_mp_update:
  assumes "inj ad" "mp_ok ad xs"
  shows "map_of (mp_update ad f k xs) = (map_of xs)(k \<mapsto> f (map_of xs k))"
  using assms(2)
proof (induction xs)
  case (Cons p xs)
  obtain k' v where p: "p = (k', v)" by (cases p)
  show ?case
  proof (cases "ad k < ad k'")
    case True
    then have "k \<notin> fst ` set (p # xs)" using Cons.prems p by auto
    then have "map_of (p # xs) k = None" by (simp only: map_of_eq_None_iff not_False_eq_True)
    with True p show ?thesis by (simp add: fun_eq_iff)
  qed (use Cons p in \<open>auto simp: fun_eq_iff\<close>)
qed simp

section \<open>Addresses of given trees\<close>

text \<open>Addresses of trees of which some are allocated first, in the order of a list.\<close>

fun addr_after :: "tree list \<Rightarrow> tree \<Rightarrow> nat" where
  "addr_after [] t = to_nat t"
| "addr_after (u # us) t = (if t = u then 0 else Suc (addr_after us t))"

lemma addr_after_inj: "inj (addr_after us)"
proof (rule injI)
  fix t u assume "addr_after us t = addr_after us u"
  then show "t = u" by (induction us) (auto split: if_splits)
qed

end
