(* ===== verification/MTerm.thy ===== *)
theory MTerm
  imports SubSignals AddressMap
begin

text \<open>
  Multiplicative terms (\<^verbatim>\<open>normalize/mterm.cpp\<close>): a numeric coefficient and powers of factors.

  The map of the factors, \<^verbatim>\<open>map<Tree,int>\<close>, is a list of pairs ordered by the addresses of the keys,
  which is also the order of its iteration.  Exponents are 32-bit integers.  The order of a factor
  is the one of \<open>SubSignals\<close>, without the stored answers, which are transparent.  A null \<^verbatim>\<open>Tree\<close> is
  \<open>None\<close>.
\<close>

section \<open>Operations\<close>

record mterm =
  fCoef :: tree
  fFactors :: "(tree \<times> int) list"

definition isZero :: "tree \<Rightarrow> bool" where "isZero t = isZeroNode (node t)"

definition isGEZero :: "tree \<Rightarrow> bool" where "isGEZero t = isGEZeroNode (node t)"

definition isOne :: "tree \<Rightarrow> bool" where "isOne t = isOneNode (node t)"

definition isMinusOne :: "tree \<Rightarrow> bool" where "isMinusOne t = isMinusOneNode (node t)"

definition sig_order :: "tree \<Rightarrow> int result" where
  "sig_order t = rbind (sigOrder t ()) (\<lambda>(k, _). Inr k)"

definition mterm_num :: "tree \<Rightarrow> mterm" where
  "mterm_num c = \<lparr>fCoef = c, fFactors = []\<rparr>"

definition mterm_zero :: mterm where "mterm_zero = mterm_num (sigInt 0)"

definition mterm_int :: "int \<Rightarrow> mterm" where "mterm_int k = mterm_num (sigInt k)"

definition isNotZero :: "mterm \<Rightarrow> bool" where "isNotZero m = (\<not> isZero (fCoef m))"

definition isNegative :: "mterm \<Rightarrow> bool" where "isNegative m = (\<not> isGEZero (fCoef m))"

fun complexity_of :: "(tree \<times> int) list \<Rightarrow> int \<Rightarrow> int result" where
  "complexity_of [] c = Inr c"
| "complexity_of ((f, q) # fs) c = rbind (sig_order f) (\<lambda>k. complexity_of fs (wrap32 (c + (1 + k) * \<bar>q\<bar>)))"

definition complexity :: "mterm \<Rightarrow> int result" where
  "complexity m = complexity_of (fFactors m) (if isOne (fCoef m) then 0 else 1)"

definition isSigPow :: "tree \<Rightarrow> (tree \<times> int) option result" where
  "isSigPow sig = (if getUserData (node sig) = Some XPow
     then (case branches sig of
         x # y # _ \<Rightarrow> Inr (map_option (\<lambda>n. (x, n)) (isSigInt y))
       | _ \<Rightarrow> Inl (Undefined ''branch''))
     else Inr None)"

definition sigPow :: "tree \<Rightarrow> int \<Rightarrow> tree" where
  "sigPow x p = Tree (NSym (Xt XPow)) [x, sigInt p]"

definition add_factor :: "address \<Rightarrow> tree \<Rightarrow> int \<Rightarrow> mterm \<Rightarrow> mterm" where
  "add_factor ad x n m = m\<lparr>fFactors := mp_update ad (\<lambda>q. wrap32 ((case q of Some v \<Rightarrow> v | None \<Rightarrow> 0) + n)) x (fFactors m)\<rparr>"

lemma isSigBinOp_size: "isSigBinOp t = Some (op, x, y) \<Longrightarrow> size x < size t \<and> size y < size t"
  by (auto simp: isSigBinOp_def isTree_Some split: option.splits)

function mul_tree :: "address \<Rightarrow> tree \<Rightarrow> mterm \<Rightarrow> mterm result"
and div_tree :: "address \<Rightarrow> tree \<Rightarrow> mterm \<Rightarrow> mterm result" where
  "mul_tree ad t m = (if isNum t then Inr (m\<lparr>fCoef := mulNums (fCoef m) t\<rparr>)
     else case isSigMul t of
       Some (x, y) \<Rightarrow> rbind (mul_tree ad x m) (mul_tree ad y)
     | None \<Rightarrow> (case isSigDiv t of
         Some (x, y) \<Rightarrow> rbind (mul_tree ad x m) (div_tree ad y)
       | None \<Rightarrow> rbind (isSigPow t) (\<lambda>p. case p of
           Some (x, n) \<Rightarrow> Inr (add_factor ad x n m) | None \<Rightarrow> Inr (add_factor ad t 1 m))))"
| "div_tree ad t m = (if isNum t then rbind (divExtendedNums (fCoef m) t) (\<lambda>c. Inr (m\<lparr>fCoef := c\<rparr>))
     else case isSigMul t of
       Some (x, y) \<Rightarrow> rbind (div_tree ad x m) (div_tree ad y)
     | None \<Rightarrow> (case isSigDiv t of
         Some (x, y) \<Rightarrow> rbind (div_tree ad x m) (mul_tree ad y)
       | None \<Rightarrow> rbind (isSigPow t) (\<lambda>p. case p of
           Some (x, n) \<Rightarrow> Inr (add_factor ad x (- n) m) | None \<Rightarrow> Inr (add_factor ad t (- 1) m))))"
  by pat_completeness auto
termination
  by (relation "measure (\<lambda>x. case x of Inl (_, t, _) \<Rightarrow> size t | Inr (_, t, _) \<Rightarrow> size t)")
    (auto simp: isSigMul_def isSigDiv_def is_binop_def dest!: isSigBinOp_size split: option.splits if_splits)

declare mul_tree.simps [simp del] div_tree.simps [simp del]

definition mterm_of :: "address \<Rightarrow> tree \<Rightarrow> mterm result" where
  "mterm_of ad t = mul_tree ad t (mterm_int 1)"

definition cleanup :: "mterm \<Rightarrow> mterm" where
  "cleanup m = (if isZero (fCoef m) then m\<lparr>fFactors := []\<rparr>
     else m\<lparr>fFactors := filter (\<lambda>(_, q). q \<noteq> 0) (fFactors m)\<rparr>)"

definition buildPowTerm :: "tree \<Rightarrow> int \<Rightarrow> tree result" where
  "buildPowTerm f q = rbind (assert_that (q > 0) ''q>0'') (\<lambda>_. Inr (if q > 1 then sigPow f q else f))"

definition combineMulLeft :: "tree option \<Rightarrow> tree option \<Rightarrow> tree option result" where
  "combineMulLeft R A = (case (R, A) of
      (Some r, Some a) \<Rightarrow> Inr (Some (sigBinOp kMul r a))
    | (None, Some a) \<Rightarrow> Inr (Some a)
    | _ \<Rightarrow> Inl (FaustException ''combineMulLeft''))"

definition combineDivLeft :: "tree option \<Rightarrow> tree option \<Rightarrow> tree option result" where
  "combineDivLeft R A = (case (R, A) of
      (Some r, Some a) \<Rightarrow> Inr (Some (sigBinOp kDiv r a))
    | (None, Some a) \<Rightarrow> Inr (Some (sigBinOp kDiv (leaf (NDouble (DFin 1))) a))
    | _ \<Rightarrow> Inl (FaustException ''combineDivLeft''))"

definition combineMulDiv :: "tree option \<Rightarrow> tree option \<Rightarrow> tree \<Rightarrow> int \<Rightarrow> (tree option \<times> tree option) result" where
  "combineMulDiv M D f q = rbind (assert_that (q \<noteq> 0) ''q != 0'') (\<lambda>_.
     if q > 0 then rbind (buildPowTerm f q) (\<lambda>p. rbind (combineMulLeft M (Some p)) (\<lambda>M1. Inr (M1, D)))
     else rbind (buildPowTerm f (wrap32 (- q))) (\<lambda>p. rbind (combineMulLeft D (Some p)) (\<lambda>D1. Inr (M, D1))))"

text \<open>The numerator and the denominator of the factors of one order.\<close>

fun group_factors :: "int \<Rightarrow> (tree \<times> int) list \<Rightarrow> tree option \<Rightarrow> tree option \<Rightarrow> (tree option \<times> tree option) result" where
  "group_factors ord [] A B = Inr (A, B)"
| "group_factors ord ((f, q) # fs) A B = (if q = 0 then group_factors ord fs A B
     else rbind (sig_order f) (\<lambda>k. if k = ord
       then rbind (combineMulDiv A B f q) (\<lambda>(A1, B1). group_factors ord fs A1 B1)
       else group_factors ord fs A B))"

definition combine_order :: "tree option \<Rightarrow> tree option \<times> tree option \<Rightarrow> tree option result" where
  "combine_order RR AB = (case AB of
      (Some a, Some b) \<Rightarrow> combineMulLeft RR (Some (sigBinOp kDiv a b))
    | (Some a, None) \<Rightarrow> combineMulLeft RR (Some a)
    | (None, Some b) \<Rightarrow> combineDivLeft RR (Some b)
    | (None, None) \<Rightarrow> Inr RR)"

fun combine_orders :: "tree option \<Rightarrow> (tree option \<times> tree option) list \<Rightarrow> tree option result" where
  "combine_orders RR [] = Inr RR"
| "combine_orders RR (ab # rest) = rbind (combine_order RR ab) (\<lambda>R1. combine_orders R1 rest)"

definition coef_part :: "bool \<Rightarrow> bool \<Rightarrow> tree \<Rightarrow> tree option" where
  "coef_part signatureMode negativeMode c = (if signatureMode then None
     else if negativeMode then (if isMinusOne c then None else Some (minusNum c))
     else if isOne c then None else Some c)"

definition normalizedTree :: "mterm \<Rightarrow> bool \<Rightarrow> bool \<Rightarrow> tree result" where
  "normalizedTree m signatureMode negativeMode =
     (if fFactors m = [] \<or> isZero (fCoef m)
      then Inr (if signatureMode then sigInt 1 else if negativeMode then minusNum (fCoef m) else fCoef m)
      else rbind (rmap (\<lambda>ord. group_factors ord (fFactors m) None None) [0, 1, 2, 3]) (\<lambda>AB.
        rbind (assert_that (fst (hd AB) = None) ''A[0] == 0'') (\<lambda>_.
        rbind (assert_that (snd (hd AB) = None) ''B[0] == 0'') (\<lambda>_.
        rbind (combine_orders None ((coef_part signatureMode negativeMode (fCoef m), None) # tl AB)) (\<lambda>RR.
          Inr (case RR of Some r \<Rightarrow> r | None \<Rightarrow> sigInt 1))))))"

definition signatureTree :: "mterm \<Rightarrow> tree result" where
  "signatureTree m = normalizedTree m True False"

definition mterm_plus :: "mterm \<Rightarrow> mterm \<Rightarrow> mterm result" where
  "mterm_plus t m = (if isZero (fCoef m) then Inr (cleanup t)
     else if isZero (fCoef t) then Inr (cleanup (t\<lparr>fCoef := fCoef m, fFactors := fFactors m\<rparr>))
     else rbind (signatureTree t) (\<lambda>s1. rbind (signatureTree m) (\<lambda>s2.
       rbind (assert_that (s1 = s2) ''signatureTree'') (\<lambda>_.
         Inr (cleanup (t\<lparr>fCoef := addNums (fCoef t) (fCoef m)\<rparr>))))))"

definition mterm_minus :: "mterm \<Rightarrow> mterm \<Rightarrow> mterm result" where
  "mterm_minus t m = (if isZero (fCoef m) then Inr (cleanup t)
     else if isZero (fCoef t) then Inr (cleanup (t\<lparr>fCoef := minusNum (fCoef m), fFactors := fFactors m\<rparr>))
     else rbind (signatureTree t) (\<lambda>s1. rbind (signatureTree m) (\<lambda>s2.
       rbind (assert_that (s1 = s2) ''signatureTree'') (\<lambda>_.
         Inr (cleanup (t\<lparr>fCoef := subNums (fCoef t) (fCoef m)\<rparr>))))))"

definition mterm_times :: "address \<Rightarrow> mterm \<Rightarrow> mterm \<Rightarrow> mterm" where
  "mterm_times ad t m = cleanup (fold (\<lambda>(x, n). add_factor ad x n) (fFactors m)
     (t\<lparr>fCoef := mulNums (fCoef t) (fCoef m)\<rparr>))"

definition mterm_over :: "address \<Rightarrow> mterm \<Rightarrow> mterm \<Rightarrow> mterm result" where
  "mterm_over ad t m = rbind (divExtendedNums (fCoef t) (fCoef m)) (\<lambda>c.
     Inr (cleanup (fold (\<lambda>(x, n). add_factor ad x (- n)) (fFactors m) (t\<lparr>fCoef := c\<rparr>))))"

definition common :: "int \<Rightarrow> int \<Rightarrow> int" where
  "common a b = (if a > 0 \<and> b > 0 then min a b else if a < 0 \<and> b < 0 then max a b else 0)"

definition gcd_factors :: "address \<Rightarrow> (tree \<times> int) list \<Rightarrow> (tree \<times> int) list \<Rightarrow> mterm \<Rightarrow> mterm" where
  "gcd_factors ad fs1 fs2 R = fold (\<lambda>(t, v1) R. case map_of fs2 t of
      None \<Rightarrow> R
    | Some v2 \<Rightarrow> let c = common v1 v2 in
        if c \<noteq> 0 then R\<lparr>fFactors := mp_update ad (\<lambda>_. c) t (fFactors R)\<rparr> else R) fs1 R"

definition mterm_gcd :: "address \<Rightarrow> mterm \<Rightarrow> mterm \<Rightarrow> mterm result" where
  "mterm_gcd ad m1 m2 = rbind (mterm_of ad (if fCoef m1 = fCoef m2 then fCoef m1 else sigInt 1)) (\<lambda>R.
     Inr (gcd_factors ad (fFactors m1) (fFactors m2) R))"

definition contains :: "int \<Rightarrow> int \<Rightarrow> bool" where
  "contains a b \<longleftrightarrow> b = 0 \<or> tdiv a b > 0"

definition hasDivisor :: "mterm \<Rightarrow> mterm \<Rightarrow> bool" where
  "hasDivisor m n \<longleftrightarrow> (\<forall>(f, v) \<in> set (fFactors n). case map_of (fFactors m) f of None \<Rightarrow> False | Some u \<Rightarrow> contains u v)"

end
