(* ===== verification/ATerm.thy ===== *)
theory ATerm
  imports MTerm
begin

text \<open>
  Additive terms (\<^verbatim>\<open>normalize/aterm.cpp\<close>) and the normal form of sums (\<^verbatim>\<open>normalizeAddTerm\<close> of
  \<^verbatim>\<open>normalize/normalize.cpp\<close>).

  An additive term maps the signature of each product to the product, in the order of the addresses
  of the signatures.  The loop that factors out the greatest divisor takes a bound on its number of
  rounds; the number of products is enough.
\<close>

type_synonym aterm = "(tree \<times> mterm) list"

section \<open>Operations\<close>

definition simplifyingAdd :: "address \<Rightarrow> tree \<Rightarrow> tree \<Rightarrow> tree" where
  "simplifyingAdd ad t1 t2 = (if isNum t1 \<and> isNum t2 then addNums t1 t2
     else if isZero t1 then t2
     else if isZero t2 then t1
     else if ad t1 \<le> ad t2 then sigBinOp kAdd t1 t2
     else sigBinOp kAdd t2 t1)"

definition add_at :: "address \<Rightarrow> int \<Rightarrow> tree \<Rightarrow> tree list \<Rightarrow> tree list result" where
  "add_at ad ord t xs = (if 0 \<le> ord \<and> nat ord < length xs then Inr (xs[nat ord := simplifyingAdd ad (xs ! nat ord) t])
     else Inl (Undefined ''order''))"

fun sum_terms :: "address \<Rightarrow> aterm \<Rightarrow> tree list \<Rightarrow> tree list \<Rightarrow> (tree list \<times> tree list) result" where
  "sum_terms ad [] P N = Inr (P, N)"
| "sum_terms ad ((_, m) # A) P N = (if isNegative m
     then rbind (normalizedTree m False True) (\<lambda>t. rbind (sig_order t) (\<lambda>ord.
       rbind (add_at ad ord t N) (\<lambda>N1. sum_terms ad A P N1)))
     else rbind (normalizedTree m False False) (\<lambda>t. rbind (sig_order t) (\<lambda>ord.
       rbind (add_at ad ord t P) (\<lambda>P1. sum_terms ad A P1 N))))"

fun combine_sums :: "address \<Rightarrow> tree \<Rightarrow> (tree \<times> tree) list \<Rightarrow> tree" where
  "combine_sums ad S [] = S"
| "combine_sums ad S ((p, n) # rest) =
     (let S1 = (if isZero p then S else simplifyingAdd ad S p) in
      if isZero n then combine_sums ad S1 rest
      else case rest of
        (p', n') # rest' \<Rightarrow> if isZero S1 then combine_sums ad S1 ((p', simplifyingAdd ad n n') # rest')
            else combine_sums ad (sigBinOp kSub S1 n) rest
      | [] \<Rightarrow> sigBinOp kSub S1 n)"

definition aterm_tree :: "address \<Rightarrow> aterm \<Rightarrow> tree result" where
  "aterm_tree ad A = rbind (sum_terms ad A (replicate 4 (sigInt 0)) (replicate 4 (sigInt 0))) (\<lambda>(P, N).
     Inr (combine_sums ad (sigInt 0) (zip P N)))"

definition plus_mterm :: "address \<Rightarrow> mterm \<Rightarrow> aterm \<Rightarrow> aterm result" where
  "plus_mterm ad m A = rbind (signatureTree m) (\<lambda>sig. case map_of A sig of
      None \<Rightarrow> Inr (mp_update ad (\<lambda>_. m) sig A)
    | Some t \<Rightarrow> rbind (mterm_plus t m) (\<lambda>r. Inr (mp_update ad (\<lambda>_. r) sig A)))"

definition minus_mterm :: "address \<Rightarrow> mterm \<Rightarrow> aterm \<Rightarrow> aterm result" where
  "minus_mterm ad m A = rbind (signatureTree m) (\<lambda>sig. case map_of A sig of
      None \<Rightarrow> Inr (mp_update ad (\<lambda>_. mterm_times ad m (mterm_int (- 1))) sig A)
    | Some t \<Rightarrow> rbind (mterm_minus t m) (\<lambda>r. Inr (mp_update ad (\<lambda>_. r) sig A)))"

function plus_tree :: "address \<Rightarrow> tree \<Rightarrow> aterm \<Rightarrow> aterm result"
and minus_tree :: "address \<Rightarrow> tree \<Rightarrow> aterm \<Rightarrow> aterm result" where
  "plus_tree ad t A = (case isSigAdd t of
      Some (x, y) \<Rightarrow> rbind (plus_tree ad x A) (plus_tree ad y)
    | None \<Rightarrow> (case isSigSub t of
        Some (x, y) \<Rightarrow> rbind (plus_tree ad x A) (minus_tree ad y)
      | None \<Rightarrow> rbind (mterm_of ad t) (\<lambda>m. plus_mterm ad m A)))"
| "minus_tree ad t A = (case isSigAdd t of
      Some (x, y) \<Rightarrow> rbind (minus_tree ad x A) (minus_tree ad y)
    | None \<Rightarrow> (case isSigSub t of
        Some (x, y) \<Rightarrow> rbind (minus_tree ad x A) (plus_tree ad y)
      | None \<Rightarrow> rbind (mterm_of ad t) (\<lambda>m. minus_mterm ad m A)))"
  by pat_completeness auto
termination
  by (relation "measure (\<lambda>x. case x of Inl (_, t, _) \<Rightarrow> size t | Inr (_, t, _) \<Rightarrow> size t)")
    (auto simp: isSigAdd_def isSigSub_def is_binop_def dest!: isSigBinOp_size split: option.splits if_splits)

declare plus_tree.simps [simp del] minus_tree.simps [simp del]

definition aterm_of :: "address \<Rightarrow> tree \<Rightarrow> aterm result" where
  "aterm_of ad t = plus_tree ad t []"

fun term_pairs :: "'a list \<Rightarrow> ('a \<times> 'a) list" where
  "term_pairs [] = []"
| "term_pairs (x # xs) = map (Pair x) xs @ term_pairs xs"

fun best_divisor :: "address \<Rightarrow> (mterm \<times> mterm) list \<Rightarrow> int \<Rightarrow> mterm \<Rightarrow> mterm result" where
  "best_divisor ad [] c D = Inr D"
| "best_divisor ad ((m1, m2) # ps) c D = rbind (mterm_gcd ad m1 m2) (\<lambda>g. rbind (complexity g) (\<lambda>k.
     if k > c then best_divisor ad ps k g else best_divisor ad ps c D))"

definition greatestDivisor :: "address \<Rightarrow> aterm \<Rightarrow> mterm result" where
  "greatestDivisor ad A = best_divisor ad (term_pairs (map snd A)) 0 (mterm_int 1)"

fun split_terms :: "address \<Rightarrow> mterm \<Rightarrow> mterm list \<Rightarrow> aterm \<Rightarrow> aterm \<Rightarrow> (aterm \<times> aterm) result" where
  "split_terms ad d [] A Q = Inr (A, Q)"
| "split_terms ad d (t # ts) A Q = (if hasDivisor t d
     then rbind (mterm_over ad t d) (\<lambda>q. rbind (plus_mterm ad q Q) (\<lambda>Q1. split_terms ad d ts A Q1))
     else rbind (plus_mterm ad t A) (\<lambda>A1. split_terms ad d ts A1 Q))"

definition factorize :: "address \<Rightarrow> mterm \<Rightarrow> aterm \<Rightarrow> aterm result" where
  "factorize ad d S = rbind (split_terms ad d (map snd S) [] []) (\<lambda>(A, Q).
     rbind (normalizedTree d False False) (\<lambda>dt. rbind (aterm_tree ad Q) (\<lambda>qt.
       plus_tree ad (sigBinOp kMul dt qt) A)))"

fun factor_loop :: "nat \<Rightarrow> address \<Rightarrow> mterm \<Rightarrow> aterm \<Rightarrow> aterm result option" where
  "factor_loop 0 ad D A = None"
| "factor_loop (Suc n) ad D A = (case rbind (if isNotZero D then complexity D else Inr 0) (\<lambda>k. Inr (k > 0)) of
      Inl e \<Rightarrow> Some (Inl e)
    | Inr False \<Rightarrow> Some (Inr A)
    | Inr True \<Rightarrow> (case rbind (factorize ad D A) (\<lambda>A1. rbind (greatestDivisor ad A1) (\<lambda>D1. Inr (A1, D1))) of
        Inl e \<Rightarrow> Some (Inl e)
      | Inr (A1, D1) \<Rightarrow> factor_loop n ad D1 A1))"

definition normalizeAddTerm :: "address \<Rightarrow> tree \<Rightarrow> tree result" where
  "normalizeAddTerm ad t = rbind (aterm_of ad t) (\<lambda>A. rbind (greatestDivisor ad A) (\<lambda>D.
     case factor_loop (Suc (length A)) ad D A of
       None \<Rightarrow> Inl (Undefined ''rounds'')
     | Some r \<Rightarrow> rbind r (aterm_tree ad)))"

end
