(* ===== verification/NormalSound.thy ===== *)
theory NormalSound
  imports ATerm "HOL-Library.Multiset" "HOL-Library.Word"
begin

text \<open>
  What the normal form of a sum means.

  The value of a signal is taken in the 32-bit integers: numbers, \<^verbatim>\<open>+\<close>, \<^verbatim>\<open>-\<close>, \<^verbatim>\<open>*\<close> and powers with a
  non-negative exponent are interpreted, and every other signal is given an arbitrary value by an
  assignment \<open>\<rho>\<close>.  A product is a coefficient and a multiset of atoms; \<open>mterm\<close>s, product trees
  and the normalised trees are compared through these two.
\<close>

section \<open>Values\<close>

fun pow_parts :: "tree \<Rightarrow> (tree \<times> int) option" where
  "pow_parts (Tree n br) = (case n of NSym (Xt XPow) \<Rightarrow>
     (case br of x # y # _ \<Rightarrow> map_option (Pair x) (isSigInt y) | _ \<Rightarrow> None) | _ \<Rightarrow> None)"

lemma pow_parts_size [termination_simp]: "pow_parts t = Some (x, n) \<Longrightarrow> size x < size t"
  by (cases t) (auto split: node.splits sym.splits xprim.splits list.splits)

lemma binop_sizes [termination_simp]:
  "isSigAdd t = Some (x, y) \<Longrightarrow> size x < size t \<and> size y < size t"
  "isSigSub t = Some (x, y) \<Longrightarrow> size x < size t \<and> size y < size t"
  "isSigMul t = Some (x, y) \<Longrightarrow> size x < size t \<and> size y < size t"
  by (auto simp: isSigAdd_def isSigSub_def isSigMul_def is_binop_def dest!: isSigBinOp_size split: option.splits if_splits)

function pval :: "(tree \<Rightarrow> 32 word) \<Rightarrow> tree \<Rightarrow> 32 word" where
  "pval \<rho> t = (case isSigInt t of Some i \<Rightarrow> of_int i | None \<Rightarrow>
     (case isSigAdd t of Some (x, y) \<Rightarrow> pval \<rho> x + pval \<rho> y | None \<Rightarrow>
     (case isSigSub t of Some (x, y) \<Rightarrow> pval \<rho> x - pval \<rho> y | None \<Rightarrow>
     (case isSigMul t of Some (x, y) \<Rightarrow> pval \<rho> x * pval \<rho> y | None \<Rightarrow>
     (case pow_parts t of Some (x, n) \<Rightarrow> (if n < 0 then \<rho> t else pval \<rho> x ^ nat n) | None \<Rightarrow> \<rho> t)))))"
  by pat_completeness auto
termination
  by (relation "measure (\<lambda>(_, t). size t)") (auto dest: binop_sizes pow_parts_size)

declare pval.simps [simp del]

lemma of_int_wrap32 [simp]: "(of_int (wrap32 i) :: 32 word) = of_int i"
  using wrap32_cong [of i] by (simp add: word_of_int_eq_iff take_bit_eq_mod)

lemma binop_recognised [simp]:
  "isSigAdd (sigBinOp kAdd x y) = Some (x, y)" "isSigSub (sigBinOp kSub x y) = Some (x, y)"
  "isSigMul (sigBinOp kMul x y) = Some (x, y)" "isSigAdd (sigBinOp kSub x y) = None"
  "isSigAdd (sigBinOp kMul x y) = None" "isSigSub (sigBinOp kMul x y) = None"
  "isSigSub (sigBinOp kAdd x y) = None" "isSigMul (sigBinOp kAdd x y) = None" "isSigMul (sigBinOp kSub x y) = None"
  "isSigDiv (sigBinOp kAdd x y) = None" "isSigDiv (sigBinOp kSub x y) = None" "isSigDiv (sigBinOp kMul x y) = None"
  "isSigInt (sigBinOp op x y) = None" "isNum (sigBinOp op x y) \<longleftrightarrow> False" "pow_parts (sigBinOp op x y) = None"
  "isSigPow (sigBinOp op x y) = Inr None"
  by (simp_all add: isSigAdd_def isSigSub_def isSigMul_def isSigDiv_def is_binop_def isSigBinOp_def sigBinOp_def isTree3_def
      isSigInt_def leaf_def isNum_def isNumNode_def isIntNode_def isDoubleNode_def isSigPow_def getUserData_def opcode_def)

lemma pval_binop [simp]:
  "pval \<rho> (sigBinOp kAdd x y) = pval \<rho> x + pval \<rho> y" "pval \<rho> (sigBinOp kSub x y) = pval \<rho> x - pval \<rho> y"
  "pval \<rho> (sigBinOp kMul x y) = pval \<rho> x * pval \<rho> y"
  by (simp_all add: pval.simps [of \<rho> "sigBinOp _ _ _"])

lemma pval_int: "isSigInt t = Some i \<Longrightarrow> pval \<rho> t = of_int i"
  by (simp add: pval.simps)

section \<open>Products\<close>

definition atom :: "tree \<Rightarrow> bool" where
  "atom t \<longleftrightarrow> \<not> isNum t \<and> isSigMul t = None \<and> isSigDiv t = None \<and> isSigPow t = Inr None \<and>
     (case sig_order t of Inr k \<Rightarrow> 1 \<le> k | Inl _ \<Rightarrow> False)"

function prodt :: "tree \<Rightarrow> bool" where
  "prodt t = (if isNum t then (case isSigInt t of Some i \<Rightarrow> in_int32 i | None \<Rightarrow> False)
     else case isSigMul t of Some (x, y) \<Rightarrow> prodt x \<and> prodt y
     | None \<Rightarrow> isSigDiv t = None \<and> (case isSigPow t of
         Inr (Some (x, n)) \<Rightarrow> atom x \<and> 0 < n | Inr None \<Rightarrow> atom t | Inl _ \<Rightarrow> False))"
  by pat_completeness auto
termination by (relation "measure size") (auto dest: binop_sizes)

function tcoef :: "tree \<Rightarrow> int" where
  "tcoef t = (case isSigInt t of Some i \<Rightarrow> i | None \<Rightarrow>
     (case isSigMul t of Some (x, y) \<Rightarrow> tcoef x * tcoef y | None \<Rightarrow> 1))"
  by pat_completeness auto
termination by (relation "measure size") (auto dest: binop_sizes)

function tfac :: "tree \<Rightarrow> tree multiset" where
  "tfac t = (if isNum t then {#} else case isSigMul t of Some (x, y) \<Rightarrow> tfac x + tfac y
     | None \<Rightarrow> (case pow_parts t of Some (x, n) \<Rightarrow> replicate_mset (nat n) x | None \<Rightarrow> {#t#}))"
  by pat_completeness auto
termination by (relation "measure size") (auto dest: binop_sizes)

declare prodt.simps [simp del] tcoef.simps [simp del] tfac.simps [simp del]

lemma isSigPow_parts: "isSigPow t = Inr p \<Longrightarrow> pow_parts t = p"
  by (cases t) (auto simp: isSigPow_def getUserData_def split: node.splits sym.splits xprim.splits list.splits if_splits)

lemma num_int: "isSigInt t = Some i \<Longrightarrow> isNum t"
  by (auto simp: isSigInt_def isNum_def isNumNode_def isIntNode_def split: node.splits)

text \<open>The shapes a product tree can have, and induction over them.\<close>

lemma prodt_induct [consumes 1, case_names num mul pow atom]:
  assumes "prodt t"
    and num: "\<And>t i. isSigInt t = Some i \<Longrightarrow> in_int32 i \<Longrightarrow> P t"
    and mul: "\<And>t x y. \<not> isNum t \<Longrightarrow> isSigMul t = Some (x, y) \<Longrightarrow> prodt x \<Longrightarrow> prodt y \<Longrightarrow> P x \<Longrightarrow> P y \<Longrightarrow> P t"
    and pow: "\<And>t x n. \<not> isNum t \<Longrightarrow> isSigMul t = None \<Longrightarrow> isSigDiv t = None \<Longrightarrow> isSigPow t = Inr (Some (x, n)) \<Longrightarrow>
      atom x \<Longrightarrow> 0 < n \<Longrightarrow> P t"
    and atom: "\<And>t. atom t \<Longrightarrow> P t"
  shows "P t"
  using assms(1)
proof (induction t rule: prodt.induct)
  case (1 t)
  then show ?case using num mul pow atom
    by (subst (asm) prodt.simps)
      (auto split: if_splits option.splits sum.splits)
qed


lemma is_binop_node: "is_binop op t = Some p \<Longrightarrow> node t = ssym SIGBINOP"
  by (cases t) (auto simp: is_binop_def isSigBinOp_def isTree3_Some split: option.splits)

lemma not_binop: "node t \<noteq> ssym SIGBINOP \<Longrightarrow> isSigAdd t = None \<and> isSigSub t = None \<and> isSigMul t = None \<and> isSigDiv t = None"
  by (auto simp: isSigAdd_def isSigSub_def isSigMul_def isSigDiv_def dest: is_binop_node intro: ccontr)

lemma isSigInt_not_binop: "isSigInt t = Some i \<Longrightarrow> node t \<noteq> ssym SIGBINOP"
  by (auto simp: isSigInt_def)

lemma isSigInt_None: "\<not> isNum t \<Longrightarrow> isSigInt t = None"
  by (cases "isSigInt t") (auto dest: num_int)

lemma is_binop_unique: "is_binop op t = Some p \<Longrightarrow> opcode op \<noteq> opcode op' \<Longrightarrow> is_binop op' t = None"
  by (auto simp: is_binop_def split: option.splits if_splits)

lemma pval_add: "isSigAdd t = Some (x, y) \<Longrightarrow> pval \<rho> t = pval \<rho> x + pval \<rho> y"
  and pval_sub: "isSigSub t = Some (x, y) \<Longrightarrow> pval \<rho> t = pval \<rho> x - pval \<rho> y"
  using isSigInt_not_binop [of t] is_binop_node [of _ t] is_binop_unique [of kSub t _ kAdd]
  by (cases "isSigInt t"; fastforce simp: pval.simps [of \<rho> t] isSigAdd_def isSigSub_def opcode_def)+

lemma isSigMul_not_sum: "isSigMul t = Some p \<Longrightarrow> isSigAdd t = None \<and> isSigSub t = None"
  by (simp add: isSigMul_def isSigAdd_def isSigSub_def is_binop_unique opcode_def)

lemma pow_parts_not_binop: "pow_parts t = Some p \<Longrightarrow> node t \<noteq> ssym SIGBINOP"
  by (cases t) (auto split: node.splits sym.splits)

lemma atomD: "atom t \<Longrightarrow> \<not> isNum t \<and> isSigInt t = None \<and> isSigMul t = None \<and> isSigDiv t = None \<and> pow_parts t = None"
  by (auto simp: atom_def isSigPow_parts isSigInt_None)

lemma product_value: "prodt t \<Longrightarrow> pval \<rho> t = of_int (tcoef t) * (\<Prod>x \<in># tfac t. pval \<rho> x)"
proof (induction rule: prodt_induct)
  case (num t i)
  then show ?case by (simp add: pval_int tcoef.simps tfac.simps num_int)
next
  case (mul t x y)
  then show ?case
    by (simp add: pval.simps [of \<rho> t] tcoef.simps [of t] tfac.simps [of t] isSigInt_None isSigMul_not_sum)
next
  case (pow t x n)
  have p: "pow_parts t = Some (x, n)" by (rule isSigPow_parts) (rule pow.hyps)
  show ?case using pow not_binop [OF pow_parts_not_binop [OF p]]
    by (simp add: pval.simps [of \<rho> t] tcoef.simps [of t] tfac.simps [of t] isSigInt_None p)
next
  case (atom t)
  then show ?case by (simp add: tcoef.simps [of t] tfac.simps [of t] atomD)
qed

definition fac_sum :: "(tree \<times> int) list \<Rightarrow> tree multiset" where
  "fac_sum fs = (\<Sum>(x, n) \<leftarrow> fs. replicate_mset (nat n) x)"

lemma fac_sum_simps [simp]:
  "fac_sum [] = {#}" "fac_sum ((x, n) # fs) = replicate_mset (nat n) x + fac_sum fs"
  by (simp_all add: fac_sum_def)

definition mcoef :: "mterm \<Rightarrow> int" where
  "mcoef m = (case isSigInt (fCoef m) of Some i \<Rightarrow> i | None \<Rightarrow> 0)"

abbreviation mfac :: "mterm \<Rightarrow> tree multiset" where
  "mfac m \<equiv> fac_sum (fFactors m)"

definition mval :: "(tree \<Rightarrow> 32 word) \<Rightarrow> mterm \<Rightarrow> 32 word" where
  "mval \<rho> m = of_int (mcoef m) * (\<Prod>x \<in># mfac m. pval \<rho> x)"

text \<open>A product with an integer coefficient and positive powers of atoms.\<close>

definition mok :: "address \<Rightarrow> mterm \<Rightarrow> bool" where
  "mok ad m \<longleftrightarrow> mp_ok ad (fFactors m) \<and> in_int32 (mcoef m) \<and> fCoef m = sigInt (mcoef m) \<and>
     (\<forall>(x, n) \<in> set (fFactors m). atom x \<and> 0 < n) \<and> size (mfac m) \<le> nat int_max"

lemma add_factor_sum:
  "(\<forall>(x, v) \<in> set fs. 0 \<le> v) \<Longrightarrow> 0 \<le> n \<Longrightarrow> size (fac_sum fs) + nat n \<le> nat int_max \<Longrightarrow>
   fac_sum (mp_update ad (\<lambda>q. wrap32 ((case q of Some v \<Rightarrow> v | None \<Rightarrow> 0) + n)) x fs) = fac_sum fs + replicate_mset (nat n) x"
proof (induction fs)
  case Nil
  then have "wrap32 n = n" by (intro wrap32_id) (auto simp: int32_defs)
  then show ?case by simp
next
  case (Cons p fs)
  obtain k v where p: "p = (k, v)" by (cases p)
  have v: "0 \<le> v" "nat v + size (fac_sum fs) + nat n \<le> nat int_max" using Cons.prems p by auto
  then have "wrap32 n = n" "wrap32 (v + n) = v + n"
    using Cons.prems(2) by (auto intro!: wrap32_id simp: int32_defs)
  moreover have "replicate_mset (nat (v + n)) x = replicate_mset (nat v) x + replicate_mset (nat n) x"
    using v Cons.prems(2) by (simp add: nat_add_distrib multiset_eq_iff)
  ultimately show ?case using Cons p by (auto simp: ac_simps)
qed


lemma wrap32_mult [simp]: "wrap32 (wrap32 a * b) = wrap32 (a * b)" "wrap32 (a * wrap32 b) = wrap32 (a * b)"
  unfolding wrap32_eq_iff by (metis mod_mult_left_eq wrap32_cong, metis mod_mult_right_eq wrap32_cong)

lemma wrap32_minus [simp]: "wrap32 (- wrap32 a) = wrap32 (- a)"
  unfolding wrap32_eq_iff by (metis mod_minus_eq wrap32_cong)

lemma in_int32_01 [simp]: "in_int32 0" "in_int32 1" "in_int32 (- 1)"
  by (simp_all add: int32_defs)

lemma sigInt_simps [simp]:
  "isSigInt (sigInt i) = Some i" "isNum (sigInt i)" "isZero (sigInt i) \<longleftrightarrow> i = 0" "isOne (sigInt i) \<longleftrightarrow> i = 1"
  "isMinusOne (sigInt i) \<longleftrightarrow> i = - 1" "isGEZero (sigInt i) \<longleftrightarrow> 0 \<le> i" "tcoef (sigInt i) = i" "tfac (sigInt i) = {#}"
  "prodt (sigInt i) \<longleftrightarrow> in_int32 i"
  by (simp_all add: sigInt_def isSigInt_def leaf_def isNum_def isNumNode_def isIntNode_def isZero_def isOne_def isMinusOne_def
      isGEZero_def tcoef.simps tfac.simps prodt.simps)

lemma nums_int:
  assumes "isSigInt a = Some i" "isSigInt b = Some j"
  shows "mulNums a b = sigInt (wrap32 (i * j))" "addNums a b = sigInt (wrap32 (i + j))"
    "subNums a b = sigInt (wrap32 (i - j))" "minusNum b = sigInt (wrap32 (- j))"
  using assms by (auto simp: isSigInt_def mulNums_def addNums_def subNums_def minusNum_def mulNode_def addNode_def subNode_def
      minusNode_def isDoubleNode_def sigInt_def split: node.splits)

lemma mp_update_mem:
  "(y, w) \<in> set (mp_update ad f k xs) \<Longrightarrow>
   (y, w) \<in> set xs \<or> (y = k \<and> (w = f None \<or> (\<exists>v. (k, v) \<in> set xs \<and> w = f (Some v))))"
  by (induction xs rule: mp_update.induct [of _ ad f k]) (auto split: if_splits)

lemma fac_sum_ge: "(x, n) \<in> set fs \<Longrightarrow> nat n \<le> size (fac_sum fs)"
  by (induction fs) (auto intro: trans_le_add2)

lemma mok_add_factor:
  assumes "inj ad" "mok ad m" "atom x" "0 < n" "size (mfac m) + nat n \<le> nat int_max"
  shows "mok ad (add_factor ad x n m)" "mfac (add_factor ad x n m) = mfac m + replicate_mset (nat n) x"
    "mcoef (add_factor ad x n m) = mcoef m"
proof -
  show c: "mcoef (add_factor ad x n m) = mcoef m" by (simp add: mcoef_def add_factor_def)
  show f: "mfac (add_factor ad x n m) = mfac m + replicate_mset (nat n) x"
    using assms by (auto simp: add_factor_def mok_def intro!: add_factor_sum)
  have b: "v + n \<le> int_max" if "(x, v) \<in> set (fFactors m)" for v
    using fac_sum_ge [OF that] assms(4,5) by (simp add: int_max_def)
  have n: "n \<le> int_max" using assms(4,5) by (simp add: int_max_def)
  have "atom y \<and> 0 < w" if "(y, w) \<in> set (fFactors (add_factor ad x n m))" for y w
    using mp_update_mem [OF that [unfolded add_factor_def, simplified]] assms(2-4) b n
    by (fastforce simp: mok_def in_int32_def int_min_def)
  then show "mok ad (add_factor ad x n m)"
    using assms f c mp_update_ok [OF assms(1)] by (auto simp: mok_def add_factor_def mcoef_def)
qed

text \<open>Reading a product tree multiplies the coefficient and adds the factors.\<close>

lemma mul_tree_product:
  assumes "inj ad" "prodt t"
  shows "mok ad m \<Longrightarrow> size (mfac m) + size (tfac t) \<le> nat int_max \<Longrightarrow>
    \<exists>m1. mul_tree ad t m = Inr m1 \<and> mok ad m1 \<and> mfac m1 = mfac m + tfac t \<and> mcoef m1 = wrap32 (mcoef m * tcoef t)"
  using assms(2)
proof (induction arbitrary: m rule: prodt_induct)
  case (num t i)
  have "isSigInt (fCoef m) = Some (mcoef m)" using num.prems(1) by (metis mok_def sigInt_simps(1))
  from nums_int(1) [OF this num.hyps(1)] show ?case using num
    by (auto simp: mul_tree.simps [of ad t] num_int tfac.simps [of t] tcoef.simps [of t] mok_def mcoef_def)
next
  case (mul t x y)
  have f: "tfac t = tfac x + tfac y" "tcoef t = tcoef x * tcoef y"
    using mul.hyps by (simp_all add: tfac.simps [of t] tcoef.simps [of t] isSigInt_None)
  obtain m1 where m1: "mul_tree ad x m = Inr m1" "mok ad m1" "mfac m1 = mfac m + tfac x" "mcoef m1 = wrap32 (mcoef m * tcoef x)"
    using mul.IH(1) [of m] mul.prems f by auto
  obtain m2 where "mul_tree ad y m1 = Inr m2" "mok ad m2" "mfac m2 = mfac m1 + tfac y" "mcoef m2 = wrap32 (mcoef m1 * tcoef y)"
    using mul.IH(2) [of m1] mul.prems f m1 by auto
  then show ?case using mul.hyps m1 f by (simp add: mul_tree.simps [of ad t] ac_simps)
next
  case (pow t x n)
  have p: "pow_parts t = Some (x, n)" by (rule isSigPow_parts) (rule pow.hyps)
  have f: "tfac t = replicate_mset (nat n) x" "tcoef t = 1" 
    using pow.hyps by (simp_all add: tfac.simps [of t] tcoef.simps [of t] isSigInt_None p)
  with mok_add_factor [OF assms(1) pow.prems(1) pow.hyps(5,6)] pow show ?case
    by (simp add: mul_tree.simps [of ad t] mok_def)
next
  case (atom t)
  have f: "tfac t = {#t#}" "tcoef t = 1"
    using atomD [OF atom.hyps] by (simp_all add: tfac.simps [of t] tcoef.simps [of t])
  have "isSigPow t = Inr None" using atom.hyps by (simp add: atom_def)
  with f mok_add_factor [OF assms(1) atom.prems(1) atom.hyps, of 1] atom atomD [OF atom.hyps] show ?case
    by (simp add: mul_tree.simps [of ad t] mok_def)
qed


section \<open>Trees of products\<close>

lemma sig_order_binop:
  "sig_order x = Inr i \<Longrightarrow> sig_order y = Inr j \<Longrightarrow> sig_order (sigBinOp op x y) = Inr (max i j)"
  by (auto simp: sig_order_def rbind_eq_Inr sigOrder.simps [of "sigBinOp op x y"] infereSigOrder_def mbind_def)

lemma sig_order_int [simp]: "sig_order (sigInt i) = Inr 0"
  by (simp add: sig_order_def sigOrder.simps infereSigOrder_def)

lemma sig_order_pow:
  assumes "sig_order x = Inr k" "1 \<le> k"
  shows "sig_order (sigPow x n) = Inr k"
proof -
  have "sigOrder x () = Inr (k, ())" "sigOrder (sigInt n) () = Inr (0, ())"
    using assms sig_order_int [of n] unfolding sig_order_def by (auto simp: rbind_eq_Inr)
  then show ?thesis using assms(2)
    by (simp add: sig_order_def sigOrder.simps [of "Tree (NSym (Xt XPow)) _"] infereSigOrder_def sigPow_def sig_view_def mbind_def mlift_def
        xtInfereSigOrder_def binary_order_def order_at_def)
qed

lemma sig_order_range: "sig_order t = Inr k \<Longrightarrow> 0 \<le> k \<and> k \<le> 3"
  unfolding sig_order_def by (auto simp: rbind_eq_Inr dest!: sigOrder_ok [of t] simp: order_ok_def)

definition built :: "tree \<Rightarrow> bool" where
  "built t \<longleftrightarrow> prodt t \<and> (\<exists>k. sig_order t = Inr k \<and> (tfac t \<noteq> {#} \<longrightarrow> 1 \<le> k))"

lemma built_mul:
  assumes "built x" "built y"
  shows "built (sigBinOp kMul x y)"
    "tcoef (sigBinOp kMul x y) = tcoef x * tcoef y" "tfac (sigBinOp kMul x y) = tfac x + tfac y"
proof -
  show c: "tcoef (sigBinOp kMul x y) = tcoef x * tcoef y" "tfac (sigBinOp kMul x y) = tfac x + tfac y"
    by (simp_all add: tcoef.simps [of "sigBinOp _ _ _"] tfac.simps [of "sigBinOp _ _ _"])
  obtain i j where "sig_order x = Inr i" "sig_order y = Inr j" "tfac x \<noteq> {#} \<longrightarrow> 1 \<le> i" "tfac y \<noteq> {#} \<longrightarrow> 1 \<le> j"
    using assms by (auto simp: built_def)
  moreover from this have "sig_order (sigBinOp kMul x y) = Inr (max i j)" by (intro sig_order_binop)
  moreover have "prodt (sigBinOp kMul x y)" using assms by (simp add: built_def prodt.simps [of "sigBinOp _ _ _"])
  ultimately show "built (sigBinOp kMul x y)" using c by (auto simp: built_def)
qed

lemma sigPow_simps [simp]:
  "isNum (sigPow x n) \<longleftrightarrow> False" "isSigInt (sigPow x n) = None" "node (sigPow x n) \<noteq> ssym SIGBINOP"
  "isSigPow (sigPow x n) = Inr (Some (x, n))" "pow_parts (sigPow x n) = Some (x, n)"
  by (simp_all add: sigPow_def isNum_def isNumNode_def isIntNode_def isDoubleNode_def isSigInt_def isSigPow_def getUserData_def
      sigInt_def leaf_def)

lemma buildPowTerm_built:
  assumes "atom x" "0 < n"
  shows "\<exists>t. buildPowTerm x n = Inr t \<and> built t \<and> tcoef t = 1 \<and> tfac t = replicate_mset (nat n) x"
proof -
  obtain k where k: "sig_order x = Inr k" "1 \<le> k" using assms(1) by (auto simp: atom_def split: sum.splits)
  have a: "isSigPow x = Inr None" using assms(1) by (simp add: atom_def)
  show ?thesis
  proof (cases "n = 1")
    case True
    then show ?thesis using assms k atomD [OF assms(1)] a
      by (simp add: buildPowTerm_def built_def prodt.simps [of x] tcoef.simps [of x] tfac.simps [of x])
  next
    case False
    then show ?thesis using assms sig_order_pow [OF k, of n] k(2) not_binop [of "sigPow x n"]
      by (simp add: buildPowTerm_def built_def prodt.simps [of "sigPow _ _"] tcoef.simps [of "sigPow _ _"] tfac.simps [of "sigPow _ _"])
  qed
qed

definition obuilt :: "tree option \<Rightarrow> int \<Rightarrow> tree multiset \<Rightarrow> bool" where
  "obuilt R c M \<longleftrightarrow> (case R of None \<Rightarrow> c = 1 \<and> M = {#} | Some t \<Rightarrow> built t \<and> tcoef t = c \<and> tfac t = M)"

lemma combineMulLeft_built:
  assumes "obuilt R c M" "built t"
  shows "\<exists>R1. combineMulLeft R (Some t) = Inr R1 \<and> obuilt R1 (c * tcoef t) (M + tfac t)"
  using assms by (cases R) (auto simp: combineMulLeft_def obuilt_def built_mul)

lemma group_factors_built:
  "(\<forall>(x, n) \<in> set fs. atom x \<and> 0 < n) \<Longrightarrow> obuilt A 1 M \<Longrightarrow>
   \<exists>A1. group_factors ord fs A None = Inr (A1, None) \<and>
     obuilt A1 1 (M + fac_sum (filter (\<lambda>(x, _). sig_order x = Inr ord) fs))"
proof (induction fs arbitrary: A M)
  case (Cons p fs)
  obtain x n where p: "p = (x, n)" by (cases p)
  obtain k where k: "sig_order x = Inr k" using Cons.prems p by (auto simp: atom_def split: sum.splits)
  have a: "atom x" "0 < n" using Cons.prems p by auto
  obtain t where t: "buildPowTerm x n = Inr t" "built t" "tcoef t = 1" "tfac t = replicate_mset (nat n) x"
    using buildPowTerm_built [OF a] by blast
  obtain R1 where R: "combineMulLeft A (Some t) = Inr R1" "obuilt R1 1 (M + tfac t)"
    using combineMulLeft_built [OF Cons.prems(2) t(2)] t(3) by auto
  show ?case
  proof (cases "k = ord")
    case True
    then show ?thesis using Cons.IH [OF _ R(2)] Cons.prems(1) p k a R(1) t by (simp add: combineMulDiv_def ac_simps)
  next
    case False
    then show ?thesis using Cons p k a by simp
  qed
qed auto

lemma group_factors_none:
  "\<forall>(x, n) \<in> set fs. atom x \<Longrightarrow> group_factors 0 fs None None = Inr (None, None)"
  by (induction fs) (auto simp: atom_def split: sum.splits)

lemma combine_order_built:
  assumes "obuilt R c M" "obuilt A d N"
  shows "\<exists>R1. combine_order R (A, None) = Inr R1 \<and> obuilt R1 (c * d) (M + N)"
  using assms combineMulLeft_built [OF assms(1)] by (cases A) (auto simp: combine_order_def obuilt_def)

lemma fac_sum_orders:
  assumes "\<forall>(x, n) \<in> set fs. atom x \<and> 0 < n"
  shows "fac_sum (filter (\<lambda>(x, _). sig_order x = Inr 1) fs) + fac_sum (filter (\<lambda>(x, _). sig_order x = Inr 2) fs) +
    fac_sum (filter (\<lambda>(x, _). sig_order x = Inr 3) fs) = fac_sum fs"
  using assms
proof (induction fs)
  case (Cons p fs)
  obtain x n where p: "p = (x, n)" by (cases p)
  obtain k where k: "sig_order x = Inr k" "1 \<le> k" using Cons.prems p by (auto simp: atom_def split: sum.splits)
  then have "k = 1 \<or> k = 2 \<or> k = 3" using sig_order_range [OF k(1)] by auto
  then show ?case using Cons p k by (auto simp: ac_simps)
qed simp


lemma obuilt_coef: "in_int32 c \<Longrightarrow> obuilt (if c = 1 then None else Some (sigInt c)) c {#}"
  by (simp add: obuilt_def built_def)

lemma mok_coef: "mok ad m \<Longrightarrow> isSigInt (fCoef m) = Some (mcoef m)"
  by (metis mok_def sigInt_simps(1))

lemma mok_tests:
  "mok ad m \<Longrightarrow> isZero (fCoef m) \<longleftrightarrow> mcoef m = 0" "mok ad m \<Longrightarrow> isOne (fCoef m) \<longleftrightarrow> mcoef m = 1"
  "mok ad m \<Longrightarrow> isNegative m \<longleftrightarrow> mcoef m < 0" "mok ad m \<Longrightarrow> isNotZero m \<longleftrightarrow> mcoef m \<noteq> 0"
  "mok ad m \<Longrightarrow> isMinusOne (fCoef m) \<longleftrightarrow> mcoef m = - 1"
  by (metis mok_def sigInt_simps not_le isNegative_def isNotZero_def)+

definition shown_coef :: "bool \<Rightarrow> bool \<Rightarrow> int \<Rightarrow> int" where
  "shown_coef sm nm c = (if sm then 1 else if nm then wrap32 (- c) else c)"

lemma coef_part_built:
  assumes "mok ad m"
  shows "obuilt (coef_part sm nm (fCoef m)) (shown_coef sm nm (mcoef m)) {#}"
proof -
  note c = mok_coef [OF assms]
  have i: "in_int32 (mcoef m)" "fCoef m = sigInt (mcoef m)" using assms by (auto simp: mok_def)
  have "wrap32 (- mcoef m) = 1 \<longleftrightarrow> mcoef m = - 1"
    using i(1) by (cases "mcoef m = int_min") (simp_all add: int32_defs)
  then have "coef_part sm nm (fCoef m) = (if shown_coef sm nm (mcoef m) = 1 then None else Some (sigInt (shown_coef sm nm (mcoef m))))"
    using i nums_int(4) [OF c c] mok_tests [OF assms] by (auto simp: coef_part_def shown_coef_def)
  moreover have "in_int32 (shown_coef sm nm (mcoef m))" using i by (simp add: shown_coef_def)
  ultimately show ?thesis using obuilt_coef by metis
qed

text \<open>The normalised tree of a product has its factors, and its coefficient as the mode wants it.\<close>

lemma normalizedTree_built:
  assumes "mok ad m"
  shows "\<exists>t. normalizedTree m sm nm = Inr t \<and> built t \<and> tcoef t = shown_coef sm nm (mcoef m) \<and>
    tfac t = (if mcoef m = 0 then {#} else mfac m)"
proof (cases "fFactors m = [] \<or> isZero (fCoef m)")
  case True
  have i: "in_int32 (mcoef m)" "fCoef m = sigInt (mcoef m)" using assms by (auto simp: mok_def)
  show ?thesis using True i mok_tests [OF assms] nums_int(4) [OF mok_coef mok_coef, OF assms assms]
    by (auto simp: normalizedTree_def built_def shown_coef_def)
next
  case False
  have fs: "\<forall>(x, n) \<in> set (fFactors m). atom x \<and> 0 < n" using assms by (simp add: mok_def)
  let ?F = "\<lambda>k. fac_sum (filter (\<lambda>(x, _). sig_order x = Inr k) (fFactors m))"
  let ?c = "shown_coef sm nm (mcoef m)"
  have g: "\<exists>A. group_factors k (fFactors m) None None = Inr (A, None) \<and> obuilt A 1 (?F k)" for k
    using group_factors_built [OF fs, of None "{#}" k] by (simp add: obuilt_def)
  obtain A0 A1 A2 A3 where A: "group_factors 0 (fFactors m) None None = Inr (A0, None)" "obuilt A0 1 (?F 0)"
      "group_factors 1 (fFactors m) None None = Inr (A1, None)" "obuilt A1 1 (?F 1)"
      "group_factors 2 (fFactors m) None None = Inr (A2, None)" "obuilt A2 1 (?F 2)"
      "group_factors 3 (fFactors m) None None = Inr (A3, None)" "obuilt A3 1 (?F 3)"
    using g [of 0] g [of 1] g [of 2] g [of 3] by blast
  obtain R1 where R1: "combine_order None (coef_part sm nm (fCoef m), None) = Inr R1" "obuilt R1 ?c {#}"
    using combine_order_built [OF _ coef_part_built [OF assms], of None 1 "{#}" sm nm] by (auto simp: obuilt_def)
  obtain R2 where R2: "combine_order R1 (A1, None) = Inr R2" "obuilt R2 ?c (?F 1)"
    using combine_order_built [OF R1(2) A(4)] by auto
  obtain R3 where R3: "combine_order R2 (A2, None) = Inr R3" "obuilt R3 ?c (?F 1 + ?F 2)"
    using combine_order_built [OF R2(2) A(6)] by auto
  obtain R4 where R4: "combine_order R3 (A3, None) = Inr R4" "obuilt R4 ?c (?F 1 + ?F 2 + ?F 3)"
    using combine_order_built [OF R3(2) A(8)] by auto
  then have R4': "obuilt R4 ?c (mfac m)" using fac_sum_orders [OF fs] by simp
  have "A0 = None" using A(1) group_factors_none [of "fFactors m"] fs by auto
  with A R1 R2 R3 R4 have "normalizedTree m sm nm = Inr (case R4 of Some r \<Rightarrow> r | None \<Rightarrow> sigInt 1)"
    using False by (simp add: normalizedTree_def)
  moreover have "mcoef m \<noteq> 0" using False mok_tests(1) [OF assms] by simp
  ultimately show ?thesis using R4' by (cases R4) (auto simp: obuilt_def built_def)
qed


lemma count_fac_sum:
  "inj ad \<Longrightarrow> mp_ok ad fs \<Longrightarrow> count (fac_sum fs) x = (case map_of fs x of None \<Rightarrow> 0 | Some n \<Rightarrow> nat n)"
proof (induction fs)
  case (Cons p fs)
  obtain y n where p: "p = (y, n)" by (cases p)
  have "map_of fs y = None" using Cons.prems p by (auto simp: map_of_eq_None_iff)
  then show ?case using Cons p by auto
qed simp

lemma fac_sum_inject:
  assumes "inj ad" "mp_ok ad fs" "mp_ok ad gs" "\<forall>(x, n) \<in> set fs. 0 < n" "\<forall>(x, n) \<in> set gs. 0 < n"
    and "fac_sum fs = fac_sum gs"
  shows "fs = gs"
proof -
  have pos: "0 < n" if "map_of hs x = Some n" "hs = fs \<or> hs = gs" for hs x n
    using that assms(4,5) by (auto dest!: map_of_SomeD)
  have "map_of fs x = map_of gs x" for x
  proof -
    have "count (fac_sum fs) x = count (fac_sum gs) x" using assms(6) by simp
    then show ?thesis using pos [of fs x] pos [of gs x] unfolding count_fac_sum [OF assms(1,2)] count_fac_sum [OF assms(1,3)]
      by (auto split: option.splits)
  qed
  then have "set fs = set gs" using mp_ok_map_of [OF assms(1)] assms(2,3) by (metis subrelI subset_antisym)
  then show ?thesis using assms(2,3) by (intro sorted_wrt_key_unique [of "ad \<circ> fst"]) (auto simp: mp_ok_def sorted_wrt_map)
qed

text \<open>The signature of a product that is not zero determines its factors, and is determined by them.\<close>

lemma signature_factors:
  assumes "inj ad" "mok ad m" "mok ad m'" "mcoef m \<noteq> 0" "mcoef m' \<noteq> 0"
  shows "signatureTree m = signatureTree m' \<longleftrightarrow> fFactors m = fFactors m'"
proof
  assume "signatureTree m = signatureTree m'"
  then have "mfac m = mfac m'"
    using normalizedTree_built [OF assms(2), of True False] normalizedTree_built [OF assms(3), of True False] assms(4,5)
    by (auto simp: signatureTree_def)
  then show "fFactors m = fFactors m'" using assms by (intro fac_sum_inject) (auto simp: mok_def)
next
  assume "fFactors m = fFactors m'"
  then show "signatureTree m = signatureTree m'" using assms mok_tests(1)
    by (simp add: signatureTree_def normalizedTree_def coef_part_def)
qed

lemma mok_cleanup:
  assumes "mok ad m"
  shows "cleanup m = (if mcoef m = 0 then m\<lparr>fFactors := []\<rparr> else m)"
proof -
  have "filter (\<lambda>(_, q). q \<noteq> 0) (fFactors m) = fFactors m"
    using assms by (auto simp: mok_def intro!: filter_True)
  then show ?thesis using mok_tests(1) [OF assms] by (simp add: cleanup_def)
qed

definition clean :: "mterm \<Rightarrow> bool" where
  "clean m \<longleftrightarrow> (mcoef m = 0 \<longrightarrow> fFactors m = [])"

definition addable :: "address \<Rightarrow> nat \<Rightarrow> mterm \<Rightarrow> bool" where
  "addable ad N m \<longleftrightarrow> mok ad m \<and> size (mfac m) \<le> N"

lemma mok_coef_update:
  assumes "mok ad m" "in_int32 c"
  shows "mok ad (m\<lparr>fCoef := sigInt c\<rparr>)" "mcoef (m\<lparr>fCoef := sigInt c\<rparr>) = c"
  using assms by (simp_all add: mok_def mcoef_def)

lemma cleanup_addable:
  assumes "addable ad N m"
  shows "addable ad N (cleanup m)" "mcoef (cleanup m) = mcoef m" "mval \<rho> (cleanup m) = mval \<rho> m" "clean (cleanup m)"
    "mcoef m \<noteq> 0 \<Longrightarrow> fFactors (cleanup m) = fFactors m"
proof -
  have "mok ad m" using assms by (simp add: addable_def)
  note c = mok_cleanup [OF this]
  show "addable ad N (cleanup m)" "mcoef (cleanup m) = mcoef m" "mval \<rho> (cleanup m) = mval \<rho> m" "clean (cleanup m)"
    "mcoef m \<noteq> 0 \<Longrightarrow> fFactors (cleanup m) = fFactors m"
    using assms unfolding c by (auto simp: addable_def mok_def mcoef_def mval_def clean_def)
qed

lemma addable_coef:
  assumes "addable ad N m" "in_int32 c"
  shows "addable ad N (m\<lparr>fCoef := sigInt c\<rparr>)" "mval \<rho> (m\<lparr>fCoef := sigInt c\<rparr>) = of_int c * (\<Prod>x \<in># mfac m. pval \<rho> x)"
  using assms mok_coef_update by (auto simp: addable_def mval_def)

lemma mval_zero: "mcoef m = 0 \<Longrightarrow> mval \<rho> m = 0"
  by (simp add: mval_def)

text \<open>Adding and subtracting products of the same signature.\<close>

lemma mterm_sum:
  assumes "inj ad" "addable ad N t" "addable ad N m" "mcoef t \<noteq> 0 \<Longrightarrow> mcoef m \<noteq> 0 \<Longrightarrow> fFactors t = fFactors m"
  defines "F \<equiv> (if mcoef m = 0 then fFactors t else fFactors m)"
  shows "\<exists>r. mterm_plus t m = Inr r \<and> addable ad N r \<and> clean r \<and> mval \<rho> r = mval \<rho> t + mval \<rho> m \<and> 
      (mcoef r \<noteq> 0 \<longrightarrow> fFactors r = F) \<and> (mcoef m = 0 \<longrightarrow> mcoef r = mcoef t)"
    "\<exists>r. mterm_minus t m = Inr r \<and> addable ad N r \<and> clean r \<and> mval \<rho> r = mval \<rho> t - mval \<rho> m \<and> 
      (mcoef r \<noteq> 0 \<longrightarrow> fFactors r = F) \<and> (mcoef m = 0 \<longrightarrow> mcoef r = mcoef t)"
proof -
  have ok: "mok ad t" "mok ad m" using assms(2,3) by (auto simp: addable_def)
  note tests = mok_tests(1) [OF ok(1)] mok_tests(1) [OF ok(2)]
  note nums = nums_int [OF mok_coef [OF ok(1)] mok_coef [OF ok(2)]]
  have cl: "\<exists>r. Inr (cleanup r0) = Inr r \<and> addable ad N r \<and> clean r \<and> mval \<rho> r = v \<and> 
      (mcoef r \<noteq> 0 \<longrightarrow> fFactors r = F) \<and> (mcoef m = 0 \<longrightarrow> mcoef r = mcoef t)"
    if "addable ad N r0" "mval \<rho> r0 = v" "mcoef r0 \<noteq> 0 \<Longrightarrow> fFactors r0 = F" "mcoef m = 0 \<Longrightarrow> mcoef r0 = mcoef t" for r0 v
    using cleanup_addable [OF that(1)] that by simp
  have copy: "t\<lparr>fCoef := c, fFactors := fFactors m\<rparr> = m\<lparr>fCoef := c\<rparr>" for c by simp
  have sg: "signatureTree t = signatureTree m \<and> (\<exists>s. signatureTree m = Inr s)" if "mcoef t \<noteq> 0" "mcoef m \<noteq> 0"
    using signature_factors [OF assms(1) ok that] assms(4) [OF that] normalizedTree_built [OF ok(2), of True False]
    by (auto simp: signatureTree_def)
  note simps = tests nums copy F_def mval_zero
  consider "mcoef m = 0" | "mcoef m \<noteq> 0" "mcoef t = 0" | s where "mcoef m \<noteq> 0" "mcoef t \<noteq> 0" "signatureTree t = Inr s" "signatureTree m = Inr s"
    using sg by metis
  note cases = this
  show "\<exists>r. mterm_plus t m = Inr r \<and> addable ad N r \<and> clean r \<and> mval \<rho> r = mval \<rho> t + mval \<rho> m \<and> 
      (mcoef r \<noteq> 0 \<longrightarrow> fFactors r = F) \<and> (mcoef m = 0 \<longrightarrow> mcoef r = mcoef t)"
    using cases
  proof cases
    case 1
    then show ?thesis using cl [of t] assms(2) by (simp add: mterm_plus_def simps)
  next
    case 2
    then show ?thesis using cl [of m] assms(3) by (simp add: mterm_plus_def simps)
  next
    case 3
    then show ?thesis using cl [of "t\<lparr>fCoef := sigInt (wrap32 (mcoef t + mcoef m))\<rparr>"] addable_coef [OF assms(2) wrap32_in_range] assms(4)
      by (simp add: mterm_plus_def simps mval_def algebra_simps)
  qed
  show "\<exists>r. mterm_minus t m = Inr r \<and> addable ad N r \<and> clean r \<and> mval \<rho> r = mval \<rho> t - mval \<rho> m \<and> 
      (mcoef r \<noteq> 0 \<longrightarrow> fFactors r = F) \<and> (mcoef m = 0 \<longrightarrow> mcoef r = mcoef t)"
    using cases
  proof cases
    case 1
    then show ?thesis using cl [of t] assms(2) by (simp add: mterm_minus_def simps)
  next
    case 2
    then show ?thesis using cl [of "m\<lparr>fCoef := sigInt (wrap32 (- mcoef m))\<rparr>"] addable_coef [OF assms(3) wrap32_in_range]
      by (simp add: mterm_minus_def simps mval_def)
  next
    case 3
    then show ?thesis using cl [of "t\<lparr>fCoef := sigInt (wrap32 (mcoef t - mcoef m))\<rparr>"] addable_coef [OF assms(2) wrap32_in_range] assms(4)
      by (simp add: mterm_minus_def simps mval_def algebra_simps)
  qed
qed


section \<open>Sums\<close>

definition aval :: "(tree \<Rightarrow> 32 word) \<Rightarrow> aterm \<Rightarrow> 32 word" where
  "aval \<rho> A = (\<Sum>(s, m) \<leftarrow> A. mval \<rho> m)"

lemma aval_simps [simp]: "aval \<rho> [] = 0" "aval \<rho> ((s, m) # A) = mval \<rho> m + aval \<rho> A"
  by (simp_all add: aval_def)

text \<open>The entries of a sum are products under their signatures; an entry that has cancelled may be anywhere.\<close>

definition aok :: "address \<Rightarrow> bool \<Rightarrow> nat \<Rightarrow> aterm \<Rightarrow> bool" where
  "aok ad z N A \<longleftrightarrow> mp_ok ad A \<and> (\<forall>(s, m) \<in> set A. addable ad N m \<and> (z \<longrightarrow> clean m) \<and>
     (mcoef m \<noteq> 0 \<longrightarrow> signatureTree m = Inr s))"

lemma aval_update:
  "mp_ok ad A \<Longrightarrow> aval \<rho> (mp_update ad (\<lambda>_. r) s A) =
     aval \<rho> A - (case map_of A s of None \<Rightarrow> 0 | Some t \<Rightarrow> mval \<rho> t) + mval \<rho> r"
proof (induction A)
  case (Cons p A)
  obtain k v where p: "p = (k, v)" by (cases p)
  have "map_of A s = None \<and> s \<noteq> k" if "ad s < ad k" using Cons.prems p that by (fastforce simp: map_of_eq_None_iff)
  then show ?case using Cons p by (auto simp: algebra_simps)
qed simp

lemma length_update: "length (mp_update ad f k xs) \<le> Suc (length xs)"
  by (induction xs rule: mp_update.induct [of _ ad f k]) auto

lemma aok_update:
  assumes "inj ad" "aok ad z N A" "addable ad N r" "z \<longrightarrow> clean r" "mcoef r \<noteq> 0 \<longrightarrow> signatureTree r = Inr s"
  shows "aok ad z N (mp_update ad (\<lambda>_. r) s A)"
  using assms mp_update_ok [OF assms(1)] by (auto simp: aok_def dest!: mp_update_mem)

lemma times_minus_one:
  assumes "addable ad N m"
  shows "addable ad N (mterm_times ad m (mterm_int (- 1)))" "clean (mterm_times ad m (mterm_int (- 1)))"
    "mval \<rho> (mterm_times ad m (mterm_int (- 1))) = - mval \<rho> m"
    "mcoef (mterm_times ad m (mterm_int (- 1))) = wrap32 (- mcoef m)"
    "mcoef m \<noteq> 0 \<Longrightarrow> fFactors (mterm_times ad m (mterm_int (- 1))) = fFactors m"
proof -
  have "mok ad m" using assms by (simp add: addable_def)
  then have eq: "mterm_times ad m (mterm_int (- 1)) = cleanup (m\<lparr>fCoef := sigInt (wrap32 (- mcoef m))\<rparr>)"
    using nums_int(1) [OF mok_coef, of ad m "sigInt (- 1)" "- 1"] by (simp add: mterm_times_def mterm_int_def mterm_num_def)
  have a: "addable ad N (m\<lparr>fCoef := sigInt (wrap32 (- mcoef m))\<rparr>)" "mcoef (m\<lparr>fCoef := sigInt (wrap32 (- mcoef m))\<rparr>) = wrap32 (- mcoef m)"
    using addable_coef [OF assms] by (simp_all add: mcoef_def)
  have nz: "wrap32 (- mcoef m) \<noteq> 0" if "mcoef m \<noteq> 0"
    using that \<open>mok ad m\<close> by (cases "mcoef m = int_min") (auto simp: mok_def int32_defs)
  show "addable ad N (mterm_times ad m (mterm_int (- 1)))" "clean (mterm_times ad m (mterm_int (- 1)))"
    "mval \<rho> (mterm_times ad m (mterm_int (- 1))) = - mval \<rho> m"
    "mcoef (mterm_times ad m (mterm_int (- 1))) = wrap32 (- mcoef m)"
    "mcoef m \<noteq> 0 \<Longrightarrow> fFactors (mterm_times ad m (mterm_int (- 1))) = fFactors m"
    using cleanup_addable [OF a(1)] a(2) addable_coef(2) [OF assms wrap32_in_range] nz
    by (simp_all add: eq mval_def)
qed

lemma mterm_signature:
  assumes "mok ad m"
  shows "\<exists>s. signatureTree m = Inr s"
  using normalizedTree_built [OF assms, of True False] by (auto simp: signatureTree_def)

lemma entry_factors:
  assumes "inj ad" "aok ad z N A" "addable ad N m" "signatureTree m = Inr s" "map_of A s = Some t"
  shows "addable ad N t" "mcoef t \<noteq> 0 \<Longrightarrow> mcoef m \<noteq> 0 \<Longrightarrow> fFactors t = fFactors m"
proof -
  have t: "(s, t) \<in> set A" using assms(5) by (rule map_of_SomeD)
  then show a: "addable ad N t" using assms(2) by (auto simp: aok_def)
  show "fFactors t = fFactors m" if "mcoef t \<noteq> 0" "mcoef m \<noteq> 0"
    using signature_factors [of ad t m] t assms a that by (auto simp: aok_def addable_def)
qed

definition extends_by :: "address \<Rightarrow> bool \<Rightarrow> nat \<Rightarrow> (tree \<Rightarrow> 32 word) \<Rightarrow> aterm \<Rightarrow> 32 word \<Rightarrow> nat \<Rightarrow> aterm \<Rightarrow> bool" where
  "extends_by ad z N \<rho> A v k A1 \<longleftrightarrow> aok ad z N A1 \<and> aval \<rho> A1 = aval \<rho> A + v \<and> length A1 \<le> length A + k"

text \<open>An update with an entry of the right signature.\<close>

lemma update_extends:
  assumes "inj ad" "aok ad z N A" "addable ad N r" "z \<longrightarrow> clean r" "mcoef r \<noteq> 0 \<longrightarrow> signatureTree r = Inr s"
    and "mval \<rho> r = (case map_of A s of None \<Rightarrow> 0 | Some t \<Rightarrow> mval \<rho> t) + v"
  shows "extends_by ad z N \<rho> A v 1 (mp_update ad (\<lambda>_. r) s A)"
  using assms aok_update [OF assms(1-5)] aval_update [of ad A \<rho> r s] length_update [of ad _ s A]
  by (auto simp: extends_by_def aok_def)

lemma signature_copy:
  assumes "inj ad" "addable ad N r" "mcoef r \<noteq> 0" "addable ad N m" "mcoef m \<noteq> 0" "fFactors r = fFactors m" "signatureTree m = Inr s"
  shows "signatureTree r = Inr s"
  using signature_factors [of ad r m] assms by (simp add: addable_def)

lemma merged_signature:
  assumes "inj ad" "aok ad z N A" "addable ad N m" "signatureTree m = Inr s" "map_of A s = Some t" "addable ad N r"
    and "mcoef r \<noteq> 0 \<longrightarrow> fFactors r = (if mcoef m = 0 then fFactors t else fFactors m)" "mcoef m = 0 \<longrightarrow> mcoef r = mcoef t"
  shows "mcoef r \<noteq> 0 \<longrightarrow> signatureTree r = Inr s"
proof
  assume r: "mcoef r \<noteq> 0"
  have t: "addable ad N t" "mcoef t \<noteq> 0 \<longrightarrow> signatureTree t = Inr s"
    using assms(2) map_of_SomeD [OF assms(5)] by (auto simp: aok_def)
  show "signatureTree r = Inr s"
  proof (cases "mcoef m = 0")
    case True
    then show ?thesis using signature_copy [OF assms(1,6) r t(1)] r assms(7,8) t(2) by simp
  next
    case False
    then show ?thesis using signature_copy [OF assms(1,6) r assms(3)] r assms(4,7) by simp
  qed
qed

lemma plus_mterm_value:
  assumes "inj ad" "aok ad z N A" "addable ad N m" "z \<longrightarrow> clean m"
  shows "\<exists>A1. plus_mterm ad m A = Inr A1 \<and> extends_by ad z N \<rho> A (mval \<rho> m) 1 A1"
proof -
  obtain s where s: "signatureTree m = Inr s" using mterm_signature [of ad m] assms(3) by (auto simp: addable_def)
  show ?thesis
  proof (cases "map_of A s")
    case None
    then show ?thesis using s assms update_extends [OF assms, of s \<rho> "mval \<rho> m"]
      by (simp add: plus_mterm_def)
  next
    case (Some t)
    note e = entry_factors [OF assms(1-3) s Some]
    obtain r where r: "mterm_plus t m = Inr r" "addable ad N r" "clean r" "mval \<rho> r = mval \<rho> t + mval \<rho> m"
      and f: "mcoef r \<noteq> 0 \<longrightarrow> fFactors r = (if mcoef m = 0 then fFactors t else fFactors m)" "mcoef m = 0 \<longrightarrow> mcoef r = mcoef t"
      using mterm_sum(1) [OF assms(1) e(1) assms(3) e(2)] by blast
    note g = merged_signature [OF assms(1-3) s Some r(2) f]
    show ?thesis using s Some r update_extends [OF assms(1,2) r(2) _ g, of \<rho> "mval \<rho> m"]
      by (simp add: plus_mterm_def)
  qed
qed

lemma minus_mterm_value:
  assumes "inj ad" "aok ad z N A" "addable ad N m" "z \<longrightarrow> clean m"
  shows "\<exists>A1. minus_mterm ad m A = Inr A1 \<and> extends_by ad z N \<rho> A (- mval \<rho> m) 1 A1"
proof -
  obtain s where s: "signatureTree m = Inr s" using mterm_signature [of ad m] assms(3) by (auto simp: addable_def)
  show ?thesis
  proof (cases "map_of A s")
    case None
    let ?r = "mterm_times ad m (mterm_int (- 1))"
    note r = times_minus_one [OF assms(3)]
    have g: "mcoef ?r \<noteq> 0 \<longrightarrow> signatureTree ?r = Inr s"
    proof (cases "mcoef m = 0")
      case False
      then show ?thesis using signature_copy [OF assms(1) r(1) _ assms(3) False r(5) s] by blast
    qed (simp add: r)
    show ?thesis using s None r update_extends [OF assms(1,2) r(1) _ g, of \<rho> "- mval \<rho> m"]
      by (simp add: minus_mterm_def)
  next
    case (Some t)
    note e = entry_factors [OF assms(1-3) s Some]
    obtain r where r: "mterm_minus t m = Inr r" "addable ad N r" "clean r" "mval \<rho> r = mval \<rho> t - mval \<rho> m"
      and f: "mcoef r \<noteq> 0 \<longrightarrow> fFactors r = (if mcoef m = 0 then fFactors t else fFactors m)" "mcoef m = 0 \<longrightarrow> mcoef r = mcoef t"
      using mterm_sum(2) [OF assms(1) e(1) assms(3) e(2)] by blast
    note g = merged_signature [OF assms(1-3) s Some r(2) f]
    show ?thesis using s Some r update_extends [OF assms(1,2) r(2) _ g, of \<rho> "- mval \<rho> m"]
      by (simp add: minus_mterm_def)
  qed
qed

text \<open>
  Sums of products of a bounded degree.  With the flag, a product whose coefficient is zero is the
  number zero, which is what the simplification of the operands leaves.
\<close>

function sumt :: "bool \<Rightarrow> nat \<Rightarrow> tree \<Rightarrow> bool" where
  "sumt z N t = (case isSigAdd t of Some (x, y) \<Rightarrow> sumt z N x \<and> sumt z N y | None \<Rightarrow>
     (case isSigSub t of Some (x, y) \<Rightarrow> sumt z N x \<and> sumt z N y | None \<Rightarrow>
       prodt t \<and> size (tfac t) \<le> N \<and> (z \<longrightarrow> wrap32 (tcoef t) = 0 \<longrightarrow> tfac t = {#})))"
  by pat_completeness auto
termination by (relation "measure (\<lambda>(_, _, t). size t)") (auto dest: binop_sizes)

declare sumt.simps [simp del]

lemma fac_sum_empty: "\<forall>(x, n) \<in> set fs. 0 < n \<Longrightarrow> fac_sum fs = {#} \<longleftrightarrow> fs = []"
  by (cases fs) auto

lemma mterm_of_product:
  assumes "inj ad" "prodt t" "size (tfac t) \<le> N" "N \<le> nat int_max"
  shows "\<exists>m. mterm_of ad t = Inr m \<and> addable ad N m \<and> mval \<rho> m = pval \<rho> t \<and> mfac m = tfac t \<and> mcoef m = wrap32 (tcoef t)"
proof -
  have "mok ad (mterm_int 1)" by (simp add: mok_def mterm_int_def mterm_num_def mcoef_def)
  from mul_tree_product [OF assms(1,2) this] assms(3,4) show ?thesis
    by (auto simp: mterm_of_def addable_def product_value [OF assms(2)] mval_def mterm_int_def mterm_num_def mcoef_def)
qed

definition reads :: "address \<Rightarrow> bool \<Rightarrow> nat \<Rightarrow> (tree \<Rightarrow> 32 word) \<Rightarrow> (aterm \<Rightarrow> aterm result) \<Rightarrow> 32 word \<Rightarrow> bool" where
  "reads ad z N \<rho> f v \<longleftrightarrow> (\<forall>A. aok ad z N A \<longrightarrow> (\<exists>A1. f A = Inr A1 \<and> aok ad z N A1 \<and> aval \<rho> A1 = aval \<rho> A + v))"

lemma reads_then: "reads ad z N \<rho> f v \<Longrightarrow> reads ad z N \<rho> g w \<Longrightarrow> reads ad z N \<rho> (\<lambda>A. rbind (f A) g) (v + w)"
  unfolding reads_def by (metis add.assoc rbind_simps(2))

lemma reads_product:
  assumes "inj ad" "N \<le> nat int_max" "prodt t" "size (tfac t) \<le> N" "z \<longrightarrow> wrap32 (tcoef t) = 0 \<longrightarrow> tfac t = {#}"
  shows "reads ad z N \<rho> (\<lambda>A. rbind (mterm_of ad t) (\<lambda>m. plus_mterm ad m A)) (pval \<rho> t)"
    "reads ad z N \<rho> (\<lambda>A. rbind (mterm_of ad t) (\<lambda>m. minus_mterm ad m A)) (- pval \<rho> t)"
proof -
  obtain m where m: "mterm_of ad t = Inr m" "addable ad N m" "mval \<rho> m = pval \<rho> t" "mfac m = tfac t" "mcoef m = wrap32 (tcoef t)"
    using mterm_of_product [OF assms(1,3,4,2)] by blast
  have "z \<longrightarrow> clean m" using assms(5) m fac_sum_empty [of "fFactors m"]
    by (fastforce simp: clean_def addable_def mok_def)
  then show "reads ad z N \<rho> (\<lambda>A. rbind (mterm_of ad t) (\<lambda>m. plus_mterm ad m A)) (pval \<rho> t)"
    "reads ad z N \<rho> (\<lambda>A. rbind (mterm_of ad t) (\<lambda>m. minus_mterm ad m A)) (- pval \<rho> t)"
    using plus_mterm_value [OF assms(1) _ m(2)] minus_mterm_value [OF assms(1) _ m(2)] m(1,3)
    by (auto simp: reads_def extends_by_def) metis+
qed

text \<open>Reading a sum, positively or negatively.\<close>

lemma plus_minus_tree_value:
  assumes "inj ad" "N \<le> nat int_max"
  shows "sumt z N t \<Longrightarrow> reads ad z N \<rho> (plus_tree ad t) (pval \<rho> t) \<and> reads ad z N \<rho> (minus_tree ad t) (- pval \<rho> t)"
proof (induction t rule: measure_induct_rule [where f = size])
  case (less t)
  consider (add) x y where "isSigAdd t = Some (x, y)" | (sub) x y where "isSigAdd t = None" "isSigSub t = Some (x, y)"
    | (prod) "isSigAdd t = None" "isSigSub t = None"
    by (metis option.exhaust surj_pair)
  then show ?case
  proof cases
    case add
    then have "sumt z N x" "sumt z N y" using less.prems by (simp_all add: sumt.simps [of z N t])
    with add less.IH [of x] less.IH [of y] binop_sizes(1) [OF add]
      reads_then [of ad z N \<rho> "plus_tree ad x" "pval \<rho> x" "plus_tree ad y" "pval \<rho> y"]
      reads_then [of ad z N \<rho> "minus_tree ad x" "- pval \<rho> x" "minus_tree ad y" "- pval \<rho> y"]
    show ?thesis by (simp add: plus_tree.simps [of ad t, abs_def] minus_tree.simps [of ad t, abs_def] pval_add)
  next
    case sub
    then have "sumt z N x" "sumt z N y" using less.prems by (simp_all add: sumt.simps [of z N t])
    with sub less.IH [of x] less.IH [of y] binop_sizes(2) [OF sub(2)]
      reads_then [of ad z N \<rho> "plus_tree ad x" "pval \<rho> x" "minus_tree ad y" "- pval \<rho> y"]
      reads_then [of ad z N \<rho> "minus_tree ad x" "- pval \<rho> x" "plus_tree ad y" "pval \<rho> y"]
    show ?thesis by (simp add: plus_tree.simps [of ad t, abs_def] minus_tree.simps [of ad t, abs_def] pval_sub)
  next
    case prod
    then have "prodt t" "size (tfac t) \<le> N" "z \<longrightarrow> wrap32 (tcoef t) = 0 \<longrightarrow> tfac t = {#}"
      using less.prems by (simp_all add: sumt.simps [of z N t])
    from reads_product [OF assms this] prod show ?thesis
      by (simp add: plus_tree.simps [of ad t, abs_def] minus_tree.simps [of ad t, abs_def])
  qed
qed


section \<open>Trees of sums\<close>

definition nz :: "tree \<Rightarrow> bool" where
  "nz t \<longleftrightarrow> (\<exists>k. sig_order t = Inr k \<and> 1 \<le> k)"

text \<open>
  The trees the normal form is put together from: sums, and products of a bounded degree that the
  multiplication by a given number does not make zero.
\<close>

definition sgood :: "int \<Rightarrow> nat \<Rightarrow> tree \<Rightarrow> bool" where
  "sgood c N t \<longleftrightarrow> (\<exists>k. sig_order t = Inr k) \<and> (isNum t \<longrightarrow> (\<exists>i. in_int32 i \<and> isSigInt t = Some i)) \<and>
     (isSigAdd t \<noteq> None \<or> isSigSub t \<noteq> None \<or> prodt t \<and> size (tfac t) \<le> N \<and> (wrap32 (c * tcoef t) = 0 \<longrightarrow> tfac t = {#}))"

lemma sgood_int [simp]: "sgood c N (sigInt i) \<longleftrightarrow> in_int32 i"
  using not_binop [OF isSigInt_not_binop [OF sigInt_simps(1) [of i]]] by (auto simp: sgood_def)

lemma isZero_num: "isZero t \<Longrightarrow> isNum t"
  by (cases "node t") (auto simp: isZero_def isNum_def isNumNode_def isIntNode_def isDoubleNode_def)

lemma sgood_zero:
  assumes "sgood c N t" "isZero t"
  shows "pval \<rho> t = 0" "\<not> nz t"
proof -
  obtain i where i: "isSigInt t = Some i" using assms isZero_num by (auto simp: sgood_def)
  then have n: "node t = NInt 0" using assms(2) by (auto simp: isSigInt_def isZero_def split: node.splits)
  then show "pval \<rho> t = 0" by (simp add: pval_int [of t 0] isSigInt_def)
  show "\<not> nz t" using n by (simp add: nz_def sig_order_def sigOrder.simps infereSigOrder_def sig_view_def)
qed

lemma sgood_binop:
  assumes "sgood c N a" "sgood c N b" "op = kAdd \<or> op = kSub"
  shows "sgood c N (sigBinOp op a b)" "nz a \<or> nz b \<Longrightarrow> nz (sigBinOp op a b)"
proof -
  obtain i j where o: "sig_order a = Inr i" "sig_order b = Inr j" using assms(1,2) by (auto simp: sgood_def)
  from sig_order_binop [OF this] show "sgood c N (sigBinOp op a b)" "nz a \<or> nz b \<Longrightarrow> nz (sigBinOp op a b)"
    using assms(3) o by (auto simp: sgood_def nz_def)
qed

lemma sgood_num: "sgood c N t \<Longrightarrow> isNum t \<Longrightarrow> \<exists>i. in_int32 i \<and> isSigInt t = Some i"
  by (simp add: sgood_def)

lemma simplifyingAdd_good:
  assumes "sgood c N a" "sgood c N b"
  shows "sgood c N (simplifyingAdd ad a b)" "pval \<rho> (simplifyingAdd ad a b) = pval \<rho> a + pval \<rho> b"
    "nz a \<or> nz b \<Longrightarrow> nz (simplifyingAdd ad a b)"
proof -
  have num: "\<not> nz t" if "isSigInt t = Some i" for t i
    using that by (auto simp: nz_def sig_order_def sigOrder.simps infereSigOrder_def sig_view_def isSigInt_def split: node.splits)
  consider i j where "isSigInt a = Some i" "isSigInt b = Some j" | "\<not> (isNum a \<and> isNum b)" "isZero a"
    | "\<not> (isNum a \<and> isNum b)" "\<not> isZero a" "isZero b" | "\<not> (isNum a \<and> isNum b)" "\<not> isZero a" "\<not> isZero b"
    using assms by (auto simp: sgood_def)
  then show "sgood c N (simplifyingAdd ad a b)" "pval \<rho> (simplifyingAdd ad a b) = pval \<rho> a + pval \<rho> b"
    "nz a \<or> nz b \<Longrightarrow> nz (simplifyingAdd ad a b)"
    using assms sgood_zero sgood_binop [OF assms(1,2), of kAdd] sgood_binop [OF assms(2,1), of kAdd]
    by (cases; force simp: simplifyingAdd_def nums_int num_int pval_int num ac_simps)+
qed

definition psum :: "(tree \<Rightarrow> 32 word) \<Rightarrow> tree list \<Rightarrow> 32 word" where
  "psum \<rho> ts = (\<Sum>t \<leftarrow> ts. pval \<rho> t)"

lemma psum_update: "i < length ts \<Longrightarrow> psum \<rho> (ts[i := t]) = psum \<rho> ts - pval \<rho> (ts ! i) + pval \<rho> t"
proof (induction ts arbitrary: i)
  case (Cons u ts)
  then show ?case by (cases i) (simp_all add: psum_def algebra_simps)
qed simp

definition sgoods :: "int \<Rightarrow> nat \<Rightarrow> tree list \<Rightarrow> bool" where
  "sgoods c N ts \<longleftrightarrow> length ts = 4 \<and> (\<forall>t \<in> set ts. sgood c N t)"

definition some_nz :: "tree list \<Rightarrow> bool" where
  "some_nz ts \<longleftrightarrow> (\<exists>t \<in> set ts. nz t)"

lemma some_nz_update: "i < length ts \<Longrightarrow> (nz (ts ! i) \<Longrightarrow> nz t) \<Longrightarrow> some_nz ts \<or> nz t \<Longrightarrow> some_nz (ts[i := t])"
proof (induction ts arbitrary: i)
  case (Cons u ts)
  then show ?case by (cases i) (auto simp: some_nz_def)
qed simp

lemma add_at_good:
  assumes "sgoods c N ts" "sgood c N t"
  obtains ord ts1 where "sig_order t = Inr ord" "add_at ad ord t ts = Inr ts1" "sgoods c N ts1" "psum \<rho> ts1 = psum \<rho> ts + pval \<rho> t"
    "some_nz ts \<or> nz t \<Longrightarrow> some_nz ts1"
proof -
  obtain ord where o: "sig_order t = Inr ord" using assms(2) by (auto simp: sgood_def)
  then have r: "0 \<le> ord" "nat ord < length ts" using sig_order_range [OF o] assms(1) by (auto simp: sgoods_def)
  then have u: "sgood c N (ts ! nat ord)" using assms(1) by (auto simp: sgoods_def)
  let ?u = "simplifyingAdd ad (ts ! nat ord) t"
  have g: "sgood c N ?u" "pval \<rho> ?u = pval \<rho> (ts ! nat ord) + pval \<rho> t" "nz (ts ! nat ord) \<or> nz t \<Longrightarrow> nz ?u"
    by (rule simplifyingAdd_good [OF u assms(2)])+ simp
  have "set (ts[nat ord := ?u]) \<subseteq> insert ?u (set ts)" by (rule set_update_subset_insert)
  then have "sgoods c N (ts[nat ord := ?u])" using g(1) assms(1) by (auto simp: sgoods_def)
  moreover have "some_nz (ts[nat ord := ?u])" if "some_nz ts \<or> nz t"
    using some_nz_update [OF r(2), of ?u] g(3) that by blast
  ultimately show thesis using that [of ord "ts[nat ord := ?u]"] o r g(2) by (simp add: add_at_def psum_update)
qed


definition kept :: "int \<Rightarrow> mterm \<Rightarrow> bool" where
  "kept c m \<longleftrightarrow> (mcoef m \<noteq> 0 \<longrightarrow> wrap32 (c * mcoef m) \<noteq> 0)"

lemma wrap32_zero_minus: "wrap32 (- i) = 0 \<longleftrightarrow> wrap32 i = 0"
proof -
  have "wrap32 (- i) = wrap32 0 \<longleftrightarrow> wrap32 i = wrap32 0" unfolding wrap32_eq_iff by (simp add: mod_eq_0_iff_dvd)
  then show ?thesis by simp
qed

definition live :: "mterm \<Rightarrow> bool" where
  "live m \<longleftrightarrow> mcoef m \<noteq> 0 \<and> fFactors m \<noteq> []"

lemma built_sgood: "built t \<Longrightarrow> size (tfac t) \<le> N \<Longrightarrow> (wrap32 (c * tcoef t) = 0 \<longrightarrow> tfac t = {#}) \<Longrightarrow> sgood c N t"
  unfolding sgood_def built_def using isSigInt_None [of t] by (auto simp: prodt.simps [of t] split: option.splits if_splits)

lemma shown_entry:
  assumes "addable ad N m" "kept c m"
  obtains t where "normalizedTree m False (isNegative m) = Inr t" "sgood c N t" "live m \<Longrightarrow> nz t"
    "pval \<rho> t = (if isNegative m then - mval \<rho> m else mval \<rho> m)"
proof -
  have ok: "mok ad m" "size (mfac m) \<le> N" using assms(1) by (auto simp: addable_def)
  obtain t where t: "normalizedTree m False (isNegative m) = Inr t" "built t"
      "tcoef t = shown_coef False (isNegative m) (mcoef m)" "tfac t = (if mcoef m = 0 then {#} else mfac m)"
    using normalizedTree_built [OF ok(1)] by blast
  have v: "pval \<rho> t = of_int (tcoef t) * (\<Prod>x \<in># tfac t. pval \<rho> x)" using t(2) by (intro product_value) (simp add: built_def)
  have "live m \<Longrightarrow> tfac t \<noteq> {#}" using t(4) ok(1) fac_sum_empty [of "fFactors m"] by (fastforce simp: live_def mok_def)
  then have "live m \<Longrightarrow> nz t" using t(2) by (auto simp: built_def nz_def)
  moreover have "sgood c N t" using t ok assms(2)
    by (intro built_sgood) (auto simp: shown_coef_def kept_def wrap32_zero_minus split: if_splits)
  moreover have "pval \<rho> t = (if isNegative m then - mval \<rho> m else mval \<rho> m)"
    using v t(3,4) by (auto simp: shown_coef_def mval_def)
  ultimately show thesis using that t(1) by blast
qed

lemma sum_terms_good:
  "(\<forall>(s, m) \<in> set A. addable ad N m \<and> kept c m) \<Longrightarrow> sgoods c N P \<Longrightarrow> sgoods c N Q \<Longrightarrow>
   \<exists>P1 Q1. sum_terms ad A P Q = Inr (P1, Q1) \<and> sgoods c N P1 \<and> sgoods c N Q1 \<and>
     psum \<rho> P1 - psum \<rho> Q1 = psum \<rho> P - psum \<rho> Q + aval \<rho> A \<and>
     (some_nz P \<or> some_nz Q \<or> (\<exists>(s, m) \<in> set A. live m) \<longrightarrow> some_nz P1 \<or> some_nz Q1)"
proof (induction A arbitrary: P Q)
  case (Cons p A)
  obtain s m where p: "p = (s, m)" by (cases p)
  have a: "addable ad N m" "\<forall>(s, m) \<in> set A. addable ad N m \<and> kept c m" "kept c m" using Cons.prems p by auto
  obtain t where t: "normalizedTree m False (isNegative m) = Inr t" "sgood c N t" "live m \<Longrightarrow> nz t"
      "pval \<rho> t = (if isNegative m then - mval \<rho> m else mval \<rho> m)"
    by (rule shown_entry [OF a(1,3), of \<rho>]) blast
  let ?R = "if isNegative m then Q else P"
  have "sgoods c N ?R" using Cons.prems by simp
  then obtain ord R1 where R: "sig_order t = Inr ord" "add_at ad ord t ?R = Inr R1" "sgoods c N R1"
      "psum \<rho> R1 = psum \<rho> ?R + pval \<rho> t" "some_nz ?R \<or> nz t \<Longrightarrow> some_nz R1"
    by (rule add_at_good [OF _ t(2), of _ ad \<rho>]) blast
  have "sum_terms ad (p # A) P Q = (if isNegative m then sum_terms ad A P R1 else sum_terms ad A R1 Q)"
    using t(1) R(1,2) p by (auto split: if_splits)
  then show ?case
    using Cons.IH [OF a(2), of "if isNegative m then P else R1" "if isNegative m then R1 else Q"] Cons.prems R(3-5) t(3,4) p
    by (fastforce split: if_splits)
qed auto

lemma combine_sums_good:
  "sgood c N S \<Longrightarrow> (\<forall>(p, n) \<in> set pns. sgood c N p \<and> sgood c N n) \<Longrightarrow>
   sgood c N (combine_sums ad S pns) \<and> pval \<rho> (combine_sums ad S pns) = pval \<rho> S + (\<Sum>(p, n) \<leftarrow> pns. pval \<rho> p - pval \<rho> n) \<and>
   (nz S \<or> (\<exists>(p, n) \<in> set pns. nz p \<or> nz n) \<longrightarrow> nz (combine_sums ad S pns))"
proof (induction ad S pns rule: combine_sums.induct)
  case (2 ad S p n rest)
  let ?S1 = "if isZero p then S else simplifyingAdd ad S p"
  have g: "sgood c N S" "sgood c N p" "sgood c N n" "\<forall>(p, n) \<in> set rest. sgood c N p \<and> sgood c N n" using "2.prems" by auto
  have S1: "sgood c N ?S1" "pval \<rho> ?S1 = pval \<rho> S + pval \<rho> p" "nz S \<or> nz p \<Longrightarrow> nz ?S1"
    using g sgood_zero [OF g(2)] simplifyingAdd_good [OF g(1,2)] by auto
  note sub = sgood_binop [OF S1(1) g(3), of kSub]
  note z = sgood_zero [OF g(3)] sgood_zero [OF S1(1)]
  show ?case
  proof (cases "isZero n")
    case True
    then show ?thesis using "2.IH"(1) [OF refl True S1(1) g(4)] S1 z by (auto simp: Let_def algebra_simps)
  next
    case n: False
    show ?thesis
    proof (cases rest)
      case Nil
      then show ?thesis using n S1 sub by (auto simp: Let_def)
    next
      case (Cons q rest1)
      obtain p' n' where q: "q = (p', n')" by (cases q)
      show ?thesis
      proof (cases "isZero ?S1")
        case True
        have "sgood c N n'" using g(4) Cons q by auto
        note a = simplifyingAdd_good [OF g(3) this, where ad = ad]
        show ?thesis using "2.IH"(2) [OF refl n Cons q [symmetric] True S1(1)] a g(4) Cons q n True S1 z
          by (auto simp: Let_def algebra_simps)
      next
        case False
        then show ?thesis using "2.IH"(3) [OF refl n Cons q [symmetric] False sub(1)] g(4) Cons q n S1 sub
          by (auto simp: Let_def algebra_simps)
      qed
    qed
  qed
qed simp


lemma psum_zip: "length P = length Q \<Longrightarrow> (\<Sum>(p, n) \<leftarrow> zip P Q. pval \<rho> p - pval \<rho> n) = psum \<rho> P - psum \<rho> Q"
  by (induction P Q rule: list_induct2) (simp_all add: psum_def algebra_simps)

lemma some_nz_zip: "length P = length Q \<Longrightarrow> some_nz P \<or> some_nz Q \<Longrightarrow> \<exists>(p, n) \<in> set (zip P Q). nz p \<or> nz n"
  by (induction P Q rule: list_induct2) (auto simp: some_nz_def)

lemma aterm_tree_good:
  assumes "\<forall>(s, m) \<in> set A. addable ad N m \<and> kept c m"
  shows "\<exists>t. aterm_tree ad A = Inr t \<and> sgood c N t \<and> (\<forall>\<rho>. pval \<rho> t = aval \<rho> A) \<and> ((\<exists>(s, m) \<in> set A. live m) \<longrightarrow> nz t)"
proof -
  let ?Z = "replicate 4 (sigInt 0)"
  have z: "sgoods c N ?Z" "psum \<rho> ?Z = 0" for \<rho> by (auto simp: sgoods_def psum_def pval_int sum_list_replicate)
  obtain P Q where PQ: "sum_terms ad A ?Z ?Z = Inr (P, Q)" "sgoods c N P" "sgoods c N Q"
      "(\<exists>(s, m) \<in> set A. live m) \<longrightarrow> some_nz P \<or> some_nz Q"
    using sum_terms_good [OF assms z(1) z(1)] by blast
  have v: "psum \<rho> P - psum \<rho> Q = aval \<rho> A" for \<rho>
    using sum_terms_good [OF assms z(1) z(1), of \<rho>] PQ(1) by (auto simp: z(2))
  have l: "length P = length Q" "\<forall>(p, n) \<in> set (zip P Q). sgood c N p \<and> sgood c N n"
    using PQ(2,3) by (auto simp: sgoods_def dest: set_zip_leftD set_zip_rightD)
  have z0: "sgood c N (sigInt 0)" by simp
  show ?thesis
    using combine_sums_good [OF z0 l(2), of ad] some_nz_zip [OF l(1)] PQ(1,4) psum_zip [OF l(1)] v
    by (auto simp: aterm_tree_def pval_int)
qed

lemma kept_one: "mok ad m \<Longrightarrow> kept 1 m"
  by (simp add: kept_def mok_def)

lemma aterm_of_good:
  assumes "inj ad" "N \<le> nat int_max" "sumt z N t"
  shows "\<exists>A. aterm_of ad t = Inr A \<and> aok ad z N A \<and> (\<forall>\<rho>. aval \<rho> A = pval \<rho> t)"
proof -
  have "aok ad z N []" by (simp add: aok_def)
  then have "\<exists>A. aterm_of ad t = Inr A \<and> aok ad z N A \<and> aval \<rho> A = pval \<rho> t" for \<rho>
    using plus_minus_tree_value [OF assms, of \<rho>] by (force simp: reads_def aterm_of_def)
  then show ?thesis by (metis sum.inject(2))
qed


section \<open>Properties\<close>

lemma sigInput_atom [simp]: "atom (sigInput i)" "tfac (sigInput i) = {#sigInput i#}" "tcoef (sigInput i) = 1"
    "prodt (sigInput i)" "isSigAdd (sigInput i) = None" "isSigSub (sigInput i) = None"
proof -
  have n: "node (sigInput i) \<noteq> ssym SIGBINOP" by (simp add: sigInput_def)
  have p: "isSigPow (sigInput i) = Inr None" by (simp add: sigInput_def isSigPow_def getUserData_def)
  have k: "\<not> isNum (sigInput i)" by (simp add: sigInput_def isNum_def isNumNode_def isIntNode_def isDoubleNode_def)
  show a: "atom (sigInput i)" using not_binop [OF n] p k
    by (simp add: atom_def sig_order_def sigOrder.simps infereSigOrder_def)
  show "tfac (sigInput i) = {#sigInput i#}" "tcoef (sigInput i) = 1" "prodt (sigInput i)"
    "isSigAdd (sigInput i) = None" "isSigSub (sigInput i) = None"
    using not_binop [OF n] a p k atomD [OF a] by (simp_all add: tfac.simps [of "sigInput i"] tcoef.simps [of "sigInput i"] prodt.simps [of "sigInput i"])
qed

text \<open>
  Property C33 (additive normal form).  For a sum of integer products of a degree that fits in a
  32-bit exponent, collecting it as an \<^verbatim>\<open>aterm\<close> and building its tree succeed, with no failed assertion
  and no null tree, and the tree has the value of the sum in the 32-bit integers, whatever the
  values of the signals it is made of.
\<close>

theorem aterm_preserves_value:
  assumes "inj ad" "N \<le> nat int_max" "sumt False N t"
  shows "\<exists>t1. rbind (aterm_of ad t) (aterm_tree ad) = Inr t1 \<and> (\<forall>\<rho>. pval \<rho> t1 = pval \<rho> t)"
proof -
  obtain A where A: "aterm_of ad t = Inr A" "aok ad False N A" "\<forall>\<rho>. aval \<rho> A = pval \<rho> t"
    using aterm_of_good [OF assms] by blast
  have "\<forall>(s, m) \<in> set A. addable ad N m \<and> kept 1 m"
    using A(2) kept_one by (fastforce simp: aok_def addable_def)
  from aterm_tree_good [OF this] show ?thesis using A by auto
qed

theorem aterm_preserves_value_witness:
  "\<exists>t1. rbind (aterm_of (addr_in init) (sigBinOp kSub (sigBinOp kMul (sigInput 1) (sigInput 2)) (sigInt 3))) (aterm_tree (addr_in init)) = Inr t1 \<and>
     (\<forall>\<rho>. pval \<rho> t1 = pval \<rho> (sigBinOp kSub (sigBinOp kMul (sigInput 1) (sigInput 2)) (sigInt 3)))"
  using not_binop [OF isSigInt_not_binop [OF sigInt_simps(1) [of 3]]]
  by (intro aterm_preserves_value [where N = 2] heap.ad_inj)
    (simp_all add: int32_defs sumt.simps prodt.simps [of "sigBinOp _ _ _"] tfac.simps [of "sigBinOp _ _ _"])



end
