(* ===== verification/Factoring.thy ===== *)
theory Factoring
  imports NormalSound
begin

text \<open>
  The factorisation loop of \<^verbatim>\<open>normalizeAddTerm\<close> (\<^verbatim>\<open>normalize/normalize.cpp\<close>): it terminates, and it keeps
  the value of the sum as long as the numbers it divides by divide the coefficients.
\<close>

section \<open>Greatest common divisors\<close>

definition numok :: "address \<Rightarrow> mterm \<Rightarrow> bool" where
  "numok ad m \<longleftrightarrow> mp_ok ad (fFactors m) \<and> isNum (fCoef m)"

lemma contains_common: "common a b \<noteq> 0 \<Longrightarrow> contains a (common a b) \<and> contains b (common a b)"
proof -
  have pos: "tdiv x c > 0" if "0 < c" "c \<le> x" for x c :: int
    using that by (simp add: tdiv_def pos_imp_zdiv_pos_iff)
  have neg: "tdiv x c > 0" if "c < 0" "x \<le> c" for x c :: int
    using that pos_imp_zdiv_pos_iff [of "- c" "- x"] by (simp add: tdiv_def)
  assume "common a b \<noteq> 0"
  then consider "0 < common a b" "common a b \<le> a" "common a b \<le> b" | "common a b < 0" "a \<le> common a b" "b \<le> common a b"
    by (auto simp: common_def split: if_splits)
  then show ?thesis using pos neg by cases (auto simp: contains_def)
qed

lemma gcd_step_coef: "fCoef (gcd_factors ad fs1 fs2 R) = fCoef R"
  unfolding gcd_factors_def
proof (induction fs1 arbitrary: R)
  case (Cons p fs1)
  then show ?case by (cases p) (simp add: Let_def split: option.splits)
qed simp

lemma gcd_step_ok: "inj ad \<Longrightarrow> mp_ok ad (fFactors R) \<Longrightarrow> mp_ok ad (fFactors (gcd_factors ad fs1 fs2 R))"
  unfolding gcd_factors_def
proof (induction fs1 arbitrary: R)
  case (Cons p fs1)
  then show ?case by (cases p) (simp add: Let_def mp_update_ok split: option.splits)
qed simp

lemma gcd_step_mem:
  "(f, v) \<in> set (fFactors (gcd_factors ad fs1 fs2 R)) \<Longrightarrow> (f, v) \<in> set (fFactors R) \<or>
   (\<exists>v1 v2. (f, v1) \<in> set fs1 \<and> map_of fs2 f = Some v2 \<and> v = common v1 v2 \<and> v \<noteq> 0)"
  unfolding gcd_factors_def
proof (induction fs1 arbitrary: R)
  case (Cons p fs1)
  obtain x w where p: "p = (x, w)" by (cases p)
  show ?case
  proof (cases "map_of fs2 x")
    case None
    then show ?thesis using Cons p by auto
  next
    case (Some u)
    then show ?thesis using Cons.prems Cons.IH p by (fastforce simp: Let_def split: if_splits dest!: mp_update_mem)
  qed
qed simp

lemma mterm_of_num: "isNum c \<Longrightarrow> mterm_of ad c = Inr \<lparr>fCoef = mulNums (sigInt 1) c, fFactors = []\<rparr>"
  by (simp add: mterm_of_def mul_tree.simps mterm_int_def mterm_num_def)

lemma isNum_nums [simp]: "isNum (mulNums a b)" "isNum (addNums a b)" "isNum (subNums a b)" "isNum (minusNum b)"
  by (simp_all add: isNum_def mulNums_def addNums_def subNums_def minusNum_def mulNode_def addNode_def subNode_def minusNode_def
      leaf_def isNumNode_def isIntNode_def isDoubleNode_def)

lemma mterm_gcd_spec:
  assumes "inj ad" "numok ad m1" "numok ad m2" "mterm_gcd ad m1 m2 = Inr g"
  shows "fCoef g = mulNums (sigInt 1) (if fCoef m1 = fCoef m2 then fCoef m1 else sigInt 1)" "mp_ok ad (fFactors g)"
    "(f, v) \<in> set (fFactors g) \<Longrightarrow> \<exists>v1 v2. map_of (fFactors m1) f = Some v1 \<and> map_of (fFactors m2) f = Some v2 \<and> v = common v1 v2 \<and> v \<noteq> 0"
proof -
  let ?c = "if fCoef m1 = fCoef m2 then fCoef m1 else sigInt 1"
  let ?R = "\<lparr>fCoef = mulNums (sigInt 1) ?c, fFactors = []\<rparr>"
  have "isNum ?c" using assms(2,3) by (simp add: numok_def)
  then have g: "g = gcd_factors ad (fFactors m1) (fFactors m2) ?R"
    using assms(4) by (simp add: mterm_gcd_def mterm_of_num)
  show "fCoef g = mulNums (sigInt 1) ?c" by (simp add: g gcd_step_coef)
  show "mp_ok ad (fFactors g)" unfolding g by (rule gcd_step_ok [OF assms(1)]) simp
  show "\<exists>v1 v2. map_of (fFactors m1) f = Some v1 \<and> map_of (fFactors m2) f = Some v2 \<and> v = common v1 v2 \<and> v \<noteq> 0"
    if "(f, v) \<in> set (fFactors g)"
    using gcd_step_mem [OF that [unfolded g]] mp_ok_map_of [OF assms(1), of "fFactors m1"] assms(2) by (auto simp: numok_def)
qed

lemma gcd_divides:
  assumes "inj ad" "numok ad m1" "numok ad m2" "mterm_gcd ad m1 m2 = Inr g"
  shows "hasDivisor m1 g" "hasDivisor m2 g"
  using mterm_gcd_spec(3) [OF assms] contains_common unfolding hasDivisor_def by fastforce+

lemma term_pairs_count: "(x, y) \<in> set (term_pairs xs) \<Longrightarrow> P x \<Longrightarrow> P y \<Longrightarrow> 2 \<le> length (filter P xs)"
proof (induction xs)
  case (Cons a xs)
  have "filter P xs \<noteq> []" if "y \<in> set xs" using that Cons.prems by (auto simp: filter_empty_conv)
  then show ?case using Cons by (auto simp: Suc_le_eq)
qed simp

lemma term_pairs_mem: "(x, y) \<in> set (term_pairs xs) \<Longrightarrow> x \<in> set xs \<and> y \<in> set xs"
  by (induction xs) auto

text \<open>The greatest divisor is one, or the common divisor of two of the products.\<close>

lemma best_divisor_cases:
  "best_divisor ad ps c D = Inr G \<Longrightarrow> G = D \<or> (\<exists>(m1, m2) \<in> set ps. mterm_gcd ad m1 m2 = Inr G)"
proof (induction ad ps c D rule: best_divisor.induct)
  case (2 ad m1 m2 ps c D)
  then obtain g k where g: "mterm_gcd ad m1 m2 = Inr g" "complexity g = Inr k"
    "(if k > c then best_divisor ad ps k g else best_divisor ad ps c D) = Inr G"
    by (auto simp: rbind_eq_Inr)
  show ?case
  proof (cases "k > c")
    case True
    then show ?thesis using "2.IH"(1) [OF g(1,2) True] g by auto
  next
    case False
    then show ?thesis using "2.IH"(2) [OF g(1,2) False] g by auto
  qed
qed simp

lemma complexity_one: "complexity (mterm_int 1) = Inr 0"
  by (simp add: complexity_def mterm_int_def mterm_num_def)

lemma greatestDivisor_cases:
  assumes "greatestDivisor ad A = Inr D" "complexity D = Inr k" "k > 0"
  obtains m1 m2 where "(m1, m2) \<in> set (term_pairs (map snd A))" "mterm_gcd ad m1 m2 = Inr D"
  using best_divisor_cases [OF assms(1) [unfolded greatestDivisor_def]] assms(2,3) complexity_one by auto


section \<open>The loop terminates\<close>

definition anum :: "address \<Rightarrow> aterm \<Rightarrow> bool" where
  "anum ad A \<longleftrightarrow> (\<forall>(s, m) \<in> set A. numok ad m)"

lemma anum_products: "anum ad A \<longleftrightarrow> (\<forall>m \<in> set (map snd A). numok ad m)"
  by (auto simp: anum_def)

lemma numok_add_factor: "inj ad \<Longrightarrow> numok ad m \<Longrightarrow> numok ad (add_factor ad x n m)"
  by (simp add: numok_def add_factor_def mp_update_ok)

lemma isNum_div: "divExtendedNums a b = Inr c \<Longrightarrow> isNum c"
  by (auto simp: divExtendedNums_def rbind_eq_Inr divExtendedNode_def isNum_def leaf_def isNumNode_def isIntNode_def isDoubleNode_def
      split: if_splits)

lemma numok_coef: "numok ad m \<Longrightarrow> isNum c \<Longrightarrow> numok ad (m\<lparr>fCoef := c\<rparr>)"
  by (simp add: numok_def)

lemma read_numok:
  assumes "inj ad"
  shows "(mul_tree ad t m = Inr m1 \<longrightarrow> numok ad m \<longrightarrow> numok ad m1) \<and> (div_tree ad t m = Inr m1 \<longrightarrow> numok ad m \<longrightarrow> numok ad m1)"
proof (induction t arbitrary: m m1 rule: measure_induct_rule [where f = size])
  case (less t)
  have IH: "mul_tree ad u m = Inr m1 \<Longrightarrow> numok ad m \<Longrightarrow> numok ad m1" "div_tree ad u m = Inr m1 \<Longrightarrow> numok ad m \<Longrightarrow> numok ad m1"
    if "size u < size t" for u m m1 using less.IH [OF that] by blast+
  consider (num) "isNum t" | (mul) x y where "\<not> isNum t" "isSigMul t = Some (x, y)"
    | (div) x y where "\<not> isNum t" "isSigMul t = None" "isSigDiv t = Some (x, y)"
    | (pow) "\<not> isNum t" "isSigMul t = None" "isSigDiv t = None" by (metis option.exhaust surj_pair)
  then show ?case
  proof cases
    case num
    then show ?thesis by (auto simp: mul_tree.simps [of ad t] div_tree.simps [of ad t] rbind_eq_Inr numok_coef isNum_div)
  next
    case mul
    then have "size x < size t" "size y < size t" by (auto dest: binop_sizes)
    note IH = IH [OF this(1)] IH [OF this(2)]
    show ?thesis using mul IH by (auto simp: mul_tree.simps [of ad t] div_tree.simps [of ad t] rbind_eq_Inr)
  next
    case div
    then have "size x < size t" "size y < size t"
      by (auto simp: isSigDiv_def is_binop_def dest!: isSigBinOp_size split: option.splits if_splits)
    note IH = IH [OF this(1)] IH [OF this(2)]
    show ?thesis using div IH by (auto simp: mul_tree.simps [of ad t] div_tree.simps [of ad t] rbind_eq_Inr)
  next
    case pow
    then show ?thesis using numok_add_factor [OF assms]
      by (auto simp: mul_tree.simps [of ad t] div_tree.simps [of ad t] rbind_eq_Inr split: option.splits)
  qed
qed

lemma mp_ok_filter: "mp_ok ad fs \<Longrightarrow> mp_ok ad (filter P fs)"
  by (auto simp: mp_ok_def sorted_wrt_map sorted_wrt_filter)

lemma numok_cleanup: "numok ad m \<Longrightarrow> numok ad (cleanup m)"
  by (auto simp: numok_def cleanup_def mp_ok_filter)

lemma numok_fold: "inj ad \<Longrightarrow> numok ad m \<Longrightarrow> numok ad (fold (\<lambda>(x, n). add_factor ad x (g n)) fs m)"
  by (induction fs arbitrary: m) (auto simp: numok_add_factor)

lemma mterm_ops_numok:
  assumes "inj ad" "numok ad t" "numok ad m"
  shows "mterm_plus t m = Inr r \<Longrightarrow> numok ad r" "mterm_minus t m = Inr r \<Longrightarrow> numok ad r"
    "numok ad (mterm_times ad t m)" "mterm_over ad t m = Inr r \<Longrightarrow> numok ad r"
  using assms numok_fold [OF assms(1), of _ "\<lambda>n. n"] numok_fold [OF assms(1), of _ uminus]
  by (auto simp: mterm_plus_def mterm_minus_def mterm_times_def mterm_over_def rbind_eq_Inr numok_coef isNum_div
      intro!: numok_cleanup split: if_splits) (auto simp: numok_def)

lemma anum_update: "anum ad A \<Longrightarrow> numok ad r \<Longrightarrow> anum ad (mp_update ad (\<lambda>_. r) s A)"
  by (auto simp: anum_def dest!: mp_update_mem)

lemma numok_int: "numok ad (mterm_int k)"
  by (simp add: numok_def mterm_int_def mterm_num_def)

lemma add_mterm_anum:
  assumes "inj ad" "anum ad A" "numok ad m"
  shows "plus_mterm ad m A = Inr A1 \<Longrightarrow> anum ad A1 \<and> length A1 \<le> Suc (length A)"
    "minus_mterm ad m A = Inr A1 \<Longrightarrow> anum ad A1 \<and> length A1 \<le> Suc (length A)"
proof -
  have t: "numok ad t" if "map_of A s = Some t" for s t using that assms(2) by (auto simp: anum_def dest!: map_of_SomeD)
  have u: "anum ad (mp_update ad (\<lambda>_. r) s A) \<and> length (mp_update ad (\<lambda>_. r) s A) \<le> Suc (length A)" if "numok ad r" for r s
    using that assms(2) anum_update length_update by blast
  show "anum ad A1 \<and> length A1 \<le> Suc (length A)" if "plus_mterm ad m A = Inr A1"
    using that u assms(3) mterm_ops_numok(1) [OF assms(1) t assms(3)]
    by (auto simp: plus_mterm_def rbind_eq_Inr split: option.splits)
  show "anum ad A1 \<and> length A1 \<le> Suc (length A)" if "minus_mterm ad m A = Inr A1"
    using that u mterm_ops_numok(3) [OF assms(1,3) numok_int] mterm_ops_numok(2) [OF assms(1) t assms(3)]
    by (auto simp: minus_mterm_def rbind_eq_Inr split: option.splits)
qed

lemma mterm_of_numok: "inj ad \<Longrightarrow> mterm_of ad t = Inr m \<Longrightarrow> numok ad m"
  using read_numok numok_int unfolding mterm_of_def by blast

lemma tree_anum:
  assumes "inj ad"
  shows "(plus_tree ad t A = Inr A1 \<longrightarrow> anum ad A \<longrightarrow> anum ad A1) \<and> (minus_tree ad t A = Inr A1 \<longrightarrow> anum ad A \<longrightarrow> anum ad A1)"
proof (induction t arbitrary: A A1 rule: measure_induct_rule [where f = size])
  case (less t)
  have IH: "plus_tree ad u A = Inr A1 \<Longrightarrow> anum ad A \<Longrightarrow> anum ad A1" "minus_tree ad u A = Inr A1 \<Longrightarrow> anum ad A \<Longrightarrow> anum ad A1"
    if "size u < size t" for u A A1 using less.IH [OF that] by blast+
  consider (add) x y where "isSigAdd t = Some (x, y)" | (sub) x y where "isSigAdd t = None" "isSigSub t = Some (x, y)"
    | (prod) "isSigAdd t = None" "isSigSub t = None" by (metis option.exhaust surj_pair)
  then show ?case
  proof cases
    case add
    then have "size x < size t" "size y < size t" by (auto dest: binop_sizes)
    note IH = IH [OF this(1)] IH [OF this(2)]
    show ?thesis using add IH by (auto simp: plus_tree.simps [of ad t] minus_tree.simps [of ad t] rbind_eq_Inr)
  next
    case sub
    then have "size x < size t" "size y < size t" by (auto dest: binop_sizes)
    note IH = IH [OF this(1)] IH [OF this(2)]
    show ?thesis using sub IH by (auto simp: plus_tree.simps [of ad t] minus_tree.simps [of ad t] rbind_eq_Inr)
  next
    case prod
    have "anum ad A1" if "rbind (mterm_of ad t) (\<lambda>m. plus_mterm ad m A) = Inr A1 \<or> rbind (mterm_of ad t) (\<lambda>m. minus_mterm ad m A) = Inr A1" "anum ad A"
      using that(1) add_mterm_anum [OF assms that(2) mterm_of_numok [OF assms]] by (auto simp: rbind_eq_Inr)
    with prod show ?thesis by (simp add: plus_tree.simps [of ad t] minus_tree.simps [of ad t])
  qed
qed

lemma split_terms_length:
  assumes "inj ad" "numok ad d"
  shows "split_terms ad d ts A Q = Inr (A1, Q1) \<Longrightarrow> \<forall>t \<in> set ts. numok ad t \<Longrightarrow> anum ad A \<Longrightarrow> anum ad Q \<Longrightarrow>
    anum ad A1 \<and> length A1 + length (filter (\<lambda>t. hasDivisor t d) ts) \<le> length A + length ts"
proof (induction ts arbitrary: A Q)
  case (Cons t ts)
  show ?case
  proof (cases "hasDivisor t d")
    case True
    then obtain q Q2 where q: "mterm_over ad t d = Inr q" "plus_mterm ad q Q = Inr Q2" "split_terms ad d ts A Q2 = Inr (A1, Q1)"
      using Cons.prems(1) by (auto simp: rbind_eq_Inr)
    have "numok ad q" using Cons.prems(2) by (intro mterm_ops_numok(4) [OF assms(1) _ assms(2) q(1)]) simp
    then have "anum ad Q2" using add_mterm_anum(1) [OF assms(1) Cons.prems(4) _ q(2)] by blast
    from Cons.IH [OF q(3) _ Cons.prems(3) this] Cons.prems(2) True show ?thesis by simp
  next
    case False
    then obtain A2 where a: "plus_mterm ad t A = Inr A2" "split_terms ad d ts A2 Q = Inr (A1, Q1)"
      using Cons.prems(1) by (auto simp: rbind_eq_Inr)
    have "anum ad A2 \<and> length A2 \<le> Suc (length A)"
      using Cons.prems(2) by (intro add_mterm_anum(1) [OF assms(1) Cons.prems(3) _ a(1)]) simp
    with Cons.IH [OF a(2) _ _ Cons.prems(4)] Cons.prems(2) False show ?thesis by simp
  qed
qed simp

lemma factorize_shrinks:
  assumes "inj ad" "anum ad A" "numok ad D" "2 \<le> length (filter (\<lambda>m. hasDivisor m D) (map snd A))" "factorize ad D A = Inr A1"
  shows "anum ad A1" "length A1 < length A"
proof -
  obtain B Q dt qt where f: "split_terms ad D (map snd A) [] [] = Inr (B, Q)" "plus_tree ad (sigBinOp kMul dt qt) B = Inr A1"
    using assms(5) by (auto simp: factorize_def rbind_eq_Inr)
  then obtain m where m: "mterm_of ad (sigBinOp kMul dt qt) = Inr m" "plus_mterm ad m B = Inr A1"
    by (auto simp: plus_tree.simps rbind_eq_Inr)
  have nil: "anum ad []" by (simp add: anum_def)
  have B: "anum ad B \<and> length B + length (filter (\<lambda>m. hasDivisor m D) (map snd A)) \<le> length A"
    using split_terms_length [OF assms(1,3) f(1) assms(2) [unfolded anum_products] nil nil] by simp
  then have "anum ad A1 \<and> length A1 \<le> Suc (length B)"
    by (intro add_mterm_anum(1) [OF assms(1) _ mterm_of_numok [OF assms(1) m(1)] m(2)]) simp
  then show "anum ad A1" "length A1 < length A" using B assms(4) by auto
qed

lemma gcd_numok: "inj ad \<Longrightarrow> numok ad m1 \<Longrightarrow> numok ad m2 \<Longrightarrow> mterm_gcd ad m1 m2 = Inr g \<Longrightarrow> numok ad g"
  using mterm_gcd_spec(1,2) [of ad m1 m2 g] by (simp add: numok_def)

text \<open>A round of the loop that finds a divisor leaves fewer products.\<close>

lemma factor_round:
  assumes "inj ad" "anum ad A" "greatestDivisor ad A = Inr D" "complexity D = Inr k" "k > 0" "factorize ad D A = Inr A1"
  shows "anum ad A1" "length A1 < length A"
proof -
  obtain m1 m2 where m: "(m1, m2) \<in> set (term_pairs (map snd A))" "mterm_gcd ad m1 m2 = Inr D"
    by (rule greatestDivisor_cases [OF assms(3-5)])
  have n: "numok ad m1" "numok ad m2" using term_pairs_mem [OF m(1)] assms(2) by (auto simp: anum_def)
  note d = gcd_divides [OF assms(1) n m(2)]
  show "anum ad A1" "length A1 < length A"
    using factorize_shrinks [OF assms(1,2) gcd_numok [OF assms(1) n m(2)] term_pairs_count [OF m(1) d] assms(6)] by auto
qed

lemma factor_loop_returns:
  assumes "inj ad"
  shows "anum ad A \<Longrightarrow> greatestDivisor ad A = Inr D \<Longrightarrow> \<exists>r. \<forall>n > length A. factor_loop n ad D A = Some r"
proof (induction "length A" arbitrary: A D rule: less_induct)
  case less
  let ?c = "rbind (if isNotZero D then complexity D else Inr 0) (\<lambda>k. Inr (k > 0))"
  let ?f = "rbind (factorize ad D A) (\<lambda>A1. rbind (greatestDivisor ad A1) (\<lambda>D1. Inr (A1, D1)))"
  have step: "\<exists>r. \<forall>n > length A. factor_loop n ad D A = Some r" if "\<exists>r. \<forall>n \<ge> length A. factor_loop (Suc n) ad D A = Some r"
    using that by (metis Suc_lessE Suc_le_eq less_Suc_eq_le Suc_pred less_imp_Suc_add)
  consider (stop) r where "\<forall>n. factor_loop (Suc n) ad D A = Some r" | (round) A1 D1 where "?c = Inr True" "?f = Inr (A1, D1)"
  proof (cases ?c)
    case c: (Inr b)
    show ?thesis
    proof (cases ?f)
      case (Inr p)
      then show ?thesis using that c by (cases b; cases p) auto
    qed (use that(1) c in \<open>cases b, auto\<close>)
  qed (use that(1) in auto)
  then show ?case
  proof cases
    case stop
    then show ?thesis by (intro step) blast
  next
    case round
    then obtain k where k: "complexity D = Inr k" "k > 0" by (auto simp: rbind_eq_Inr split: if_splits)
    have A1: "factorize ad D A = Inr A1" "greatestDivisor ad A1 = Inr D1" using round(2) by (auto simp: rbind_eq_Inr)
    note l = factor_round [OF assms less.prems(1,2) k A1(1)]
    obtain r where "\<forall>n > length A1. factor_loop n ad D1 A1 = Some r" using less.hyps [OF l(2,1) A1(2)] by blast
    then have "factor_loop (Suc n) ad D A = Some r" if "n \<ge> length A" for n using round l(2) that by simp
    then show ?thesis by (intro step) blast
  qed
qed


section \<open>Dividing a product\<close>

definition nonneg :: "address \<Rightarrow> (tree \<times> int) list \<Rightarrow> bool" where
  "nonneg ad fs \<longleftrightarrow> mp_ok ad fs \<and> (\<forall>(x, v) \<in> set fs. atom x \<and> 0 \<le> v \<and> v \<le> int_max)"

abbreviation lessen :: "address \<Rightarrow> tree \<Rightarrow> int \<Rightarrow> (tree \<times> int) list \<Rightarrow> (tree \<times> int) list" where
  "lessen ad x n fs \<equiv> mp_update ad (\<lambda>q. wrap32 ((case q of Some v \<Rightarrow> v | None \<Rightarrow> 0) + - n)) x fs"

lemma lessen_sum:
  "nonneg ad fs \<Longrightarrow> map_of fs x = Some v \<Longrightarrow> 0 \<le> n \<Longrightarrow> n \<le> v \<Longrightarrow>
   fac_sum (lessen ad x n fs) + replicate_mset (nat n) x = fac_sum fs"
proof (induction fs)
  case (Cons p fs)
  obtain k w where p: "p = (k, w)" by (cases p)
  show ?case
  proof (cases "x = k")
    case True
    then have w: "w = v" "0 \<le> w" "w \<le> int_max" using Cons.prems p by (auto simp: nonneg_def)
    then have "wrap32 (w + - n) = w - n" using Cons.prems(3,4) by (subst wrap32_id) (auto simp: int32_defs)
    moreover have "nat w = nat (w - n) + nat n" using w Cons.prems(3,4) by simp
    ultimately show ?thesis using True p w by (simp add: multiset_eq_iff)
  next
    case False
    then have m: "map_of fs x = Some v" using Cons.prems p by simp
    then have "ad k < ad x" using Cons.prems(1) p map_of_SomeD [OF m] by (auto simp: nonneg_def)
    then show ?thesis using Cons.IH [OF _ m] Cons.prems p False by (simp add: nonneg_def)
  qed
qed simp

lemma lessen_nonneg:
  assumes "inj ad" "nonneg ad fs" "map_of fs x = Some v" "0 \<le> n" "n \<le> v"
  shows "nonneg ad (lessen ad x n fs)" "map_of (lessen ad x n fs) = (map_of fs)(x \<mapsto> v - n)"
proof -
  have v: "(x, v) \<in> set fs" using assms(3) by (rule map_of_SomeD)
  then have a: "atom x" "0 \<le> v" "v \<le> int_max" using assms(2) by (auto simp: nonneg_def)
  have ok: "mp_ok ad fs" using assms(2) by (simp add: nonneg_def)
  have w: "wrap32 (v + - n) = v - n" using a assms(4,5) by (subst wrap32_id) (auto simp: int32_defs)
  show m: "map_of (lessen ad x n fs) = (map_of fs)(x \<mapsto> v - n)"
    using map_of_mp_update [OF assms(1) ok, of _ x] assms(3) w by simp
  have "atom y \<and> 0 \<le> u \<and> u \<le> int_max" if "(y, u) \<in> set (lessen ad x n fs)" for y u
  proof -
    have "map_of (lessen ad x n fs) y = Some u" using mp_ok_map_of [OF assms(1) mp_update_ok [OF assms(1) ok]] that by blast
    then show ?thesis unfolding m using a assms(2,4,5) by (auto simp: nonneg_def dest!: map_of_SomeD split: if_splits)
  qed
  then show "nonneg ad (lessen ad x n fs)" using mp_update_ok [OF assms(1) ok] by (auto simp: nonneg_def)
qed

lemma divide_factors:
  assumes "inj ad"
  shows "mp_ok ad ds \<Longrightarrow> nonneg ad (fFactors m) \<Longrightarrow> \<forall>(x, n) \<in> set ds. 0 < n \<and> (\<exists>v. map_of (fFactors m) x = Some v \<and> n \<le> v) \<Longrightarrow>
    m1 = fold (\<lambda>(x, n). add_factor ad x (- n)) ds m \<Longrightarrow>
    nonneg ad (fFactors m1) \<and> fac_sum (fFactors m1) + fac_sum ds = mfac m \<and> fCoef m1 = fCoef m"
proof (induction ds arbitrary: m)
  case (Cons p ds)
  obtain x n where p: "p = (x, n)" by (cases p)
  obtain v where v: "map_of (fFactors m) x = Some v" "n \<le> v" "0 < n" using Cons.prems(3) p by auto
  let ?m = "add_factor ad x (- n) m"
  note l = lessen_nonneg [OF assms Cons.prems(2) v(1) less_imp_le [OF v(3)] v(2)] lessen_sum [OF Cons.prems(2) v(1) less_imp_le [OF v(3)] v(2)]
  have k: "y \<noteq> x" if "(y, u) \<in> set ds" for y u using Cons.prems(1) p that by auto
  have u: "map_of (fFactors ?m) = (map_of (fFactors m))(x \<mapsto> v - n)" using l(2) by (simp add: add_factor_def)
  have "\<forall>(y, u) \<in> set ds. 0 < u \<and> (\<exists>w. map_of (fFactors ?m) y = Some w \<and> u \<le> w)"
    using Cons.prems(3) p k by (fastforce simp: u)
  from Cons.IH [OF _ _ this] Cons.prems(1,4) l(1) p
  have "nonneg ad (fFactors m1) \<and> fac_sum (fFactors m1) + fac_sum ds = mfac ?m \<and> fCoef m1 = fCoef m"
    by (simp add: add_factor_def)
  moreover have "mfac ?m + replicate_mset (nat n) x = mfac m" using l(3) by (simp add: add_factor_def)
  moreover have "mfac m1 + fac_sum (p # ds) = (mfac m1 + fac_sum ds) + replicate_mset (nat n) x" by (simp add: p ac_simps)
  ultimately show ?case by simp
qed simp

definition exact_div :: "mterm \<Rightarrow> mterm \<Rightarrow> bool" where
  "exact_div t d \<longleftrightarrow> mcoef d dvd mcoef t \<and> \<not> (mcoef t = int_min \<and> mcoef d = - 1)"

lemma hasDivisor_le:
  assumes "inj ad" "mok ad t" "mok ad d" "hasDivisor t d" "(x, n) \<in> set (fFactors d)"
  shows "\<exists>v. map_of (fFactors t) x = Some v \<and> n \<le> v"
proof -
  have n: "0 < n" using assms(3,5) by (auto simp: mok_def)
  obtain v where v: "map_of (fFactors t) x = Some v" "contains v n"
    using assms(4,5) by (auto simp: hasDivisor_def split: option.splits)
  have "0 < v" using assms(2) map_of_SomeD [OF v(1)] by (auto simp: mok_def)
  then have "n \<le> v" using v(2) n by (auto simp: contains_def tdiv_def pos_imp_zdiv_pos_iff)
  then show ?thesis using v(1) by blast
qed

lemma mok_nonneg: "mok ad m \<Longrightarrow> nonneg ad (fFactors m)"
proof -
  assume m: "mok ad m"
  have "v \<le> int_max" if "(x, v) \<in> set (fFactors m)" for x v
  proof -
    have "nat v \<le> nat int_max" using fac_sum_ge [OF that] m by (simp add: mok_def)
    then show ?thesis by (simp add: int_max_def)
  qed
  then show ?thesis using m by (fastforce simp: mok_def nonneg_def)
qed

lemma fac_sum_filter: "\<forall>(x, v) \<in> set fs. 0 \<le> v \<Longrightarrow> fac_sum (filter (\<lambda>(_, q). q \<noteq> 0) fs) = fac_sum fs"
  by (induction fs) auto

lemma divide_coef:
  assumes "mok ad t" "mok ad d" "mcoef d \<noteq> 0" "exact_div t d"
  shows "divExtendedNums (fCoef t) (fCoef d) = Inr (sigInt (mcoef t div mcoef d))" "in_int32 (mcoef t div mcoef d)"
proof -
  have t: "node (fCoef t) = NInt (mcoef t)" "in_int32 (mcoef t)" using assms(1) by (auto simp: mok_def sigInt_def leaf_def)
  have d: "node (fCoef d) = NInt (mcoef d)" "in_int32 (mcoef d)" using assms(2) by (auto simp: mok_def sigInt_def leaf_def)
  show "divExtendedNums (fCoef t) (fCoef d) = Inr (sigInt (mcoef t div mcoef d))"
    using assms(3,4) by (simp add: divExtendedNums_def t d divExtendedNode_int exact_div_def sigInt_def)
  have "tdiv (mcoef t) (mcoef d) = mcoef t div mcoef d" using assms(4) by (intro tdiv_dvd) (simp add: exact_div_def)
  then show "in_int32 (mcoef t div mcoef d)"
    using tdiv_in_int32 [of "mcoef t" "mcoef d"] t d assms(3,4) by (auto simp: exact_div_def)
qed

lemma mterm_over_exact:
  assumes "inj ad" "mok ad t" "mok ad d" "mcoef d \<noteq> 0" "hasDivisor t d" "exact_div t d"
  shows "\<exists>q. mterm_over ad t d = Inr q \<and> mok ad q \<and> clean q \<and> mcoef q * mcoef d = mcoef t \<and> (mcoef t \<noteq> 0 \<longrightarrow> mfac q + mfac d = mfac t)"
proof -
  let ?c = "mcoef t div mcoef d"
  define m1 where "m1 = fold (\<lambda>(x, n). add_factor ad x (- n)) (fFactors d) (t\<lparr>fCoef := sigInt ?c\<rparr>)"
  have pre: "\<forall>(x, n) \<in> set (fFactors d). 0 < n \<and> (\<exists>v. map_of (fFactors (t\<lparr>fCoef := sigInt ?c\<rparr>)) x = Some v \<and> n \<le> v)"
    using hasDivisor_le [OF assms(1-3,5)] assms(3) by (auto simp: mok_def)
  have m1: "nonneg ad (fFactors m1)" "fac_sum (fFactors m1) + mfac d = mfac t" "fCoef m1 = sigInt ?c"
    using divide_factors [OF assms(1) _ _ pre m1_def] assms(3) mok_nonneg [OF assms(2)] by (auto simp: mok_def)
  let ?q = "cleanup m1"
  have over: "mterm_over ad t d = Inr ?q" by (simp add: mterm_over_def divide_coef [OF assms(2-4,6)] m1_def)
  have c: "mcoef ?q = ?c" "fCoef ?q = sigInt ?c" using m1(3) by (simp_all add: cleanup_def mcoef_def)
  have z: "isZero (fCoef m1) \<longleftrightarrow> ?c = 0" using m1(3) by simp
  have f: "mfac ?q = (if ?c = 0 then {#} else mfac m1)" "clean ?q"
    using m1(1) fac_sum_filter [of "fFactors m1"] c by (auto simp: cleanup_def z nonneg_def clean_def)
  have "size (mfac m1) + size (mfac d) = size (mfac t)" using m1(2) by (metis size_union)
  then have "size (mfac ?q) \<le> nat int_max" using f(1) assms(2) by (simp add: mok_def)
  moreover have "\<forall>(x, n) \<in> set (fFactors ?q). atom x \<and> 0 < n" using m1(1) by (auto simp: cleanup_def nonneg_def)
  moreover have "mp_ok ad (fFactors ?q)" using m1(1) by (auto simp: cleanup_def nonneg_def mp_ok_filter)
  ultimately have "mok ad ?q" using c divide_coef(2) [OF assms(2-4,6)] by (simp add: mok_def)
  moreover have "mcoef ?q * mcoef d = mcoef t" using assms(6) by (simp add: c exact_div_def)
  ultimately show ?thesis using over f m1(2) c assms(4) by (intro exI [of _ ?q]) auto
qed


section \<open>Factorisation keeps the value\<close>

definition nonzeros :: "aterm \<Rightarrow> mterm set" where
  "nonzeros A = {m. \<exists>k. (k, m) \<in> set A \<and> mcoef m \<noteq> 0}"

lemma mp_update_set:
  assumes "inj ad" "mp_ok ad A"
  shows "set (mp_update ad f s A) = insert (s, f (map_of A s)) {(k, v). (k, v) \<in> set A \<and> k \<noteq> s}"
  using mp_ok_map_of [OF assms(1) assms(2)] mp_ok_map_of [OF assms(1) mp_update_ok [OF assms]] map_of_mp_update [OF assms]
  by (auto split: if_splits)

lemma nonzeros_update:
  assumes "inj ad" "mp_ok ad A"
  shows "nonzeros (mp_update ad (\<lambda>_. r) s A) =
    {m. \<exists>k. (k, m) \<in> set A \<and> k \<noteq> s \<and> mcoef m \<noteq> 0} \<union> (if mcoef r = 0 then {} else {r})"
  unfolding nonzeros_def mp_update_set [OF assms] by auto

lemma plus_mterm_fresh:
  assumes "inj ad" "aok ad True N A" "addable ad N m" "clean m" "plus_mterm ad m A = Inr A1"
    and "\<And>e. e \<in> nonzeros A \<Longrightarrow> mcoef m \<noteq> 0 \<Longrightarrow> fFactors e \<noteq> fFactors m"
  shows "nonzeros A1 = nonzeros A \<union> (if mcoef m = 0 then {} else {m})"
proof -
  obtain s where s: "signatureTree m = Inr s" using mterm_signature [of ad m] assms(3) by (auto simp: addable_def)
  have ok: "mp_ok ad A" using assms(2) by (simp add: aok_def)
  note u = nonzeros_update [OF assms(1) ok]
  note mem = mp_ok_map_of [OF assms(1) ok]
  have mok: "mok ad m" using assms(3) by (simp add: addable_def)
  show ?thesis
  proof (cases "map_of A s")
    case None
    then have A1: "A1 = mp_update ad (\<lambda>_. m) s A" using assms(5) s by (simp add: plus_mterm_def)
    have "k \<noteq> s" if "(k, x) \<in> set A" for k x using None that mem by auto
    then show ?thesis unfolding A1 u by (auto simp: nonzeros_def)
  next
    case (Some e)
    then have e: "(s, e) \<in> set A" by (rule map_of_SomeD)
    then have eok: "addable ad N e" "clean e" "mok ad e" using assms(2) by (auto simp: aok_def addable_def)
    obtain r where r: "mterm_plus e m = Inr r" "A1 = mp_update ad (\<lambda>_. r) s A"
      using assms(5) s Some by (auto simp: plus_mterm_def rbind_eq_Inr)
    have uniq: "x = e" if "(s, x) \<in> set A" for x using that Some mem by simp
    consider "mcoef m = 0" | "mcoef m \<noteq> 0" "mcoef e = 0"
      using assms(6) [of e] entry_factors(2) [OF assms(1-3) s Some] e by (force simp: nonzeros_def)
    then show ?thesis
    proof cases
      case 1
      have "cleanup e = e" using mok_cleanup [OF eok(3)] eok(2) by (simp add: clean_def)
      then have "r = e" using r(1) 1 mok_tests(1) [OF mok] by (simp add: mterm_plus_def)
      then show ?thesis unfolding r(2) u using 1 e by (auto simp: nonzeros_def dest: uniq)
    next
      case 2
      have copy: "e\<lparr>fCoef := fCoef m, fFactors := fFactors m\<rparr> = m" "cleanup m = m" using mok_cleanup [OF mok] 2 by simp_all
      then have "r = m" using r(1) 2 mok_tests(1) [OF mok] mok_tests(1) [OF eok(3)] by (simp add: mterm_plus_def copy)
      then show ?thesis unfolding r(2) u using 2 e by (auto simp: nonzeros_def dest: uniq)
    qed
  qed
qed


text \<open>The products that are divided, and their quotients.\<close>

definition quotients :: "address \<Rightarrow> mterm \<Rightarrow> mterm set \<Rightarrow> mterm set" where
  "quotients ad d T = {q. \<exists>t \<in> T. hasDivisor t d \<and> mcoef t \<noteq> 0 \<and> mterm_over ad t d = Inr q}"

definition divisor :: "address \<Rightarrow> nat \<Rightarrow> mterm \<Rightarrow> mterm list \<Rightarrow> bool" where
  "divisor ad N d ts \<longleftrightarrow> inj ad \<and> addable ad N d \<and> mcoef d \<noteq> 0 \<and>
     (\<forall>t \<in> set ts. addable ad N t \<and> clean t \<and> (hasDivisor t d \<longrightarrow> exact_div t d))"

lemma divided:
  assumes "divisor ad N d ts" "t \<in> set ts" "hasDivisor t d"
  obtains q where "mterm_over ad t d = Inr q" "addable ad (N - size (mfac d)) q" "clean q" "mcoef q * mcoef d = mcoef t"
    "mcoef t \<noteq> 0 \<Longrightarrow> mfac q + mfac d = mfac t" "\<And>\<rho>. mval \<rho> q * mval \<rho> d = mval \<rho> t"
proof -
  have d: "inj ad" "mok ad t" "mok ad d" "mcoef d \<noteq> 0" "exact_div t d" "size (mfac t) \<le> N"
    using assms by (auto simp: divisor_def addable_def)
  obtain q where q: "mterm_over ad t d = Inr q" "mok ad q" "clean q" "mcoef q * mcoef d = mcoef t" "mcoef t \<noteq> 0 \<longrightarrow> mfac q + mfac d = mfac t"
    using mterm_over_exact [OF d(1-4) assms(3) d(5)] by blast
  have z: "mcoef t = 0 \<longleftrightarrow> mcoef q = 0" using q(4) d(4) by auto
  have "size (mfac q) \<le> N - size (mfac d)"
  proof (cases "mcoef t = 0")
    case True
    then show ?thesis using q(3) z by (simp add: clean_def)
  next
    case False
    then have "size (mfac q) + size (mfac d) = size (mfac t)" using q(5) by (metis size_union)
    then show ?thesis using d(6) by simp
  qed
  moreover have "mval \<rho> q * mval \<rho> d = mval \<rho> t" for \<rho>
  proof (cases "mcoef t = 0")
    case True
    then show ?thesis using z by (simp add: mval_def)
  next
    case False
    then have "mfac t = mfac q + mfac d" using q(5) by simp
    then show ?thesis by (simp add: mval_def q(4) [symmetric] ac_simps)
  qed
  ultimately show thesis using that q by (auto simp: addable_def)
qed

lemma split_terms_exact:
  "divisor ad N d ts \<Longrightarrow> aok ad True N A \<Longrightarrow> aok ad True (N - size (mfac d)) Q \<Longrightarrow>
   \<exists>A1 Q1. split_terms ad d ts A Q = Inr (A1, Q1) \<and> aok ad True N A1 \<and> aok ad True (N - size (mfac d)) Q1 \<and>
     aval \<rho> A1 + aval \<rho> Q1 * mval \<rho> d = aval \<rho> A + aval \<rho> Q * mval \<rho> d + (\<Sum>t \<leftarrow> ts. mval \<rho> t)"
proof (induction ts arbitrary: A Q)
  case (Cons t ts)
  have d: "divisor ad N d ts" "inj ad" "addable ad N t" "clean t" using Cons.prems(1) by (auto simp: divisor_def)
  show ?case
  proof (cases "hasDivisor t d")
    case True
    obtain q where q: "mterm_over ad t d = Inr q" "addable ad (N - size (mfac d)) q" "clean q" "mval \<rho> q * mval \<rho> d = mval \<rho> t"
      by (rule divided [OF Cons.prems(1) _ True]) auto
    obtain Q2 where Q2: "plus_mterm ad q Q = Inr Q2" "aok ad True (N - size (mfac d)) Q2" "aval \<rho> Q2 = aval \<rho> Q + mval \<rho> q"
      using plus_mterm_value [OF d(2) Cons.prems(3) q(2), of \<rho>] q(3) by (auto simp: extends_by_def)
    show ?thesis using Cons.IH [OF d(1) Cons.prems(2) Q2(2)] True q(1,4) Q2(1,3) by (auto simp: algebra_simps)
  next
    case False
    obtain A2 where A2: "plus_mterm ad t A = Inr A2" "aok ad True N A2" "aval \<rho> A2 = aval \<rho> A + mval \<rho> t"
      using plus_mterm_value [OF d(2) Cons.prems(2) d(3), of \<rho>] d(4) by (auto simp: extends_by_def)
    show ?thesis using Cons.IH [OF d(1) A2(2) Cons.prems(3)] False A2(1,3) by (auto simp: algebra_simps)
  qed
qed auto

abbreviation live_factors :: "mterm list \<Rightarrow> (tree \<times> int) list list" where
  "live_factors ts \<equiv> map fFactors (filter (\<lambda>t. mcoef t \<noteq> 0) ts)"

lemma quotients_step:
  assumes "divisor ad N d (us @ t # ts)" "hasDivisor t d" "distinct (live_factors (us @ t # ts))"
    and "mterm_over ad t d = Inr q" "e \<in> quotients ad d (set us)" "mcoef q \<noteq> 0"
  shows "fFactors e \<noteq> fFactors q"
proof
  assume eq: "fFactors e = fFactors q"
  obtain u where u: "u \<in> set us" "hasDivisor u d" "mcoef u \<noteq> 0" "mterm_over ad u d = Inr e"
    using assms(5) by (auto simp: quotients_def)
  have "mfac e + mfac d = mfac u" by (rule divided [OF assms(1) _ u(2)]) (use u in auto)
  moreover obtain q' where "mterm_over ad t d = Inr q'" "mcoef q' * mcoef d = mcoef t" "mcoef t \<noteq> 0 \<longrightarrow> mfac q' + mfac d = mfac t"
    by (rule divided [OF assms(1) _ assms(2)]) auto
  moreover from this have "mcoef t \<noteq> 0" using assms(1,4,6) by (auto simp: divisor_def)
  ultimately have "mfac u = mfac t" "mcoef t \<noteq> 0" using eq assms(4) by auto
  moreover have "mok ad u" "mok ad t" "inj ad" using assms(1) u(1) by (auto simp: divisor_def addable_def)
  ultimately have "fFactors u = fFactors t" by (intro fac_sum_inject [of ad]) (auto simp: mok_def)
  then show False using assms(3) u(1,3) \<open>mcoef t \<noteq> 0\<close> by (auto simp: image_iff)
qed

lemma split_quotients:
  "divisor ad N d (us @ ts) \<Longrightarrow> distinct (live_factors (us @ ts)) \<Longrightarrow> aok ad True (N - size (mfac d)) Q \<Longrightarrow>
   nonzeros Q = quotients ad d (set us) \<Longrightarrow> split_terms ad d ts A Q = Inr (A1, Q1) \<Longrightarrow> nonzeros Q1 = quotients ad d (set (us @ ts))"
proof (induction ts arbitrary: A Q us)
  case (Cons t ts)
  have app: "us @ t # ts = (us @ [t]) @ ts" by simp
  show ?case
  proof (cases "hasDivisor t d")
    case True
    obtain q where q: "mterm_over ad t d = Inr q" "addable ad (N - size (mfac d)) q" "clean q" "mcoef q * mcoef d = mcoef t"
      by (rule divided [OF Cons.prems(1) _ True]) auto
    have d: "inj ad" "mcoef d \<noteq> 0" using Cons.prems(1) by (auto simp: divisor_def)
    obtain Q2 where Q2: "plus_mterm ad q Q = Inr Q2" "aok ad True (N - size (mfac d)) Q2"
      using plus_mterm_value [OF d(1) Cons.prems(3) q(2)] q(3) by (auto simp: extends_by_def)
    have "nonzeros Q2 = nonzeros Q \<union> (if mcoef q = 0 then {} else {q})"
      using plus_mterm_fresh [OF d(1) Cons.prems(3) q(2,3) Q2(1)] quotients_step [OF Cons.prems(1) True Cons.prems(2) q(1)] Cons.prems(4)
      by blast
    then have "nonzeros Q2 = quotients ad d (set (us @ [t]))"
      using Cons.prems(4) True q(1,4) d(2) by (auto simp: quotients_def)
    with Cons.IH [of "us @ [t]" Q2 A] Cons.prems Q2 True q(1) show ?thesis by simp
  next
    case False
    then obtain A2 where "split_terms ad d ts A2 Q = Inr (A1, Q1)" using Cons.prems(5) by (auto simp: rbind_eq_Inr)
    moreover have "nonzeros Q = quotients ad d (set (us @ [t]))" using Cons.prems(4) False by (auto simp: quotients_def)
    ultimately show ?thesis using Cons.IH [of "us @ [t]" Q A2] Cons.prems by simp
  qed
qed simp


lemma aok_distinct:
  "inj ad \<Longrightarrow> aok ad z N A \<Longrightarrow> distinct (live_factors (map snd A))"
proof (induction A)
  case (Cons p A)
  obtain s m where p: "p = (s, m)" by (cases p)
  have ok: "aok ad z N A" "mok ad m" "mcoef m \<noteq> 0 \<longrightarrow> signatureTree m = Inr s" "\<forall>(k, _) \<in> set A. ad s < ad k"
    using Cons.prems(2) p by (auto simp: aok_def addable_def)
  have "fFactors m \<noteq> fFactors m'" if "mcoef m \<noteq> 0" "(k, m') \<in> set A" "mcoef m' \<noteq> 0" for k m'
    using signature_factors [OF Cons.prems(1) ok(2), of m'] ok that by (fastforce simp: aok_def addable_def)
  then have "fFactors m \<notin> set (live_factors (map snd A))" if "mcoef m \<noteq> 0" using that by fastforce
  then show ?case using Cons.IH [OF Cons.prems(1) ok(1)] p by simp
qed simp

lemma aval_products: "aval \<rho> A = (\<Sum>t \<leftarrow> map snd A. mval \<rho> t)"
  by (induction A) auto

lemma mok_numok: "mok ad m \<Longrightarrow> numok ad m"
  using num_int [OF mok_coef] by (auto simp: mok_def numok_def)

lemma gcd_good:
  assumes "inj ad" "addable ad N m1" "addable ad N m2" "mterm_gcd ad m1 m2 = Inr g"
  shows "addable ad N g" "mcoef g = (if mcoef m1 = mcoef m2 then mcoef m1 else 1)"
proof -
  have ok: "mok ad m1" "mok ad m2" using assms(2,3) by (auto simp: addable_def)
  note spec = mterm_gcd_spec [OF assms(1) mok_numok mok_numok assms(4), OF ok]
  have c: "fCoef m1 = fCoef m2 \<longleftrightarrow> mcoef m1 = mcoef m2" using ok by (metis mok_def sigInt_simps(1) option.inject)
  have cg: "fCoef g = sigInt (if mcoef m1 = mcoef m2 then mcoef m1 else 1)"
    using spec(1) ok nums_int(1) [OF sigInt_simps(1) [of 1] mok_coef [OF ok(1)]] nums_int(1) [OF sigInt_simps(1) [of 1] sigInt_simps(1) [of 1]] c
    by (auto simp: mok_def)
  then show m: "mcoef g = (if mcoef m1 = mcoef m2 then mcoef m1 else 1)" by (simp add: mcoef_def)
  have f: "0 < v \<and> atom x \<and> (\<exists>v1. map_of (fFactors m1) x = Some v1 \<and> v \<le> v1)" if mem: "(x, v) \<in> set (fFactors g)" for x v
  proof -
    obtain v1 v2 where v: "map_of (fFactors m1) x = Some v1" "map_of (fFactors m2) x = Some v2" "v = common v1 v2"
      using spec(3) [OF mem] by blast
    then have "0 < v1" "0 < v2" "atom x" using ok by (auto simp: mok_def dest!: map_of_SomeD)
    then show ?thesis using v by (auto simp: common_def)
  qed
  have "mfac g \<subseteq># mfac m1"
  proof (rule mset_subset_eqI)
    fix x show "count (mfac g) x \<le> count (mfac m1) x"
      using count_fac_sum [OF assms(1) spec(2), of x] count_fac_sum [of ad "fFactors m1" x] assms(1) ok(1) f [of x]
      by (auto simp: mok_def split: option.splits dest!: map_of_SomeD intro!: nat_mono)
  qed
  then have "size (mfac g) \<le> size (mfac m1)" by (rule size_mset_mono)
  then show "addable ad N g" using assms(2) spec(2) cg m f ok by (auto simp: addable_def mok_def)
qed

lemma gcd_nonzero:
  assumes "inj ad" "addable ad N m1" "addable ad N m2" "clean m1" "clean m2" "mterm_gcd ad m1 m2 = Inr g"
    and "isNotZero g" "complexity g = Inr k" "k > 0"
  shows "mcoef g \<noteq> 0" "mcoef m1 \<noteq> 0" "mcoef m2 \<noteq> 0"
proof -
  have ok: "mok ad m1" "mok ad m2" using assms(2,3) by (auto simp: addable_def)
  note g = gcd_good [OF assms(1-3,6)]
  have gok: "mok ad g" using g(1) by (simp add: addable_def)
  show nz: "mcoef g \<noteq> 0" using mok_tests(4) [OF gok] assms(7) by simp
  have "\<not> (mcoef g = 1 \<and> fFactors g = [])" using assms(8,9) mok_tests(2) [OF gok] by (auto simp: complexity_def)
  moreover have "fFactors g = []" if "fFactors m1 = [] \<or> fFactors m2 = []"
  proof (rule ccontr)
    assume "fFactors g \<noteq> []"
    then obtain x v where "(x, v) \<in> set (fFactors g)" by (metis list.set_intros(1) neq_Nil_conv surj_pair)
    then show False using mterm_gcd_spec(3) [OF assms(1) mok_numok mok_numok assms(6), OF ok] that by fastforce
  qed
  ultimately show "mcoef m1 \<noteq> 0" "mcoef m2 \<noteq> 0"
    using assms(4,5) g(2) nz by (auto simp: clean_def split: if_splits)
qed

lemma sig_order_is_binop:
  assumes "is_binop op t = Some (x, y)"
  shows "sig_order t = rbind (sig_order x) (\<lambda>i. rbind (sig_order y) (\<lambda>j. Inr (max i j)))"
proof -
  obtain c where "t = Tree (ssym SIGBINOP) [c, x, y]" "node c = NInt (opcode op)"
    using assms by (auto simp: is_binop_def isSigBinOp_def isTree3_Some isSigInt_Some split: option.splits if_splits)
  then have v: "sig_view t = SvBinOp (opcode op) x y" by (simp add: sig_view_def sig_view_sym_def isSigInt_def)
  show ?thesis
    by (cases "sigOrder x ()"; cases "sigOrder y ()")
      (auto simp: sig_order_def sigOrder.simps [of t] infereSigOrder_def v mbind_def)
qed

lemmas sig_order_mul = sig_order_is_binop [where op = kMul, folded isSigMul_def]

lemma nz_factors: "prodt t \<Longrightarrow> nz t \<Longrightarrow> tfac t \<noteq> {#}"
proof (induction rule: prodt_induct)
  case (num t i)
  then show ?case by (simp add: nz_def isSigInt_Some sig_order_def sigOrder.simps infereSigOrder_def sig_view_def)
next
  case (mul t x y)
  then have "nz x \<or> nz y" unfolding nz_def sig_order_mul [OF mul.hyps(2)] by (auto simp: rbind_eq_Inr le_max_iff_disj)
  then show ?case using mul by (auto simp: tfac.simps [of t])
next
  case (pow t x n)
  then show ?case using isSigPow_parts [OF pow.hyps(4)] by (simp add: tfac.simps [of t])
next
  case (atom t)
  then show ?case using atomD [OF atom.hyps] by (simp add: tfac.simps [of t])
qed

text \<open>The tree of the quotients can be a factor.\<close>

lemma factor_tree:
  assumes "sgood c N t" "nz t" "1 \<le> N" "in_int32 c" "c \<noteq> 0"
  shows "prodt t" "size (tfac t) \<le> N" "wrap32 (c * tcoef t) \<noteq> 0"
proof -
  have "prodt t \<and> size (tfac t) \<le> N \<and> wrap32 (c * tcoef t) \<noteq> 0"
  proof (cases "isSigAdd t \<noteq> None \<or> isSigSub t \<noteq> None")
    case True
    then obtain op p where b: "is_binop op t = Some p" "op = kAdd \<or> op = kSub" by (auto simp: isSigAdd_def isSigSub_def)
    have n: "node t = ssym SIGBINOP" by (rule is_binop_node [OF b(1)])
    have m: "isSigMul t = None" "isSigDiv t = None"
      using is_binop_unique [OF b(1)] b(2) by (auto simp: isSigMul_def isSigDiv_def opcode_def)
    have p: "isSigPow t = Inr None" "\<not> isNum t" using n by (auto simp: isSigPow_def getUserData_def isNum_def isNumNode_def isIntNode_def isDoubleNode_def)
    have "atom t" using m p assms(2) by (auto simp: atom_def nz_def)
    then show ?thesis using p m assms(3-5) atomD [OF \<open>atom t\<close>]
      by (simp add: prodt.simps [of t] tfac.simps [of t] tcoef.simps [of t])
  next
    case False
    then show ?thesis using assms(1,2) nz_factors [of t] by (auto simp: sgood_def)
  qed
  then show "prodt t" "size (tfac t) \<le> N" "wrap32 (c * tcoef t) \<noteq> 0" by auto
qed


lemma quotient_entries:
  assumes "divisor ad N d (map snd A)" "aok ad True (N - size (mfac d)) Q" "nonzeros Q = quotients ad d (set (map snd A))"
  shows "\<forall>(s, m) \<in> set Q. addable ad (N - size (mfac d)) m \<and> kept (mcoef d) m"
proof -
  have "kept (mcoef d) m" if "(s, m) \<in> set Q" for s m
  proof (cases "mcoef m = 0")
    case False
    then have "m \<in> nonzeros Q" using that by (auto simp: nonzeros_def)
    then obtain t where t: "t \<in> set (map snd A)" "hasDivisor t d" "mcoef t \<noteq> 0" "mterm_over ad t d = Inr m"
      unfolding assms(3) by (auto simp: quotients_def)
    have "mcoef m * mcoef d = mcoef t" by (rule divided [OF assms(1) t(1,2)]) (use t(4) in auto)
    moreover have "in_int32 (mcoef t)" using assms(1) t(1) unfolding divisor_def addable_def mok_def by blast
    ultimately show ?thesis using t(3) by (simp add: kept_def mult.commute)
  qed (simp add: kept_def)
  then show ?thesis using assms(2) by (auto simp: aok_def)
qed

lemma quotient_live:
  assumes "divisor ad N d ts" "m1 \<in> set ts" "m2 \<in> set ts" "hasDivisor m1 d" "hasDivisor m2 d" "mcoef m1 \<noteq> 0" "mcoef m2 \<noteq> 0"
    and "fFactors m1 \<noteq> fFactors m2"
  obtains q where "q \<in> quotients ad d (set ts)" "live q" "1 \<le> N - size (mfac d)"
proof -
  have ok: "inj ad" "mok ad m1" "mok ad m2" using assms(1-3) by (auto simp: divisor_def addable_def)
  then have "mfac m1 \<noteq> mfac m2" using fac_sum_inject [of ad "fFactors m1" "fFactors m2"] assms(8) by (auto simp: mok_def)
  then obtain t where t: "t \<in> set ts" "hasDivisor t d" "mcoef t \<noteq> 0" "mfac t \<noteq> mfac d" using assms(2-7) by metis
  obtain q where q: "mterm_over ad t d = Inr q" "addable ad (N - size (mfac d)) q" "mcoef q * mcoef d = mcoef t" "mfac q + mfac d = mfac t"
    by (rule divided [OF assms(1) t(1,2)]) (use t(3) in auto)
  have f: "mfac q \<noteq> {#}" using q(4) t(4) by auto
  then have "1 \<le> size (mfac q)" by (simp add: Suc_le_eq nonempty_has_size [symmetric])
  then have "1 \<le> N - size (mfac d)" using q(2) unfolding addable_def by linarith
  moreover have "live q" using f q(3) t(3) by (auto simp: live_def)
  moreover have "q \<in> quotients ad d (set ts)" using t q(1) by (auto simp: quotients_def)
  ultimately show thesis using that by blast
qed

lemma factorize_exact:
  assumes "divisor ad N d (map snd A)" "aok ad True N A" "N \<le> nat int_max"
    and two: "m1 \<in> set (map snd A)" "m2 \<in> set (map snd A)" "hasDivisor m1 d" "hasDivisor m2 d" "mcoef m1 \<noteq> 0" "mcoef m2 \<noteq> 0"
      "fFactors m1 \<noteq> fFactors m2"
  shows "\<exists>A1. factorize ad d A = Inr A1 \<and> aok ad True N A1 \<and> (\<forall>\<rho>. aval \<rho> A1 = aval \<rho> A)"
proof -
  let ?K = "N - size (mfac d)"
  have d: "inj ad" "mok ad d" "size (mfac d) \<le> N" "mcoef d \<noteq> 0" "in_int32 (mcoef d)"
    using assms(1) by (auto simp: divisor_def addable_def mok_def)
  have nil: "aok ad True n []" for n by (simp add: aok_def)
  obtain B Q where BQ: "split_terms ad d (map snd A) [] [] = Inr (B, Q)" "aok ad True N B" "aok ad True ?K Q"
    using split_terms_exact [OF assms(1) nil nil] by blast
  have v: "aval \<rho> B + aval \<rho> Q * mval \<rho> d = aval \<rho> A" for \<rho>
    using split_terms_exact [OF assms(1) nil nil, of \<rho>] BQ(1) by (auto simp: aval_products)
  have nq: "nonzeros Q = quotients ad d (set (map snd A))"
    using split_quotients [where us = "[]", OF _ _ nil _ BQ(1)] assms(1) aok_distinct [OF d(1) assms(2)]
    by (simp add: nonzeros_def quotients_def)
  obtain q where q: "q \<in> nonzeros Q" "live q" "1 \<le> ?K" unfolding nq by (rule quotient_live [OF assms(1) two])
  obtain qt where qt: "aterm_tree ad Q = Inr qt" "sgood (mcoef d) ?K qt" "\<forall>\<rho>. pval \<rho> qt = aval \<rho> Q" "nz qt"
    using aterm_tree_good [OF quotient_entries [OF assms(1) BQ(3) nq]] q(1,2) by (auto simp: nonzeros_def)
  note ft = factor_tree [OF qt(2,4) q(3) d(5,4)]
  obtain dt where dt: "normalizedTree d False False = Inr dt" "prodt dt" "tcoef dt = mcoef d" "tfac dt = mfac d"
    using normalizedTree_built [OF d(2), of False False] d(4) by (auto simp: built_def shown_coef_def)
  have "sumt True N (sigBinOp kMul dt qt)" using dt ft d(3)
    by (simp add: sumt.simps prodt.simps [of "sigBinOp _ _ _"] tfac.simps [of "sigBinOp _ _ _"] tcoef.simps [of "sigBinOp _ _ _"])
  then have "\<exists>A1. plus_tree ad (sigBinOp kMul dt qt) B = Inr A1 \<and> aok ad True N A1 \<and> aval \<rho> A1 = aval \<rho> A" for \<rho>
    using plus_minus_tree_value [OF d(1) assms(3), of True _ \<rho>] BQ(2) v [of \<rho>] qt(3) product_value [OF dt(2)] dt(3,4)
    by (fastforce simp: reads_def mval_def ac_simps)
  moreover have "factorize ad d A = plus_tree ad (sigBinOp kMul dt qt) B" by (simp add: factorize_def BQ(1) dt(1) qt(1))
  ultimately show ?thesis by (metis sum.inject(2))
qed

lemma complexity_returns: "mok ad m \<Longrightarrow> \<exists>k. complexity m = Inr k"
proof -
  have "\<exists>k. complexity_of fs c = Inr k" if "\<forall>(x, n) \<in> set fs. atom x \<and> 0 < n" for fs c
    using that by (induction fs arbitrary: c) (auto simp: atom_def split: sum.splits)
  then show "mok ad m \<Longrightarrow> \<exists>k. complexity m = Inr k" by (simp add: complexity_def mok_def)
qed

lemma best_divisor_returns:
  "inj ad \<Longrightarrow> \<forall>(m1, m2) \<in> set ps. addable ad N m1 \<and> addable ad N m2 \<Longrightarrow> \<exists>D. best_divisor ad ps c D0 = Inr D"
proof (induction ps arbitrary: c D0)
  case (Cons p ps)
  obtain m1 m2 where p: "p = (m1, m2)" by (cases p)
  have ok: "addable ad N m1" "addable ad N m2" using Cons.prems p by auto
  then have "isNum (if fCoef m1 = fCoef m2 then fCoef m1 else sigInt 1)" by (auto simp: addable_def dest: mok_numok [unfolded numok_def])
  then obtain g where g: "mterm_gcd ad m1 m2 = Inr g" by (simp add: mterm_gcd_def mterm_of_num)
  have "mok ad g" using gcd_good(1) [OF Cons.prems(1) ok g] by (simp add: addable_def)
  then obtain k where "complexity g = Inr k" using complexity_returns by blast
  then show ?case using Cons p g by simp
qed simp

lemma aok_products: "aok ad z N A \<Longrightarrow> m \<in> set (map snd A) \<Longrightarrow> addable ad N m"
  unfolding aok_def by fastforce

lemma aok_pairs:
  assumes "aok ad z N A" "(m1, m2) \<in> set (term_pairs (map snd A))"
  shows "addable ad N m1" "addable ad N m2"
  using aok_products [OF assms(1)] term_pairs_mem [OF assms(2)] by auto

lemma greatestDivisor_returns: "inj ad \<Longrightarrow> aok ad z N A \<Longrightarrow> \<exists>D. greatestDivisor ad A = Inr D"
  unfolding greatestDivisor_def by (rule best_divisor_returns [where N = N]) (auto dest: aok_pairs)


section \<open>The rounds\<close>

text \<open>
  In every round, the coefficient of the divisor divides the coefficients of the products it is
  factored out of.  (The code compares the factors only.)
\<close>

fun exact_rounds :: "nat \<Rightarrow> address \<Rightarrow> mterm \<Rightarrow> aterm \<Rightarrow> bool" where
  "exact_rounds 0 ad D A = True"
| "exact_rounds (Suc n) ad D A = (isNotZero D \<and> complexity D \<noteq> Inr 0 \<longrightarrow>
     (\<forall>t \<in> set (map snd A). hasDivisor t D \<longrightarrow> exact_div t D) \<and>
     (case rbind (factorize ad D A) (\<lambda>A1. rbind (greatestDivisor ad A1) (\<lambda>D1. Inr (A1, D1))) of
        Inl e \<Rightarrow> True | Inr (A1, D1) \<Rightarrow> exact_rounds n ad D1 A1))"

definition exact_normalization :: "address \<Rightarrow> tree \<Rightarrow> bool" where
  "exact_normalization ad t = (case rbind (aterm_of ad t) (\<lambda>A. rbind (greatestDivisor ad A) (\<lambda>D. Inr (A, D))) of
     Inl e \<Rightarrow> True | Inr (A, D) \<Rightarrow> exact_rounds (Suc (length A)) ad D A)"

lemma term_pairs_distinct:
  "(x, y) \<in> set (term_pairs xs) \<Longrightarrow> distinct (map f (filter P xs)) \<Longrightarrow> P x \<Longrightarrow> P y \<Longrightarrow> f x \<noteq> f y"
  by (induction xs) (auto split: if_splits)

lemma aok_anum: "aok ad z N A \<Longrightarrow> anum ad A"
  using mok_numok by (fastforce simp: aok_def anum_def addable_def)

lemma exact_round:
  assumes "inj ad" "N \<le> nat int_max" "aok ad True N A" "greatestDivisor ad A = Inr D" "isNotZero D" "complexity D = Inr k" "k > 0"
    and "\<forall>t \<in> set (map snd A). hasDivisor t D \<longrightarrow> exact_div t D"
  shows "\<exists>A1. factorize ad D A = Inr A1 \<and> aok ad True N A1 \<and> (\<forall>\<rho>. aval \<rho> A1 = aval \<rho> A) \<and> length A1 < length A"
proof -
  obtain m1 m2 where m: "(m1, m2) \<in> set (term_pairs (map snd A))" "mterm_gcd ad m1 m2 = Inr D"
    by (rule greatestDivisor_cases [OF assms(4,6,7)])
  note mem = term_pairs_mem [OF m(1)]
  have ok: "addable ad N t \<and> clean t" if "t \<in> set (map snd A)" for t using that assms(3) by (auto simp: aok_def)
  then have mok: "mok ad m1" "mok ad m2" using mem by (auto simp: addable_def)
  note nz = gcd_nonzero [OF assms(1) _ _ _ _ m(2) assms(5-7)]
  have nz: "mcoef D \<noteq> 0" "mcoef m1 \<noteq> 0" "mcoef m2 \<noteq> 0" using nz ok mem by blast+
  have "divisor ad N D (map snd A)"
    using assms(1,8) gcd_good(1) [OF assms(1) _ _ m(2)] ok mem nz(1) unfolding divisor_def by blast
  moreover have "fFactors m1 \<noteq> fFactors m2" using term_pairs_distinct [OF m(1) aok_distinct [OF assms(1,3)] nz(2,3)] .
  moreover note gcd_divides [OF assms(1) mok_numok mok_numok m(2), OF mok]
  ultimately obtain A1 where A1: "factorize ad D A = Inr A1" "aok ad True N A1" "\<forall>\<rho>. aval \<rho> A1 = aval \<rho> A"
    using factorize_exact [OF _ assms(3,2), of D m1 m2] mem nz by blast
  then show ?thesis using factor_round(2) [OF assms(1) aok_anum [OF assms(3)] assms(4,6,7) A1(1)] by blast
qed

lemma greatestDivisor_mok:
  assumes "inj ad" "aok ad z N A" "greatestDivisor ad A = Inr D"
  shows "mok ad D"
proof -
  consider "D = mterm_int 1" | m1 m2 where "(m1, m2) \<in> set (term_pairs (map snd A))" "mterm_gcd ad m1 m2 = Inr D"
    using best_divisor_cases [OF assms(3) [unfolded greatestDivisor_def]] by auto
  then show ?thesis
  proof cases
    case 2
    then have "addable ad N m1" "addable ad N m2" by (auto dest: aok_pairs [OF assms(2)])
    then show ?thesis using gcd_good(1) [OF assms(1) _ _ 2(2)] by (auto simp: addable_def)
  qed (simp add: mok_def mterm_int_def mterm_num_def mcoef_def)
qed

lemma factor_loop_exact:
  assumes "inj ad" "N \<le> nat int_max"
  shows "aok ad True N A \<Longrightarrow> greatestDivisor ad A = Inr D \<Longrightarrow> exact_rounds n ad D A \<Longrightarrow> length A < n \<Longrightarrow>
    \<exists>A1. factor_loop n ad D A = Some (Inr A1) \<and> aok ad True N A1 \<and> (\<forall>\<rho>. aval \<rho> A1 = aval \<rho> A)"
proof (induction n arbitrary: A D)
  case (Suc n)
  show ?case
  proof (cases "\<exists>k. isNotZero D \<and> complexity D = Inr k \<and> k > 0")
    case True
    then obtain k where k: "isNotZero D" "complexity D = Inr k" "k > 0" by blast
    have e: "\<forall>t \<in> set (map snd A). hasDivisor t D \<longrightarrow> exact_div t D" using Suc.prems(3) k by simp
    obtain A1 where A1: "factorize ad D A = Inr A1" "aok ad True N A1" "\<forall>\<rho>. aval \<rho> A1 = aval \<rho> A" "length A1 < length A"
      using exact_round [OF assms Suc.prems(1,2) k e] by blast
    obtain D1 where D1: "greatestDivisor ad A1 = Inr D1" using greatestDivisor_returns [OF assms(1) A1(2)] by blast
    have "exact_rounds n ad D1 A1" using Suc.prems(3) k A1(1) D1 by simp
    from Suc.IH [OF A1(2) D1 this] show ?thesis using k A1 D1 Suc.prems(4) by simp
  next
    case False
    obtain k where "complexity D = Inr k" using complexity_returns [OF greatestDivisor_mok [OF assms(1) Suc.prems(1,2)]] by blast
    with False have "factor_loop (Suc n) ad D A = Some (Inr A)" by auto
    with Suc.prems(1) show ?thesis by blast
  qed
qed simp

section \<open>Two sums\<close>

abbreviation in_W :: "int \<Rightarrow> tree" where
  "in_W i \<equiv> sigInput i"

abbreviation mul_W :: "tree \<Rightarrow> tree \<Rightarrow> tree" where
  "mul_W \<equiv> sigBinOp kMul"

abbreviation add_W :: "tree \<Rightarrow> tree \<Rightarrow> tree" where
  "add_W \<equiv> sigBinOp kAdd"

lemma input_simps:
  "sigInput i = sigInput j \<longleftrightarrow> i = j" "sigInput i \<noteq> sigBinOp op a b" "sigInput i \<noteq> sigInt k" "sigInput i \<noteq> sigReal r"
  "isNum (sigInput i) \<longleftrightarrow> False" "isZero (sigInput i) \<longleftrightarrow> False"
  by (simp_all add: sigInput_def sigBinOp_def sigInt_def sigReal_def leaf_def isNum_def isNumNode_def isIntNode_def isDoubleNode_def isZero_def)

lemma input_product:
  "isSigMul (sigInput i) = None" "isSigDiv (sigInput i) = None" "isSigPow (sigInput i) = Inr None" "sig_order (sigInput i) = Inr 3"
  using sigInput_atom(1) [of i] by (auto simp: atom_def sig_order_def sigOrder.simps infereSigOrder_def)

lemma tree_eqs:
  "sigBinOp op a b = sigBinOp op' c d \<longleftrightarrow> opcode op = opcode op' \<and> a = c \<and> b = d" "sigInt j \<noteq> sigBinOp op a b" "sigInt j = sigInt k \<longleftrightarrow> j = k"
  "sigReal r \<noteq> sigBinOp op a b" "isZero (sigBinOp op a b) \<longleftrightarrow> False"
  by (simp_all add: sigBinOp_def sigInt_def sigReal_def leaf_def isZero_def)

lemma real_simps:
  "isNum (sigReal r)" "sig_order (sigReal r) = Inr 0" "isZero (sigReal (DFin q)) \<longleftrightarrow> q = 0" "isOne (sigReal (DFin q)) \<longleftrightarrow> q = 1"
  "isGEZero (sigReal (DFin q)) \<longleftrightarrow> 0 \<le> q"
  by (auto simp: isNum_def sigReal_def leaf_def isNumNode_def isDoubleNode_def sig_order_def sigOrder.simps infereSigOrder_def
      sig_view_def isZero_def isOne_def isGEZero_def deq_def dle_def)

lemma int_products: "mulNums (sigInt i) (sigInt j) = sigInt (wrap32 (i * j))"
  by (rule nums_int; simp)

lemmas tree_evaluation = input_simps input_simps(2-4) [symmetric] input_product tree_eqs tree_eqs(2,4) [symmetric] real_simps int_products
  sig_order_binop opcode_def

lemmas product_evaluation = mterm_of_def mul_tree.simps mterm_int_def mterm_num_def add_factor_def signatureTree_def normalizedTree_def
  combineMulDiv_def buildPowTerm_def combineMulLeft_def coef_part_def combine_order_def cleanup_def

lemmas sum_evaluation = plus_tree.simps plus_mterm_def mterm_gcd_def gcd_factors_def common_def complexity_def hasDivisor_def contains_def tdiv_def
  mterm_over_def isNegative_def isNotZero_def add_at_def simplifyingAdd_def aterm_tree_def

lemma round64_three_halves: "round64 (3 / 2) = DFin (3 / 2)"
proof -
  have "floor_log2 (3 / 2) = 0" by code_simp
  then have u: "ulp_exp (3 / 2) = - 52" by (simp add: ulp_exp_def)
  have "3 / 2 / 2 powi - 52 = (of_int 6755399441055744 :: rat)" by (simp add: power_int_def power_divide)
  then have "round_half_even (3 / 2 / 2 powi - 52) = 6755399441055744" by (metis round_half_even_int)
  then have r: "round_mag (3 / 2) = 3 / 2" by (simp add: round_mag_def u power_int_def power_divide)
  have "\<not> (2::rat) powi 1024 \<le> 3 / 2" by (simp add: power_int_def)
  then show ?thesis by (simp add: round64_def r)
qed

lemma half_quotients:
  "divExtendedNums (sigInt 2) (sigInt 2) = Inr (sigInt 1)" "divExtendedNums (sigInt 3) (sigInt 2) = Inr (sigReal (DFin (3 / 2)))"
  "mulNums (sigInt 1) (sigReal (DFin (3 / 2))) = sigReal (DFin (3 / 2))"
  by (simp_all add: divExtendedNums_def mulNums_def sigInt_def sigReal_def leaf_def divExtendedNode_int mulNode_def isDoubleNode_def
      int32_defs round64_three_halves double_of_int_exact dmul_def)

lemma unit_quotient: "divExtendedNums (sigInt 1) (sigInt 1) = Inr (sigInt 1)"
  by (simp add: divExtendedNums_def sigInt_def leaf_def divExtendedNode_int int32_defs)

text \<open>
  The test for a divisor compares the factors and not the coefficients: the normal form of the
  integer sum \<open>2 * x + (2 * y + 3 * z)\<close> is \<open>2 * ((x + y) + 1.5 * z)\<close>, which is not an integer signal.
\<close>

abbreviation quotient_W :: tree where
  "quotient_W \<equiv> add_W (add_W (in_W 1) (in_W 2)) (mul_W (sigReal (DFin (3 / 2))) (in_W 3))"

abbreviation ad_W :: address where
  "ad_W \<equiv> addr_after [sigInt 1, in_W 1, in_W 2, in_W 3, add_W (in_W 1) (in_W 2), mul_W (sigReal (DFin (3 / 2))) (in_W 3), quotient_W]"

abbreviation collected_W :: aterm where
  "collected_W \<equiv> [(in_W 1, \<lparr>fCoef = sigInt 2, fFactors = [(in_W 1, 1)]\<rparr>), (in_W 2, \<lparr>fCoef = sigInt 2, fFactors = [(in_W 2, 1)]\<rparr>),
    (in_W 3, \<lparr>fCoef = sigInt 3, fFactors = [(in_W 3, 1)]\<rparr>)]"

lemma collected_divisor: "greatestDivisor ad_W collected_W = Inr \<lparr>fCoef = sigInt 2, fFactors = []\<rparr>"
  by (simp add: greatestDivisor_def tree_evaluation product_evaluation sum_evaluation int32_defs)

lemma collected_factors:
  "factorize ad_W \<lparr>fCoef = sigInt 2, fFactors = []\<rparr> collected_W = Inr [(quotient_W, \<lparr>fCoef = sigInt 2, fFactors = [(quotient_W, 1)]\<rparr>)]"
  by (simp add: factorize_def half_quotients numeral_eq_Suc tree_evaluation product_evaluation sum_evaluation int32_defs)

lemma factoring_leaves_integers:
  "normalizeAddTerm ad_W (add_W (mul_W (sigInt 2) (in_W 1)) (add_W (mul_W (sigInt 2) (in_W 2)) (mul_W (sigInt 3) (in_W 3)))) =
     Inr (mul_W (sigInt 2) quotient_W)"
proof -
  have A: "aterm_of ad_W (add_W (mul_W (sigInt 2) (in_W 1)) (add_W (mul_W (sigInt 2) (in_W 2)) (mul_W (sigInt 3) (in_W 3)))) = Inr collected_W"
    by (simp add: aterm_of_def tree_evaluation product_evaluation sum_evaluation int32_defs)
  have "greatestDivisor ad_W [(quotient_W, \<lparr>fCoef = sigInt 2, fFactors = [(quotient_W, 1)]\<rparr>)] = Inr (mterm_int 1)"
    by (simp add: greatestDivisor_def)
  moreover have "aterm_tree ad_W [(quotient_W, \<lparr>fCoef = sigInt 2, fFactors = [(quotient_W, 1)]\<rparr>)] = Inr (mul_W (sigInt 2) quotient_W)"
    by (simp add: numeral_eq_Suc tree_evaluation product_evaluation sum_evaluation int32_defs)
  ultimately show ?thesis
    by (simp add: normalizeAddTerm_def A collected_divisor collected_factors isNotZero_def complexity_def mterm_int_def mterm_num_def)
qed

section \<open>Properties\<close>

text \<open>
  Property C35 (the factorisation loop terminates).  Whatever the signal, once its sum is collected
  the loop of \<^verbatim>\<open>normalizeAddTerm\<close> that factors out the greatest divisor ends, with a result or with an
  error, in at most as many rounds as there are products, plus the last test; so the bound the
  model gives the loop is never reached.
\<close>

theorem normalizeAddTerm_terminates:
  assumes "inj ad" "aterm_of ad t = Inr A" "greatestDivisor ad A = Inr D"
  shows "\<exists>r. \<forall>n > length A. factor_loop n ad D A = Some r"
proof -
  have "anum ad []" by (simp add: anum_def)
  then have "anum ad A" using tree_anum [OF assms(1)] assms(2) unfolding aterm_of_def by blast
  then show ?thesis using factor_loop_returns [OF assms(1)] assms(3) by blast
qed

theorem normalizeAddTerm_terminates_witness:
  "\<exists>r. \<forall>n > length collected_W. factor_loop n ad_W \<lparr>fCoef = sigInt 2, fFactors = []\<rparr> collected_W = Some r"
proof -
  have "aterm_of ad_W (add_W (mul_W (sigInt 2) (in_W 1)) (add_W (mul_W (sigInt 2) (in_W 2)) (mul_W (sigInt 3) (in_W 3)))) = Inr collected_W"
    by (simp add: aterm_of_def tree_evaluation product_evaluation sum_evaluation int32_defs)
  from normalizeAddTerm_terminates [OF addr_after_inj this collected_divisor] show ?thesis .
qed

text \<open>
  Property C36 (add-normal form).  For a sum of integer products whose zero products are the number
  zero, and as long as each coefficient that is factored out divides the coefficients it is taken
  from, \<^verbatim>\<open>normalizeAddTerm\<close> returns, without a failed assertion, a tree that has the value of the
  sum in the 32-bit integers.
\<close>

theorem normalizeAddTerm_preserves_value:
  assumes "inj ad" "N \<le> nat int_max" "sumt True N t" "exact_normalization ad t"
  shows "\<exists>t1. normalizeAddTerm ad t = Inr t1 \<and> (\<forall>\<rho>. pval \<rho> t1 = pval \<rho> t)"
proof -
  obtain A where A: "aterm_of ad t = Inr A" "aok ad True N A" "\<forall>\<rho>. aval \<rho> A = pval \<rho> t"
    using aterm_of_good [OF assms(1-3)] by blast
  obtain D where D: "greatestDivisor ad A = Inr D" using greatestDivisor_returns [OF assms(1) A(2)] by blast
  have "exact_rounds (Suc (length A)) ad D A" using assms(4) A(1) D by (simp add: exact_normalization_def)
  from factor_loop_exact [OF assms(1,2) A(2) D this lessI] obtain B where
    B: "factor_loop (Suc (length A)) ad D A = Some (Inr B)" "aok ad True N B" "\<forall>\<rho>. aval \<rho> B = aval \<rho> A" by blast
  have "\<forall>(s, m) \<in> set B. addable ad N m \<and> kept 1 m" using B(2) kept_one by (fastforce simp: aok_def addable_def)
  from aterm_tree_good [OF this] show ?thesis using A D B by (auto simp: normalizeAddTerm_def)
qed


abbreviation sum_W :: tree where
  "sum_W \<equiv> add_W (mul_W (in_W 1) (in_W 2)) (mul_W (in_W 1) (in_W 3))"

theorem normalizeAddTerm_preserves_value_witness:
  "\<exists>t1. normalizeAddTerm (addr_after [in_W 1, in_W 2, in_W 3, mul_W (in_W 1) (in_W 2), mul_W (in_W 1) (in_W 3), add_W (in_W 2) (in_W 3)]) sum_W = Inr t1 \<and>
     (\<forall>\<rho>. pval \<rho> t1 = pval \<rho> sum_W)"
proof (rule normalizeAddTerm_preserves_value [where N = 2])
  let ?ad = "addr_after [in_W 1, in_W 2, in_W 3, mul_W (in_W 1) (in_W 2), mul_W (in_W 1) (in_W 3), add_W (in_W 2) (in_W 3)]"
  let ?A = "[(mul_W (in_W 1) (in_W 2), \<lparr>fCoef = sigInt 1, fFactors = [(in_W 1, 1), (in_W 2, 1)]\<rparr>),
    (mul_W (in_W 1) (in_W 3), \<lparr>fCoef = sigInt 1, fFactors = [(in_W 1, 1), (in_W 3, 1)]\<rparr>)]"
  have A: "aterm_of ?ad sum_W = Inr ?A" by (simp add: aterm_of_def tree_evaluation product_evaluation sum_evaluation)
  have D: "greatestDivisor ?ad ?A = Inr \<lparr>fCoef = sigInt 1, fFactors = [(in_W 1, 1)]\<rparr>"
    by (simp add: greatestDivisor_def tree_evaluation product_evaluation sum_evaluation int32_defs)
  let ?A1 = "[(mul_W (in_W 1) (add_W (in_W 2) (in_W 3)), \<lparr>fCoef = sigInt 1, fFactors = [(in_W 1, 1), (add_W (in_W 2) (in_W 3), 1)]\<rparr>)]"
  have A1: "factorize ?ad \<lparr>fCoef = sigInt 1, fFactors = [(in_W 1, 1)]\<rparr> ?A = Inr ?A1"
    by (simp add: factorize_def unit_quotient numeral_eq_Suc tree_evaluation product_evaluation sum_evaluation int32_defs)
  have "greatestDivisor ?ad ?A1 = Inr (mterm_int 1)" by (simp add: greatestDivisor_def)
  then show "exact_normalization ?ad sum_W"
    by (simp add: exact_normalization_def A D A1 exact_div_def mcoef_def mterm_int_def mterm_num_def complexity_def)
qed (simp_all add: addr_after_inj int32_defs sumt.simps prodt.simps [of "sigBinOp _ _ _"] tfac.simps [of "sigBinOp _ _ _"] tcoef.simps [of "sigBinOp _ _ _"])

end
