(* ===== verification/Symbols.thy ===== *)
theory Symbols
  imports Prelude "HOL-Library.Word"
begin

text \<open>
  The table of symbols (\<^verbatim>\<open>tlib/symbol.cpp\<close>): interning of names and generation of new ones.

  A table maps addresses to symbols and buckets to chains of symbols, linked from the newest to
  the oldest; \<open>nextSym\<close> is the next address the allocator gives out.  Symbols are never freed while
  the compiler runs.  A C string is a list of characters read up to the first NUL; \<^verbatim>\<open>char\<close> is signed.
  The counters of the generated names are indexed by the address of the prefix, as
  \<^verbatim>\<open>map<const char*, unsigned int>\<close> is: the address is an argument of \<open>prefix\<close> beside the text.
  The walk along a chain takes a fuel argument, and \<open>nextSym + 1\<close> is enough.
\<close>

unbundle bit_operations_syntax

record symcell =
  sy_name :: string
  sy_hash :: "32 word"
  sy_next :: "nat option"
  sy_data :: "nat option"

record symtab =
  gSymbolTable :: "nat \<Rightarrow> nat option"
  sym_cells :: "nat \<rightharpoonup> symcell"
  nextSym :: nat
  gPrefixCounters :: "nat \<rightharpoonup> 32 word"

section \<open>Operations\<close>

definition kSymTableSize :: nat where
  "kSymTableSize = 511"

definition c_str :: "string \<Rightarrow> string" where
  "c_str s = takeWhile (\<lambda>c. c \<noteq> CHR 0x00) s"

definition schar :: "char \<Rightarrow> int" where
  "schar c = (let k = of_char c in if k < 128 then k else k - 256)"

definition symbol_text :: "string \<Rightarrow> string" where
  "symbol_text raw = map (\<lambda>c. if 0 \<le> schar c \<and> schar c < 32 then CHR 0x20 else c) (take 1023 (c_str raw))"

definition calcHashKey :: "string \<Rightarrow> 32 word" where
  "calcHashKey str = fold (\<lambda>c h. push_bit 1 h XOR drop_bit 20 h XOR word_of_int (schar c)) (c_str str) 0"

definition equivSymbol :: "symcell \<Rightarrow> 32 word \<Rightarrow> string \<Rightarrow> bool" where
  "equivSymbol c hash str \<longleftrightarrow> sy_hash c = hash \<and> sy_name c = c_str str"

definition sym_bucket :: "32 word \<Rightarrow> nat" where
  "sym_bucket hsh = unat hsh mod kSymTableSize"

fun find_symbol :: "nat \<Rightarrow> symtab \<Rightarrow> 32 word \<Rightarrow> string \<Rightarrow> nat option \<Rightarrow> nat option result" where
  "find_symbol 0 tab hsh str item = Inl (Undefined ''symbol table'')"
| "find_symbol (Suc fuel) tab hsh str None = Inr None"
| "find_symbol (Suc fuel) tab hsh str (Some a) = (case sym_cells tab a of
      None \<Rightarrow> Inl (Undefined ''symbol table'')
    | Some c \<Rightarrow> if equivSymbol c hsh str then Inr (Some a) else find_symbol fuel tab hsh str (sy_next c))"

definition newSymbol :: "string \<Rightarrow> 32 word \<Rightarrow> symtab \<Rightarrow> nat \<times> symtab" where
  "newSymbol str hsh tab = (let a = nextSym tab; j = sym_bucket hsh;
      c = \<lparr>sy_name = str, sy_hash = hsh, sy_next = gSymbolTable tab j, sy_data = None\<rparr>
    in (a, tab\<lparr>sym_cells := (sym_cells tab)(a \<mapsto> c), gSymbolTable := (gSymbolTable tab)(j := Some a),
               nextSym := Suc a\<rparr>))"

definition getSymbol :: "string \<Rightarrow> symtab \<Rightarrow> (nat \<times> symtab) result" where
  "getSymbol rawstr tab = (let str = symbol_text rawstr; hsh = calcHashKey str in
     rbind (find_symbol (Suc (nextSym tab)) tab hsh str (gSymbolTable tab (sym_bucket hsh))) (\<lambda>item. case item of
       Some a \<Rightarrow> Inr (a, tab)
     | None \<Rightarrow> Inr (newSymbol str hsh tab)))"

definition isnew :: "string \<Rightarrow> symtab \<Rightarrow> bool result" where
  "isnew str tab = (let hsh = calcHashKey str in
     rbind (find_symbol (Suc (nextSym tab)) tab hsh str (gSymbolTable tab (sym_bucket hsh))) (\<lambda>item. Inr (item = None)))"

fun show_nat :: "nat \<Rightarrow> string" where
  "show_nat n = (if n < 10 then [char_of (48 + n)] else show_nat (n div 10) @ [char_of (48 + n mod 10)])"

declare show_nat.simps [simp del]

definition show_int :: "int \<Rightarrow> string" where
  "show_int i = (if i < 0 then CHR ''-'' # show_nat (nat (- i)) else show_nat (nat i))"

definition prefix_name :: "string \<Rightarrow> 32 word \<Rightarrow> string" where
  "prefix_name str n = take 255 (c_str str @ show_int (sint n))"

definition counter :: "nat \<Rightarrow> symtab \<Rightarrow> 32 word" where
  "counter p tab = (case gPrefixCounters tab p of Some n \<Rightarrow> n | None \<Rightarrow> 0)"

fun prefix_loop :: "nat \<Rightarrow> nat \<Rightarrow> string \<Rightarrow> symtab \<Rightarrow> (nat \<times> symtab) result" where
  "prefix_loop 0 p str tab = Inl (AssertFailed ''unique overflow'')"
| "prefix_loop (Suc n) p str tab = (let name = prefix_name str (counter p tab);
      tab1 = tab\<lparr>gPrefixCounters := (gPrefixCounters tab)(p \<mapsto> counter p tab + 1)\<rparr> in
     rbind (isnew name tab1) (\<lambda>new. if new then getSymbol name tab1 else prefix_loop n p str tab1))"

definition prefix :: "nat \<Rightarrow> string \<Rightarrow> symtab \<Rightarrow> (nat \<times> symtab) result" where
  "prefix p str tab = prefix_loop 10000 p str tab"

definition sym_name :: "symtab \<Rightarrow> nat \<Rightarrow> string option" where
  "sym_name tab a = map_option sy_name (sym_cells tab a)"

definition getSymData :: "symtab \<Rightarrow> nat \<Rightarrow> nat option" where
  "getSymData tab a = Option.bind (sym_cells tab a) sy_data"

definition setSymData :: "symtab \<Rightarrow> nat \<Rightarrow> nat option \<Rightarrow> symtab" where
  "setSymData tab a d = (case sym_cells tab a of None \<Rightarrow> tab
     | Some c \<Rightarrow> tab\<lparr>sym_cells := (sym_cells tab)(a \<mapsto> c\<lparr>sy_data := d\<rparr>)\<rparr>)"

definition symInit :: symtab where
  "symInit = \<lparr>gSymbolTable = (\<lambda>_. None), sym_cells = (\<lambda>_. None), nextSym = 0, gPrefixCounters = (\<lambda>_. None)\<rparr>"

section \<open>Texts\<close>

lemma c_str_no_nul: "CHR 0x00 \<notin> set (c_str s)"
  by (auto simp: c_str_def dest: set_takeWhileD)

lemma c_str_id [simp]: "CHR 0x00 \<notin> set s \<Longrightarrow> c_str s = s"
  by (auto simp: c_str_def takeWhile_eq_all_conv)

lemma schar_nul [simp]: "schar CHR 0x00 = 0" "schar CHR 0x20 = 32"
  by (simp_all add: schar_def)

lemma symbol_text_no_nul [simp]: "CHR 0x00 \<notin> set (symbol_text s)"
  by (auto simp: symbol_text_def)

lemma c_str_symbol_text [simp]: "c_str (symbol_text s) = symbol_text s"
  by simp

lemma symbol_text_idem [simp]: "symbol_text (symbol_text s) = symbol_text s"
proof -
  have "c_str (symbol_text s) = symbol_text s" by simp
  then have "symbol_text (symbol_text s) = map (\<lambda>c. if 0 \<le> schar c \<and> schar c < 32 then CHR 0x20 else c)
      (take 1023 (symbol_text s))"
    by (simp add: symbol_text_def [of "symbol_text s"])
  also have "take 1023 (symbol_text s) = symbol_text s" by (simp add: symbol_text_def)
  also have "map (\<lambda>c. if 0 \<le> schar c \<and> schar c < 32 then CHR 0x20 else c) (symbol_text s) = symbol_text s"
    by (rule map_idI) (auto simp: symbol_text_def)
  finally show ?thesis .
qed

definition printable :: "string \<Rightarrow> bool" where
  "printable s \<longleftrightarrow> (\<forall>c \<in> set s. \<not> (0 \<le> schar c \<and> schar c < 32))"

lemma printable_no_nul: "printable s \<Longrightarrow> CHR 0x00 \<notin> set s"
  by (auto simp: printable_def dest: bspec [of _ _ "CHR 0x00"])

lemma symbol_text_printable: "printable s \<Longrightarrow> length s \<le> 1023 \<Longrightarrow> symbol_text s = s"
  using printable_no_nul [of s] by (simp add: symbol_text_def) (rule map_idI, auto simp: printable_def)

section \<open>The invariant\<close>

inductive sreach :: "symtab \<Rightarrow> nat option \<Rightarrow> nat \<Rightarrow> bool" for tab where
  here: "sym_cells tab a = Some c \<Longrightarrow> sreach tab (Some a) a"
| further: "sym_cells tab a = Some c \<Longrightarrow> sreach tab (sy_next c) b \<Longrightarrow> sreach tab (Some a) b"

inductive_cases sreach_NoneE: "sreach tab None a"
inductive_cases sreach_SomeE: "sreach tab (Some a) b"

definition symcell_ok :: "symtab \<Rightarrow> nat \<Rightarrow> symcell \<Rightarrow> bool" where
  "symcell_ok tab a c \<longleftrightarrow> symbol_text (sy_name c) = sy_name c \<and> sy_hash c = calcHashKey (sy_name c) \<and>
     (\<forall>b. sy_next c = Some b \<longrightarrow> b < a) \<and> sreach tab (gSymbolTable tab (sym_bucket (sy_hash c))) a"

definition sym_inv :: "symtab \<Rightarrow> bool" where
  "sym_inv tab \<longleftrightarrow> (\<forall>a. sym_cells tab a \<noteq> None \<longleftrightarrow> a < nextSym tab) \<and>
     (\<forall>j b. gSymbolTable tab j = Some b \<longrightarrow> b < nextSym tab) \<and>
     (\<forall>a c. sym_cells tab a = Some c \<longrightarrow> symcell_ok tab a c) \<and>
     (\<forall>a b. a < nextSym tab \<and> b < nextSym tab \<and> sym_name tab a = sym_name tab b \<longrightarrow> a = b)"

definition known :: "symtab \<Rightarrow> string set" where
  "known tab = {n. \<exists>a. sym_name tab a = Some n}"

lemma sym_inv_alloc: "sym_inv tab \<Longrightarrow> a < nextSym tab \<longleftrightarrow> (\<exists>c. sym_cells tab a = Some c)"
  by (auto simp: sym_inv_def)

lemma sym_inv_cell: "sym_inv tab \<Longrightarrow> sym_cells tab a = Some c \<Longrightarrow> symcell_ok tab a c"
  by (simp add: sym_inv_def)

lemma find_symbol_spec:
  assumes inv: "sym_inv tab"
  shows "(\<And>a. item = Some a \<Longrightarrow> a < nextSym tab \<and> a < fuel) \<Longrightarrow>
    \<exists>r. find_symbol (Suc fuel) tab hsh str item = Inr r \<and> (case r of
        Some a \<Rightarrow> \<exists>c. sym_cells tab a = Some c \<and> equivSymbol c hsh str
      | None \<Rightarrow> \<forall>a c. sreach tab item a \<and> sym_cells tab a = Some c \<longrightarrow> \<not> equivSymbol c hsh str)"
proof (induction fuel arbitrary: item)
  case 0
  then have "item = None" by (cases item) auto
  then show ?case by (auto elim: sreach_NoneE)
next
  case (Suc fuel)
  show ?case
  proof (cases item)
    case None
    then show ?thesis by (auto elim: sreach_NoneE)
  next
    case (Some a)
    with Suc.prems inv obtain c where c: "sym_cells tab a = Some c" by (auto simp: sym_inv_alloc)
    show ?thesis
    proof (cases "equivSymbol c hsh str")
      case True
      with Some c show ?thesis by auto
    next
      case False
      have "b < nextSym tab \<and> b < fuel" if "sy_next c = Some b" for b
        using that sym_inv_cell [OF inv c] Suc.prems Some by (auto simp: symcell_ok_def)
      from Suc.IH [OF this] obtain r where r: "find_symbol (Suc fuel) tab hsh str (sy_next c) = Inr r"
        "case r of Some a \<Rightarrow> \<exists>c. sym_cells tab a = Some c \<and> equivSymbol c hsh str
         | None \<Rightarrow> \<forall>a c'. sreach tab (sy_next c) a \<and> sym_cells tab a = Some c' \<longrightarrow> \<not> equivSymbol c' hsh str"
        by blast
      with Some c False show ?thesis by (cases r) (auto elim!: sreach_SomeE)
    qed
  qed
qed

text \<open>Looking a text up in its own bucket decides whether it is the name of a symbol.\<close>

lemma lookup_spec:
  assumes inv: "sym_inv tab"
  shows "\<exists>r. find_symbol (Suc (nextSym tab)) tab (calcHashKey str) str (gSymbolTable tab (sym_bucket (calcHashKey str))) = Inr r \<and>
    (case r of Some a \<Rightarrow> sym_name tab a = Some (c_str str) | None \<Rightarrow> c_str str \<notin> known tab)"
proof -
  let ?h = "calcHashKey str"
  have h: "calcHashKey (c_str str) = ?h" by (simp add: calcHashKey_def c_str_no_nul)
  have "\<And>a. gSymbolTable tab (sym_bucket ?h) = Some a \<Longrightarrow> a < nextSym tab \<and> a < nextSym tab"
    using inv by (auto simp: sym_inv_def)
  from find_symbol_spec [OF inv this] obtain r where
    r: "find_symbol (Suc (nextSym tab)) tab ?h str (gSymbolTable tab (sym_bucket ?h)) = Inr r" and
    s: "case r of Some a \<Rightarrow> \<exists>c. sym_cells tab a = Some c \<and> equivSymbol c ?h str
      | None \<Rightarrow> \<forall>a c. sreach tab (gSymbolTable tab (sym_bucket ?h)) a \<and> sym_cells tab a = Some c \<longrightarrow> \<not> equivSymbol c ?h str"
    by blast
  have "c_str str \<notin> known tab" if "r = None"
  proof
    assume "c_str str \<in> known tab"
    then obtain a c where c: "sym_cells tab a = Some c" "sy_name c = c_str str"
      by (auto simp: known_def sym_name_def)
    from sym_inv_cell [OF inv c(1)] have "sreach tab (gSymbolTable tab (sym_bucket ?h)) a" "sy_hash c = ?h"
      using c(2) h by (auto simp: symcell_ok_def)
    then show False using s that c by (auto simp: equivSymbol_def)
  qed
  with r s show ?thesis by (cases r) (auto simp: equivSymbol_def sym_name_def)
qed

lemma isnew_spec: "sym_inv tab \<Longrightarrow> isnew str tab = Inr (c_str str \<notin> known tab)"
  using lookup_spec [of tab str] by (auto simp: isnew_def Let_def known_def split: option.splits)

section \<open>Adding a symbol\<close>

definition keeps :: "symtab \<Rightarrow> symtab \<Rightarrow> bool" where
  "keeps tab tab1 \<longleftrightarrow> (\<forall>a n. sym_name tab a = Some n \<longrightarrow> sym_name tab1 a = Some n)"

lemma sreach_extends:
  "sreach tab item a \<Longrightarrow> (\<And>a c. sym_cells tab a = Some c \<Longrightarrow> sym_cells tab1 a = Some c) \<Longrightarrow> sreach tab1 item a"
  by (induction rule: sreach.induct) (auto intro: sreach.intros)

lemma newSymbol_spec:
  assumes inv: "sym_inv tab" and str: "symbol_text str = str" and fresh: "str \<notin> known tab"
    and new: "newSymbol str (calcHashKey str) tab = (a, tab1)"
  shows "sym_inv tab1" "a = nextSym tab" "nextSym tab1 = Suc a" "sym_name tab1 = (sym_name tab)(a \<mapsto> str)"
    "gPrefixCounters tab1 = gPrefixCounters tab"
proof -
  define j where "j = sym_bucket (calcHashKey str)"
  define c where "c = \<lparr>sy_name = str, sy_hash = calcHashKey str, sy_next = gSymbolTable tab j, sy_data = None\<rparr>"
  show a: "a = nextSym tab" and "nextSym tab1 = Suc a" "gPrefixCounters tab1 = gPrefixCounters tab"
    using new by (auto simp: newSymbol_def Let_def)
  have tab1: "sym_cells tab1 = (sym_cells tab)(a \<mapsto> c)" "gSymbolTable tab1 = (gSymbolTable tab)(j := Some a)"
    "nextSym tab1 = Suc a"
    using new by (auto simp: newSymbol_def Let_def c_def j_def)
  have none: "sym_cells tab a = None" using inv a by (metis sym_inv_alloc less_irrefl not_Some_eq)
  show name: "sym_name tab1 = (sym_name tab)(a \<mapsto> str)" by (auto simp: sym_name_def tab1 c_def)
  have ext: "sym_cells tab1 b = Some d" if "sym_cells tab b = Some d" for b d using that none by (auto simp: tab1)
  have old: "symcell_ok tab1 b d" if b: "sym_cells tab b = Some d" for b d
  proof -
    let ?k = "sym_bucket (sy_hash d)"
    have ok: "symcell_ok tab b d" using inv b by (rule sym_inv_cell)
    then have r: "sreach tab1 (gSymbolTable tab ?k) b" using ext by (auto simp: symcell_ok_def intro: sreach_extends)
    have "sreach tab1 (gSymbolTable tab1 ?k) b"
      using r by (cases "?k = j") (auto simp: tab1 c_def intro: sreach.further)
    with ok show ?thesis by (simp add: symcell_ok_def)
  qed
  have "symcell_ok tab1 a c"
    using inv str a by (auto simp: symcell_ok_def c_def j_def [symmetric] tab1 sym_inv_def intro: sreach.here)
  moreover have "sym_name tab b \<noteq> Some str" "Some str \<noteq> sym_name tab b" for b
    using fresh by (auto simp: known_def)
  ultimately show "sym_inv tab1"
    using inv old none a unfolding sym_inv_def name
    by (auto simp: tab1 less_Suc_eq)
qed

lemma getSymbol_spec:
  assumes inv: "sym_inv tab"
  shows "\<exists>a tab1. getSymbol raw tab = Inr (a, tab1) \<and> sym_inv tab1 \<and> sym_name tab1 a = Some (symbol_text raw) \<and>
    keeps tab tab1 \<and> known tab1 = insert (symbol_text raw) (known tab) \<and>
    gPrefixCounters tab1 = gPrefixCounters tab \<and>
    (if symbol_text raw \<in> known tab then tab1 = tab else a = nextSym tab \<and> nextSym tab1 = Suc a)"
proof -
  let ?s = "symbol_text raw"
  obtain r where r: "find_symbol (Suc (nextSym tab)) tab (calcHashKey ?s) ?s (gSymbolTable tab (sym_bucket (calcHashKey ?s))) = Inr r"
    "case r of Some a \<Rightarrow> sym_name tab a = Some ?s | None \<Rightarrow> ?s \<notin> known tab"
    using lookup_spec [OF inv, of ?s, unfolded c_str_symbol_text] by blast
  show ?thesis
  proof (cases r)
    case (Some a)
    then have "sym_name tab a = Some ?s" "?s \<in> known tab" using r(2) by (auto simp: known_def)
    then show ?thesis using r(1) Some inv by (auto simp: getSymbol_def Let_def keeps_def)
  next
    case None
    obtain a tab1 where n: "newSymbol ?s (calcHashKey ?s) tab = (a, tab1)" by fastforce
    have fresh: "?s \<notin> known tab" using r(2) None by simp
    note new = newSymbol_spec [OF inv symbol_text_idem fresh n]
    have "sym_name tab a = None" using inv new(2) by (metis sym_inv_alloc less_irrefl not_Some_eq option.simps(8) sym_name_def)
    then have "keeps tab tab1" using new(4) by (auto simp: keeps_def)
    moreover have "known tab1 = insert ?s (known tab)"
      using new(4) \<open>sym_name tab a = None\<close> by (auto simp: known_def split: if_splits) (metis option.distinct(1))
    ultimately have "keeps tab tab1" "known tab1 = insert ?s (known tab)" by simp_all
    then show ?thesis using r(1) None n new fresh by (auto simp: getSymbol_def Let_def)
  qed
qed

section \<open>Printed numbers\<close>

definition unshow :: "string \<Rightarrow> nat" where
  "unshow s = fold (\<lambda>c n. 10 * n + (of_char c - 48)) s 0"

lemma digit_simps:
  "d < 10 \<Longrightarrow> of_char (char_of (48 + d :: nat)) = 48 + d"
  "d < 10 \<Longrightarrow> of_char (char_of (48 + d :: nat)) = (48 + int d)"
proof -
  assume d: "d < 10"
  then show n: "of_char (char_of (48 + d :: nat)) = 48 + d" by simp
  show "of_char (char_of (48 + d :: nat)) = (48 + int d)"
    using n by (metis of_nat_of_char of_nat_add of_nat_numeral)
qed

lemma unshow_show_nat: "unshow (show_nat n) = n"
proof (induction n rule: show_nat.induct)
  case (1 n)
  show ?case
  proof (cases "n < 10")
    case True
    then show ?thesis by (simp add: show_nat.simps [of n] unshow_def)
  next
    case False
    then show ?thesis using 1 by (simp add: show_nat.simps [of n] unshow_def)
  qed
qed

lemma show_nat_digits: "c \<in> set (show_nat n) \<Longrightarrow> 48 \<le> schar c \<and> schar c < 58"
proof (induction n rule: show_nat.induct)
  case (1 n)
  have d: "48 \<le> schar (char_of (48 + d)) \<and> schar (char_of (48 + d)) < 58" if "d < 10" for d :: nat
    using that digit_simps(2) [OF that] by (simp add: schar_def)
  show ?case using 1 d [of n] d [of "n mod 10"] by (auto simp: show_nat.simps [of n] split: if_splits)
qed

lemma show_nat_nonempty: "show_nat n \<noteq> []"
  by (simp add: show_nat.simps [of n])

lemma length_show_nat: "n < 10 ^ Suc k \<Longrightarrow> length (show_nat n) \<le> Suc k"
proof (induction k arbitrary: n)
  case 0
  then show ?case by (simp add: show_nat.simps [of n])
next
  case (Suc k)
  then show ?case by (cases "n < 10") (auto simp: show_nat.simps [of n] intro!: Suc.IH)
qed

lemma show_int_inject: "show_int i = show_int j \<longleftrightarrow> i = j"
proof
  assume e: "show_int i = show_int j"
  have m: "hd (show_nat n) \<noteq> CHR ''-''" for n
  proof
    assume "hd (show_nat n) = CHR ''-''"
    then have "48 \<le> schar CHR ''-''"
      using show_nat_digits [of "hd (show_nat n)" n] show_nat_nonempty [of n] by (metis hd_in_set)
    then show False by (simp add: schar_def)
  qed
  have h: "show_nat n \<noteq> CHR ''-'' # xs" "CHR ''-'' # xs \<noteq> show_nat n" for n xs
    using m [of n] by (metis list.sel(1))+
  have n: "show_nat a = show_nat b \<longleftrightarrow> a = b" for a b by (metis unshow_show_nat)
  show "i = j" using e by (auto simp: show_int_def h n split: if_splits)
qed simp

lemma length_show_sint: "length (show_int (sint (n :: 32 word))) \<le> 11"
proof -
  have "- (2 ^ 31) \<le> sint n" "sint n < 2 ^ 31" using sint_ge [of n] sint_lt [of n] by simp_all
  then have "nat (- sint n) < 10 ^ Suc 9" "nat (sint n) < 10 ^ Suc 9" by simp_all
  from this [THEN length_show_nat] show ?thesis by (simp add: show_int_def)
qed

definition short :: "string \<Rightarrow> bool" where
  "short str \<longleftrightarrow> length (c_str str) \<le> 244 \<and> printable (c_str str)"

lemma prefix_name_full: "short str \<Longrightarrow> prefix_name str n = c_str str @ show_int (sint n)"
  using length_show_sint [of n] by (auto simp: prefix_name_def short_def)

lemma prefix_name_inject: "short str \<Longrightarrow> prefix_name str m = prefix_name str n \<longleftrightarrow> m = n"
  by (auto simp: prefix_name_full show_int_inject intro: signed_word_eqI)

lemma prefix_name_text:
  assumes "short str"
  shows "symbol_text (prefix_name str n) = prefix_name str n" "c_str (prefix_name str n) = prefix_name str n"
proof -
  have "printable (show_int i)" for i
    using show_nat_digits by (fastforce simp: show_int_def printable_def schar_def)
  then have p: "printable (prefix_name str n)" using assms by (simp add: prefix_name_full) (auto simp: short_def printable_def)
  show "c_str (prefix_name str n) = prefix_name str n" using printable_no_nul [OF p] by simp
  show "symbol_text (prefix_name str n) = prefix_name str n"
    by (rule symbol_text_printable [OF p]) (simp add: prefix_name_def)
qed

section \<open>Generated names\<close>

abbreviation with_counters :: "symtab \<Rightarrow> (nat \<rightharpoonup> 32 word) \<Rightarrow> symtab" where
  "with_counters tab cs \<equiv> tab\<lparr>gPrefixCounters := cs\<rparr>"

lemma sreach_counters [simp]: "sreach (with_counters tab cs) item a \<longleftrightarrow> sreach tab item a"
  by (auto elim: sreach_extends)

lemma counters_irrelevant [simp]:
  "sym_name (with_counters tab cs) = sym_name tab" "known (with_counters tab cs) = known tab"
  "sym_inv (with_counters tab cs) \<longleftrightarrow> sym_inv tab" "keeps (with_counters tab cs) t = keeps tab t"
  by (simp_all add: sym_name_def known_def sym_inv_def symcell_ok_def keeps_def fun_eq_iff)

lemma prefix_loop_fresh:
  assumes "sym_inv tab" "short str" "prefix_loop n p str tab = Inr (a, tab1)"
  shows "\<exists>i w. i < n \<and> w = prefix_name str (counter p tab + of_nat i) \<and> w \<notin> known tab \<and> a = nextSym tab \<and>
    sym_inv tab1 \<and> keeps tab tab1 \<and> sym_name tab1 a = Some w \<and> known tab1 = insert w (known tab)"
  using assms(1,3)
proof (induction n arbitrary: tab)
  case (Suc n)
  let ?w = "prefix_name str (counter p tab)"
  let ?t = "with_counters tab ((gPrefixCounters tab)(p \<mapsto> counter p tab + 1))"
  have new: "isnew ?w ?t = Inr (?w \<notin> known tab)"
    using isnew_spec [of ?t ?w] Suc.prems(1) prefix_name_text(2) [OF assms(2)] by simp
  show ?case
  proof (cases "?w \<in> known tab")
    case False
    with new Suc.prems have g: "getSymbol ?w ?t = Inr (a, tab1)" by (simp add: Let_def)
    have "sym_inv ?t" using Suc.prems(1) by simp
    from getSymbol_spec [OF this, of ?w] g show ?thesis
      using False prefix_name_text(1) [OF assms(2)] by (auto intro!: exI [of _ 0])
  next
    case True
    with new Suc.prems have "prefix_loop n p str ?t = Inr (a, tab1)" by (simp add: Let_def)
    from Suc.IH [OF _ this] Suc.prems(1) obtain i where i: "i < n" "a = nextSym tab"
      "prefix_name str (counter p ?t + of_nat i) \<notin> known tab" "sym_inv tab1" "keeps tab tab1"
      "sym_name tab1 a = Some (prefix_name str (counter p ?t + of_nat i))"
      "known tab1 = insert (prefix_name str (counter p ?t + of_nat i)) (known tab)"
      by auto
    have "counter p ?t + of_nat i = counter p tab + of_nat (Suc i)" by (simp add: counter_def)
    with i show ?thesis by (intro exI [of _ "Suc i"]) (simp del: of_nat_Suc)
  qed
qed simp

lemma prefix_loop_returns:
  assumes "sym_inv tab" "short str" "i < n" "prefix_name str (counter p tab + of_nat i) \<notin> known tab"
  shows "\<exists>a tab1. prefix_loop n p str tab = Inr (a, tab1)"
  using assms(1,3,4)
proof (induction n arbitrary: i tab)
  case (Suc n)
  let ?w = "prefix_name str (counter p tab)"
  let ?t = "with_counters tab ((gPrefixCounters tab)(p \<mapsto> counter p tab + 1))"
  have new: "isnew ?w ?t = Inr (?w \<notin> known tab)" and inv: "sym_inv ?t"
    using isnew_spec [of ?t ?w] Suc.prems(1) prefix_name_text(2) [OF assms(2)] by simp_all
  show ?case
  proof (cases "?w \<in> known tab")
    case False
    with new getSymbol_spec [OF inv, of ?w] show ?thesis by (auto simp: Let_def)
  next
    case True
    then obtain j where j: "i = Suc j" using Suc.prems(3) by (cases i) auto
    have "counter p ?t + of_nat j = counter p tab + of_nat i" by (simp add: counter_def j)
    then show ?thesis using Suc.IH [of ?t j] inv Suc.prems j new True by (simp add: Let_def add.assoc)
  qed
qed simp

definition room :: "nat \<Rightarrow> string \<Rightarrow> symtab \<Rightarrow> nat \<Rightarrow> bool" where
  "room p str tab k \<longleftrightarrow> k \<le> 2 ^ 32 \<and> (\<forall>j < k. prefix_name str (counter p tab + of_nat j) \<notin> known tab)"

lemma room_less: "room p str tab m \<Longrightarrow> n \<le> m \<Longrightarrow> room p str tab n"
  by (auto simp: room_def)

definition unique_name :: "nat \<Rightarrow> string \<Rightarrow> symtab \<Rightarrow> (string \<times> symtab) result" where
  "unique_name p str tab = rbind (prefix p str tab) (\<lambda>(a, tab1). case sym_name tab1 a of
      Some w \<Rightarrow> Inr (w, tab1) | None \<Rightarrow> Inl (Undefined ''symbol''))"

lemma unique_name_room:
  assumes "sym_inv tab" "short str" "room p str tab (Suc k)"
  shows "\<exists>w tab1. unique_name p str tab = Inr (w, tab1) \<and> room p str tab1 k"
proof -
  let ?c = "counter p tab"
  let ?w = "prefix_name str ?c"
  let ?t = "with_counters tab ((gPrefixCounters tab)(p \<mapsto> ?c + 1))"
  have k: "Suc k \<le> 2 ^ 32" and free: "prefix_name str (?c + of_nat j) \<notin> known tab" if "j < Suc k" for j
    using assms(3) that by (auto simp: room_def)
  have w: "?w \<notin> known tab" using free [of 0] by simp
  have inv: "sym_inv ?t" using assms(1) by simp
  obtain a tab1 where g: "getSymbol ?w ?t = Inr (a, tab1)" "sym_name tab1 a = Some ?w"
    "known tab1 = insert ?w (known tab)" "gPrefixCounters tab1 = gPrefixCounters ?t"
    using getSymbol_spec [OF inv, of ?w] prefix_name_text(1) [OF assms(2)] by auto
  have "isnew ?w ?t = Inr True"
    using isnew_spec [OF inv, of ?w] w prefix_name_text(2) [OF assms(2)] by simp
  then have "prefix_loop (Suc 9999) p str tab = Inr (a, tab1)" using g(1) by (simp only: prefix_loop.simps Let_def) simp
  then have "prefix p str tab = Inr (a, tab1)" by (simp add: prefix_def)
  then have "unique_name p str tab = Inr (?w, tab1)" using g(2) by (simp add: unique_name_def)
  moreover have "prefix_name str (counter p tab1 + of_nat j) \<notin> known tab1" if j: "j < k" for j
  proof -
    have "unat (of_nat (Suc j) :: 32 word) = Suc j" using j k [of 0] by (simp add: unat_of_nat take_bit_eq_mod del: of_nat_Suc)
    then have "of_nat (Suc j) \<noteq> (0 :: 32 word)" by (metis nat.distinct(1) unat_0)
    then have "?c + of_nat (Suc j) \<noteq> ?c" by simp
    then have "prefix_name str (?c + of_nat (Suc j)) \<noteq> ?w" using prefix_name_inject [OF assms(2)] by blast
    moreover have "counter p tab1 + of_nat j = ?c + of_nat (Suc j)" by (simp add: counter_def [of p tab1] g(4))
    ultimately show ?thesis using free [of "Suc j"] j g(3) by (simp del: of_nat_Suc)
  qed
  ultimately show ?thesis using k [of 0] by (auto simp: room_def)
qed

text \<open>
  What the passes that introduce names rely on: a generated name was not known, and as long as
  there is room the generator returns.
\<close>

locale fresh_names =
  fixes ok :: "'s \<Rightarrow> bool" and names :: "'s \<Rightarrow> string set" and space :: "'s \<Rightarrow> nat \<Rightarrow> bool"
    and gensym :: "'s \<Rightarrow> (string \<times> 's) result"
  assumes gensym_fresh: "ok s \<Longrightarrow> gensym s = Inr (w, s1) \<Longrightarrow> ok s1 \<and> w \<notin> names s \<and> names s1 = insert w (names s)"
    and gensym_returns: "ok s \<Longrightarrow> space s (Suc k) \<Longrightarrow> \<exists>w s1. gensym s = Inr (w, s1) \<and> space s1 k"
begin

primrec gensyms :: "nat \<Rightarrow> 's \<Rightarrow> (string list \<times> 's) result" where
  "gensyms 0 s = Inr ([], s)"
| "gensyms (Suc k) s = rbind (gensym s) (\<lambda>(w, s1). rbind (gensyms k s1) (\<lambda>(ws, s2). Inr (w # ws, s2)))"

lemma gensyms_distinct:
  "ok s \<Longrightarrow> space s k \<Longrightarrow> \<exists>ws s1. gensyms k s = Inr (ws, s1) \<and> ok s1 \<and> length ws = k \<and> distinct ws \<and>
     set ws \<inter> names s = {} \<and> names s1 = names s \<union> set ws"
proof (induction k arbitrary: s)
  case (Suc k)
  obtain w s1 where w: "gensym s = Inr (w, s1)" "space s1 k" using gensym_returns [OF Suc.prems] by blast
  note f = gensym_fresh [OF Suc.prems(1) w(1)]
  obtain ws s2 where "gensyms k s1 = Inr (ws, s2)" "ok s2" "length ws = k" "distinct ws"
    "set ws \<inter> names s1 = {}" "names s2 = names s1 \<union> set ws"
    using Suc.IH [OF _ w(2)] f by blast
  with w f show ?case by (intro exI [of _ "w # ws"] exI [of _ s2]) auto
qed simp

end

lemma unique_name_fresh:
  assumes "sym_inv tab" "short str" "unique_name p str tab = Inr (w, tab1)"
  shows "sym_inv tab1 \<and> keeps tab tab1 \<and> w \<notin> known tab \<and> known tab1 = insert w (known tab)"
proof -
  obtain a where a: "prefix_loop 10000 p str tab = Inr (a, tab1)" "sym_name tab1 a = Some w"
    using assms(3) by (auto simp: unique_name_def prefix_def rbind_eq_Inr split: option.splits)
  from prefix_loop_fresh [OF assms(1,2) a(1)] a(2) show ?thesis by auto
qed

interpretation unique: fresh_names "\<lambda>tab. sym_inv tab \<and> short str" known "room p str" "unique_name p str" for p str
  by unfold_locales (use unique_name_fresh unique_name_room in blast)+

text \<open>What the rest of the compiler relies on: a name has one symbol, and interning keeps the others.\<close>

locale interning =
  fixes inv :: "'s \<Rightarrow> bool" and name_of :: "'s \<Rightarrow> nat \<Rightarrow> string option" and canon :: "string \<Rightarrow> string"
    and intern :: "string \<Rightarrow> 's \<Rightarrow> (nat \<times> 's) result"
  assumes intern_returns: "inv s \<Longrightarrow> \<exists>a s1. intern raw s = Inr (a, s1) \<and> inv s1 \<and> name_of s1 a = Some (canon raw)"
    and intern_keeps: "inv s \<Longrightarrow> intern raw s = Inr (a, s1) \<Longrightarrow> name_of s b = Some n \<Longrightarrow> name_of s1 b = Some n"
    and names_unique: "inv s \<Longrightarrow> name_of s a = Some n \<Longrightarrow> name_of s b = Some n \<Longrightarrow> a = b"
begin

lemma intern_names:
  assumes "inv s" "intern raw s = Inr (a, s1)"
  shows "inv s1" "name_of s1 a = Some (canon raw)"
  using intern_returns [OF assms(1), of raw] assms(2) by auto

lemma same_symbol:
  assumes "inv s" "intern x s = Inr (a, s1)" "intern y s1 = Inr (b, s2)"
  shows "a = b \<longleftrightarrow> canon x = canon y"
proof -
  have "name_of s2 a = Some (canon x)" "name_of s2 b = Some (canon y)" "inv s2"
    using intern_names assms intern_keeps by blast+
  then show ?thesis using names_unique [of s2 a "canon x" b] by auto
qed

end

interpretation symbols: interning sym_inv sym_name symbol_text getSymbol
proof
  fix s raw assume "sym_inv s"
  then show "\<exists>a s1. getSymbol raw s = Inr (a, s1) \<and> sym_inv s1 \<and> sym_name s1 a = Some (symbol_text raw)"
    using getSymbol_spec [of s raw] by blast
next
  fix s raw a s1 b n
  assume "sym_inv s" "getSymbol raw s = Inr (a, s1)" "sym_name s b = Some n"
  then show "sym_name s1 b = Some n" using getSymbol_spec [of s raw] by (auto simp: keeps_def)
next
  fix s a n b
  assume "sym_inv s" "sym_name s a = Some n" "sym_name s b = Some n"
  moreover from this have "a < nextSym s" "b < nextSym s" by (auto simp: sym_inv_alloc sym_name_def)
  ultimately show "a = b" unfolding sym_inv_def by metis
qed

section \<open>Reachable tables\<close>

inductive symtab_step :: "symtab \<Rightarrow> symtab \<Rightarrow> bool" where
  step_get: "getSymbol raw tab = Inr (a, tab1) \<Longrightarrow> symtab_step tab tab1"
| step_unique: "prefix p str tab = Inr (a, tab1) \<Longrightarrow> symtab_step tab tab1"
| step_data: "symtab_step tab (setSymData tab a d)"

inductive symtab_reachable :: "symtab \<Rightarrow> bool" where
  start: "symtab_reachable symInit"
| step: "symtab_reachable tab \<Longrightarrow> symtab_step tab tab1 \<Longrightarrow> symtab_reachable tab1"

lemma setSymData_name [simp]: "sym_name (setSymData tab a d) = sym_name tab"
  by (auto simp: setSymData_def sym_name_def fun_eq_iff split: option.splits)

lemma sreach_setSymData: "sreach tab item b \<Longrightarrow> sreach (setSymData tab a d) item b"
proof (induction rule: sreach.induct)
  case (here x c)
  then show ?case by (intro sreach.here [where c = "if x = a then c\<lparr>sy_data := d\<rparr> else c"])
    (auto simp: setSymData_def split: option.splits)
next
  case (further x c b)
  then show ?case by (intro sreach.further [where c = "if x = a then c\<lparr>sy_data := d\<rparr> else c"])
    (auto simp: setSymData_def split: option.splits)
qed

lemma setSymData_inv:
  assumes "sym_inv tab"
  shows "sym_inv (setSymData tab a d)"
proof (cases "sym_cells tab a")
  case (Some c)
  then have t: "gSymbolTable (setSymData tab a d) = gSymbolTable tab" "nextSym (setSymData tab a d) = nextSym tab"
    "sym_cells (setSymData tab a d) = (sym_cells tab)(a \<mapsto> c\<lparr>sy_data := d\<rparr>)"
    by (simp_all add: setSymData_def)
  have "symcell_ok (setSymData tab a d) b e \<and> symcell_ok (setSymData tab a d) b (e\<lparr>sy_data := d\<rparr>)"
    if "sym_cells tab b = Some e" for b e
    using sym_inv_cell [OF assms that] sreach_setSymData by (auto simp: symcell_ok_def t)
  then show ?thesis using assms Some unfolding sym_inv_def setSymData_name by (auto simp: t)
qed (use assms in \<open>simp add: setSymData_def\<close>)

lemma prefix_loop_inv: "sym_inv tab \<Longrightarrow> prefix_loop n p str tab = Inr (a, tab1) \<Longrightarrow> sym_inv tab1"
proof (induction n arbitrary: tab)
  case (Suc n)
  let ?t = "with_counters tab ((gPrefixCounters tab)(p \<mapsto> counter p tab + 1))"
  have t: "sym_inv ?t" using Suc.prems(1) by simp
  consider "getSymbol (prefix_name str (counter p tab)) ?t = Inr (a, tab1)" | "prefix_loop n p str ?t = Inr (a, tab1)"
    using Suc.prems(2) by (auto simp: Let_def rbind_eq_Inr split: if_splits)
  then show ?case using Suc.IH [OF t] symbols.intern_names(1) [OF t] by cases auto
qed simp

lemma symtab_reachable_inv: "symtab_reachable tab \<Longrightarrow> sym_inv tab"
proof (induction rule: symtab_reachable.induct)
  case start
  show ?case by (simp add: sym_inv_def symInit_def sym_name_def)
next
  case (step tab tab1)
  from step.hyps(2) step.IH show ?case
    by cases (auto simp: prefix_def intro: symbols.intern_names(1) prefix_loop_inv setSymData_inv)
qed

text \<open>Fewer than 10000 symbols cannot take all the names that are tried.\<close>

lemma few_symbols:
  assumes inv: "sym_inv tab" and short: "short str" and few: "nextSym tab < 10000"
  shows "\<exists>i < 10000. prefix_name str (counter p tab + of_nat i) \<notin> known tab"
proof (rule ccontr)
  let ?f = "\<lambda>i. prefix_name str (counter p tab + of_nat i)"
  assume "\<not> ?thesis"
  then have sub: "?f ` {..<10000} \<subseteq> known tab" by auto
  have "inj_on ?f {..<10000}"
  proof (rule inj_onI)
    fix i j :: nat assume ij: "i \<in> {..<10000}" "j \<in> {..<10000}" "?f i = ?f j"
    then have "(of_nat i :: 32 word) = of_nat j" using prefix_name_inject [OF short] by simp
    then have "unat (of_nat i :: 32 word) = unat (of_nat j :: 32 word)" by simp
    then show "i = j" using ij by (simp add: unat_of_nat take_bit_eq_mod)
  qed
  then have "card (?f ` {..<10000}) = 10000" by (simp add: card_image)
  moreover have k: "known tab = (\<lambda>a. the (sym_name tab a)) ` {..<nextSym tab}"
    using inv by (force simp: known_def sym_name_def sym_inv_alloc)
  then have "card (known tab) \<le> nextSym tab" using card_image_le [of "{..<nextSym tab}"] by fastforce
  moreover have "finite (known tab)" using k by simp
  ultimately show False using card_mono [OF _ sub] few by simp
qed

section \<open>Properties\<close>

text \<open>
  Property C10 (symbols are unique).  In every table the compiler can reach, interning a text
  returns the symbol whose name is the text with its control characters replaced by blanks, cut
  after 1023 characters; all other symbols keep their names, interning the text again returns the
  same symbol and changes nothing, and two symbols of a table have different names.
\<close>

theorem symbols_unique:
  assumes "symtab_reachable tab"
  shows "(\<exists>a tab1. getSymbol raw tab = Inr (a, tab1) \<and> sym_name tab1 a = Some (symbol_text raw) \<and>
      (\<forall>b n. sym_name tab b = Some n \<longrightarrow> sym_name tab1 b = Some n) \<and> getSymbol raw tab1 = Inr (a, tab1)) \<and>
    (\<forall>a b n. sym_name tab a = Some n \<and> sym_name tab b = Some n \<longrightarrow> a = b)"
proof -
  have inv: "sym_inv tab" using assms by (rule symtab_reachable_inv)
  obtain a tab1 where a: "getSymbol raw tab = Inr (a, tab1)" "sym_inv tab1" "sym_name tab1 a = Some (symbol_text raw)"
    "keeps tab tab1" "symbol_text raw \<in> known tab1"
    using getSymbol_spec [OF inv, of raw] by auto
  obtain b where "getSymbol raw tab1 = Inr (b, tab1)" using getSymbol_spec [OF a(2), of raw] a(5) by auto
  moreover from this have "b = a" using symbols.same_symbol [OF inv a(1)] by blast
  ultimately show ?thesis using a symbols.names_unique [OF inv] unfolding keeps_def by blast
qed

theorem symbols_unique_witness:
  "\<exists>a tab1. getSymbol ''rec'' symInit = Inr (a, tab1) \<and> getSymbol ''rec'' tab1 = Inr (a, tab1)"
  using symbols_unique [OF symtab_reachable.start] by blast

text \<open>
  Property C19 (generated symbols are new).  For a prefix of at most 244 characters without control
  characters, \<^verbatim>\<open>unique\<close> returns when there are fewer than 10000 symbols, and whenever it returns, the
  symbol was not in the table and its name is the prefix followed by a number.  With a control character in
  the prefix this fails: the search for a new name looks for the text before the control characters
  are replaced, and two calls give the same symbol.
\<close>

theorem unique_fresh:
  assumes "symtab_reachable tab" "length str \<le> 244" "printable str"
  shows "(nextSym tab < 10000 \<longrightarrow> (\<exists>a tab1. prefix p str tab = Inr (a, tab1))) \<and>
    (\<forall>a tab1. prefix p str tab = Inr (a, tab1) \<longrightarrow> sym_name tab a = None \<and>
       (\<exists>i. sym_name tab1 a = Some (str @ show_int i)) \<and>
       (\<forall>b n. sym_name tab b = Some n \<longrightarrow> sym_name tab1 b = Some n \<and> sym_name tab1 a \<noteq> Some n)) \<and>
    rbind (prefix 0 (CHR 0x09 # ''a'') symInit) (\<lambda>(a, t). rbind (prefix 1 (CHR 0x09 # ''a'') t) (\<lambda>(b, _). Inr (a, b))) = Inr (0, 0)"
proof (intro conjI impI allI)
  have inv: "sym_inv tab" using assms(1) by (rule symtab_reachable_inv)
  have c: "c_str str = str" using printable_no_nul [OF assms(3)] by simp
  then have short: "short str" using assms by (simp add: short_def)
  show "\<exists>a tab1. prefix p str tab = Inr (a, tab1)" if "nextSym tab < 10000"
    unfolding prefix_def using few_symbols [OF inv short that] prefix_loop_returns [OF inv short] by blast
  fix a tab1 assume p: "prefix p str tab = Inr (a, tab1)"
  obtain w i where w: "w = prefix_name str i" "w \<notin> known tab" "a = nextSym tab" "keeps tab tab1" "sym_name tab1 a = Some w"
    using prefix_loop_fresh [OF inv short p [unfolded prefix_def]] by blast
  show "sym_name tab a = None" using inv w(3) by (metis sym_inv_alloc less_irrefl not_Some_eq option.simps(8) sym_name_def)
  show "\<exists>i. sym_name tab1 a = Some (str @ show_int i)"
    using w(1,5) c prefix_name_full [OF short] by auto
  fix b n assume "sym_name tab b = Some n"
  then show "sym_name tab1 b = Some n" "sym_name tab1 a \<noteq> Some n" using w by (auto simp: keeps_def known_def)
next
  show "rbind (prefix 0 (CHR 0x09 # ''a'') symInit) (\<lambda>(a, t). rbind (prefix 1 (CHR 0x09 # ''a'') t) (\<lambda>(b, _). Inr (a, b))) = Inr (0, 0)"
    by code_simp
qed

theorem unique_fresh_witness: "\<exists>a tab1. prefix 0 ''W'' symInit = Inr (a, tab1)"
proof -
  have "printable ''W''" by (simp add: printable_def schar_def)
  with unique_fresh [OF symtab_reachable.start, of "''W''" 0] show ?thesis by (simp add: symInit_def)
qed

end
