(* ===== verification/SymRec.thy ===== *)
theory SymRec
  imports Symbols Recursiveness
begin

text \<open>
  Recursive trees in symbolic notation (\<^verbatim>\<open>tlib/recursive-tree.cpp\<close>): the conversion
  \<^verbatim>\<open>deBruijn2Sym\<close> of de Bruijn recursion into recursion by names.

  The state of the conversion is the table of symbols, the definitions of the recursive symbols
  (the property \<^verbatim>\<open>RECDEF\<close>) and the converted trees (the property \<^verbatim>\<open>DEBRUIJN2SYM\<close>).  The meaning of a
  recursive tree is its unrolling: the conversion is correct when the tree and its conversion
  unroll to the same tree to every depth.
\<close>

record d2s =
  ds_syms :: symtab
  ds_defs :: recdefs
  ds_memo :: "tree \<rightharpoonup> tree"

section \<open>Operations\<close>

definition symref :: "tree \<Rightarrow> tree" where
  "symref id' = Tree (NSym (KTree SYMREC)) [id']"

definition isSymRef :: "tree \<Rightarrow> tree option" where
  "isSymRef t = isTree1 t (NSym (KTree SYMREC))"

definition recSym :: "tree \<Rightarrow> tree \<Rightarrow> d2s \<Rightarrow> tree \<times> d2s" where
  "recSym var body st = (symref var, st\<lparr>ds_defs := (symref var, body) # ds_defs st\<rparr>)"

definition isRecSym :: "tree \<Rightarrow> d2s \<Rightarrow> (tree \<times> tree option) option" where
  "isRecSym t st = map_option (\<lambda>var. (var, map_of (ds_defs st) t)) (isSymRef t)"

lemma tree_size_pos: "0 < size (t :: tree)"
  by (cases t) simp

lemma substitute_size: "size d \<le> size (ref 1) \<Longrightarrow> size (substitute t l d) \<le> size t"
proof (induction t l d rule: substitute.induct)
  case (1 t l d)
  show ?case
  proof (cases "aperture t < l")
    case False
    show ?thesis
    proof (cases "isRef t")
      case (Some k)
      then have "size (ref 1) \<le> size t"
        by (auto simp: isRef_def isTree_Some ref_def leaf_def split: option.splits) (simp add: Suc_leI tree_size_pos)
      with Some 1(3) show ?thesis by (auto simp: substitute.simps [of t])
    next
      case r: None
      show ?thesis
      proof (cases "isRec t")
        case (Some u)
        then have "size t = size (rec u)" by (simp add: isRec_def isTree_Some rec_def)
        with 1(2) [OF False r Some 1(3)] False r Some show ?thesis by (simp add: substitute.simps [of t] rec_def)
      next
        case None
        have "size_list size (map (\<lambda>b. substitute b l d) (branches t)) \<le> size_list size (branches t)"
          using 1(1) [OF False r None _ 1(3)] by (auto simp: size_list_map intro: size_list_pointwise)
        moreover have "size t = Suc (size_list size (branches t))" by (cases t) simp
        ultimately show ?thesis using False r None by (simp add: substitute.simps [of t])
      qed
    qed
  qed (simp add: substitute_skip)
qed

definition W_leaf :: "string \<Rightarrow> tree" where
  "W_leaf w = leaf (NSym (Name w))"

lemma symref_size: "size (symref (W_leaf w)) = size (ref 1)"
  by (simp add: symref_def W_leaf_def ref_def leaf_def)

function deBruijn2Sym :: "nat \<Rightarrow> tree \<Rightarrow> d2s \<Rightarrow> (tree \<times> d2s) result" where
  "deBruijn2Sym p t st = (if \<not> isClosed t then Inl (AssertFailed ''isClosed(t)'')
     else case ds_memo st t of
       Some t2 \<Rightarrow> Inr (t2, st)
     | None \<Rightarrow> rbind (case isRec t of
           Some body \<Rightarrow> rbind (unique_name p ''W'' (ds_syms st)) (\<lambda>(w, syms).
             rbind (deBruijn2Sym p (substitute body 1 (symref (W_leaf w))) (st\<lparr>ds_syms := syms\<rparr>)) (\<lambda>(b, st1).
               Inr (recSym (W_leaf w) b st1)))
         | None \<Rightarrow> if isSymRef t \<noteq> None then Inr (t, st)
             else if isRef t \<noteq> None then Inl (FaustException ''one Bruijn reference found'')
             else rbind (mmap (deBruijn2Sym p) (branches t) st) (\<lambda>(br, st1). Inr (Tree (node t) br, st1)))
         (\<lambda>(t2, st1). Inr (t2, st1\<lparr>ds_memo := (ds_memo st1)(t \<mapsto> t2)\<rparr>)))"
  by pat_completeness auto
termination
proof (relation "measure (\<lambda>(p, t, st). size t)", goal_cases)
  case (3 p t st body)
  have "size (substitute body 1 (symref (W_leaf w))) \<le> size body" for w
    by (rule substitute_size) (simp add: symref_size)
  with isRec_size [OF 3(3)] show ?case by (auto intro: le_less_trans)
qed (auto intro: size_branch)

declare deBruijn2Sym.simps [simp del]

section \<open>Substitution without the shortcut\<close>

lemma substitute_rec: "substitute (rec u) l d = rec (substitute u (l + 1) d)"
  by (simp add: substitute_simps substitute_skip)

lemma substitute_node:
  assumes "nd \<noteq> NSym (KTree DEBRUIJNREF)" "nd \<noteq> NSym (KTree DEBRUIJN)"
  shows "substitute (Tree nd br) l d = Tree nd (map (\<lambda>b. substitute b l d) br)"
proof (cases "aperture (Tree nd br) < l")
  case True
  have "substitute b l d = b" if "b \<in> set br" for b
    using fold_max_upper [OF that, of aperture 0] True assms by (intro substitute_skip) simp
  then have "map (\<lambda>b. substitute b l d) br = br" by (intro map_idI)
  with True show ?thesis by (simp add: substitute_skip)
qed (use assms in \<open>simp add: substitute_simps\<close>)

lemmas substitute_full = substitute_simps(1) substitute_rec substitute_node

section \<open>Unrolling\<close>

datatype utree = UCut | UNode node "utree list"

fun unroll :: "nat \<Rightarrow> tree \<Rightarrow> utree" where
  "unroll 0 t = UCut"
| "unroll (Suc n) t = (case isRec t of
      Some body \<Rightarrow> unroll n (substitute body 1 t)
    | None \<Rightarrow> UNode (node t) (map (unroll n) (branches t)))"

fun unroll_sym :: "nat \<Rightarrow> recdefs \<Rightarrow> tree \<Rightarrow> utree" where
  "unroll_sym 0 defs t = UCut"
| "unroll_sym (Suc n) defs t = (case isSymRef t of
      Some var \<Rightarrow> (case map_of defs t of Some body \<Rightarrow> unroll_sym n defs body | None \<Rightarrow> UNode (node t) [])
    | None \<Rightarrow> UNode (node t) (map (unroll_sym n defs) (branches t)))"

definition is_db :: "node \<Rightarrow> bool" where
  "is_db n \<longleftrightarrow> n = NSym (KTree DEBRUIJN) \<or> n = NSym (KTree DEBRUIJNREF)"

fun symrefs :: "tree \<Rightarrow> tree set" where
  "symrefs (Tree n br) = (if n = NSym (KTree SYMREC) then {Tree n br} else \<Union> (set (map symrefs br)))"

fun db_free :: "tree \<Rightarrow> bool" where
  "db_free (Tree n br) \<longleftrightarrow> \<not> is_db n \<and> (\<forall>b \<in> set br. db_free b)"

fun recs :: "tree \<Rightarrow> nat" where
  "recs (Tree n br) = (if n = NSym (KTree DEBRUIJN) then 1 else 0) + sum_list (map recs br)"

declare symrefs.simps [simp del] db_free.simps [simp del] recs.simps [simp del]

lemma isSymRef_Some: "isSymRef t = Some v \<longleftrightarrow> t = symref v"
  by (simp add: isSymRef_def isTree_Some symref_def)

lemma sym_simps [simp]:
  "symrefs (ref n) = {}" "symrefs (rec u) = symrefs u" "symrefs (symref v) = {symref v}"
  "recs (ref n) = 0" "recs (rec u) = Suc (recs u)" "isRec (symref v) = None" "isRef (symref v) = None"
  "isSymRef (symref v) = Some v" "isSymRef (rec u) = None" "isSymRef (ref n) = None"
  by (simp_all add: symrefs.simps recs.simps ref_def rec_def symref_def leaf_def isRec_def isRef_def
      isSymRef_def isTree1_def)

text \<open>The symbol of a name.\<close>

abbreviation wsym :: "string \<Rightarrow> tree" where
  "wsym w \<equiv> symref (W_leaf w)"

lemma wsym_simps [simp]:
  "db_wf (wsym w)" "free_refs (wsym w) = {}" "recs (wsym w) = 0" "wsym v = wsym w \<longleftrightarrow> v = w"
  "substitute (wsym w) l d = wsym w"
  by (simp_all add: symref_def W_leaf_def leaf_def recs.simps substitute_node)

lemma recs_substitute: "db_wf t \<Longrightarrow> recs d = 0 \<Longrightarrow> recs (substitute t l d) = recs t"
proof (induction arbitrary: l rule: db_induct)
  case (node n br)
  then have "map (recs \<circ> (\<lambda>b. substitute b l d)) br = map recs br" by (intro map_cong) auto
  with node show ?case by (simp add: substitute_node recs.simps del: map_eq_conv)
qed (simp_all add: substitute_simps(1) substitute_rec)

lemma symrefs_node:
  "n \<noteq> NSym (KTree SYMREC) \<Longrightarrow> symrefs (Tree n br) = (\<Union>b \<in> set br. symrefs b)"
  "n = NSym (KTree SYMREC) \<Longrightarrow> symrefs (Tree n br) \<subseteq> range wsym \<Longrightarrow> \<exists>w. Tree n br = wsym w"
  by (auto simp: symrefs.simps)

lemma symrefs_substitute:
  "db_wf t \<Longrightarrow> symrefs t \<subseteq> range wsym \<Longrightarrow> symrefs (substitute t l (wsym w)) \<subseteq> insert (wsym w) (symrefs t)"
proof (induction arbitrary: l rule: db_induct)
  case (node n br)
  show ?case
  proof (cases "n = NSym (KTree SYMREC)")
    case True
    then obtain v where "Tree n br = wsym v" using symrefs_node(2) node.prems by blast
    then show ?thesis by (simp only: wsym_simps) blast
  next
    case False
    with node show ?thesis by (fastforce simp: substitute_node symrefs_node(1))
  qed
qed (simp_all add: substitute_simps(1) substitute_rec)

section \<open>The trees the symbols stand for\<close>

text \<open>
  While the conversion runs, \<open>\<sigma>\<close> maps every symbol it has introduced to the closed recursive tree it
  stands for.
\<close>

type_synonym standsfor = "tree \<rightharpoonup> tree"

function resolve :: "standsfor \<Rightarrow> tree \<Rightarrow> tree" where
  "resolve \<sigma> t = (case \<sigma> t of Some r \<Rightarrow> r | None \<Rightarrow> Tree (node t) (map (resolve \<sigma>) (branches t)))"
  by pat_completeness auto
termination
  by (relation "measure (\<lambda>(\<sigma>, t). size t)") (auto intro: size_branch)

declare resolve.simps [simp del]

definition stands_ok :: "standsfor \<Rightarrow> bool" where
  "stands_ok \<sigma> \<longleftrightarrow> dom \<sigma> \<subseteq> range wsym \<and>
     (\<forall>r \<in> ran \<sigma>. \<exists>body. r = rec body \<and> db_wf body \<and> free_refs r = {} \<and> symrefs r = {})"

lemma stands_dom: "stands_ok \<sigma> \<Longrightarrow> n \<noteq> NSym (KTree SYMREC) \<Longrightarrow> \<sigma> (Tree n br) = None"
  by (auto simp: stands_ok_def symref_def)

lemma stands_db: "stands_ok \<sigma> \<Longrightarrow> \<sigma> (rec u) = None" "stands_ok \<sigma> \<Longrightarrow> \<sigma> (ref n) = None"
  by (simp_all add: stands_dom rec_def ref_def)

lemma resolve_simps:
  assumes "stands_ok \<sigma>"
  shows "resolve \<sigma> (rec u) = rec (resolve \<sigma> u)" "resolve \<sigma> (ref n) = ref n"
    "nd \<noteq> NSym (KTree SYMREC) \<Longrightarrow> resolve \<sigma> (Tree nd br) = Tree nd (map (resolve \<sigma>) br)"
    "\<sigma> t = Some r \<Longrightarrow> resolve \<sigma> t = r"
  using assms by (simp_all add: resolve.simps stands_dom rec_def ref_def leaf_def)

lemma resolve_cases:
  assumes "stands_ok \<sigma>" "symrefs (Tree n br) \<subseteq> dom \<sigma>"
  obtains (sym) w r where "n = NSym (KTree SYMREC)" "Tree n br = wsym w" "\<sigma> (wsym w) = Some r"
    | (node) "n \<noteq> NSym (KTree SYMREC)" "\<And>b. b \<in> set br \<Longrightarrow> symrefs b \<subseteq> dom \<sigma>"
proof (cases "n = NSym (KTree SYMREC)")
  case True
  then have "Tree n br \<in> dom \<sigma>" using assms(2) by (simp add: symrefs.simps)
  with assms(1) True show ?thesis using sym by (auto simp: stands_ok_def)
next
  case False
  with assms(2) show ?thesis using node by (auto simp: symrefs_node(1))
qed

lemma resolve_ok:
  assumes "stands_ok \<sigma>" "db_wf t" "symrefs t \<subseteq> dom \<sigma>"
  shows "db_wf (resolve \<sigma> t) \<and> free_refs (resolve \<sigma> t) = free_refs t \<and> symrefs (resolve \<sigma> t) = {}"
  using assms(2,3)
proof (induction rule: db_induct)
  case (node n br)
  from assms(1) node.prems show ?case
  proof (cases rule: resolve_cases)
    case (sym w r)
    then have "\<exists>body. r = rec body \<and> db_wf body \<and> free_refs r = {} \<and> symrefs r = {}"
      using assms(1) by (auto simp: stands_ok_def ran_def)
    then show ?thesis using resolve_simps(4) [OF assms(1) sym(3)] sym(2) by auto
  next
    case n: node
    with node show ?thesis by (auto simp: resolve_simps(3) [OF assms(1)] symrefs_node(1))
  qed
qed (simp_all add: resolve_simps [OF assms(1)])

lemma resolve_mono:
  assumes "stands_ok \<sigma>" "stands_ok \<tau>" "\<sigma> \<subseteq>\<^sub>m \<tau>" "symrefs t \<subseteq> dom \<sigma>"
  shows "resolve \<tau> t = resolve \<sigma> t"
  using assms(4)
proof (induction t)
  case (Tree n br)
  from assms(1) Tree.prems show ?case
  proof (cases rule: resolve_cases)
    case (sym w r)
    then have "\<tau> (wsym w) = Some r" using assms(3) by (auto simp: map_le_def dom_def)
    with sym resolve_simps(4) assms(1,2) show ?thesis by simp
  next
    case node
    with Tree.IH show ?thesis by (simp add: resolve_simps(3) [OF assms(1)] resolve_simps(3) [OF assms(2)])
  qed
qed

lemma resolve_empty: "symrefs t = {} \<Longrightarrow> stands_ok \<sigma> \<Longrightarrow> resolve \<sigma> t = t"
proof (induction t)
  case (Tree n br)
  then have "n \<noteq> NSym (KTree SYMREC)" by (auto simp: symrefs.simps)
  with Tree show ?case by (auto simp: resolve_simps(3) symrefs_node(1) intro: map_idI)
qed

lemma resolve_substitute:
  assumes "stands_ok \<sigma>" "stands_ok \<tau>" "\<sigma> \<subseteq>\<^sub>m \<tau>" "\<tau> (wsym w) = Some r" "db_wf t" "symrefs t \<subseteq> dom \<sigma>" "0 < l"
  shows "resolve \<tau> (substitute t l (wsym w)) = substitute (resolve \<sigma> t) l r"
  using assms(5-7)
proof (induction arbitrary: l rule: db_induct)
  case (ref n)
  then show ?case using resolve_simps [OF assms(1)] resolve_simps [OF assms(2)] assms(4) by (simp add: substitute_simps(1))
next
  case (rec u)
  then show ?case using resolve_simps [OF assms(1)] resolve_simps [OF assms(2)] by (simp add: substitute_rec)
next
  case (node n br)
  from assms(1) node.prems(1) show ?case
  proof (cases rule: resolve_cases)
    case (sym v q)
    then have q: "\<exists>body. q = rec body \<and> db_wf body \<and> free_refs q = {}"
      using assms(1) by (auto simp: stands_ok_def ran_def)
    then have "aperture q < l" using isClosed_iff [of q] node.prems(2) by (auto simp: isClosed_def)
    moreover have "\<tau> (wsym v) = Some q" using sym(3) assms(3) by (auto simp: map_le_def dom_def)
    ultimately show ?thesis
      using sym resolve_simps(4) [OF assms(1)] resolve_simps(4) [OF assms(2)] by (simp add: substitute_skip)
  next
    case n: node
    with node show ?thesis
      by (auto simp: substitute_node resolve_simps(3) [OF assms(1)] resolve_simps(3) [OF assms(2)])
  qed
qed

section \<open>Converted trees\<close>

inductive conv :: "standsfor \<Rightarrow> tree \<Rightarrow> tree \<Rightarrow> bool" for \<sigma> where
  conv_sym: "\<sigma> s = Some r \<Longrightarrow> conv \<sigma> r s"
| conv_node: "\<not> is_db n \<Longrightarrow> n \<noteq> NSym (KTree SYMREC) \<Longrightarrow> list_all2 (conv \<sigma>) rs ts \<Longrightarrow> conv \<sigma> (Tree n rs) (Tree n ts)"

lemma conv_mono: "conv \<sigma> r t \<Longrightarrow> \<sigma> \<subseteq>\<^sub>m \<tau> \<Longrightarrow> conv \<tau> r t"
proof (induction rule: conv.induct)
  case (conv_sym s r)
  then have "\<tau> s = Some r" by (auto simp: map_le_def dom_def)
  then show ?case by (rule conv.conv_sym)
next
  case (conv_node n rs ts)
  then have "list_all2 (conv \<tau>) rs ts" by (auto elim: list_all2_mono)
  with conv_node show ?case by (simp add: conv.conv_node)
qed

lemma conv_result:
  "conv \<sigma> r t \<Longrightarrow> stands_ok \<sigma> \<Longrightarrow> db_free t \<and> symrefs t \<subseteq> dom \<sigma>"
proof (induction rule: conv.induct)
  case (conv_sym s r)
  then obtain w where "s = wsym w" by (auto simp: stands_ok_def)
  with conv_sym show ?case by (auto simp: db_free.simps symref_def W_leaf_def leaf_def is_db_def symrefs.simps)
next
  case (conv_node n rs ts)
  then have "\<forall>t \<in> set ts. db_free t \<and> symrefs t \<subseteq> dom \<sigma>"
    unfolding list_all2_conv_all_nth by (metis in_set_conv_nth)
  with conv_node.hyps show ?case unfolding db_free.simps by (simp add: symrefs_node(1)) blast
qed

definition defined_ok :: "standsfor \<Rightarrow> recdefs \<Rightarrow> bool" where
  "defined_ok \<sigma> defs \<longleftrightarrow> (\<forall>s b. map_of defs s = Some b \<longrightarrow>
     (\<exists>body. \<sigma> s = Some (rec body) \<and> conv \<sigma> (substitute body 1 (rec body)) b))"

lemma conv_unroll:
  assumes "stands_ok \<sigma>" "defined_ok \<sigma> defs" "dom \<sigma> \<subseteq> dom (map_of defs)"
  shows "conv \<sigma> r t \<Longrightarrow> unroll_sym n defs t = unroll n r"
proof (induction n arbitrary: r t)
  case (Suc n)
  from Suc.prems show ?case
  proof cases
    case conv_sym
    then have "t \<in> dom \<sigma>" by auto
    then obtain w b where "t = wsym w" "map_of defs t = Some b" using assms(1,3) unfolding stands_ok_def by blast
    moreover obtain body where "r = rec body" "conv \<sigma> (substitute body 1 (rec body)) b"
      using assms(2) calculation(2) conv_sym unfolding defined_ok_def by (metis option.inject)
    ultimately show ?thesis using Suc.IH by simp
  next
    case (conv_node nd rs ts)
    then have "isRec r = None" "isSymRef t = None" by (auto simp: is_db_def isSymRef_def isTree1_def split: list.splits)
    moreover have "map (unroll_sym n defs) ts = map (unroll n) rs"
      using conv_node(5) Suc.IH by (auto simp: list_all2_conv_all_nth intro: nth_equalityI)
    ultimately show ?thesis using conv_node by simp
  qed
qed simp

section \<open>The conversion\<close>

definition d2s_inv :: "standsfor \<Rightarrow> d2s \<Rightarrow> bool" where
  "d2s_inv \<sigma> st \<longleftrightarrow> sym_inv (ds_syms st) \<and> stands_ok \<sigma> \<and> (\<forall>w. wsym w \<in> dom \<sigma> \<longrightarrow> w \<in> known (ds_syms st)) \<and>
     defined_ok \<sigma> (ds_defs st) \<and>
     (\<forall>t t2. ds_memo st t = Some t2 \<longrightarrow> symrefs t \<subseteq> dom \<sigma> \<and> conv \<sigma> (resolve \<sigma> t) t2)"

text \<open>
  One call: the symbols introduced before keep their meaning, those it introduces are defined when it
  returns, and room for \<open>k\<close> more names is left.
\<close>

definition advance :: "nat \<Rightarrow> nat \<Rightarrow> standsfor \<Rightarrow> d2s \<Rightarrow> standsfor \<Rightarrow> d2s \<Rightarrow> bool" where
  "advance p k \<sigma> st \<tau> st1 \<longleftrightarrow> d2s_inv \<tau> st1 \<and> \<sigma> \<subseteq>\<^sub>m \<tau> \<and> map_of (ds_defs st) \<subseteq>\<^sub>m map_of (ds_defs st1) \<and>
     dom \<tau> - dom (map_of (ds_defs st1)) = dom \<sigma> - dom (map_of (ds_defs st)) \<and> room p ''W'' (ds_syms st1) k"

definition ready :: "nat \<Rightarrow> nat \<Rightarrow> standsfor \<Rightarrow> d2s \<Rightarrow> tree list \<Rightarrow> bool" where
  "ready p k \<sigma> st ts \<longleftrightarrow> d2s_inv \<sigma> st \<and> room p ''W'' (ds_syms st) (sum_list (map recs ts) + k) \<and>
     (\<forall>t \<in> set ts. db_wf t \<and> isClosed t \<and> symrefs t \<subseteq> dom \<sigma>)"

definition converts :: "nat \<Rightarrow> tree \<Rightarrow> bool" where
  "converts p t \<longleftrightarrow> (\<forall>\<sigma> st k. ready p k \<sigma> st [t] \<longrightarrow> (\<exists>t2 st1 \<tau>. deBruijn2Sym p t st = Inr (t2, st1) \<and>
     advance p k \<sigma> st \<tau> st1 \<and> conv \<tau> (resolve \<sigma> t) t2))"

lemma advance_trans: "advance p j \<sigma> st \<tau> st1 \<Longrightarrow> advance p k \<tau> st1 \<upsilon> st2 \<Longrightarrow> advance p k \<sigma> st \<upsilon> st2"
  unfolding advance_def using map_le_trans by blast

lemma mmap_converts:
  "\<forall>t \<in> set ts. converts p t \<Longrightarrow> ready p k \<sigma> st ts \<Longrightarrow> \<exists>us st1 \<tau>. mmap (deBruijn2Sym p) ts st = Inr (us, st1) \<and>
     advance p k \<sigma> st \<tau> st1 \<and> list_all2 (conv \<tau>) (map (resolve \<sigma>) ts) us"
proof (induction ts arbitrary: \<sigma> st)
  case Nil
  then show ?case by (auto simp: ready_def advance_def)
next
  case (Cons t ts)
  have "ready p (sum_list (map recs ts) + k) \<sigma> st [t]" using Cons.prems(2) by (simp add: ready_def add.assoc)
  then obtain u st1 \<tau> where u: "deBruijn2Sym p t st = Inr (u, st1)" "advance p (sum_list (map recs ts) + k) \<sigma> st \<tau> st1"
    "conv \<tau> (resolve \<sigma> t) u"
    using Cons.prems(1) unfolding converts_def by force
  have le: "\<sigma> \<subseteq>\<^sub>m \<tau>" and inv: "stands_ok \<sigma>" "stands_ok \<tau>"
    using u(2) Cons.prems(2) by (auto simp: advance_def ready_def d2s_inv_def)
  have "ready p k \<tau> st1 ts"
    using u(2) Cons.prems(2) map_le_implies_dom_le [OF le] unfolding ready_def advance_def
    by (meson list.set_intros(2) order_trans)
  then obtain us st2 \<upsilon> where us: "mmap (deBruijn2Sym p) ts st1 = Inr (us, st2)" "advance p k \<tau> st1 \<upsilon> st2"
    "list_all2 (conv \<upsilon>) (map (resolve \<tau>) ts) us"
    using Cons.IH Cons.prems(1) by fastforce
  have "map (resolve \<tau>) ts = map (resolve \<sigma>) ts"
    using resolve_mono [OF inv le] Cons.prems(2) by (auto simp: ready_def)
  moreover have "conv \<upsilon> (resolve \<sigma> t) u" using conv_mono [OF u(3)] us(2) by (simp add: advance_def)
  ultimately have "list_all2 (conv \<upsilon>) (map (resolve \<sigma>) (t # ts)) (u # us)" using us(3) by (simp del: map_eq_conv)
  moreover have "mmap (deBruijn2Sym p) (t # ts) st = Inr (u # us, st2)" using u(1) us(1) by (simp add: mbind_def)
  ultimately show ?case using advance_trans [OF u(2) us(2)] by blast
qed

lemma store_memo:
  assumes "advance p k \<sigma> st \<tau> st1" "conv \<tau> (resolve \<sigma> t) t2" "stands_ok \<sigma>" "symrefs t \<subseteq> dom \<sigma>"
  shows "advance p k \<sigma> st \<tau> (st1\<lparr>ds_memo := (ds_memo st1)(t \<mapsto> t2)\<rparr>)"
proof -
  have inv: "d2s_inv \<tau> st1" "\<sigma> \<subseteq>\<^sub>m \<tau>" using assms(1) by (simp_all add: advance_def)
  then have "stands_ok \<tau>" unfolding d2s_inv_def by blast
  then have "resolve \<tau> t = resolve \<sigma> t" using resolve_mono [OF assms(3) _ inv(2) assms(4)] by blast
  moreover have "symrefs t \<subseteq> dom \<tau>" using assms(4) map_le_implies_dom_le [OF inv(2)] by blast
  ultimately have "d2s_inv \<tau> (st1\<lparr>ds_memo := (ds_memo st1)(t \<mapsto> t2)\<rparr>)"
    using inv(1) assms(2) unfolding d2s_inv_def by (auto split: if_splits)
  then show ?thesis using assms(1) by (simp add: advance_def)
qed

lemma deBruijn2Sym_node:
  assumes "ready p k \<sigma> st [Tree n br]" "\<not> is_db n" "\<forall>b \<in> set br. converts p b"
  shows "\<exists>t2 st1 \<tau>. (if n = NSym (KTree SYMREC) then Inr (Tree n br, st)
      else rbind (mmap (deBruijn2Sym p) br st) (\<lambda>(br, st1). Inr (Tree n br, st1))) = Inr (t2, st1) \<and>
    advance p k \<sigma> st \<tau> st1 \<and> conv \<tau> (resolve \<sigma> (Tree n br)) t2"
proof -
  have inv: "d2s_inv \<sigma> st" "stands_ok \<sigma>" "symrefs (Tree n br) \<subseteq> dom \<sigma>"
    "room p ''W'' (ds_syms st) (recs (Tree n br) + k)" "db_wf (Tree n br)" "free_refs (Tree n br) = {}"
    using assms(1) isClosed_iff [of "Tree n br"] unfolding ready_def d2s_inv_def by auto
  have nd: "n \<noteq> NSym (KTree DEBRUIJNREF)" "n \<noteq> NSym (KTree DEBRUIJN)" using assms(2) by (auto simp: is_db_def)
  from inv(2,3) show ?thesis
  proof (cases rule: resolve_cases)
    case (sym w r)
    have "advance p k \<sigma> st \<sigma> st" using inv(1) room_less [OF inv(4)] by (simp add: advance_def)
    moreover have "conv \<sigma> (resolve \<sigma> (Tree n br)) (Tree n br)"
      using sym resolve_simps(4) [OF inv(2) sym(3)] conv_sym [of \<sigma> "wsym w" r, OF sym(3)] by simp
    ultimately show ?thesis using sym(1) by auto
  next
    case node
    have "ready p k \<sigma> st br"
      using inv(1,4,5,6) node(2) nd unfolding ready_def by (auto simp: recs.simps isClosed_iff)
    from mmap_converts [OF assms(3) this] obtain us st1 \<tau> where
      us: "mmap (deBruijn2Sym p) br st = Inr (us, st1)" "advance p k \<sigma> st \<tau> st1" "list_all2 (conv \<tau>) (map (resolve \<sigma>) br) us"
      by blast
    from conv_node [OF assms(2) node(1) us(3)] have "conv \<tau> (resolve \<sigma> (Tree n br)) (Tree n us)"
      using resolve_simps(3) [OF inv(2) node(1)] by simp
    with us(1,2) node(1) show ?thesis by auto
  qed
qed

lemma introduce_symbol:
  assumes "d2s_inv \<sigma> st" "unique_name p ''W'' (ds_syms st) = Inr (w, syms)" "db_wf (rec body)"
    "free_refs (rec body) = {}" "symrefs body \<subseteq> dom \<sigma>"
  shows "wsym w \<notin> dom \<sigma>" "d2s_inv (\<sigma>(wsym w \<mapsto> rec (resolve \<sigma> body))) (st\<lparr>ds_syms := syms\<rparr>)"
proof -
  let ?r = "rec (resolve \<sigma> body)"
  have so: "stands_ok \<sigma>" and si: "sym_inv (ds_syms st)" using assms(1) unfolding d2s_inv_def by blast+
  have "short ''W''" by (simp add: short_def printable_def schar_def)
  note u = unique_name_fresh [OF si this assms(2)]
  then show new: "wsym w \<notin> dom \<sigma>" using assms(1) unfolding d2s_inv_def by blast
  then have le: "\<sigma> \<subseteq>\<^sub>m \<sigma>(wsym w \<mapsto> ?r)" by (auto simp: map_le_def)
  have "db_wf (resolve \<sigma> body) \<and> free_refs ?r = {} \<and> symrefs ?r = {}"
    using resolve_ok [OF so, of "rec body"] assms(3-5) resolve_simps(1) [OF so] by simp
  then have so1: "stands_ok (\<sigma>(wsym w \<mapsto> ?r))" using so new by (auto simp: stands_ok_def ran_def)
  have "defined_ok (\<sigma>(wsym w \<mapsto> ?r)) (ds_defs st)"
    unfolding defined_ok_def
  proof (intro allI impI)
    fix s b assume "map_of (ds_defs st) s = Some b"
    then obtain bo where "\<sigma> s = Some (rec bo)" "conv \<sigma> (substitute bo 1 (rec bo)) b"
      using assms(1) unfolding d2s_inv_def defined_ok_def by blast
    moreover from this new have "(\<sigma>(wsym w \<mapsto> ?r)) s = Some (rec bo)" by auto
    ultimately show "\<exists>bo. (\<sigma>(wsym w \<mapsto> ?r)) s = Some (rec bo) \<and> conv (\<sigma>(wsym w \<mapsto> ?r)) (substitute bo 1 (rec bo)) b"
      using conv_mono [OF _ le] by blast
  qed
  moreover have "symrefs t \<subseteq> dom (\<sigma>(wsym w \<mapsto> ?r)) \<and> conv (\<sigma>(wsym w \<mapsto> ?r)) (resolve (\<sigma>(wsym w \<mapsto> ?r)) t) t2"
    if "ds_memo st t = Some t2" for t t2
  proof -
    have t: "symrefs t \<subseteq> dom \<sigma>" "conv \<sigma> (resolve \<sigma> t) t2" using assms(1) that unfolding d2s_inv_def by blast+
    have "resolve (\<sigma>(wsym w \<mapsto> ?r)) t = resolve \<sigma> t" by (rule resolve_mono [OF so so1 le t(1)])
    then show ?thesis using conv_mono [OF t(2) le] t(1) by auto
  qed
  ultimately show "d2s_inv (\<sigma>(wsym w \<mapsto> ?r)) (st\<lparr>ds_syms := syms\<rparr>)"
    using u so1 assms(1) unfolding d2s_inv_def by (auto simp del: fun_upd_apply)
qed

lemma define_symbol:
  assumes inv: "d2s_inv \<sigma> st" and adv: "advance p k (\<sigma>(wsym w \<mapsto> rec B)) st0 \<tau> st1" and st0: "ds_defs st0 = ds_defs st"
    and new: "wsym w \<notin> dom \<sigma>" and b: "conv \<tau> (substitute B 1 (rec B)) b"
  shows "advance p k \<sigma> st \<tau> (st1\<lparr>ds_defs := (wsym w, b) # ds_defs st1\<rparr>)" "\<tau> (wsym w) = Some (rec B)"
proof -
  let ?st2 = "st1\<lparr>ds_defs := (wsym w, b) # ds_defs st1\<rparr>"
  have a: "d2s_inv \<tau> st1" "\<sigma>(wsym w \<mapsto> rec B) \<subseteq>\<^sub>m \<tau>" "map_of (ds_defs st) \<subseteq>\<^sub>m map_of (ds_defs st1)"
    "dom \<tau> - dom (map_of (ds_defs st1)) = insert (wsym w) (dom \<sigma>) - dom (map_of (ds_defs st))"
    "room p ''W'' (ds_syms st1) k"
    using adv st0 unfolding advance_def by auto
  show w: "\<tau> (wsym w) = Some (rec B)" using a(2) by (auto simp: map_le_def)
  have sub: "dom (map_of (ds_defs st)) \<subseteq> dom \<sigma>" using inv unfolding d2s_inv_def defined_ok_def by blast
  have "\<sigma> \<subseteq>\<^sub>m \<sigma>(wsym w \<mapsto> rec B)" using new by (auto simp: map_le_def)
  then have "\<sigma> \<subseteq>\<^sub>m \<tau>" using a(2) by (rule map_le_trans)
  moreover have "d2s_inv \<tau> ?st2"
    using a(1) w b unfolding d2s_inv_def defined_ok_def by (auto split: if_splits)
  moreover have "map_of (ds_defs st) \<subseteq>\<^sub>m map_of (ds_defs ?st2)"
    using a(3) sub new by (auto simp: map_le_def split: if_splits)
  moreover have "dom \<tau> - dom (map_of (ds_defs ?st2)) = dom \<sigma> - dom (map_of (ds_defs st))"
  proof -
    have "dom \<tau> - dom (map_of (ds_defs ?st2)) = (dom \<tau> - dom (map_of (ds_defs st1))) - {wsym w}" by auto
    also have "\<dots> = dom \<sigma> - dom (map_of (ds_defs st))" unfolding a(4) using new by blast
    finally show ?thesis .
  qed
  ultimately show "advance p k \<sigma> st \<tau> ?st2" using a(5) by (simp add: advance_def)
qed

lemma deBruijn2Sym_rec:
  assumes "ready p k \<sigma> st [rec body]" and IH: "\<And>w. converts p (substitute body 1 (wsym w))"
  shows "\<exists>t2 st1 \<tau>. rbind (unique_name p ''W'' (ds_syms st)) (\<lambda>(w, syms).
      rbind (deBruijn2Sym p (substitute body 1 (wsym w)) (st\<lparr>ds_syms := syms\<rparr>)) (\<lambda>(b, st1).
        Inr (recSym (W_leaf w) b st1))) = Inr (t2, st1) \<and>
    advance p k \<sigma> st \<tau> st1 \<and> conv \<tau> (resolve \<sigma> (rec body)) t2"
proof -
  have inv: "d2s_inv \<sigma> st" "stands_ok \<sigma>" "sym_inv (ds_syms st)" "symrefs body \<subseteq> dom \<sigma>" "db_wf (rec body)"
    "free_refs (rec body) = {}" "room p ''W'' (ds_syms st) (Suc (recs body + k))"
    using assms(1) isClosed_iff [of "rec body"] unfolding ready_def d2s_inv_def by auto
  have W: "short ''W''" by (simp add: short_def printable_def schar_def)
  obtain w syms where u: "unique_name p ''W'' (ds_syms st) = Inr (w, syms)" "room p ''W'' syms (recs body + k)"
    using unique_name_room [OF inv(3) W inv(7)] by blast
  define B \<tau>0 st0 where "B = resolve \<sigma> body" and "\<tau>0 = \<sigma>(wsym w \<mapsto> rec B)" and "st0 = st\<lparr>ds_syms := syms\<rparr>"
  note new = introduce_symbol [OF inv(1) u(1) inv(5,6,4), folded B_def, folded \<tau>0_def st0_def]
  have so: "stands_ok \<tau>0" and le: "\<sigma> \<subseteq>\<^sub>m \<tau>0" and rng: "symrefs body \<subseteq> range wsym"
    using new inv(2,4) unfolding d2s_inv_def stands_ok_def by (auto simp: \<tau>0_def map_le_def)
  have "free_refs body - {1} = {}" using inv(5,6) free_refs_pos [of body]
    by (force dest: spec [of _ "x - 1" for x])
  then have "ready p k \<tau>0 st0 [substitute body 1 (wsym w)]"
    using new(2) u(2) inv(4,5) symrefs_substitute [OF _ rng, of 1 w] unfolding ready_def
    by (auto simp: recs_substitute substitute_wf isClosed_iff substitute_free_refs_gen st0_def \<tau>0_def)
  then obtain b st1 \<tau> where b: "deBruijn2Sym p (substitute body 1 (wsym w)) st0 = Inr (b, st1)"
    "advance p k \<tau>0 st0 \<tau> st1" "conv \<tau> (resolve \<tau>0 (substitute body 1 (wsym w))) b"
    using IH unfolding converts_def by blast
  have "resolve \<tau>0 (substitute body 1 (wsym w)) = substitute B 1 (rec B)"
    unfolding B_def using inv(4,5) by (intro resolve_substitute [OF inv(2) so le]) (simp_all add: \<tau>0_def B_def)
  with b(3) have "conv \<tau> (substitute B 1 (rec B)) b" by simp
  note d = define_symbol [OF inv(1) b(2) [unfolded \<tau>0_def] _ new(1) this]
  have "resolve \<sigma> (rec body) = rec B" by (simp add: resolve_simps(1) [OF inv(2)] B_def)
  moreover have "conv \<tau> (rec B) (wsym w)" by (rule conv_sym) (rule d(2), simp add: st0_def)
  moreover have "recSym (W_leaf w) b st1 = (wsym w, st1\<lparr>ds_defs := (wsym w, b) # ds_defs st1\<rparr>)" by (simp add: recSym_def)
  ultimately show ?thesis using u(1) b(1) d(1) by (auto simp: st0_def)
qed

lemma deBruijn2Sym_converts: "converts p t"
proof (induction t rule: measure_induct_rule [where f = size])
  case (less t)
  show ?case unfolding converts_def
  proof (intro allI impI)
    fix \<sigma> st k assume r: "ready p k \<sigma> st [t]"
    then have t: "d2s_inv \<sigma> st" "stands_ok \<sigma>" "db_wf t" "isClosed t" "symrefs t \<subseteq> dom \<sigma>" "room p ''W'' (ds_syms st) (recs t + k)"
      unfolding ready_def d2s_inv_def by auto
    show "\<exists>t2 st1 \<tau>. deBruijn2Sym p t st = Inr (t2, st1) \<and> advance p k \<sigma> st \<tau> st1 \<and> conv \<tau> (resolve \<sigma> t) t2"
    proof (cases "ds_memo st t")
      case (Some t2)
      then have "conv \<sigma> (resolve \<sigma> t) t2" using t(1) unfolding d2s_inv_def by blast
      moreover have "advance p k \<sigma> st \<sigma> st" using t(1) room_less [OF t(6)] by (simp add: advance_def)
      ultimately show ?thesis using Some t(4) by (auto simp: deBruijn2Sym.simps [of p t])
    next
      case None
      have "\<exists>t2 st1 \<tau>. (case isRec t of
           Some body \<Rightarrow> rbind (unique_name p ''W'' (ds_syms st)) (\<lambda>(w, syms).
             rbind (deBruijn2Sym p (substitute body 1 (symref (W_leaf w))) (st\<lparr>ds_syms := syms\<rparr>)) (\<lambda>(b, st1).
               Inr (recSym (W_leaf w) b st1)))
         | None \<Rightarrow> if isSymRef t \<noteq> None then Inr (t, st)
             else if isRef t \<noteq> None then Inl (FaustException ''one Bruijn reference found'')
             else rbind (mmap (deBruijn2Sym p) (branches t) st) (\<lambda>(br, st1). Inr (Tree (node t) br, st1))) = Inr (t2, st1) \<and>
          advance p k \<sigma> st \<tau> st1 \<and> conv \<tau> (resolve \<sigma> t) t2" (is "\<exists>t2 st1 \<tau>. ?c = Inr (t2, st1) \<and> _")
        using t(3)
      proof (cases rule: db_wf_cases)
        case (ref n)
        then show ?thesis using t(4) by (simp add: isClosed_def)
      next
        case (rec u)
        have "converts p (substitute u 1 (wsym w))" for w
          using substitute_size [of "wsym w" u 1] rec(1) by (intro less.IH) (simp add: symref_size rec_def)
        from deBruijn2Sym_rec [OF r [unfolded rec(1)] this] show ?thesis by (simp add: rec(1))
      next
        case (node n br)
        have "\<forall>b \<in> set br. converts p b" using less.IH size_branch [of _ t] node(1) by simp
        moreover have "\<not> is_db n" using node by (simp add: is_db_def)
        moreover have "n = NSym (KTree SYMREC) \<longleftrightarrow> isSymRef t \<noteq> None"
        proof
          assume "n = NSym (KTree SYMREC)"
          then obtain w where "t = wsym w" using symrefs_node(2) [of n br] node(1) t(2,5)
            unfolding stands_ok_def by (metis order_trans)
          then show "isSymRef t \<noteq> None" by simp
        qed (use node(1) in \<open>auto simp: isSymRef_Some symref_def\<close>)
        ultimately show ?thesis
          using deBruijn2Sym_node [OF r [unfolded node(1)]] node by (simp split: if_splits)
      qed
      then obtain t2 st1 \<tau> where c: "?c = Inr (t2, st1)" "advance p k \<sigma> st \<tau> st1" "conv \<tau> (resolve \<sigma> t) t2" by blast
      then have "deBruijn2Sym p t st = Inr (t2, st1\<lparr>ds_memo := (ds_memo st1)(t \<mapsto> t2)\<rparr>)"
        using None t(4) by (simp add: deBruijn2Sym.simps [of p t])
      with store_memo [OF c(2,3) t(2,5)] c(3) show ?thesis by blast
    qed
  qed
qed

definition d2s_ok :: "d2s \<Rightarrow> bool" where
  "d2s_ok st \<longleftrightarrow> (\<exists>\<sigma>. d2s_inv \<sigma> st \<and> dom \<sigma> = dom (map_of (ds_defs st)))"

definition d2s_init :: d2s where
  "d2s_init = \<lparr>ds_syms = symInit, ds_defs = [], ds_memo = Map.empty\<rparr>"

lemma d2s_ok_init: "d2s_ok d2s_init"
  using symtab_reachable_inv [OF symtab_reachable.start]
  by (auto simp: d2s_ok_def d2s_init_def d2s_inv_def stands_ok_def defined_ok_def intro!: exI [of _ Map.empty])

lemma deBruijn2Sym_sound:
  assumes "d2s_ok st" "db_wf t" "isClosed t" "symrefs t = {}" "room p ''W'' (ds_syms st) (recs t)"
  shows "\<exists>t2 st1. deBruijn2Sym p t st = Inr (t2, st1) \<and> d2s_ok st1 \<and>
    (\<forall>n. unroll_sym n (ds_defs st1) t2 = unroll n t) \<and>
    db_free t2 \<and> symrefs t2 \<subseteq> dom (map_of (ds_defs st1)) \<and> map_of (ds_defs st) \<subseteq>\<^sub>m map_of (ds_defs st1)"
proof -
  obtain \<sigma> where s: "d2s_inv \<sigma> st" "stands_ok \<sigma>" "dom \<sigma> = dom (map_of (ds_defs st))"
    using assms(1) unfolding d2s_ok_def d2s_inv_def by blast
  have "ready p 0 \<sigma> st [t]" using s(1) assms by (simp add: ready_def)
  then obtain t2 st1 \<tau> where c: "deBruijn2Sym p t st = Inr (t2, st1)" "advance p 0 \<sigma> st \<tau> st1" "conv \<tau> (resolve \<sigma> t) t2"
    using deBruijn2Sym_converts unfolding converts_def by blast
  have a: "d2s_inv \<tau> st1" "stands_ok \<tau>" "defined_ok \<tau> (ds_defs st1)" "map_of (ds_defs st) \<subseteq>\<^sub>m map_of (ds_defs st1)"
    "dom \<tau> - dom (map_of (ds_defs st1)) = {}"
    using c(2) s(3) unfolding advance_def d2s_inv_def by auto
  then have d: "dom \<tau> = dom (map_of (ds_defs st1))" unfolding defined_ok_def by blast
  have "conv \<tau> t t2" using c(3) resolve_empty [OF assms(4) s(2)] by simp
  with conv_unroll [OF a(2,3)] conv_result [OF _ a(2)] d have
    "\<forall>n. unroll_sym n (ds_defs st1) t2 = unroll n t" "db_free t2" "symrefs t2 \<subseteq> dom (map_of (ds_defs st1))" by auto
  with c(1) a(1,4) d show ?thesis unfolding d2s_ok_def by blast
qed

section \<open>Apertures of trees in symbolic notation\<close>

text \<open>
  The aperture field of the trees is the state; the environment of the enclosing recursive
  definitions is a list.  \<^verbatim>\<open>recomputeAperture\<close> tests \<^verbatim>\<open>isRef\<close> before \<^verbatim>\<open>isRec\<close>, which recognise the same trees.
\<close>

function markOpen :: "tree \<Rightarrow> (tree \<Rightarrow> int) \<Rightarrow> (tree \<Rightarrow> int)" where
  "markOpen t ap = (if ap t = int_max then ap
     else fold markOpen (branches t) (ap(t := int_max)))"
  by pat_completeness auto
termination
  by (relation "measure (\<lambda>(t, ap). size t)") (auto intro: size_branch)

fun order_from :: "tree \<Rightarrow> tree list \<Rightarrow> int \<Rightarrow> int" where
  "order_from t [] pos = 0"
| "order_from t (e # p) pos = (if t = e then pos else order_from t p (pos + 1))"

definition orderof :: "tree \<Rightarrow> tree list \<Rightarrow> int" where
  "orderof t p = (case p of [] \<Rightarrow> 0 | e # _ \<Rightarrow> if t = e then 1 else order_from t p 1)"

fun max_aperture :: "(tree \<Rightarrow> (tree \<Rightarrow> int) \<Rightarrow> int \<times> (tree \<Rightarrow> int)) \<Rightarrow> tree list \<Rightarrow> int \<Rightarrow> (tree \<Rightarrow> int) \<Rightarrow> int \<times> (tree \<Rightarrow> int)" where
  "max_aperture f [] ma ap = (ma, ap)"
| "max_aperture f (b # bs) ma ap = (let (a, ap1) = f b ap in max_aperture f bs (if ma < a then a else ma) ap1)"

lemma max_aperture_cong [fundef_cong]:
  "xs = ys \<Longrightarrow> ma = mb \<Longrightarrow> ap = ap' \<Longrightarrow> (\<And>x ap. x \<in> set ys \<Longrightarrow> f x ap = g x ap) \<Longrightarrow>
   max_aperture f xs ma ap = max_aperture g ys mb ap'"
  by (induction xs arbitrary: ys ma mb ap ap') (auto split: prod.splits)

function recomputeAperture :: "recdefs \<Rightarrow> tree list \<Rightarrow> tree \<Rightarrow> (tree \<Rightarrow> int) \<Rightarrow> int \<times> (tree \<Rightarrow> int)" where
  "recomputeAperture defs env t ap = (if ap t = 0 then (0, ap)
     else case isSymRef t of
       Some var \<Rightarrow> (orderof var env, ap)
     | None \<Rightarrow> (case isSymRef t of
         Some var \<Rightarrow> (case map_of defs t of
             Some body \<Rightarrow> (let (b, ap1) = recomputeAperture defs (var # env) body ap; a = b - 1 in
               (a, if a \<le> 0 then ap1(t := 0) else ap1))
           | None \<Rightarrow> (0, ap))
       | None \<Rightarrow> (let (ma, ap1) = max_aperture (recomputeAperture defs env) (branches t) 0 ap in
           (ma, if ma \<le> 0 then ap1(t := 0) else ap1))))"
  by pat_completeness auto
termination
  by (relation "measure (\<lambda>(defs, env, t, ap). size t)") (auto intro: size_branch)

declare markOpen.simps [simp del] recomputeAperture.simps [simp del]

definition updateAperture :: "recdefs \<Rightarrow> tree \<Rightarrow> (tree \<Rightarrow> int) \<Rightarrow> (tree \<Rightarrow> int)" where
  "updateAperture defs t ap = snd (recomputeAperture defs [] t (markOpen t ap))"

text \<open>The subtrees that are not inside a symbol.\<close>

fun outside :: "tree \<Rightarrow> tree set" where
  "outside t = (if isSymRef t \<noteq> None then {} else insert t (\<Union>b \<in> set (branches t). outside b))"

declare outside.simps [simp del]

definition set_all :: "int \<Rightarrow> tree set \<Rightarrow> (tree \<Rightarrow> int) \<Rightarrow> (tree \<Rightarrow> int)" where
  "set_all v S ap = (\<lambda>s. if s \<in> S then v else ap s)"

definition closed_under :: "(tree \<Rightarrow> tree set) \<Rightarrow> int \<Rightarrow> tree \<Rightarrow> (tree \<Rightarrow> int) \<Rightarrow> bool" where
  "closed_under part v t ap \<longleftrightarrow> (\<forall>s \<in> part t. ap s = v \<longrightarrow> (\<forall>u \<in> part s. ap u = v))"

lemma set_all_simps [simp]:
  "set_all v {} ap = ap" "set_all v S (set_all v S' ap) = set_all v (S' \<union> S) ap" "(set_all v S ap)(t := v) = set_all v (insert t S) ap"
  by (auto simp: set_all_def fun_eq_iff)

lemma set_all_id: "\<forall>s \<in> S. ap s = v \<Longrightarrow> set_all v S ap = ap"
  by (auto simp: set_all_def fun_eq_iff)

lemma closed_under_set_all:
  assumes "closed_under part v t ap" "\<And>s u. s \<in> part b \<Longrightarrow> u \<in> part s \<Longrightarrow> u \<in> part b"
  shows "closed_under part v t (set_all v (part b) ap)"
  using assms unfolding closed_under_def set_all_def by (auto split: if_splits)

lemma closed_under_part: "closed_under part v t ap \<Longrightarrow> part b \<subseteq> part t \<Longrightarrow> closed_under part v b ap"
  unfolding closed_under_def by blast

lemma closed_under_upd: "closed_under part v b ap \<Longrightarrow> t \<notin> part b \<Longrightarrow> closed_under part v b (ap(t := v))"
  unfolding closed_under_def by auto

lemma subtrees_unfold: "set (subtrees t) = insert t (\<Union>b \<in> set (branches t). set (subtrees b))"
  by (subst subtrees.simps) simp

lemma outside_trans: "s \<in> outside t \<Longrightarrow> u \<in> outside s \<Longrightarrow> u \<in> outside t"
proof (induction t rule: outside.induct)
  case (1 t)
  then show ?case by (auto simp: outside.simps [of t] split: if_splits)
qed

lemma markOpen_spec:
  "closed_under (\<lambda>t. set (subtrees t)) int_max t ap \<Longrightarrow> markOpen t ap = set_all int_max (set (subtrees t)) ap"
proof (induction t arbitrary: ap rule: measure_induct_rule [where f = size])
  case (less t)
  let ?part = "\<lambda>t. set (subtrees t)"
  show ?case
  proof (cases "ap t = int_max")
    case True
    then have "\<forall>s \<in> ?part t. ap s = int_max" using less.prems subtrees_self by (auto simp: closed_under_def)
    with True show ?thesis by (simp add: markOpen.simps [of t] set_all_id)
  next
    case False
    have f: "fold markOpen bs ap = set_all int_max (\<Union>b \<in> set bs. ?part b) ap"
      if "set bs \<subseteq> set (branches t)" "\<forall>b \<in> set (branches t). closed_under ?part int_max b ap" for bs ap
      using that
    proof (induction bs arbitrary: ap)
      case (Cons b bs)
      have m: "markOpen b ap = set_all int_max (?part b) ap" using less.IH size_branch Cons.prems by simp
      have "\<forall>c \<in> set (branches t). closed_under ?part int_max c (set_all int_max (?part b) ap)"
        using Cons.prems subtrees_trans by (blast intro: closed_under_set_all)
      then show ?case using Cons.IH Cons.prems(1) by (simp add: m)
    qed simp
    have "t \<notin> ?part b" if "b \<in> set (branches t)" for b using subtrees_size [of t b] size_branch [OF that] by fastforce
    then have "\<forall>b \<in> set (branches t). closed_under ?part int_max b (ap(t := int_max))"
      using closed_under_part [OF less.prems] by (intro ballI closed_under_upd) (auto simp: subtrees_unfold [of t])
    then have "fold markOpen (branches t) (ap(t := int_max)) = set_all int_max (\<Union>b \<in> set (branches t). ?part b) (ap(t := int_max))"
      using f by blast
    then show ?thesis using False by (auto simp: markOpen.simps [of t] subtrees_unfold [of t] set_all_def fun_eq_iff)
  qed
qed

lemma recomputeAperture_spec:
  "closed_under outside 0 t ap \<Longrightarrow> recomputeAperture defs [] t ap = (0, set_all 0 (outside t) ap)"
proof (induction t arbitrary: ap rule: measure_induct_rule [where f = size])
  case (less t)
  show ?case
  proof (cases "ap t = 0")
    case True
    then have "\<forall>s \<in> outside t. ap s = 0" using less.prems by (auto simp: closed_under_def outside.simps [of t])
    with True show ?thesis by (simp add: recomputeAperture.simps [of _ _ t] set_all_id)
  next
    case False
    show ?thesis
    proof (cases "isSymRef t")
      case (Some v)
      with False show ?thesis by (simp add: recomputeAperture.simps [of _ _ t] orderof_def outside.simps [of t])
    next
      case None
      have f: "max_aperture (recomputeAperture defs []) bs 0 ap = (0, set_all 0 (\<Union>b \<in> set bs. outside b) ap)"
        if "set bs \<subseteq> set (branches t)" "\<forall>b \<in> set (branches t). closed_under outside 0 b ap" for bs ap
        using that
      proof (induction bs arbitrary: ap)
        case (Cons b bs)
        have m: "recomputeAperture defs [] b ap = (0, set_all 0 (outside b) ap)" using less.IH size_branch Cons.prems by simp
        have "\<forall>c \<in> set (branches t). closed_under outside 0 c (set_all 0 (outside b) ap)"
          using Cons.prems outside_trans by (blast intro: closed_under_set_all)
        then show ?case using Cons.IH Cons.prems(1) by (simp add: m)
      qed simp
      have "\<forall>b \<in> set (branches t). closed_under outside 0 b ap"
        using None by (intro ballI closed_under_part [OF less.prems]) (auto simp: outside.simps [of t])
      then show ?thesis using f [of "branches t" ap] None False
        by (simp add: recomputeAperture.simps [of _ _ t] outside.simps [of t])
    qed
  qed
qed

lemma outside_subtrees: "outside t \<subseteq> set (subtrees t)"
proof (induction t rule: outside.induct)
  case (1 t)
  then show ?case by (auto simp: outside.simps [of t] subtrees_unfold [of t] split: if_splits)
qed

section \<open>Properties\<close>

text \<open>
  Property C7 (conversion to symbolic recursion).  On a closed well-formed tree without symbols,
  when enough names are left, \<^verbatim>\<open>deBruijn2Sym\<close> returns a tree that unrolls, with the definitions it has
  set, to the same tree as its argument to every depth.  The result has no de Bruijn node, all its
  symbols are defined, the definitions set before are kept, and the state is again one in which
  this holds, so that stored conversions are used correctly by later calls.
\<close>

theorem deBruijn2Sym_correct:
  assumes "d2s_ok st" "db_wf t" "isClosed t" "symrefs t = {}" "room p ''W'' (ds_syms st) (recs t)"
  shows "\<exists>t2 st1. deBruijn2Sym p t st = Inr (t2, st1) \<and> d2s_ok st1 \<and>
    (\<forall>n. unroll_sym n (ds_defs st1) t2 = unroll n t) \<and>
    db_free t2 \<and> symrefs t2 \<subseteq> dom (map_of (ds_defs st1)) \<and> map_of (ds_defs st) \<subseteq>\<^sub>m map_of (ds_defs st1)"
  using assms by (rule deBruijn2Sym_sound)

theorem deBruijn2Sym_correct_witness:
  "\<exists>t2 st1. deBruijn2Sym 0 (rec (cons (ref 1) nil)) d2s_init = Inr (t2, st1) \<and>
     unroll_sym 9 (ds_defs st1) t2 = unroll 9 (rec (cons (ref 1) nil))"
proof -
  let ?t = "rec (cons (ref 1) nil)"
  have "db_wf ?t" "isClosed ?t" "symrefs ?t = {}" "recs ?t = 1"
    by (simp_all add: isClosed_def cons_def nil_def leaf_def symrefs.simps recs.simps)
  moreover have "room 0 ''W'' (ds_syms d2s_init) 1"
    by (simp add: room_def d2s_init_def symInit_def known_def sym_name_def)
  ultimately show ?thesis using deBruijn2Sym_correct [OF d2s_ok_init, of ?t 0] by auto
qed

text \<open>
  Property C26 (apertures in symbolic notation).  \<^verbatim>\<open>updateAperture\<close> sets the aperture of every subtree
  outside of the recursive symbols to zero, as for closed trees.  The symbols themselves, and what
  occurs inside of them only, stay marked as open: the branch for recursive definitions is never
  reached, so the body of a definition is never visited and no symbol is found to be closed.
\<close>

theorem updateAperture_leaves_symbols_open:
  assumes "\<forall>s \<in> set (subtrees t). ap s \<noteq> int_max"
  shows "updateAperture defs t ap s =
    (if s \<in> outside t then 0 else if s \<in> set (subtrees t) then int_max else ap s)"
proof -
  have m: "markOpen t ap = set_all int_max (set (subtrees t)) ap"
    using assms by (intro markOpen_spec) (auto simp: closed_under_def)
  have "closed_under outside 0 t (markOpen t ap)"
    using outside_subtrees by (auto simp: m closed_under_def set_all_def int_max_def)
  from recomputeAperture_spec [OF this] show ?thesis
    using outside_subtrees by (auto simp: updateAperture_def m set_all_def)
qed

theorem updateAperture_leaves_symbols_open_witness:
  "updateAperture [(sym_W, nil)] sym_W (\<lambda>_. 0) sym_W = int_max"
proof -
  have "\<forall>s \<in> set (subtrees sym_W). (0 :: int) \<noteq> int_max" by (simp add: int_max_def)
  moreover have "sym_W \<notin> outside sym_W"
    by (subst outside.simps) (simp add: isSymRef_def isTree1_def sym_W_def)
  ultimately show ?thesis using updateAperture_leaves_symbols_open [of sym_W "\<lambda>_. 0"] subtrees_self by simp
qed

end
