(* ===== verification/Simplify.thy ===== *)
theory Simplify
  imports Factoring SymRec
begin

text \<open>
  Simplification of signals (\<^verbatim>\<open>normalize/simplify.cpp\<close>) and the normal form of delays
  (\<^verbatim>\<open>normalizeFixedDelayTerm\<close> of \<^verbatim>\<open>normalize/normalize.cpp\<close>).

  The state of a traversal is the one of \<open>SymRec\<close>: the symbols, the definitions of the recursive
  symbols and the results stored on the trees.  \<open>sigMap\<close> bounds the number of nested calls; the
  function it applies to every tree receives the traversal itself, because the normal form of a
  delay simplifies the sum of two delays.
\<close>

section \<open>Delays\<close>

lemma isSigFixDelay_size: "isSigFixDelay t = Some (x, y) \<Longrightarrow> size x < size t \<and> size y < size t"
  by (auto simp: isSigFixDelay_def isTree_Some)

function normalizeFixedDelayTerm :: "(tree \<Rightarrow> ('s, tree) mm) \<Rightarrow> tree \<Rightarrow> tree \<Rightarrow> ('s, tree) mm" where
  "normalizeFixedDelayTerm smp s d = (if isZero d \<and> isProj s = None then mret s
     else if isZero s then mret s
     else case isSigMul s of
       Some (x, y) \<Rightarrow> mbind (mlift (sig_order x)) (\<lambda>k. if k < 2
           then mbind (normalizeFixedDelayTerm smp y d) (\<lambda>u. mret (sigBinOp kMul x u))
           else mbind (mlift (sig_order y)) (\<lambda>k. if k < 2
             then mbind (normalizeFixedDelayTerm smp x d) (\<lambda>u. mret (sigBinOp kMul y u))
             else mret (sigFixDelay s d)))
     | None \<Rightarrow> (case isSigDiv s of
         Some (x, y) \<Rightarrow> mbind (mlift (sig_order y)) (\<lambda>k. if k < 2
             then mbind (normalizeFixedDelayTerm smp x d) (\<lambda>u. mret (sigBinOp kDiv u y))
             else mret (sigFixDelay s d))
       | None \<Rightarrow> (case isSigFixDelay s of
           Some (x, y) \<Rightarrow> mbind (smp (sigBinOp kAdd d y)) (\<lambda>e. normalizeFixedDelayTerm smp x e)
         | None \<Rightarrow> mret (sigFixDelay s d))))"
  by pat_completeness auto
termination
  by (relation "measure (\<lambda>(_, s, _). size s)")
    (auto simp: isSigMul_def isSigDiv_def is_binop_def dest!: isSigBinOp_size isSigFixDelay_size split: option.splits if_splits)

declare normalizeFixedDelayTerm.simps [simp del]

definition normalizeDelay1Term :: "(tree \<Rightarrow> ('s, tree) mm) \<Rightarrow> tree \<Rightarrow> ('s, tree) mm" where
  "normalizeDelay1Term smp s = normalizeFixedDelayTerm smp s (sigInt 1)"

section \<open>One step\<close>

definition isSigSelect3 :: "tree \<Rightarrow> (tree \<times> tree \<times> tree \<times> tree) option" where
  "isSigSelect3 t = isTree4 t (ssym SIGSELECT3)"

definition simplify_binop :: "address \<Rightarrow> tree \<Rightarrow> int \<Rightarrow> tree \<Rightarrow> tree \<Rightarrow> tree result" where
  "simplify_binop ad sig opnum t1 t2 = (case binop_of opnum of
      None \<Rightarrow> Inl (Undefined ''gBinOpTable'')
    | Some op \<Rightarrow> if isNum t1 \<and> isNum t2 then rbind (compute op (node t1) (node t2)) (\<lambda>n. Inr (leaf n))
        else if isLeftNeutral op (node t1) then Inr t2
        else if isRightNeutral op (node t2) then Inr t1
        else normalizeAddTerm ad sig)"

definition simplify_intcast :: "tree \<Rightarrow> tree \<Rightarrow> tree" where
  "simplify_intcast sig t1 = (case node t1 of
      NInt i \<Rightarrow> t1
    | NDouble x \<Rightarrow> leaf (NInt (int_of_double x))
    | _ \<Rightarrow> if isSigIntCast t1 \<noteq> None then t1 else sig)"

definition simplify_floatcast :: "tree \<Rightarrow> tree \<Rightarrow> tree" where
  "simplify_floatcast sig t1 = (case node t1 of
      NInt i \<Rightarrow> leaf (NDouble (double_of_int i))
    | NDouble x \<Rightarrow> t1
    | _ \<Rightarrow> if isSigFloatCast t1 \<noteq> None then t1 else sig)"

definition simplify_select2 :: "tree \<Rightarrow> tree \<Rightarrow> tree \<Rightarrow> tree \<Rightarrow> tree" where
  "simplify_select2 sig t1 t2 t3 = (if isZero t1 then t2 else if isNum t1 then t3 else if t2 = t3 then t2 else sig)"

definition simplify_select3 :: "tree \<Rightarrow> tree \<Rightarrow> tree \<Rightarrow> tree \<Rightarrow> tree \<Rightarrow> tree" where
  "simplify_select3 sig t1 t2 t3 t4 = (if isZero t1 then t2 else if isOne t1 then t3 else if isNum t1 then t4
     else if t3 = t4 then (case isSigSelect2 (sigSelect2 t1 t2 t3) of
         Some (u1, u2, u3) \<Rightarrow> simplify_select2 (sigSelect2 t1 t2 t3) u1 u2 u3 | None \<Rightarrow> sig)
     else sig)"

definition simplification :: "libm \<Rightarrow> address \<Rightarrow> (tree \<Rightarrow> ('s, tree) mm) \<Rightarrow> tree \<Rightarrow> ('s, tree) mm" where
  "simplification lm ad smp sig = (case getUserData (node sig) of
      Some xt \<Rightarrow> mlift (rbind (computeSigOutput lm xt (branches sig)) (\<lambda>r. if xt \<noteq> XPow then Inr r else normalizeAddTerm ad r))
    | None \<Rightarrow> (case isSigBinOp sig of
      Some (opnum, t1, t2) \<Rightarrow> mlift (simplify_binop ad sig opnum t1 t2)
    | None \<Rightarrow> (case isSigDelay1 sig of
      Some t1 \<Rightarrow> normalizeDelay1Term smp t1
    | None \<Rightarrow> (case isSigFixDelay sig of
      Some (t1, t2) \<Rightarrow> normalizeFixedDelayTerm smp t1 t2
    | None \<Rightarrow> (case isSigIntCast sig of
      Some t1 \<Rightarrow> mret (simplify_intcast sig t1)
    | None \<Rightarrow> (case isSigFloatCast sig of
      Some t1 \<Rightarrow> mret (simplify_floatcast sig t1)
    | None \<Rightarrow> (case isSigSelect2 sig of
      Some (t1, t2, t3) \<Rightarrow> mret (simplify_select2 sig t1 t2 t3)
    | None \<Rightarrow> (case isSigSelect3 sig of
      Some (t1, t2, t3, t4) \<Rightarrow> mret (simplify_select3 sig t1 t2 t3 t4)
    | None \<Rightarrow> mret sig))))))))"

section \<open>Traversals\<close>

definition stored :: "d2s \<Rightarrow> tree \<Rightarrow> tree option" where
  "stored st t = map_option (\<lambda>p. if isNil p then t else p) (ds_memo st t)"

definition set_stored :: "tree \<Rightarrow> tree \<Rightarrow> d2s \<Rightarrow> d2s" where
  "set_stored t r st = st\<lparr>ds_memo := (ds_memo st)(t \<mapsto> (if r = t then nil else r))\<rparr>"

fun sigMap :: "nat \<Rightarrow> ((tree \<Rightarrow> (d2s, tree) mm) \<Rightarrow> tree \<Rightarrow> (d2s, tree) mm) \<Rightarrow> tree \<Rightarrow> (d2s, tree) mm" where
  "sigMap 0 f t st = Inl (Undefined ''nesting'')"
| "sigMap (Suc n) f t st = (case stored st t of
      Some r \<Rightarrow> Inr (r, st)
    | None \<Rightarrow> (case isRecSym t st of
        Some (ident, Some body) \<Rightarrow> rbind (sigMap n f body (set_stored t t st)) (\<lambda>(b, st1). Inr (recSym ident b st1))
      | Some (ident, None) \<Rightarrow> Inl (Undefined ''null definition'')
      | None \<Rightarrow> mbind (mmap (sigMap n f) (branches t)) (\<lambda>br.
          mbind (f (sigMap n f) (Tree (node t) br)) (\<lambda>r2 st1. Inr (r2, set_stored t r2 st1))) st))"

definition simplify :: "nat \<Rightarrow> libm \<Rightarrow> address \<Rightarrow> tree \<Rightarrow> (d2s, tree) mm" where
  "simplify n lm ad sig = sigMap n (simplification lm ad) sig"

fun sigMapRename :: "nat \<Rightarrow> nat \<Rightarrow> tree \<Rightarrow> (tree \<Rightarrow> tree result) \<Rightarrow> tree \<Rightarrow> (d2s, tree) mm" where
  "sigMapRename 0 p env f t st = Inl (Undefined ''nesting'')"
| "sigMapRename (Suc n) p env f t st = (case stored st t of
      Some r \<Rightarrow> Inr (r, st)
    | None \<Rightarrow> (case isRecSym t st of
        Some (ident, body) \<Rightarrow> rbind (searchEnv ident env) (\<lambda>found. case found of
            Some id2 \<Rightarrow> Inr (symref id2, st)
          | None \<Rightarrow> rbind (unique_name p ''renamed'' (ds_syms st)) (\<lambda>(w, syms).
              let id2 = W_leaf w in
              case body of
                None \<Rightarrow> Inl (Undefined ''null definition'')
              | Some b \<Rightarrow> rbind (sigMapRename n p (pushEnv ident id2 env) f b (st\<lparr>ds_syms := syms\<rparr>)) (\<lambda>(b2, st1).
                  Inr (recSym id2 b2 st1))))
      | None \<Rightarrow> mbind (mmap (sigMapRename n p env f) (branches t)) (\<lambda>br.
          mbind (mlift (f (Tree (node t) br))) (\<lambda>r2 st1. Inr (r2, set_stored t r2 st1))) st))"

definition docTableConverter :: "tree \<Rightarrow> tree result" where
  "docTableConverter sig = (case isSigRDTbl sig of
      None \<Rightarrow> Inr sig
    | Some (tbl, ridx) \<Rightarrow> (case isSigTable tbl of
        Some (ident, n, igen) \<Rightarrow> (case isSigGen igen of
            Some isig \<Rightarrow> Inr (sigDocAccessTbl (sigDocConstantTbl n isig) ridx)
          | None \<Rightarrow> Inl (AssertFailed ''isSigGen''))
      | None \<Rightarrow> (case isSigWRTbl tbl of
          None \<Rightarrow> Inl (AssertFailed ''isSigWRTbl'')
        | Some (ident, tbl2, widx, wsig) \<Rightarrow> (case isSigTable tbl2 of
            None \<Rightarrow> Inl (AssertFailed ''isSigTable'')
          | Some (id2, n, igen) \<Rightarrow> (case isSigGen igen of
              Some isig \<Rightarrow> Inr (sigDocAccessTbl (sigDocWriteTbl n isig widx wsig) ridx)
            | None \<Rightarrow> Inl (AssertFailed ''isSigGen''))))))"

definition docTableConvertion :: "nat \<Rightarrow> nat \<Rightarrow> tree \<Rightarrow> (d2s, tree) mm" where
  "docTableConvertion n p sig = sigMapRename n p nil docTableConverter sig"


section \<open>Signals in time\<close>

text \<open>
  The samples of a signal, as 32-bit integers.  Numbers, sums, products, quotients, casts to integers and
  delays are interpreted, the quotient by a given operation; other signals are given their samples
  by an assignment.  A delayed signal is zero before the delay is over.
\<close>

lemma is_binop_sizes: "is_binop op t = Some (x, y) \<Longrightarrow> size x < size t \<and> size y < size t"
  by (auto simp: is_binop_def dest!: isSigBinOp_size split: option.splits if_splits)

lemma isSigIntCast_size: "isSigIntCast t = Some x \<Longrightarrow> size x < size t"
  by (auto simp: isSigIntCast_def isTree_Some)

function sval :: "(tree \<Rightarrow> nat \<Rightarrow> 32 word) \<Rightarrow> (32 word \<Rightarrow> 32 word \<Rightarrow> 32 word) \<Rightarrow> tree \<Rightarrow> nat \<Rightarrow> 32 word" where
  "sval \<rho> q t m = (case isSigInt t of Some i \<Rightarrow> of_int i | None \<Rightarrow>
     (case is_binop kAdd t of Some (x, y) \<Rightarrow> sval \<rho> q x m + sval \<rho> q y m | None \<Rightarrow>
     (case is_binop kMul t of Some (x, y) \<Rightarrow> sval \<rho> q x m * sval \<rho> q y m | None \<Rightarrow>
     (case is_binop kDiv t of Some (x, y) \<Rightarrow> q (sval \<rho> q x m) (sval \<rho> q y m) | None \<Rightarrow>
     (case isSigIntCast t of Some x \<Rightarrow> sval \<rho> q x m | None \<Rightarrow>
     (case isSigFixDelay t of Some (x, d) \<Rightarrow> (let k = unat (sval \<rho> q d m) in if k \<le> m then sval \<rho> q x (m - k) else 0)
     | None \<Rightarrow> \<rho> t m))))))"
  by pat_completeness auto
termination
  by (relation "measure (\<lambda>(_, _, t, _). size t)") (auto dest: is_binop_sizes isSigIntCast_size isSigFixDelay_size)

declare sval.simps [simp del]

definition delayed :: "nat \<Rightarrow> (nat \<Rightarrow> 32 word) \<Rightarrow> nat \<Rightarrow> 32 word" where
  "delayed k f m = (if k \<le> m then f (m - k) else 0)"

lemma delayed_twice: "delayed j (delayed k f) = delayed (j + k) f"
  by (auto simp: delayed_def fun_eq_iff)

lemma not_binop_node: "node t \<noteq> ssym SIGBINOP \<Longrightarrow> is_binop op t = None"
  by (cases "is_binop op t") (auto dest: is_binop_node)

lemma not_intcast_node: "node t \<noteq> ssym SIGINTCAST \<Longrightarrow> isSigIntCast t = None"
  by (cases "isSigIntCast t") (auto simp: isSigIntCast_def isTree_Some)

lemma sval_mul:
  assumes "isSigMul t = Some (x, y)"
  shows "sval \<rho> q t m = sval \<rho> q x m * sval \<rho> q y m"
proof -
  have "node t = ssym SIGBINOP" using assms is_binop_node by (simp add: isSigMul_def)
  moreover have "is_binop kAdd t = None" using assms is_binop_unique [of kMul t "(x, y)" kAdd] by (simp add: isSigMul_def opcode_def)
  ultimately show ?thesis using assms by (simp add: sval.simps [of \<rho> q t] isSigMul_def isSigInt_def)
qed

lemma sval_div:
  assumes "isSigDiv t = Some (x, y)"
  shows "sval \<rho> q t m = q (sval \<rho> q x m) (sval \<rho> q y m)"
proof -
  have "node t = ssym SIGBINOP" using assms is_binop_node by (simp add: isSigDiv_def)
  moreover have "is_binop kAdd t = None" "is_binop kMul t = None"
    using assms is_binop_unique [of kDiv t "(x, y)"] by (simp_all add: isSigDiv_def opcode_def)
  ultimately show ?thesis using assms by (simp add: sval.simps [of \<rho> q t] isSigDiv_def isSigInt_def)
qed

lemma sval_delay:
  assumes "isSigFixDelay t = Some (x, sigInt k)" "0 \<le> k" "k \<le> int_max"
  shows "sval \<rho> q t = delayed (nat k) (sval \<rho> q x)"
proof -
  have n: "t = Tree (ssym SIGFIXDELAY) [x, sigInt k]" using assms(1) by (simp add: isSigFixDelay_def isTree_Some)
  have "unat (of_int k :: 32 word) = nat k"
    using assms(2,3) by (simp add: unat_eq_nat_uint uint_word_of_int int_max_def)
  then show ?thesis
    by (simp add: fun_eq_iff delayed_def sval.simps [of \<rho> q "Tree _ _"] sval.simps [of \<rho> q "sigInt k"] n not_binop_node not_intcast_node isSigInt_def [of "Tree _ _"]
        isSigFixDelay_def isTree2_def Let_def)
qed


text \<open>Signals of an order below two do not change in time, if those that are not interpreted do not.\<close>

definition steady :: "(tree \<Rightarrow> nat \<Rightarrow> 32 word) \<Rightarrow> bool" where
  "steady \<rho> \<longleftrightarrow> (\<forall>t k m. sig_order t = Inr k \<longrightarrow> k < 2 \<longrightarrow> \<rho> t m = \<rho> t 0)"

lemma sval_steady:
  assumes "steady \<rho>"
  shows "sig_order t = Inr k \<Longrightarrow> k < 2 \<Longrightarrow> sval \<rho> q t m = sval \<rho> q t 0"
proof (induction t arbitrary: k rule: measure_induct_rule [where f = size])
  case (less t)
  have two: "sval \<rho> q x m = sval \<rho> q x 0 \<and> sval \<rho> q y m = sval \<rho> q y 0" if "is_binop op t = Some (x, y)" for op x y
    using less.IH [of x] less.IH [of y] is_binop_sizes [OF that] less.prems
    unfolding sig_order_is_binop [OF that] by (auto simp: rbind_eq_Inr)
  have cast: "sval \<rho> q x m = sval \<rho> q x 0" if "isSigIntCast t = Some x" for x
  proof -
    have "sig_view t = SvIntCast x" using that by (auto simp: isSigIntCast_def isTree_Some sig_view_def sig_view_sym_def)
    then have "sig_order x = sig_order t" by (simp add: sig_order_def sigOrder.simps [of t] infereSigOrder_def)
    then show ?thesis using less isSigIntCast_size [OF that] by simp
  qed
  have "isSigFixDelay t = None"
  proof (rule ccontr)
    assume "isSigFixDelay t \<noteq> None"
    then obtain x d where "sig_view t = SvFixDelay x d" by (auto simp: isSigFixDelay_def isTree_Some sig_view_def sig_view_sym_def)
    then have "sig_order t = Inr 3" by (simp add: sig_order_def sigOrder.simps [of t] infereSigOrder_def)
    then show False using less.prems by simp
  qed
  moreover have "\<rho> t m = \<rho> t 0" using assms less.prems unfolding steady_def by blast
  ultimately show ?case using two cast unfolding sval.simps [of \<rho> q t] by (auto split: option.splits)
qed

section \<open>Sums of constant delays\<close>

definition delays_stored :: "d2s \<Rightarrow> bool" where
  "delays_stored st \<longleftrightarrow> (\<forall>i r. stored st (sigInt i) = Some r \<longrightarrow> r = sigInt i) \<and>
     (\<forall>i j r. stored st (sigBinOp kAdd (sigInt i) (sigInt j)) = Some r \<longrightarrow> r = sigInt (wrap32 (i + j)))"

lemma stored_set: "stored (set_stored t r st) u = (if u = t then Some r else stored st u)" if "\<not> isNil r"
  using that by (auto simp: stored_def set_stored_def)

lemma int_step: "simplification lm ad smp (sigInt i) = mret (sigInt i)"
  by (simp add: simplification_def sigInt_def leaf_def getUserData_def isSigBinOp_def isSigDelay1_def isSigFixDelay_def isSigIntCast_def
      isSigFloatCast_def isSigSelect2_def isSigSelect3_def isTree1_def isTree2_def isTree3_def isTree4_def)

lemma simplify_int:
  assumes "delays_stored st"
  shows "\<exists>st1. sigMap (Suc n) (simplification lm ad) (sigInt i) st = Inr (sigInt i, st1) \<and> delays_stored st1"
proof (cases "stored st (sigInt i)")
  case (Some r)
  then show ?thesis using assms by (auto simp: delays_stored_def)
next
  case None
  have nn: "\<not> isNil (sigInt i)" by (simp add: isNil_def sigInt_def leaf_def isTree0_def)
  have "isRecSym (sigInt i) st = None" by (simp add: isRecSym_def isSymRef_def sigInt_def leaf_def isTree1_def)
  then have "sigMap (Suc n) (simplification lm ad) (sigInt i) st = Inr (sigInt i, set_stored (sigInt i) (sigInt i) st)"
    using None int_step [of lm ad "sigMap n (simplification lm ad)" i] by (simp add: mbind_def sigInt_def leaf_def)
  moreover have "delays_stored (set_stored (sigInt i) (sigInt i) st)"
    using assms nn by (auto simp: delays_stored_def stored_set tree_eqs tree_eqs(2) [symmetric] split: if_splits)
  ultimately show ?thesis by blast
qed

lemma simplify_sum:
  assumes "delays_stored st"
  shows "\<exists>st1. simplify (Suc (Suc n)) lm ad (sigBinOp kAdd (sigInt i) (sigInt j)) st = Inr (sigInt (wrap32 (i + j)), st1) \<and> delays_stored st1"
proof (cases "stored st (sigBinOp kAdd (sigInt i) (sigInt j))")
  case (Some r)
  then show ?thesis using assms by (auto simp: delays_stored_def simplify_def)
next
  case None
  let ?t = "sigBinOp kAdd (sigInt i) (sigInt j)"
  let ?M = "sigMap (Suc n) (simplification lm ad)"
  obtain st1 where 1: "?M (sigInt (opcode kAdd)) st = Inr (sigInt (opcode kAdd), st1)" "delays_stored st1" using simplify_int [OF assms] by blast
  obtain st2 where 2: "?M (sigInt i) st1 = Inr (sigInt i, st2)" "delays_stored st2" using simplify_int [OF 1(2)] by blast
  obtain st3 where 3: "?M (sigInt j) st2 = Inr (sigInt j, st3)" "delays_stored st3" using simplify_int [OF 2(2)] by blast
  have br: "branches ?t = [sigInt (opcode kAdd), sigInt i, sigInt j]" "Tree (node ?t) [sigInt (opcode kAdd), sigInt i, sigInt j] = ?t"
    by (simp_all add: sigBinOp_def sigInt_def)
  have m: "mmap ?M [sigInt (opcode kAdd), sigInt i, sigInt j] st = Inr ([sigInt (opcode kAdd), sigInt i, sigInt j], st3)"
    using 1 2 3 by (simp add: mbind_def del: sigMap.simps)
  have "compute kAdd (node (sigInt i)) (node (sigInt j)) = Inr (NInt (wrap32 (i + j)))"
    by (simp add: sigInt_def leaf_def addNode_def isDoubleNode_def)
  then have s: "simplification lm ad ?M ?t st3 = Inr (sigInt (wrap32 (i + j)), st3)"
    by (simp add: simplification_def simplify_binop_def binop_of_def binop_list_def opcode_def isSigBinOp_def isTree3_def sigBinOp_def
        getUserData_def isSigInt_def leaf_def isNum_def isNumNode_def isIntNode_def sigInt_def mlift_def)
  have "isRecSym ?t st = None" by (simp add: isRecSym_def isSymRef_def sigBinOp_def isTree1_def)
  then have "simplify (Suc (Suc n)) lm ad ?t st = Inr (sigInt (wrap32 (i + j)), set_stored ?t (sigInt (wrap32 (i + j))) st3)"
    using None m s br by (simp add: simplify_def mbind_def del: sigMap.simps(1))
  moreover have "\<not> isNil (sigInt k)" for k by (simp add: isNil_def sigInt_def leaf_def isTree0_def)
  then have "delays_stored (set_stored ?t (sigInt (wrap32 (i + j))) st3)"
    using 3(2) by (auto simp: delays_stored_def stored_set tree_eqs tree_eqs(2) [symmetric] split: if_splits)
  ultimately show ?thesis by blast
qed


section \<open>The normal form of a delayed signal\<close>

text \<open>Signals in which the delays inside of products, quotients and delays are numbers.\<close>

definition ranked :: "tree \<Rightarrow> bool" where
  "ranked t = (case sig_order t of Inl e \<Rightarrow> False | Inr k \<Rightarrow> True)"

function number_delays :: "int \<Rightarrow> tree \<Rightarrow> bool" where
  "number_delays i s = (0 \<le> i \<and> i \<le> int_max \<and> (case isSigMul s of
      Some (x, y) \<Rightarrow> ranked x \<and> ranked y \<and> number_delays i x \<and> number_delays i y
    | None \<Rightarrow> (case isSigDiv s of
        Some (x, y) \<Rightarrow> ranked y \<and> number_delays i x
      | None \<Rightarrow> (case isSigFixDelay s of
          Some (x, y) \<Rightarrow> (case isSigInt y of Some k \<Rightarrow> y = sigInt k \<and> 0 \<le> k \<and> number_delays (i + k) x | None \<Rightarrow> False)
        | None \<Rightarrow> True))))"
  by pat_completeness auto
termination
  by (relation "measure (\<lambda>(_, s). size s)")
    (auto simp: isSigMul_def isSigDiv_def dest!: is_binop_sizes isSigFixDelay_size)

declare number_delays.simps [simp del]

definition zeros_ok :: "(tree \<Rightarrow> nat \<Rightarrow> 32 word) \<Rightarrow> (32 word \<Rightarrow> 32 word \<Rightarrow> 32 word) \<Rightarrow> bool" where
  "zeros_ok \<rho> q \<longleftrightarrow> (\<forall>t m. isZero t \<longrightarrow> \<rho> t m = 0) \<and> (\<forall>y. q 0 y = 0)"

lemma sval_zero:
  assumes "zeros_ok \<rho> q" "isZero t"
  shows "sval \<rho> q t m = 0"
proof (cases "isSigInt t")
  case (Some i)
  then show ?thesis using assms(2) by (auto simp: sval.simps [of \<rho> q t] isSigInt_def isZero_def split: node.splits)
next
  case None
  have "\<forall>k. node t \<noteq> ssym k" using assms(2) by (auto simp: isZero_def)
  then have "isSigFixDelay t = None" by (cases "isSigFixDelay t") (auto simp: isSigFixDelay_def isTree_Some)
  then show ?thesis using assms None \<open>\<forall>k. node t \<noteq> ssym k\<close>
    by (simp add: sval.simps [of \<rho> q t] not_binop_node not_intcast_node zeros_ok_def)
qed

lemma sval_new_delay:
  assumes "0 \<le> i" "i \<le> int_max"
  shows "sval \<rho> q (sigFixDelay s (sigInt i)) = delayed (nat i) (sval \<rho> q s)"
proof -
  have "isSigFixDelay (sigFixDelay s (sigInt i)) = Some (s, sigInt i)"
    by (simp add: isSigFixDelay_def sigFixDelay_def sigIntCast_def sigInt_def leaf_def isTree2_def)
  then show ?thesis using assms by (rule sval_delay)
qed

lemma delayed_product:
  assumes "steady \<rho>" "sig_order x = Inr k" "k < 2"
  shows "sval \<rho> q x m * delayed i f m = delayed i (\<lambda>n. sval \<rho> q x n * f n) m"
  using sval_steady [OF assms, of q m] sval_steady [OF assms, of q "m - i"] by (simp add: delayed_def)

lemma delayed_quotient:
  assumes "steady \<rho>" "sig_order y = Inr k" "k < 2" "zeros_ok \<rho> q"
  shows "q (delayed i f m) (sval \<rho> q y m) = delayed i (\<lambda>n. q (f n) (sval \<rho> q y n)) m"
  using sval_steady [OF assms(1-3), of q m] sval_steady [OF assms(1-3), of q "m - i"] assms(4) by (simp add: delayed_def zeros_ok_def)

lemma fixed_delay_sound:
  assumes "steady \<rho>" "zeros_ok \<rho> q"
  shows "number_delays i s \<Longrightarrow> delays_stored st \<Longrightarrow>
    \<exists>t st1. normalizeFixedDelayTerm (simplify (Suc (Suc n)) lm ad) s (sigInt i) st = Inr (t, st1) \<and> delays_stored st1 \<and>
      sval \<rho> q t = delayed (nat i) (sval \<rho> q s)"
proof (induction s arbitrary: i st rule: measure_induct_rule [where f = size])
  case (less s)
  note N = normalizeFixedDelayTerm.simps [of _ s]
  have i: "0 \<le> i" "i \<le> int_max" using less.prems(1) by (simp_all add: number_delays.simps [of i s])
  note new = sval_new_delay [OF i, of \<rho> q s]
  show ?case
  proof (cases "isZero (sigInt i) \<and> isProj s = None \<or> isZero s")
    case True
    have "delayed 0 f = f" "delayed k (\<lambda>_. 0) = (\<lambda>_. 0)" for f k by (auto simp: delayed_def)
    moreover have "sval \<rho> q s = (\<lambda>_. 0)" if "isZero s" using sval_zero [OF assms(2) that] by auto
    ultimately have "sval \<rho> q s = delayed (nat i) (sval \<rho> q s)" using True by auto
    then show ?thesis using True less.prems(2) by (auto simp: N)
  next
    case nz: False
    consider (mul) x y where "isSigMul s = Some (x, y)" | (div) x y where "isSigMul s = None" "isSigDiv s = Some (x, y)"
      | (nested) x y where "isSigMul s = None" "isSigDiv s = None" "isSigFixDelay s = Some (x, y)"
      | (other) "isSigMul s = None" "isSigDiv s = None" "isSigFixDelay s = None"
      by (metis option.exhaust surj_pair)
    then show ?thesis
    proof cases
      case mul
      have nd: "number_delays i x" "number_delays i y" "ranked x" "ranked y"
        using less.prems(1) mul by (simp_all add: number_delays.simps [of i s])
      obtain k l where kl: "sig_order x = Inr k" "sig_order y = Inr l" using nd(3,4) by (auto simp: ranked_def split: sum.splits)
      have sz: "size x < size s" "size y < size s" using mul is_binop_sizes by (auto simp: isSigMul_def)
      have v: "sval \<rho> q s = (\<lambda>n. sval \<rho> q x n * sval \<rho> q y n)" "sval \<rho> q s = (\<lambda>n. sval \<rho> q y n * sval \<rho> q x n)"
        using sval_mul [OF mul] by (auto simp: mult.commute)
      have m: "sval \<rho> q (sigBinOp kMul a b) m = sval \<rho> q a m * sval \<rho> q b m" for a b m by (rule sval_mul) simp
      obtain t1 st1 where t1: "normalizeFixedDelayTerm (simplify (Suc (Suc n)) lm ad) x (sigInt i) st = Inr (t1, st1)" "delays_stored st1"
          "sval \<rho> q t1 = delayed (nat i) (sval \<rho> q x)" using less.IH [OF sz(1) nd(1) less.prems(2)] by blast
      obtain t2 st2 where t2: "normalizeFixedDelayTerm (simplify (Suc (Suc n)) lm ad) y (sigInt i) st = Inr (t2, st2)" "delays_stored st2"
          "sval \<rho> q t2 = delayed (nat i) (sval \<rho> q y)" using less.IH [OF sz(2) nd(2) less.prems(2)] by blast
      have "sval \<rho> q (sigBinOp kMul x t2) = delayed (nat i) (sval \<rho> q s)" if "k < 2"
        unfolding v(1) fun_eq_iff m t2(3) using delayed_product [OF assms(1) kl(1) that] by blast
      moreover have "sval \<rho> q (sigBinOp kMul y t1) = delayed (nat i) (sval \<rho> q s)" if "l < 2"
        unfolding v(2) fun_eq_iff m t1(3) using delayed_product [OF assms(1) kl(2) that] by blast
      ultimately show ?thesis using mul nz kl t1(1,2) t2(1,2) new less.prems(2) by (auto simp: N mbind_def)
    next
      case div
      have nd: "number_delays i x" "ranked y" using less.prems(1) div by (simp_all add: number_delays.simps [of i s])
      obtain l where l: "sig_order y = Inr l" using nd(2) by (auto simp: ranked_def split: sum.splits)
      have sz: "size x < size s" using div(2) is_binop_sizes by (auto simp: isSigDiv_def)
      have v: "sval \<rho> q s = (\<lambda>n. q (sval \<rho> q x n) (sval \<rho> q y n))" using sval_div [OF div(2)] by auto
      have d: "isSigDiv (sigBinOp kDiv a b) = Some (a, b)" for a b
        by (simp add: isSigDiv_def is_binop_def isSigBinOp_def sigBinOp_def isTree3_def isSigInt_def leaf_def)
      show ?thesis
        using less.IH [OF sz nd(1) less.prems(2)] div nz l less.prems(2) new delayed_quotient [OF assms(1) l _ assms(2)]
        by (cases "l < 2") (auto simp: N mbind_def v sval_div [OF d] fun_eq_iff)
    next
      case nested
      obtain k where k: "y = sigInt k" "0 \<le> k" "number_delays (i + k) x"
        using less.prems(1) nested by (auto simp: number_delays.simps [of i s] split: option.splits)
      have ik: "i + k \<le> int_max" using k(3) by (simp add: number_delays.simps [of "i + k" x])
      then have w: "wrap32 (i + k) = i + k" using i k(2) by (intro wrap32_id) (simp add: in_int32_def int_min_def)
      obtain st1 where s1: "simplify (Suc (Suc n)) lm ad (sigBinOp kAdd (sigInt i) y) st = Inr (sigInt (i + k), st1)" "delays_stored st1"
        using simplify_sum [OF less.prems(2), of n lm ad i k] k(1) w by auto
      have v: "sval \<rho> q s = delayed (nat k) (sval \<rho> q x)" using nested(3) k(1,2) ik i by (intro sval_delay) auto
      have "nat (i + k) = nat i + nat k" using i k(2) by simp
      then show ?thesis using less.IH [OF _ k(3) s1(2)] nested nz s1(1) isSigFixDelay_size [OF nested(3)]
        by (auto simp: N mbind_def v delayed_twice)
    next
      case other
      then show ?thesis using nz new less.prems(2) by (auto simp: N)
    qed
  qed
qed


section \<open>Properties\<close>

text \<open>
  Property C37 (normal form of a delay).  For a signal whose inner delays are numbers, delayed by a
  number, with a total that fits in 32 bits, \<^verbatim>\<open>normalizeFixedDelayTerm\<close> with the compiler's own
  \<^verbatim>\<open>simplify\<close> returns a signal that has at every time the sample of the delayed signal, zero before
  the delay is over.  Signals of order 0 and 1 do not change in time, zeros are zero, and a
  quotient of zero is zero.
\<close>

theorem normalizeFixedDelayTerm_sound:
  assumes "steady \<rho>" "zeros_ok \<rho> q" "number_delays i s" "delays_stored st"
  shows "\<exists>t st1. normalizeFixedDelayTerm (simplify (Suc (Suc n)) lm ad) s (sigInt i) st = Inr (t, st1) \<and> delays_stored st1 \<and>
    (\<forall>m. sval \<rho> q t m = (if nat i \<le> m then sval \<rho> q s (m - nat i) else 0))"
  using fixed_delay_sound [OF assms, of n lm ad] by (auto simp: delayed_def)

abbreviation start_W :: d2s where
  "start_W \<equiv> \<lparr>ds_syms = symInit, ds_defs = [], ds_memo = Map.empty\<rparr>"

definition ramp_W :: "tree \<Rightarrow> nat \<Rightarrow> 32 word" where
  "ramp_W t m = (if t = sigInput 1 then of_nat m else 0)"

theorem normalizeFixedDelayTerm_sound_witness:
  "\<exists>t st1. normalizeFixedDelayTerm (simplify 2 nan_libm (addr_in init))
      (sigBinOp kMul (sigInt 3) (sigFixDelay (sigInput 1) (sigInt 2))) (sigInt 4) start_W = Inr (t, st1) \<and> delays_stored st1 \<and>
    (\<forall>m. sval ramp_W (div) t m = (if nat 4 \<le> m then sval ramp_W (div)
      (sigBinOp kMul (sigInt 3) (sigFixDelay (sigInput 1) (sigInt 2))) (m - nat 4) else 0))"
proof -
  have two: "2 = Suc (Suc 0)" by simp
  let ?d = "sigFixDelay (sigInput 1) (sigInt 2)"
  have d: "isSigFixDelay ?d = Some (sigInput 1, sigInt 2)" "node ?d \<noteq> ssym SIGBINOP"
    by (simp_all add: isSigFixDelay_def sigFixDelay_def sigIntCast_def sigInt_def leaf_def isTree2_def)
  have o: "sig_order ?d = Inr 3" by (simp add: sig_order_def sigOrder.simps infereSigOrder_def)
  have x: "isSigFixDelay (sigInput 1) = None" "isSigFixDelay (sigInt 3) = None" "isSigMul (sigInt 3) = None" "isSigDiv (sigInt 3) = None"
    using not_binop [OF isSigInt_not_binop [OF sigInt_simps(1) [of 3]]]
    by (auto simp: isSigFixDelay_def sigInput_def sigInt_def leaf_def isTree2_def)
  have "number_delays 4 (sigBinOp kMul (sigInt 3) ?d)"
    using not_binop [OF d(2)] d(1) o x by (simp add: number_delays.simps ranked_def input_product int_max_def)
  moreover have "delays_stored start_W" by (simp add: delays_stored_def stored_def)
  ultimately show ?thesis unfolding two
    by (intro normalizeFixedDelayTerm_sound) (auto simp: steady_def zeros_ok_def ramp_W_def input_simps input_product)
qed

text \<open>
  When the inner delay changes in time, the rule \<open>(x@u)@1 = x@(1+u)\<close> is applied too and does not keep
  the samples: the inner delay is read one sample too late.
\<close>

lemma varying_delays_differ:
  fixes u :: tree and \<rho> :: "tree \<Rightarrow> nat \<Rightarrow> 32 word"
  defines "u \<equiv> sigCheckbox nil"
  defines "\<rho> \<equiv> \<lambda>t m. if t = u then (if m = 1 then 1 else 0) else of_nat m"
  shows "normalizeFixedDelayTerm mret (sigFixDelay (sigInput 1) u) (sigInt 1) st = Inr (sigFixDelay (sigInput 1) (sigBinOp kAdd (sigInt 1) (sigIntCast u)), st)"
    and "sval \<rho> (\<lambda>x y. 0) (sigFixDelay (sigInput 1) (sigBinOp kAdd (sigInt 1) (sigIntCast u))) 2 \<noteq>
      sval \<rho> (\<lambda>x y. 0) (sigFixDelay (sigInput 1) u) 1"
proof -
  let ?b = "sigBinOp kAdd (sigInt 1) (sigIntCast u)"
  have c: "sigIntCast u = Tree (ssym SIGINTCAST) [u]" by (simp add: u_def sigIntCast_def sigCheckbox_def isSigIntCast_def isTree1_def)
  have cb: "sigIntCast ?b = Tree (ssym SIGINTCAST) [?b]" by (simp add: sigIntCast_def sigBinOp_def isSigIntCast_def isTree1_def)
  have f: "isSigFixDelay (sigFixDelay x y) = Some (x, sigIntCast y)" "node (sigFixDelay x y) = ssym SIGFIXDELAY" for x y
    by (simp_all add: isSigFixDelay_def sigFixDelay_def isTree2_def)
  have n: "isSigMul (sigFixDelay x y) = None" "isSigDiv (sigFixDelay x y) = None" "isZero (sigFixDelay x y) = False" for x y
    using not_binop [of "sigFixDelay x y"] f(2) by (auto simp: isZero_def)
  have "isSigFixDelay (sigInput 1) = None" by (simp add: isSigFixDelay_def sigInput_def isTree2_def)
  then show "normalizeFixedDelayTerm mret (sigFixDelay (sigInput 1) u) (sigInt 1) st = Inr (sigFixDelay (sigInput 1) ?b, st)"
    using not_binop [of "sigInput 1"]
    by (simp add: normalizeFixedDelayTerm.simps n f mbind_def input_simps input_product tree_eqs)
  have x: "sval \<rho> g (sigInput 1) m = of_nat m" for g m
    by (simp add: sval.simps \<rho>_def u_def sigInput_def isSigInt_def not_binop_node not_intcast_node isSigFixDelay_def isTree2_def sigCheckbox_def)
  have y: "sval \<rho> g (sigIntCast u) m = (if m = 1 then 1 else 0)" for g m
    by (simp add: c sval.simps [of \<rho> g "Tree _ _"] isSigInt_def not_binop_node isSigIntCast_def isTree1_def)
      (simp add: sval.simps \<rho>_def u_def sigCheckbox_def isSigInt_def not_binop_node not_intcast_node isSigFixDelay_def isTree2_def)
  have a: "sval \<rho> g ?b m = 1 + sval \<rho> g (sigIntCast u) m" for g m
    using binop_recognised(1) [of "sigInt 1" "sigIntCast u", unfolded isSigAdd_def]
    by (simp add: sval.simps [of \<rho> g ?b] sval.simps [of \<rho> g "sigInt 1"])
  have b: "sval \<rho> g (sigIntCast ?b) m = sval \<rho> g ?b m" for g m
    unfolding cb by (simp add: sval.simps [of \<rho> g "Tree _ _"] isSigInt_def not_binop_node isSigIntCast_def isTree1_def)
  have d: "sval \<rho> g (sigFixDelay (sigInput 1) v) m =
      (let k = unat (sval \<rho> g (sigIntCast v) m) in if k \<le> m then of_nat (m - k) else 0)" for g v m
    by (simp add: sval.simps [of \<rho> g "sigFixDelay _ _"] f not_binop_node not_intcast_node isSigInt_def x Let_def)
  show "sval \<rho> (\<lambda>x y. 0) (sigFixDelay (sigInput 1) ?b) 2 \<noteq> sval \<rho> (\<lambda>x y. 0) (sigFixDelay (sigInput 1) u) 1"
    by (simp add: d b a y Let_def)
qed

end
