(* ===== verification/Environment.thy ===== *)
theory Environment
  imports Boxes Memo Symbols AddressMap
begin

text \<open>
  Environments (\<^verbatim>\<open>evaluate/environment.cpp\<close>) with the messages and names they record
  (\<^verbatim>\<open>errors/errormsg.cpp\<close>, \<^verbatim>\<open>utils/names.cpp\<close>).

  An environment is a stack of layers: a tree whose node is a generated name \<^verbatim>\<open>ENV_LAYERn\<close> and whose
  branch is the environment below; its definitions are the properties of the tree.  Generated names
  make a new layer different from every tree that is there, which is why its properties are empty
  and why adding to it changes no other environment.

  The state holds the table of symbols, the properties of every tree (a \<^verbatim>\<open>map<Tree,Tree>\<close> each), the
  name of the current file and the last message.  \<open>host\<close> collects what stays fixed: the addresses of the
  trees, the address of the literal \<^verbatim>\<open>"ENV_LAYER"\<close>, the printer of boxes, and the limit on names.
  An exception carries its text; \<^verbatim>\<open>gErrorCount\<close>, which is only increased before one is thrown, is
  left out.  The state can be extended: the evaluator adds its own tables to it.
\<close>

record host =
  ad_of :: address
  layer_prefix :: nat
  boxpp :: "tree \<Rightarrow> string"
  gMaxNameSize :: int

record envst =
  ev_syms :: symtab
  ev_props :: "tree \<Rightarrow> (tree \<times> tree) list"
  yyfilename :: string
  gErrorMsg :: string

section \<open>Properties of trees, names and messages\<close>

definition getTreeProperty :: "tree \<Rightarrow> tree \<Rightarrow> 'x envst_scheme \<Rightarrow> tree option" where
  "getTreeProperty t key st = map_of (ev_props st t) key"

definition setTreeProperty :: "host \<Rightarrow> tree \<Rightarrow> tree \<Rightarrow> tree \<Rightarrow> 'x envst_scheme \<Rightarrow> 'x envst_scheme" where
  "setTreeProperty h t key v st =
     st\<lparr>ev_props := (ev_props st)(t := mp_update (ad_of h) (\<lambda>_. v) key (ev_props st t))\<rparr>"

definition exportProperties :: "tree \<Rightarrow> 'x envst_scheme \<Rightarrow> tree list \<times> tree list" where
  "exportProperties t st = (map fst (ev_props st t), map snd (ev_props st t))"

definition name_tree :: "string \<Rightarrow> 'x envst_scheme \<Rightarrow> (tree \<times> 'x envst_scheme) result" where
  "name_tree s st = rbind (getSymbol s (ev_syms st)) (\<lambda>(a, tab). case sym_name tab a of
      Some n \<Rightarrow> Inr (leaf (NSym (Name n)), st\<lparr>ev_syms := tab\<rparr>)
    | None \<Rightarrow> Inl (Undefined ''symbol''))"

definition DEFNAMEPROPERTY :: tree where
  "DEFNAMEPROPERTY = leaf (NSym (Name ''DEFNAMEPROPERTY''))"

definition DEFLINEPROP :: tree where
  "DEFLINEPROP = leaf (NSym (Name ''DefLineProp''))"

definition shorten_name :: "int \<Rightarrow> string \<Rightarrow> string" where
  "shorten_name limit name = (let m = (if limit > 1023 then 1023 else limit); k = nat (m div 3); n = length name in
     if int n > m then take k name @ ''...'' @ drop (n - k) name else name)"

definition setDefNameProperty :: "host \<Rightarrow> tree \<Rightarrow> string \<Rightarrow> 'x envst_scheme \<Rightarrow> 'x envst_scheme result" where
  "setDefNameProperty h t name st = rbind (name_tree (shorten_name (gMaxNameSize h) name) st) (\<lambda>(v, st1).
     Inr (setTreeProperty h t DEFNAMEPROPERTY v st1))"

definition getDefNameProperty :: "tree \<Rightarrow> 'x envst_scheme \<Rightarrow> tree option" where
  "getDefNameProperty t st = getTreeProperty t DEFNAMEPROPERTY st"

definition setDefProp :: "host \<Rightarrow> tree \<Rightarrow> string \<Rightarrow> int \<Rightarrow> 'x envst_scheme \<Rightarrow> 'x envst_scheme result" where
  "setDefProp h sm filename lineno st = rbind (name_tree filename st) (\<lambda>(f, st1).
     Inr (setTreeProperty h sm DEFLINEPROP (cons f (leaf (NInt lineno))) st1))"

definition getDefFileProp :: "tree \<Rightarrow> 'x envst_scheme \<Rightarrow> string result" where
  "getDefFileProp sm st = (case getTreeProperty sm DEFLINEPROP st of
      Some n \<Rightarrow> rbind (hdT n) (\<lambda>f. case node f of NSym (Name s) \<Rightarrow> Inr s | _ \<Rightarrow> Inl (Undefined ''symbol''))
    | None \<Rightarrow> Inr (yyfilename st))"

definition getDefLineProp :: "tree \<Rightarrow> 'x envst_scheme \<Rightarrow> int result" where
  "getDefLineProp sm st = (case getTreeProperty sm DEFLINEPROP st of
      Some n \<Rightarrow> rbind (tlT n) (\<lambda>l. case node l of NInt i \<Rightarrow> Inr i | _ \<Rightarrow> Inl (Undefined ''int''))
    | None \<Rightarrow> Inr (-1))"

definition newline :: string where
  "newline = [CHR 0x0A]"

definition evalerror :: "host \<Rightarrow> string \<Rightarrow> int \<Rightarrow> string \<Rightarrow> tree \<Rightarrow> 'a result" where
  "evalerror h filename linenum msg e =
     Inl (FaustException (filename @ '' : '' @ show_int linenum @ '' : ERROR : '' @ msg @ '' : '' @ boxpp h e @ newline))"

definition evalwarning :: "host \<Rightarrow> string \<Rightarrow> int \<Rightarrow> string \<Rightarrow> tree \<Rightarrow> 'x envst_scheme \<Rightarrow> 'x envst_scheme" where
  "evalwarning h filename linenum msg e st =
     st\<lparr>gErrorMsg := filename @ '' : '' @ show_int linenum @ '' : WARNING : '' @ msg @ boxpp h e @ newline\<rparr>"

definition evalremark :: "host \<Rightarrow> string \<Rightarrow> int \<Rightarrow> string \<Rightarrow> tree \<Rightarrow> 'x envst_scheme \<Rightarrow> 'x envst_scheme" where
  "evalremark h filename linenum msg e st =
     st\<lparr>gErrorMsg := filename @ '' : '' @ show_int linenum @ '' : REMARK : '' @ msg @ boxpp h e @ newline\<rparr>"

section \<open>Layers\<close>

definition pushNewLayer :: "host \<Rightarrow> tree \<Rightarrow> 'x envst_scheme \<Rightarrow> (tree \<times> 'x envst_scheme) result" where
  "pushNewLayer h lenv st = rbind (unique_name (layer_prefix h) ''ENV_LAYER'' (ev_syms st)) (\<lambda>(w, tab).
     Inr (Tree (NSym (Name w)) [lenv], st\<lparr>ev_syms := tab\<rparr>))"

definition pushEnvBarrier :: "tree \<Rightarrow> tree" where
  "pushEnvBarrier lenv = Tree (NSym (KTree BARRIER)) [lenv]"

definition isEnvBarrier :: "tree \<Rightarrow> bool" where
  "isEnvBarrier lenv \<longleftrightarrow> isNil lenv \<or> node lenv = NSym (KTree BARRIER)"

definition addLayerDef :: "host \<Rightarrow> tree \<Rightarrow> tree \<Rightarrow> tree \<Rightarrow> 'x envst_scheme \<Rightarrow> 'x envst_scheme result" where
  "addLayerDef h ident def lenv st = (case getTreeProperty lenv ident st of
      Some olddef \<Rightarrow> rbind (getDefFileProp ident st) (\<lambda>file. rbind (getDefLineProp ident st) (\<lambda>line.
        if def = olddef
        then Inr (setTreeProperty h lenv ident def (evalwarning h file line ''equivalent re-definitions of'' ident st))
        else Inl (FaustException (file @ '':'' @ show_int line @
               '' ERROR: redefinition of symbols are not allowed : '' @ boxpp h ident @ newline))))
    | None \<Rightarrow> Inr (setTreeProperty h lenv ident def st))"

definition pushValueDef :: "host \<Rightarrow> tree \<Rightarrow> tree \<Rightarrow> tree \<Rightarrow> 'x envst_scheme \<Rightarrow> (tree \<times> 'x envst_scheme) result" where
  "pushValueDef h ident def lenv st = rbind (pushNewLayer h lenv st) (\<lambda>(lenv2, st1).
     rbind (addLayerDef h ident def lenv2 st1) (\<lambda>st2. Inr (lenv2, st2)))"

definition name_closure :: "host \<Rightarrow> tree \<Rightarrow> tree \<Rightarrow> tree \<Rightarrow> 'x envst_scheme \<Rightarrow> 'x envst_scheme result" where
  "name_closure h ident rhs cl st = (if isBoxCase rhs = None then setDefNameProperty h cl (boxpp h ident) st else Inr st)"

lemma branch_size [termination_simp]: "branch l i = Inr t \<Longrightarrow> size t < size l"
  by (auto simp: branch_def arity_def split: if_splits intro!: size_branch)

fun add_closures :: "host \<Rightarrow> tree \<Rightarrow> tree \<Rightarrow> tree \<Rightarrow> 'x envst_scheme \<Rightarrow> 'x envst_scheme result" where
  "add_closures h ldefs visited lenv2 st = (if isNil ldefs then Inr st else
     rbind (hdT ldefs) (\<lambda>def. rbind (hdT def) (\<lambda>ident. rbind (tlT def) (\<lambda>rhs.
       let cl = closure rhs nil visited lenv2 in
       rbind (name_closure h ident rhs cl st) (\<lambda>st1. rbind (addLayerDef h ident cl lenv2 st1) (\<lambda>st2.
         rbind (tlT ldefs) (\<lambda>rest. add_closures h rest visited lenv2 st2)))))))"

definition pushMultiClosureDefs :: "host \<Rightarrow> tree \<Rightarrow> tree \<Rightarrow> tree \<Rightarrow> 'x envst_scheme \<Rightarrow> (tree \<times> 'x envst_scheme) result" where
  "pushMultiClosureDefs h ldefs visited lenv st = rbind (pushNewLayer h lenv st) (\<lambda>(lenv2, st1).
     rbind (add_closures h ldefs visited lenv2 st1) (\<lambda>st2. Inr (lenv2, st2)))"

fun searchIdDef :: "tree \<Rightarrow> tree \<Rightarrow> 'x envst_scheme \<Rightarrow> tree option result" where
  "searchIdDef ident lenv st = (if isEnvBarrier lenv then Inr None
     else case getTreeProperty lenv ident st of
         Some def \<Rightarrow> Inr (Some def)
       | None \<Rightarrow> rbind (branch lenv 0) (\<lambda>lenv1. searchIdDef ident lenv1 st))"

definition updateClosure :: "tree \<Rightarrow> tree \<Rightarrow> tree \<Rightarrow> tree" where
  "updateClosure oldEnv newEnv c = (case isClosure c of
      Some (e, genv, visited, lenv) \<Rightarrow> if lenv = oldEnv then closure e genv visited newEnv else c
    | None \<Rightarrow> c)"

definition updateClosures :: "tree list \<Rightarrow> tree \<Rightarrow> tree \<Rightarrow> tree list" where
  "updateClosures clos oldEnv newEnv = map (updateClosure oldEnv newEnv) clos"

fun replace_defs :: "host \<Rightarrow> tree \<Rightarrow> tree \<Rightarrow> tree \<Rightarrow> tree \<Rightarrow> 'x envst_scheme \<Rightarrow> 'x envst_scheme result" where
  "replace_defs h ldefs visited curEnv copyEnv st = (if isNil ldefs then Inr st else
     rbind (hdT ldefs) (\<lambda>def. rbind (hdT def) (\<lambda>ident. rbind (tlT def) (\<lambda>rhs.
       let cl = closure rhs nil visited curEnv in
       rbind (name_closure h ident rhs cl st) (\<lambda>st1. rbind (tlT ldefs) (\<lambda>rest.
         replace_defs h rest visited curEnv copyEnv (setTreeProperty h copyEnv ident cl st1)))))))"

definition copyEnvReplaceDefs :: "host \<Rightarrow> tree \<Rightarrow> tree \<Rightarrow> tree \<Rightarrow> tree \<Rightarrow> 'x envst_scheme \<Rightarrow> (tree \<times> 'x envst_scheme) result" where
  "copyEnvReplaceDefs h anEnv ldefs visited curEnv st = (let (ids, clos) = exportProperties anEnv st in
     rbind (branch anEnv 0) (\<lambda>below. rbind (pushNewLayer h below st) (\<lambda>(copyEnv, st1).
       let st2 = fold (\<lambda>(i, c). setTreeProperty h copyEnv i c) (zip ids (updateClosures clos anEnv copyEnv)) st1 in
       rbind (replace_defs h ldefs visited curEnv copyEnv st2) (\<lambda>st3. Inr (copyEnv, st3)))))"

declare add_closures.simps [simp del] searchIdDef.simps [simp del] replace_defs.simps [simp del]

section \<open>The invariant\<close>

abbreviation layer :: "string \<Rightarrow> tree \<Rightarrow> tree" where
  "layer w below \<equiv> Tree (NSym (Name w)) [below]"

abbreviation ev_known :: "'x envst_scheme \<Rightarrow> string set" where
  "ev_known st \<equiv> known (ev_syms st)"

definition env_inv :: "host \<Rightarrow> 'x envst_scheme \<Rightarrow> bool" where
  "env_inv h st \<longleftrightarrow> inj (ad_of h) \<and> sym_inv (ev_syms st) \<and> (\<forall>t. mp_ok (ad_of h) (ev_props st t)) \<and>
     (\<forall>w br. w \<notin> ev_known st \<longrightarrow> ev_props st (Tree (NSym (Name w)) br) = [])"

fun env_wf :: "string set \<Rightarrow> tree \<Rightarrow> bool" where
  "env_wf N lenv = (isEnvBarrier lenv \<or> (case node lenv of NSym (Name w) \<Rightarrow> w \<in> N | _ \<Rightarrow> False) \<and>
     (case branches lenv of [below] \<Rightarrow> env_wf N below | _ \<Rightarrow> False))"

declare env_wf.simps [simp del]

lemma env_wf_layer [simp]: "env_wf N (layer w below) \<longleftrightarrow> w \<in> N \<and> env_wf N below"
  by (simp add: env_wf.simps [of N "layer w below"] isEnvBarrier_def isNil_def)

lemma env_wf_stop: "isEnvBarrier lenv \<Longrightarrow> env_wf N lenv"
  by (simp add: env_wf.simps)

lemma env_wf_induct [consumes 1, case_names stop layer]:
  assumes "env_wf N lenv"
    and "\<And>lenv. isEnvBarrier lenv \<Longrightarrow> P lenv"
    and "\<And>w below. w \<in> N \<Longrightarrow> env_wf N below \<Longrightarrow> P below \<Longrightarrow> P (layer w below)"
  shows "P lenv"
  using assms(1)
proof (induction lenv rule: measure_induct_rule [where f = size])
  case (less lenv)
  show ?case
  proof (cases "isEnvBarrier lenv")
    case False
    with less.prems obtain w below where "lenv = layer w below" "w \<in> N" "env_wf N below"
      unfolding env_wf.simps [of N lenv] by (cases lenv) (auto split: node.splits sym.splits list.splits)
    then show ?thesis using less.IH [of below] assms(3) by simp
  qed (rule assms(2))
qed

lemma env_wf_mono:
  assumes "env_wf M lenv" "M \<subseteq> N"
  shows "env_wf N lenv"
  using assms(1) by (induction rule: env_wf_induct) (use assms(2) in \<open>auto intro: env_wf_stop\<close>)

lemma searchIdDef_stop: "isEnvBarrier lenv \<Longrightarrow> searchIdDef k lenv st = Inr None"
  by (simp add: searchIdDef.simps)

lemma searchIdDef_layer:
  "searchIdDef k (layer w below) st = (case getTreeProperty (layer w below) k st of
     Some d \<Rightarrow> Inr (Some d) | None \<Rightarrow> searchIdDef k below st)"
  by (simp add: searchIdDef.simps [of k "layer w below"] isEnvBarrier_def isNil_def branch_def arity_def split: option.splits)

lemma searchIdDef_returns:
  assumes "env_wf N lenv"
  shows "\<exists>d. searchIdDef k lenv st = Inr d"
  using assms by (induction rule: env_wf_induct) (auto simp: searchIdDef_stop searchIdDef_layer split: option.splits)

lemma getTreeProperty_set:
  "env_inv h st \<Longrightarrow> getTreeProperty t' k' (setTreeProperty h t k v st) =
     (if t' = t \<and> k' = k then Some v else getTreeProperty t' k' st)"
  by (simp add: getTreeProperty_def setTreeProperty_def env_inv_def map_of_mp_update)

text \<open>
  One state is an advance over another outside the layers \<open>L\<close>: it knows more names and keeps the
  definitions of every other layer that was there.
\<close>

definition env_adv :: "host \<Rightarrow> tree set \<Rightarrow> 'x envst_scheme \<Rightarrow> 'x envst_scheme \<Rightarrow> bool" where
  "env_adv h L st st1 \<longleftrightarrow> env_inv h st1 \<and> ev_known st \<subseteq> ev_known st1 \<and>
     (\<forall>w below. w \<in> ev_known st \<longrightarrow> layer w below \<notin> L \<longrightarrow> ev_props st1 (layer w below) = ev_props st (layer w below))"

lemma env_advD:
  assumes "env_adv h L st st1"
  shows "env_inv h st1" "ev_known st \<subseteq> ev_known st1"
    "w \<in> ev_known st \<Longrightarrow> layer w below \<notin> L \<Longrightarrow> getTreeProperty (layer w below) k st1 = getTreeProperty (layer w below) k st"
  using assms by (auto simp: env_adv_def getTreeProperty_def)

lemma env_adv_refl: "env_inv h st \<Longrightarrow> env_adv h L st st"
  by (simp add: env_adv_def)

lemma env_adv_trans: "env_adv h L st st1 \<Longrightarrow> env_adv h M st1 st2 \<Longrightarrow> env_adv h (L \<union> M) st st2"
  unfolding env_adv_def by (metis UnCI subset_eq subset_trans)

lemma env_adv_mono: "env_adv h L st st1 \<Longrightarrow> (\<And>w b. w \<in> ev_known st \<Longrightarrow> layer w b \<in> L \<Longrightarrow> layer w b \<in> M) \<Longrightarrow> env_adv h M st st1"
  unfolding env_adv_def by blast

lemma searchIdDef_adv:
  assumes "env_adv h L st st1" "env_wf (ev_known st) lenv" "\<And>w below. layer w below \<in> L \<Longrightarrow> w \<notin> ev_known st"
  shows "searchIdDef k lenv st1 = searchIdDef k lenv st"
  using assms(2)
proof (induction rule: env_wf_induct)
  case (layer w below)
  then have "getTreeProperty (layer w below) k st1 = getTreeProperty (layer w below) k st"
    using assms(1,3) env_advD(3) by blast
  with layer show ?case by (simp add: searchIdDef_layer split: option.splits)
qed (simp add: searchIdDef_stop)

lemma setTreeProperty_adv:
  assumes "env_inv h st" "\<And>w br. t = Tree (NSym (Name w)) br \<Longrightarrow> w \<in> ev_known st"
  shows "env_adv h {t} st (setTreeProperty h t k v st)"
  using assms by (auto simp: env_adv_def env_inv_def setTreeProperty_def intro: mp_update_ok)

lemma set_message_adv: "env_inv h st \<Longrightarrow> env_adv h L st (st\<lparr>gErrorMsg := m\<rparr>)"
  by (simp add: env_adv_def env_inv_def)

lemma set_symbols_adv:
  "env_inv h st \<Longrightarrow> sym_inv tab \<Longrightarrow> ev_known st \<subseteq> known tab \<Longrightarrow> env_adv h L st (st\<lparr>ev_syms := tab\<rparr>)"
  by (auto simp: env_adv_def env_inv_def)

lemma name_tree_spec:
  assumes "env_inv h st"
  shows "\<exists>st1. name_tree s st = Inr (leaf (NSym (Name (symbol_text s))), st1) \<and> env_adv h {} st st1 \<and> ev_props st1 = ev_props st"
proof -
  from assms have si: "sym_inv (ev_syms st)" by (simp add: env_inv_def)
  from symbols.intern_returns [OF this, of s] obtain a tab where g: "getSymbol s (ev_syms st) = Inr (a, tab)"
    "sym_inv tab" "sym_name tab a = Some (symbol_text s)" by blast
  have "ev_known st \<subseteq> known tab" using symbols.intern_keeps [OF si g(1)] by (auto simp: known_def)
  with g assms show ?thesis by (simp add: name_tree_def set_symbols_adv)
qed

text \<open>The reduced name and its terminating NUL fit in the buffer of 1024 characters.\<close>

lemma shorten_name_fits: "length (shorten_name limit name) \<le> 1023"
  by (auto simp: shorten_name_def Let_def)

lemma setDefProp_position:
  assumes "env_inv h st"
  shows "\<exists>st1. setDefProp h t file line st = Inr st1 \<and> getDefFileProp t st1 = Inr (symbol_text file) \<and> getDefLineProp t st1 = Inr line"
proof -
  obtain st1 where n: "name_tree file st = Inr (leaf (NSym (Name (symbol_text file))), st1)" "env_adv h {} st st1"
    using name_tree_spec [OF assms] by blast
  show ?thesis using n(1) getTreeProperty_set [OF env_advD(1) [OF n(2)]]
    by (simp add: setDefProp_def getDefFileProp_def getDefLineProp_def leaf_def)
qed

lemma name_closure_spec:
  assumes "env_inv h st"
  shows "\<exists>st1. name_closure h ident rhs (closure e g v l) st = Inr st1 \<and> env_adv h {closure e g v l} st st1 \<and>
    (\<forall>t k. t \<noteq> closure e g v l \<longrightarrow> getTreeProperty t k st1 = getTreeProperty t k st)"
proof (cases "isBoxCase rhs = None")
  case True
  obtain v1 st1 where n: "name_tree (shorten_name (gMaxNameSize h) (boxpp h ident)) st = Inr (v1, st1)"
    "env_adv h {} st st1" "ev_props st1 = ev_props st" using name_tree_spec [OF assms] by blast
  note s = setTreeProperty_adv [OF env_advD(1) [OF n(2)], of "closure e g v l" DEFNAMEPROPERTY v1]
  have "env_adv h {closure e g v l} st1 (setTreeProperty h (closure e g v l) DEFNAMEPROPERTY v1 st1)"
    by (rule s) (simp add: closure_def)
  from env_adv_trans [OF n(2) this] show ?thesis using True n
    by (auto simp: name_closure_def setDefNameProperty_def getTreeProperty_def setTreeProperty_def)
qed (use assms in \<open>auto simp: name_closure_def env_adv_refl\<close>)

lemma layer_name_short: "short ''ENV_LAYER''"
  by (simp add: short_def printable_def schar_def)

abbreviation layers_left :: "host \<Rightarrow> 'x envst_scheme \<Rightarrow> nat \<Rightarrow> bool" where
  "layers_left h st n \<equiv> room (layer_prefix h) ''ENV_LAYER'' (ev_syms st) n"

lemma pushNewLayer_new:
  assumes "env_inv h st" "pushNewLayer h lenv st = Inr (lenv2, st1)"
  shows "\<exists>w. lenv2 = layer w lenv \<and> env_adv h {} st st1 \<and> w \<notin> ev_known st \<and> w \<in> ev_known st1 \<and>
    (\<forall>k. getTreeProperty lenv2 k st1 = None)"
proof -
  obtain w tab where u: "unique_name (layer_prefix h) ''ENV_LAYER'' (ev_syms st) = Inr (w, tab)"
    "lenv2 = layer w lenv" "st1 = st\<lparr>ev_syms := tab\<rparr>"
    using assms(2) by (auto simp: pushNewLayer_def rbind_eq_Inr)
  have si: "sym_inv (ev_syms st)" using assms(1) by (simp add: env_inv_def)
  note f = unique_name_fresh [OF si layer_name_short u(1)]
  then have "env_adv h {} st st1" unfolding u(3) by (intro set_symbols_adv [OF assms(1)]) auto
  moreover have "ev_props st (layer w lenv) = []" using assms(1) f by (simp add: env_inv_def)
  ultimately show ?thesis using u f by (auto simp: getTreeProperty_def)
qed

lemma pushNewLayer_returns:
  assumes "env_inv h st" "layers_left h st (Suc n)"
  shows "\<exists>lenv2 st1. pushNewLayer h lenv st = Inr (lenv2, st1) \<and> layers_left h st1 n"
proof -
  have "sym_inv (ev_syms st)" using assms(1) by (simp add: env_inv_def)
  from unique_name_room [OF this layer_name_short assms(2)] show ?thesis by (auto simp: pushNewLayer_def)
qed

section \<open>What the operations do to a layer\<close>

definition defs_tree :: "(tree \<times> tree) list \<Rightarrow> tree" where
  "defs_tree defs = list_tree (map (\<lambda>(i, r). cons i r) defs)"

lemma defs_tree_simps [simp]:
  "defs_tree [] = nil" "defs_tree ((i, r) # defs) = cons (cons i r) (defs_tree defs)"
  by (simp_all add: defs_tree_def)

definition layer_defs :: "tree \<Rightarrow> 'x envst_scheme \<Rightarrow> tree \<rightharpoonup> tree" where
  "layer_defs T st = (\<lambda>k. getTreeProperty T k st)"

lemma closure_not_layer [simp]: "closure e g v l \<noteq> layer w b" "layer w b \<noteq> closure e g v l"
  by (simp_all add: closure_def)

lemma name_closure_layer:
  assumes "env_inv h st"
  shows "\<exists>st1. name_closure h ident rhs (closure e g v l) st = Inr st1 \<and> env_adv h {} st st1 \<and>
    layer_defs (layer w b) st1 = layer_defs (layer w b) st"
proof -
  obtain st1 where n: "name_closure h ident rhs (closure e g v l) st = Inr st1"
    "env_adv h {closure e g v l} st st1" "\<forall>t k. t \<noteq> closure e g v l \<longrightarrow> getTreeProperty t k st1 = getTreeProperty t k st"
    using name_closure_spec [OF assms] by blast
  have a: "env_adv h {} st st1" by (rule env_adv_mono [OF n(2)]) simp
  have "layer_defs (layer w b) st1 = layer_defs (layer w b) st" using n(3) by (simp add: layer_defs_def)
  with n(1) a show ?thesis by blast
qed

lemma setTreeProperty_layer:
  assumes "env_inv h st" "w \<in> ev_known st"
  shows "env_adv h {layer w b} st (setTreeProperty h (layer w b) k v st)"
    "layer_defs (layer w b) (setTreeProperty h (layer w b) k v st) = (layer_defs (layer w b) st)(k \<mapsto> v)"
  using assms by (auto intro!: setTreeProperty_adv simp: layer_defs_def getTreeProperty_set)

lemma addLayerDef_new: "layer_defs T st k = None \<Longrightarrow> addLayerDef h k d T st = Inr (setTreeProperty h T k d st)"
  by (simp add: addLayerDef_def layer_defs_def)

lemma add_closures_spec:
  assumes "env_inv h st" "w \<in> ev_known st" "distinct (map fst defs)" "\<forall>i \<in> fst ` set defs. layer_defs (layer w b) st i = None"
  shows "\<exists>st1. add_closures h (defs_tree defs) v (layer w b) st = Inr st1 \<and> env_adv h {layer w b} st st1 \<and>
    layer_defs (layer w b) st1 = layer_defs (layer w b) st ++ map_of (map (\<lambda>(i, r). (i, closure r nil v (layer w b))) defs)"
  using assms
proof (induction defs arbitrary: st)
  case Nil
  then show ?case by (simp add: add_closures.simps [of _ nil] env_adv_refl)
next
  case (Cons d defs)
  obtain i r where d: "d = (i, r)" by (cases d)
  let ?T = "layer w b" and ?cl = "closure r nil v (layer w b)"
  obtain st1 where n: "name_closure h i r ?cl st = Inr st1" "env_adv h {} st st1" "layer_defs ?T st1 = layer_defs ?T st"
    using name_closure_layer [OF Cons.prems(1)] by blast
  let ?st2 = "setTreeProperty h ?T i ?cl st1"
  have w1: "env_inv h st1" "w \<in> ev_known st1" using env_advD(1,2) [OF n(2)] Cons.prems(2) by auto
  note s = setTreeProperty_layer [OF w1, of b i ?cl]
  have a: "addLayerDef h i ?cl ?T st1 = Inr ?st2" using Cons.prems(4) d n(3) by (intro addLayerDef_new) simp
  have "\<exists>st3. add_closures h (defs_tree defs) v ?T ?st2 = Inr st3 \<and> env_adv h {?T} ?st2 st3 \<and>
    layer_defs ?T st3 = layer_defs ?T ?st2 ++ map_of (map (\<lambda>(i, r). (i, closure r nil v ?T)) defs)"
  proof (rule Cons.IH)
    show "env_inv h ?st2" "w \<in> ev_known ?st2" using env_advD(1,2) [OF s(1)] w1 by auto
    show "\<forall>i \<in> fst ` set defs. layer_defs ?T ?st2 i = None" using Cons.prems(3,4) d n(3) s(2) by force
  qed (use Cons.prems(3) d in simp)
  then obtain st3 where t: "add_closures h (defs_tree defs) v ?T ?st2 = Inr st3" "env_adv h {?T} ?st2 st3"
    "layer_defs ?T st3 = layer_defs ?T ?st2 ++ map_of (map (\<lambda>(i, r). (i, closure r nil v ?T)) defs)" by blast
  have "env_adv h {?T} st st3" using env_adv_trans [OF env_adv_trans [OF n(2) s(1)] t(2)] by simp
  moreover have "add_closures h (defs_tree (d # defs)) v ?T st = Inr st3"
    using n(1) a t(1) d by (simp add: add_closures.simps [of _ "cons _ _"])
  moreover have "i \<notin> fst ` set defs" using Cons.prems(3) d by simp
  then have "map_of (map (\<lambda>(i, r). (i, closure r nil v ?T)) defs) i = None" by (force simp: map_of_eq_None_iff)
  ultimately show ?case using t(3) s(2) n(3) d by (auto simp: fun_eq_iff map_add_def split: option.splits)
qed

lemma replace_defs_spec:
  assumes "env_inv h st" "w \<in> ev_known st"
  shows "\<exists>st1. replace_defs h (defs_tree defs) v cur (layer w b) st = Inr st1 \<and> env_adv h {layer w b} st st1 \<and>
    layer_defs (layer w b) st1 = layer_defs (layer w b) st ++ map_of (rev (map (\<lambda>(i, r). (i, closure r nil v cur)) defs))"
  using assms
proof (induction defs arbitrary: st)
  case Nil
  then show ?case by (simp add: replace_defs.simps [of _ nil] env_adv_refl)
next
  case (Cons d defs)
  obtain i r where d: "d = (i, r)" by (cases d)
  let ?T = "layer w b" and ?cl = "closure r nil v cur"
  obtain st1 where n: "name_closure h i r ?cl st = Inr st1" "env_adv h {} st st1" "layer_defs ?T st1 = layer_defs ?T st"
    using name_closure_layer [OF Cons.prems(1)] by blast
  let ?st2 = "setTreeProperty h ?T i ?cl st1"
  have w1: "env_inv h st1" "w \<in> ev_known st1" using env_advD(1,2) [OF n(2)] Cons.prems(2) by auto
  note s = setTreeProperty_layer [OF w1, of b i ?cl]
  have "env_inv h ?st2" "w \<in> ev_known ?st2" using env_advD(1,2) [OF s(1)] w1 by auto
  from Cons.IH [OF this] obtain st3 where t: "replace_defs h (defs_tree defs) v cur ?T ?st2 = Inr st3" "env_adv h {?T} ?st2 st3"
    "layer_defs ?T st3 = layer_defs ?T ?st2 ++ map_of (rev (map (\<lambda>(i, r). (i, closure r nil v cur)) defs))" by blast
  have "env_adv h {?T} st st3" using env_adv_trans [OF env_adv_trans [OF n(2) s(1)] t(2)] by simp
  moreover have "replace_defs h (defs_tree (d # defs)) v cur ?T st = Inr st3"
    using n(1) t(1) d by (simp add: replace_defs.simps [of _ "cons _ _"])
  ultimately show ?case using t(3) s(2) n(3) d by (auto simp: fun_eq_iff map_add_def split: option.splits)
qed

lemma transfer_spec:
  assumes "env_inv h st" "w \<in> ev_known st"
  shows "env_adv h {layer w b} st (fold (\<lambda>(i, c). setTreeProperty h (layer w b) i c) ds st) \<and>
    layer_defs (layer w b) (fold (\<lambda>(i, c). setTreeProperty h (layer w b) i c) ds st) = layer_defs (layer w b) st ++ map_of (rev ds)"
  using assms
proof (induction ds arbitrary: st)
  case (Cons d ds)
  obtain i c where d: "d = (i, c)" by (cases d)
  note s = setTreeProperty_layer [OF Cons.prems, of b i c]
  have "env_inv h (setTreeProperty h (layer w b) i c st)" "w \<in> ev_known (setTreeProperty h (layer w b) i c st)"
    using env_advD(1,2) [OF s(1)] Cons.prems by auto
  note t = Cons.IH [OF this]
  show ?case using env_adv_trans [OF s(1) t [THEN conjunct1]] t [THEN conjunct2] s(2) d
    by (auto simp: fun_eq_iff map_add_def split: option.splits)
qed (simp add: env_adv_refl)

section \<open>Scopes\<close>

text \<open>
  What the users of environments rely on.  \<open>bind\<close> makes a new environment in which one name is bound
  and every other name means what it meant; the environments that were there keep their meaning.
  \<open>binds\<close> is the loop of a matcher: it binds the names of a list one after the other, and gives
  up when a name is already bound to something else.
\<close>

locale scopes =
  fixes inv :: "'s \<Rightarrow> bool" and is_env :: "'s \<Rightarrow> 'e \<Rightarrow> bool" and space :: "'s \<Rightarrow> nat \<Rightarrow> bool"
    and lookup :: "'k \<Rightarrow> 'e \<Rightarrow> 's \<Rightarrow> 'v option result" and bind :: "'k \<Rightarrow> 'v \<Rightarrow> 'e \<Rightarrow> 's \<Rightarrow> ('e \<times> 's) result"
  assumes lookup_returns: "is_env s e \<Longrightarrow> \<exists>d. lookup k e s = Inr d"
    and bind_returns: "inv s \<Longrightarrow> space s (Suc n) \<Longrightarrow> \<exists>e1 s1. bind k v e s = Inr (e1, s1) \<and> space s1 n"
    and bind_binds: "inv s \<Longrightarrow> is_env s e \<Longrightarrow> bind k v e s = Inr (e1, s1) \<Longrightarrow>
      inv s1 \<and> is_env s1 e1 \<and> lookup k' e1 s1 = (if k' = k then Inr (Some v) else lookup k' e s)"
    and bind_keeps: "inv s \<Longrightarrow> is_env s e \<Longrightarrow> bind k v e s = Inr (e1, s1) \<Longrightarrow> is_env s e' \<Longrightarrow> is_env s1 e' \<and> lookup k' e' s1 = lookup k' e' s"
    and space_less: "space s m \<Longrightarrow> n \<le> m \<Longrightarrow> space s n"
begin

fun binds :: "('k \<times> 'v) list \<Rightarrow> 'e \<Rightarrow> 's \<Rightarrow> ('e \<times> 's) option result" where
  "binds [] e s = Inr (Some (e, s))"
| "binds ((k, v) # bs) e s = rbind (lookup k e s) (\<lambda>d. case d of
      Some z \<Rightarrow> if z \<noteq> v then Inr None else binds bs e s
    | None \<Rightarrow> rbind (bind k v e s) (\<lambda>(e1, s1). binds bs e1 s1))"

definition consistent :: "('k \<rightharpoonup> 'v) \<Rightarrow> ('k \<times> 'v) list \<Rightarrow> bool" where
  "consistent m bs \<longleftrightarrow> (\<forall>k v. (k, v) \<in> set bs \<longrightarrow> (map_of bs ++ m) k = Some v)"

lemma map_of_Cons_add:
  "map_of ((k, v) # bs) ++ m = (case m k of Some z \<Rightarrow> map_of bs ++ m | None \<Rightarrow> map_of bs ++ m(k \<mapsto> v))"
  by (auto simp: fun_eq_iff map_add_def split: option.splits)

lemma consistent_Cons:
  "consistent m ((k, v) # bs) \<longleftrightarrow> (case m k of Some z \<Rightarrow> z = v \<and> consistent m bs | None \<Rightarrow> consistent (m(k \<mapsto> v)) bs)"
  unfolding consistent_def map_of_Cons_add by (cases "m k") auto

lemma binds_spec:
  assumes "inv s" "is_env s e" "space s (length bs)" "\<And>k. lookup k e s = Inr (m k)"
  shows "if consistent m bs
    then \<exists>e1 s1. binds bs e s = Inr (Some (e1, s1)) \<and> inv s1 \<and> is_env s1 e1 \<and>
      (\<forall>k. lookup k e1 s1 = Inr ((map_of bs ++ m) k)) \<and>
      (\<forall>e'. is_env s e' \<longrightarrow> is_env s1 e' \<and> (\<forall>k. lookup k e' s1 = lookup k e' s)) \<and>
      (\<forall>n. space s (length bs + n) \<longrightarrow> space s1 n)
    else binds bs e s = Inr None"
  using assms
proof (induction bs arbitrary: e s m)
  case Nil
  then show ?case by (simp add: consistent_def)
next
  case (Cons b bs)
  obtain k v where b: "b = (k, v)" by (cases b)
  show ?case
  proof (cases "m k")
    case (Some z)
    have "space s (length bs)" using space_less [OF Cons.prems(3)] by simp
    note IH = Cons.IH [OF Cons.prems(1,2) this Cons.prems(4)]
    have step: "binds (b # bs) e s = (if z = v then binds bs e s else Inr None)" using Some Cons.prems(4) [of k] b by simp
    have con: "consistent m (b # bs) \<longleftrightarrow> z = v \<and> consistent m bs" using Some b by (simp add: consistent_Cons)
    have maps: "map_of (b # bs) ++ m = map_of bs ++ m" using Some b by (simp only: map_of_Cons_add) simp
    have "space s (length bs + n)" if "space s (length (b # bs) + n)" for n using space_less [OF that] by simp
    then show ?thesis unfolding step con maps using IH by (auto split: if_splits)
  next
    case None
    obtain e1 s1 where r: "bind k v e s = Inr (e1, s1)" "space s1 (length bs)"
      using bind_returns [OF Cons.prems(1)] Cons.prems(3) by force
    have more: "space s1 (length bs + n)" if "space s (length (b # bs) + n)" for n
      using bind_returns [OF Cons.prems(1), of "length bs + n" k v e] that r(1) by auto
    note bb = bind_binds [OF Cons.prems(1,2) r(1)] and bk = bind_keeps [OF Cons.prems(1,2) r(1)]
    have "lookup k' e1 s1 = Inr ((m(k \<mapsto> v)) k')" for k' using bb [of k'] Cons.prems(4) by simp
    from Cons.IH [OF _ _ r(2) this] bb
    have IH: "if consistent (m(k \<mapsto> v)) bs
      then \<exists>e2 s2. binds bs e1 s1 = Inr (Some (e2, s2)) \<and> inv s2 \<and> is_env s2 e2 \<and>
        (\<forall>k'. lookup k' e2 s2 = Inr ((map_of bs ++ m(k \<mapsto> v)) k')) \<and>
        (\<forall>e'. is_env s1 e' \<longrightarrow> is_env s2 e' \<and> (\<forall>k. lookup k e' s2 = lookup k e' s1)) \<and>
        (\<forall>n. space s1 (length bs + n) \<longrightarrow> space s2 n)
      else binds bs e1 s1 = Inr None" by blast
    have step: "binds (b # bs) e s = binds bs e1 s1" using None Cons.prems(4) [of k] r(1) b by simp
    have con: "consistent m (b # bs) \<longleftrightarrow> consistent (m(k \<mapsto> v)) bs" using None b by (simp add: consistent_Cons)
    have maps: "map_of (b # bs) ++ m = map_of bs ++ m(k \<mapsto> v)" using None b by (simp only: map_of_Cons_add) simp
    show ?thesis unfolding step con maps using IH bk more by (auto split: if_splits)
  qed
qed

end

lemma pushValueDef_binds:
  assumes "env_inv h st" "env_wf (ev_known st) lenv" "pushValueDef h k v lenv st = Inr (lenv2, st1)"
  shows "env_inv h st1 \<and> env_wf (ev_known st1) lenv2 \<and>
    searchIdDef k' lenv2 st1 = (if k' = k then Inr (Some v) else searchIdDef k' lenv st)"
    and "env_wf (ev_known st) e \<Longrightarrow> env_wf (ev_known st1) e \<and> searchIdDef k' e st1 = searchIdDef k' e st"
proof -
  obtain st0 where p: "pushNewLayer h lenv st = Inr (lenv2, st0)" "addLayerDef h k v lenv2 st0 = Inr st1"
    using assms(3) by (auto simp: pushValueDef_def rbind_eq_Inr)
  obtain w where w: "lenv2 = layer w lenv" "env_adv h {} st st0" "w \<notin> ev_known st" "w \<in> ev_known st0"
    "\<forall>k. getTreeProperty lenv2 k st0 = None" using pushNewLayer_new [OF assms(1) p(1)] by blast
  have st1: "st1 = setTreeProperty h lenv2 k v st0" using p(2) w(5) by (simp add: addLayerDef_def)
  have s: "env_adv h {lenv2} st0 st1" "layer_defs lenv2 st1 = (layer_defs lenv2 st0)(k \<mapsto> v)"
    using setTreeProperty_layer [OF env_advD(1) [OF w(2)] w(4), of lenv k v] unfolding w(1) st1 by auto
  have a: "env_adv h {lenv2} st st1" using env_adv_trans [OF w(2) s(1)] by simp
  have keep: "env_wf (ev_known st1) e \<and> searchIdDef k' e st1 = searchIdDef k' e st" if "env_wf (ev_known st) e" for e k'
    using searchIdDef_adv [OF a that] env_wf_mono [OF that env_advD(2) [OF a]] w(1,3) by auto
  have "getTreeProperty lenv2 k' st1 = (if k' = k then Some v else None)"
    using fun_cong [OF s(2), of k'] w(5) by (simp add: layer_defs_def)
  then show "env_inv h st1 \<and> env_wf (ev_known st1) lenv2 \<and>
    searchIdDef k' lenv2 st1 = (if k' = k then Inr (Some v) else searchIdDef k' lenv st)"
    using keep [OF assms(2)] env_advD(1,2) [OF s(1)] w(1,4) by (auto simp: searchIdDef_layer)
  show "env_wf (ev_known st) e \<Longrightarrow> env_wf (ev_known st1) e \<and> searchIdDef k' e st1 = searchIdDef k' e st" by (rule keep)
qed

lemma pushValueDef_returns:
  assumes "env_inv h st" "layers_left h st (Suc n)"
  shows "\<exists>lenv2 st1. pushValueDef h k v lenv st = Inr (lenv2, st1) \<and> layers_left h st1 n"
proof -
  obtain lenv2 st0 where p: "pushNewLayer h lenv st = Inr (lenv2, st0)" "layers_left h st0 n"
    using pushNewLayer_returns [OF assms] by blast
  have "getTreeProperty lenv2 k st0 = None" using pushNewLayer_new [OF assms(1) p(1)] by auto
  with p show ?thesis by (simp add: pushValueDef_def addLayerDef_def) (simp add: setTreeProperty_def)
qed

interpretation env: scopes "env_inv h" "\<lambda>st. env_wf (ev_known st)" "layers_left h" searchIdDef "pushValueDef h" for h
proof
  fix st e k show "env_wf (ev_known st) e \<Longrightarrow> \<exists>d. searchIdDef k e st = Inr d" by (rule searchIdDef_returns)
next
  fix st n k v e assume "env_inv h st" "layers_left h st (Suc n)"
  then show "\<exists>e1 st1. pushValueDef h k v e st = Inr (e1, st1) \<and> layers_left h st1 n" by (rule pushValueDef_returns)
next
  fix st e k v e1 st1 k' assume "env_inv h st" "env_wf (ev_known st) e" "pushValueDef h k v e st = Inr (e1, st1)"
  then show "env_inv h st1 \<and> env_wf (ev_known st1) e1 \<and>
      searchIdDef k' e1 st1 = (if k' = k then Inr (Some v) else searchIdDef k' e st)"
    by (rule pushValueDef_binds(1))
next
  fix st k v e e1 st1 e' k'
  assume "env_inv h st" "env_wf (ev_known st) e" "pushValueDef h k v e st = Inr (e1, st1)" "env_wf (ev_known st) e'"
  then show "env_wf (ev_known st1) e' \<and> searchIdDef k' e' st1 = searchIdDef k' e' st"
    by (rule pushValueDef_binds(2))
next
  fix st m n assume "layers_left h st m" "n \<le> m"
  then show "layers_left h st n" by (rule room_less)
qed

section \<open>Scoping of definitions\<close>

definition init_host :: host where
  "init_host = \<lparr>ad_of = addr_in init, layer_prefix = 0, boxpp = (\<lambda>_. ''box''), gMaxNameSize = 40\<rparr>"

definition init_envst :: envst where
  "init_envst = \<lparr>ev_syms = symInit, ev_props = (\<lambda>_. []), yyfilename = ''main.dsp'', gErrorMsg = []\<rparr>"

lemma init_env_inv: "env_inv init_host init_envst"
  using symtab_reachable_inv [OF symtab_reachable.start] heap.ad_inj
  by (simp add: env_inv_def init_host_def init_envst_def)

lemma init_layers_left: "layers_left init_host init_envst 100"
  by (simp add: room_def init_host_def init_envst_def symInit_def known_def sym_name_def)

text \<open>
  Property C38 (\<^verbatim>\<open>pushMultiClosureDefs\<close>).  Definitions of different names make a new layer in which each
  name means its right-hand side closed in that very layer, so that the definitions may refer to each
  other, and every other name means what it meant below; no environment that was there changes.
\<close>

theorem pushMultiClosureDefs_scoping:
  assumes "env_inv h st" "env_wf (ev_known st) lenv" "layers_left h st 1" "distinct (map fst defs)"
  shows "\<exists>lenv2 st1. pushMultiClosureDefs h (defs_tree defs) visited lenv st = Inr (lenv2, st1) \<and>
    env_inv h st1 \<and> env_wf (ev_known st1) lenv2 \<and>
    (\<forall>k. searchIdDef k lenv2 st1 = (case map_of defs k of
       Some rhs \<Rightarrow> Inr (Some (closure rhs nil visited lenv2)) | None \<Rightarrow> searchIdDef k lenv st)) \<and>
    (\<forall>e k. env_wf (ev_known st) e \<longrightarrow> searchIdDef k e st1 = searchIdDef k e st)"
proof -
  obtain lenv2 st0 where p: "pushNewLayer h lenv st = Inr (lenv2, st0)"
    using pushNewLayer_returns [of h st 0] assms(1,3) by force
  obtain w where w: "lenv2 = layer w lenv" "env_adv h {} st st0" "w \<notin> ev_known st" "w \<in> ev_known st0"
    "\<forall>k. getTreeProperty lenv2 k st0 = None" using pushNewLayer_new [OF assms(1) p] by blast
  from w(1,5) have fresh: "layer_defs (layer w lenv) st0 = Map.empty" by (simp add: layer_defs_def fun_eq_iff)
  then obtain st1 where a: "add_closures h (defs_tree defs) visited (layer w lenv) st0 = Inr st1" "env_adv h {layer w lenv} st0 st1"
    "layer_defs (layer w lenv) st1 = map_of (map (\<lambda>(i, r). (i, closure r nil visited (layer w lenv))) defs)"
    using add_closures_spec [OF env_advD(1) [OF w(2)] w(4) assms(4), of lenv visited] by auto
  have adv: "env_adv h {layer w lenv} st st1" using env_adv_trans [OF w(2) a(2)] by simp
  have keep: "searchIdDef k e st1 = searchIdDef k e st" if "env_wf (ev_known st) e" for e k
    using searchIdDef_adv [OF adv that] w(3) by auto
  have "getTreeProperty (layer w lenv) k st1 = map_option (\<lambda>r. closure r nil visited (layer w lenv)) (map_of defs k)" for k
    using fun_cong [OF a(3), of k] by (simp add: layer_defs_def map_of_map)
  then have "searchIdDef k (layer w lenv) st1 = (case map_of defs k of
       Some rhs \<Rightarrow> Inr (Some (closure rhs nil visited (layer w lenv))) | None \<Rightarrow> searchIdDef k lenv st)" for k
    using keep [OF assms(2)] by (simp add: searchIdDef_layer split: option.splits)
  moreover have "env_wf (ev_known st1) (layer w lenv)"
    using env_wf_mono [OF assms(2) env_advD(2) [OF adv]] env_advD(2) [OF a(2)] w(4) by auto
  ultimately show ?thesis using p a(1) w(1) keep env_advD(1) [OF adv] by (simp add: pushMultiClosureDefs_def)
qed

theorem pushMultiClosureDefs_scoping_witness:
  "\<exists>lenv2 st1. pushMultiClosureDefs init_host (defs_tree [(boxInt 1, boxInt 2)]) nil nil init_envst = Inr (lenv2, st1) \<and>
     searchIdDef (boxInt 1) lenv2 st1 = Inr (Some (closure (boxInt 2) nil nil lenv2)) \<and>
     searchIdDef (boxInt 3) lenv2 st1 = Inr None"
proof -
  have "layers_left init_host init_envst 1" by (rule env.space_less [OF init_layers_left]) simp
  moreover have "env_wf N nil" for N by (rule env_wf_stop) (simp add: isEnvBarrier_def)
  moreover have "searchIdDef k nil st = Inr None" for k st by (rule searchIdDef_stop) (simp add: isEnvBarrier_def)
  ultimately show ?thesis
    using pushMultiClosureDefs_scoping [OF init_env_inv, of nil "[(boxInt 1, boxInt 2)]" nil]
    by (force simp: boxInt_def leaf_def)
qed

lemma map_of_rev_distinct: "distinct (map fst ps) \<Longrightarrow> map_of (rev ps) = map_of ps"
  by (rule map_of_inject_set [THEN iffD2]) (simp_all add: rev_map [symmetric])

lemma copied_defs:
  assumes "env_inv h st"
  shows "map_of (rev (zip (map fst (ev_props st t)) (map (updateClosure t c) (map snd (ev_props st t))))) k =
    map_option (updateClosure t c) (getTreeProperty t k st)"
proof -
  let ?ps = "map (\<lambda>(i, d). (i, updateClosure t c d)) (ev_props st t)"
  have "sorted_wrt (<) (map (ad_of h \<circ> fst) (ev_props st t))" using assms by (simp add: env_inv_def mp_ok_def)
  then have "distinct (map (ad_of h \<circ> fst) (ev_props st t))" by (simp add: strict_sorted_iff)
  then have "distinct (map fst (ev_props st t))" by (auto simp: distinct_map dest: inj_on_imageI2)
  moreover have "map fst ?ps = map fst (ev_props st t)" by auto
  ultimately have "map_of (rev ?ps) = map_of ?ps" by (intro map_of_rev_distinct) (simp only:)
  moreover have "zip (map fst (ev_props st t)) (map (updateClosure t c) (map snd (ev_props st t))) = ?ps"
    by (induction "ev_props st t") (auto simp: zip_map1 zip_map2 zip_same_conv_map)
  ultimately show ?thesis by (simp only: map_of_map getTreeProperty_def comp_apply)
qed

text \<open>
  Property C39 (\<^verbatim>\<open>copyEnvReplaceDefs\<close>).  The copy of a layer with some definitions replaced gives a
  replaced name its new right-hand side, closed in the current environment (the last one of a name
  counts); a name that is not replaced keeps its definition, where a closure over the copied layer is
  made a closure over the copy; every other name means what it meant below.  The layer that was
  copied and every other environment keep their meaning.
\<close>

theorem copyEnvReplaceDefs_scoping:
  assumes "env_inv h st" "env_wf (ev_known st) (layer w below)" "layers_left h st 1"
  shows "\<exists>copy st1. copyEnvReplaceDefs h (layer w below) (defs_tree defs) visited cur st = Inr (copy, st1) \<and>
    env_inv h st1 \<and> env_wf (ev_known st1) copy \<and>
    (\<forall>k. searchIdDef k copy st1 = (case map_of (rev defs) k of
       Some rhs \<Rightarrow> Inr (Some (closure rhs nil visited cur))
     | None \<Rightarrow> (case getTreeProperty (layer w below) k st of
           Some d \<Rightarrow> Inr (Some (updateClosure (layer w below) copy d))
         | None \<Rightarrow> searchIdDef k below st))) \<and>
    (\<forall>e k. env_wf (ev_known st) e \<longrightarrow> searchIdDef k e st1 = searchIdDef k e st)"
proof -
  let ?T = "layer w below"
  obtain copy st0 where p: "pushNewLayer h below st = Inr (copy, st0)"
    using pushNewLayer_returns [of h st 0] assms(1,3) by force
  obtain c where c: "copy = layer c below" "env_adv h {} st st0" "c \<notin> ev_known st" "c \<in> ev_known st0"
    "\<forall>k. getTreeProperty copy k st0 = None" using pushNewLayer_new [OF assms(1) p] by blast
  let ?ds = "zip (map fst (ev_props st ?T)) (map (updateClosure ?T copy) (map snd (ev_props st ?T)))"
  define st2 where "st2 = fold (\<lambda>(i, c). setTreeProperty h copy i c) ?ds st0"
  have t: "env_adv h {copy} st0 st2" "layer_defs copy st2 = layer_defs copy st0 ++ map_of (rev ?ds)"
    using transfer_spec [OF env_advD(1) [OF c(2)] c(4), of below ?ds] unfolding st2_def c(1) by auto
  have "c \<in> ev_known st2" using env_advD(2) [OF t(1)] c(4) by blast
  from replace_defs_spec [OF env_advD(1) [OF t(1)] this, of defs visited cur below]
  obtain st1 where r: "replace_defs h (defs_tree defs) visited cur copy st2 = Inr st1" "env_adv h {copy} st2 st1"
    "layer_defs copy st1 = layer_defs copy st2 ++ map_of (rev (map (\<lambda>(i, r). (i, closure r nil visited cur)) defs))"
    unfolding c(1) by blast
  have adv: "env_adv h {copy} st st1" using env_adv_trans [OF env_adv_trans [OF c(2) t(1)] r(2)] by simp
  have keep: "searchIdDef k e st1 = searchIdDef k e st" if "env_wf (ev_known st) e" for e k
    using searchIdDef_adv [OF adv that] c(1,3) by auto
  have "getTreeProperty copy k st1 = (case map_of (rev defs) k of Some rhs \<Rightarrow> Some (closure rhs nil visited cur)
      | None \<Rightarrow> map_option (updateClosure ?T copy) (getTreeProperty ?T k st))" for k
    using fun_cong [OF r(3), of k] fun_cong [OF t(2), of k] c(5) copied_defs [OF assms(1), of ?T copy k]
    by (simp add: layer_defs_def map_add_def map_of_map rev_map split: option.splits)
  then have "searchIdDef k copy st1 = (case map_of (rev defs) k of
       Some rhs \<Rightarrow> Inr (Some (closure rhs nil visited cur))
     | None \<Rightarrow> (case getTreeProperty ?T k st of Some d \<Rightarrow> Inr (Some (updateClosure ?T copy d))
         | None \<Rightarrow> searchIdDef k below st))" for k
    using keep [of below k] assms(2) by (simp add: c(1) searchIdDef_layer split: option.splits)
  moreover have "env_wf (ev_known st1) copy"
    using assms(2) env_wf_mono [of "ev_known st" below] env_advD(2) [OF adv] env_advD(2) [OF r(2)] \<open>c \<in> ev_known st2\<close>
    by (auto simp: c(1))
  moreover have "copyEnvReplaceDefs h ?T (defs_tree defs) visited cur st = Inr (copy, st1)"
    using p r(1) unfolding st2_def
    by (simp add: copyEnvReplaceDefs_def exportProperties_def branch_def arity_def updateClosures_def)
  ultimately show ?thesis using keep env_advD(1) [OF adv] by blast
qed

theorem copyEnvReplaceDefs_scoping_witness:
  "\<exists>w st0 copy st1. pushValueDef init_host (boxInt 1) (boxInt 2) nil init_envst = Inr (layer w nil, st0) \<and>
     copyEnvReplaceDefs init_host (layer w nil) (defs_tree [(boxInt 3, boxInt 4)]) nil nil st0 = Inr (copy, st1) \<and>
     searchIdDef (boxInt 3) copy st1 = Inr (Some (closure (boxInt 4) nil nil nil)) \<and>
     searchIdDef (boxInt 3) (layer w nil) st1 = Inr None"
proof -
  have "layers_left init_host init_envst (Suc 1)" by (rule env.space_less [OF init_layers_left]) simp
  from env.bind_returns [OF init_env_inv this] obtain lenv st0 where
    p: "pushValueDef init_host (boxInt 1) (boxInt 2) nil init_envst = Inr (lenv, st0)" "layers_left init_host st0 1" by blast
  have n: "env_wf N nil" "searchIdDef k nil st = Inr None" for N k st
    by (rule env_wf_stop searchIdDef_stop, simp add: isEnvBarrier_def)+
  note b = env.bind_binds [OF init_env_inv n(1) p(1)]
  obtain w where w: "lenv = layer w nil"
    using p(1) pushNewLayer_new [OF init_env_inv] by (fastforce simp: pushValueDef_def rbind_eq_Inr)
  have d: "boxInt 3 \<noteq> boxInt 1" by (simp add: boxInt_def leaf_def)
  from copyEnvReplaceDefs_scoping [OF b [THEN conjunct1] _ p(2), of w nil "[(boxInt 3, boxInt 4)]" nil nil] b [of "boxInt 3"]
  show ?thesis unfolding w using p(1) d n(2) w by force
qed

end
