(* ===== verification/PatternMatcher.thy ===== *)
theory PatternMatcher
  imports Environment
begin

text \<open>
  The automaton of a case expression (\<^verbatim>\<open>patternmatcher/patternmatcher.cpp\<close>): its construction from
  the rules and the matching of arguments.

  The source copies a state together with everything it leads to, so that the states of an automaton
  form a tree; \<open>state\<close> is that tree, and merging, which changes the first automaton in place, returns the
  changed one.  The trie of a pattern is a chain that grows at its end; \<open>make_state\<close> gives the
  steps that a pattern adds, a marker and a transition each, and \<open>grow\<close> the chain.  Transitions on
  constants are ordered by the addresses of the constants, those on operators by the addresses
  of their symbols (\<open>op_ad\<close>).

  After \<open>build\<close> a state is known by its number.  Matching goes from number to number through the
  table of states; its nesting is bounded by an argument, for which the number of states is taken.
  \<^verbatim>\<open>simplifyPattern\<close>, which evaluates numeric arguments and may change the state, is the argument \<open>sp\<close>.
\<close>

section \<open>Patterns\<close>

fun first_match :: "'a option list \<Rightarrow> 'a option" where
  "first_match [] = None"
| "first_match (Some a # rest) = Some a"
| "first_match (None # rest) = first_match rest"

definition isBoxPatternOp :: "tree \<Rightarrow> (node \<times> tree \<times> tree) option" where
  "isBoxPatternOp box = map_option (\<lambda>(t1, t2). (node box, t1, t2))
     (first_match [isBoxPar box, isBoxSeq box, isBoxSplit box, isBoxMerge box,
        isBoxHGroup box, isBoxVGroup box, isBoxTGroup box, isBoxRec box])"

definition pattern_ops :: "node set" where
  "pattern_ops = {NSym (KBox BOXPAR), NSym (KBox BOXSEQ), NSym (KBox BOXSPLIT), NSym (KBox BOXMERGE),
     NSym (KBox BOXHGROUP), NSym (KBox BOXVGROUP), NSym (KBox BOXTGROUP), NSym (KBox BOXREC)}"

lemma isBoxPatternOp_Some: "isBoxPatternOp t = Some (n, a, b) \<longleftrightarrow> t = Tree n [a, b] \<and> n \<in> pattern_ops"
  by (cases t) (auto simp: isBoxPatternOp_def pattern_ops_def isBoxPar_def isBoxSeq_def isBoxSplit_def isBoxMerge_def
      isBoxHGroup_def isBoxVGroup_def isBoxTGroup_def isBoxRec_def isTree2_def split: list.splits if_splits)

lemma isBoxPatternOp_size [termination_simp]: "isBoxPatternOp t = Some (n, a, b) \<Longrightarrow> size a < size t \<and> size b < size t"
  by (simp add: isBoxPatternOp_Some)

type_synonym path = "nat list"

fun subtree :: "tree \<Rightarrow> path \<Rightarrow> tree" where
  "subtree X [] = X"
| "subtree X (i # p) = (case isBoxPatternOp X of
      Some (op, x0, x1) \<Rightarrow> subtree (if i = 0 then x0 else x1) p
    | None \<Rightarrow> X)"

section \<open>States\<close>

record rule =
  rule_r :: nat
  rule_id :: "tree option"
  rule_p :: path

datatype label = VarT | CstT tree | OpT node

datatype state = State (st_s: int) (st_match_num: bool) (st_rules: "rule list") (st_trans: "(label \<times> state) list")

definition new_state :: state where
  "new_state = State 0 False [] []"

definition marker :: "nat \<Rightarrow> rule" where
  "marker r = \<lparr>rule_r = r, rule_id = None, rule_p = []\<rparr>"

fun make_state :: "nat \<Rightarrow> tree \<Rightarrow> path \<Rightarrow> (rule \<times> label) list" where
  "make_state r x p = (case isBoxPatternVar x of
      Some ident \<Rightarrow> [(\<lparr>rule_r = r, rule_id = Some ident, rule_p = p\<rparr>, VarT)]
    | None \<Rightarrow> (case isBoxPatternOp x of
        Some (op, x0, x1) \<Rightarrow> (marker r, OpT op) # make_state r x0 (p @ [0]) @ make_state r x1 (p @ [1])
      | None \<Rightarrow> [(marker r, CstT x)]))"

fun grow :: "(rule \<times> label) list \<Rightarrow> state \<Rightarrow> state" where
  "grow [] e = e"
| "grow ((ru, l) # steps) e = State 0 False [ru] [(l, grow steps e)]"

declare make_state.simps [simp del]

fun var_prefix :: "nat \<Rightarrow> rule list \<Rightarrow> state \<Rightarrow> state" where
  "var_prefix 0 rules st = st"
| "var_prefix (Suc n) rules st = State 0 False rules [(VarT, var_prefix n rules st)]"

definition make_var_state :: "nat \<Rightarrow> state \<Rightarrow> state" where
  "make_var_state n st = var_prefix n (map (\<lambda>ru. ru\<lparr>rule_id := None, rule_p := []\<rparr>) (st_rules st)) st"

section \<open>Merging\<close>

fun merge_rules :: "rule list \<Rightarrow> rule list \<Rightarrow> rule list" where
  "merge_rules [] ys = ys"
| "merge_rules xs [] = xs"
| "merge_rules (x # xs) (y # ys) =
     (if rule_r y < rule_r x then y # merge_rules (x # xs) ys else x # merge_rules xs (y # ys))"

definition completion :: "label \<Rightarrow> state \<Rightarrow> state" where
  "completion l st = (case l of OpT op \<Rightarrow> make_var_state 2 st | _ \<Rightarrow> st)"

fun weight :: "state \<Rightarrow> nat" where
  "weight (State s m ru tr) = Suc (sum_list (map (\<lambda>(l, t). (case l of OpT op \<Rightarrow> 3 | _ \<Rightarrow> 1) + weight t) tr))"

definition weight_of :: "label \<times> state \<Rightarrow> nat" where
  "weight_of e = (case fst e of OpT op \<Rightarrow> 3 | _ \<Rightarrow> 1) + weight (snd e)"

lemma weight_trans: "weight st = Suc (sum_list (map weight_of (st_trans st)))"
  by (cases st) (auto simp: weight_of_def intro!: arg_cong [where f = sum_list])

lemma weight_pos: "0 < weight st"
  by (cases st) simp

lemma weight_of_gt: "0 < weight_of e" "weight t < weight_of (l, t)"
  by (simp_all add: weight_of_def split: label.splits)

lemma weight_make_var_state: "weight (make_var_state n st) = 2 * n + weight st"
proof -
  have "weight (var_prefix n rules st) = 2 * n + weight st" for rules by (induction n) auto
  then show ?thesis by (simp add: make_var_state_def)
qed

lemma weight_completion: "weight (completion l st) + weight t < weight_of (l, t) + weight st + 2"
  by (cases l) (simp_all add: completion_def weight_make_var_state weight_of_def)


function merge_state :: "address \<Rightarrow> (node \<Rightarrow> nat) \<Rightarrow> state \<Rightarrow> state \<Rightarrow> state"
and merge_trans :: "address \<Rightarrow> (node \<Rightarrow> nat) \<Rightarrow> (label \<times> state) list \<Rightarrow> (label \<times> state) list \<Rightarrow> (label \<times> state) list"
and merge_trans_var :: "address \<Rightarrow> (node \<Rightarrow> nat) \<Rightarrow> (label \<times> state) list \<Rightarrow> state \<Rightarrow> (label \<times> state) list"
and merge_trans_cst :: "address \<Rightarrow> (node \<Rightarrow> nat) \<Rightarrow> state option \<Rightarrow> (label \<times> state) list \<Rightarrow> tree \<Rightarrow> state \<Rightarrow> (label \<times> state) list"
and merge_trans_op :: "address \<Rightarrow> (node \<Rightarrow> nat) \<Rightarrow> state option \<Rightarrow> (label \<times> state) list \<Rightarrow> node \<Rightarrow> state \<Rightarrow> (label \<times> state) list" where
  "merge_state ad oa st1 st2 = State (st_s st1) (st_match_num st1) (merge_rules (st_rules st1) (st_rules st2))
     (merge_trans ad oa (st_trans st1) (st_trans st2))"
| "merge_trans ad oa tr1 tr2 = (case tr2 of
      [] \<Rightarrow> tr1
    | (l, st) # _ \<Rightarrow> if tr1 = [] then tr2 else (case l of
        VarT \<Rightarrow> (case tr1 of
          (VarT, t0) # rest \<Rightarrow> merge_trans_var ad oa tr1 st
        | _ \<Rightarrow> (VarT, merge_state ad oa new_state st) # merge_trans_var ad oa tr1 st)
      | CstT x \<Rightarrow> (case tr1 of
          (VarT, t0) # rest \<Rightarrow> (VarT, t0) # merge_trans_cst ad oa (Some t0) rest x st
        | _ \<Rightarrow> merge_trans_cst ad oa None tr1 x st)
      | OpT op \<Rightarrow> (case tr1 of
          (VarT, t0) # rest \<Rightarrow> (VarT, t0) # merge_trans_op ad oa (Some t0) rest op st
        | _ \<Rightarrow> merge_trans_op ad oa None tr1 op st)))"
| "merge_trans_var ad oa [] st = []"
| "merge_trans_var ad oa ((l, t) # rest) st = (l, merge_state ad oa t (completion l st)) # merge_trans_var ad oa rest st"
| "merge_trans_cst ad oa v [] x st = [(CstT x, case v of Some t0 \<Rightarrow> merge_state ad oa st t0 | None \<Rightarrow> st)]"
| "merge_trans_cst ad oa v ((l, t) # rest) x st = (case l of
      CstT x1 \<Rightarrow> if x = x1 then (l, merge_state ad oa t st) # rest
        else if ad x < ad x1 then (CstT x, case v of Some t0 \<Rightarrow> merge_state ad oa st t0 | None \<Rightarrow> st) # (l, t) # rest
        else (l, t) # merge_trans_cst ad oa v rest x st
    | _ \<Rightarrow> (l, t) # merge_trans_cst ad oa v rest x st)"
| "merge_trans_op ad oa v [] op st = [(OpT op, case v of Some t0 \<Rightarrow> merge_state ad oa st (make_var_state 2 t0) | None \<Rightarrow> st)]"
| "merge_trans_op ad oa v ((l, t) # rest) op st = (case l of
      OpT op1 \<Rightarrow> if op = op1 then (l, merge_state ad oa t st) # rest
        else if oa op < oa op1 then (OpT op, case v of Some t0 \<Rightarrow> merge_state ad oa st (make_var_state 2 t0) | None \<Rightarrow> st) # (l, t) # rest
        else (l, t) # merge_trans_op ad oa v rest op st
    | _ \<Rightarrow> (l, t) # merge_trans_op ad oa v rest op st)"
  by pat_completeness auto

definition weights :: "(label \<times> state) list \<Rightarrow> nat" where
  "weights tr = sum_list (map weight_of tr)"

lemma weights_simps [simp]: "weights [] = 0" "weights ((l, t) # tr) = weight_of (l, t) + weights tr"
  by (simp_all add: weights_def)

lemma weight_labels [simp]:
  "weight_of (VarT, t) = 1 + weight t" "weight_of (CstT x, t) = 1 + weight t" "weight_of (OpT op, t) = 3 + weight t"
  by (simp_all add: weight_of_def)

definition var_weight :: "state option \<Rightarrow> nat" where
  "var_weight v = (case v of Some t \<Rightarrow> 1 + weight t | None \<Rightarrow> 0)"

lemma var_weight_simps [simp]: "var_weight None = 0" "var_weight (Some t) = 1 + weight t"
  by (simp_all add: var_weight_def)

lemma weight_unfold: "2 * weights (st_trans a) + 2 * weights (st_trans b) + 3 < 2 * weight a + 2 * weight b"
  by (simp add: weight_trans weights_def)

lemma weight_completion2: "2 * weight t + 2 * weight (completion l st) < 2 * weight_of (l, t) + 2 * n + 2 * weight st + 3"
  using weight_completion [of l st t] by simp

termination merge_state
proof (relation "measure (\<lambda>c. case c of
      Inl (Inl (_, _, st1, st2)) \<Rightarrow> 2 * (weight st1 + weight st2)
    | Inl (Inr (_, _, tr1, tr2)) \<Rightarrow> 2 * (weights tr1 + weights tr2) + 3
    | Inr (Inl (_, _, tr, st)) \<Rightarrow> 2 * (weights tr + weight st) + 3
    | Inr (Inr (Inl (_, _, v, tr, x, st))) \<Rightarrow> 2 * (var_weight v + weights tr + weight st) + 1
    | Inr (Inr (Inr (_, _, v, tr, op, st))) \<Rightarrow> 2 * (var_weight v + weights tr + weight st) + 7)", goal_cases)
qed (auto simp: weight_unfold weight_make_var_state new_state_def weight_of_gt weight_completion2)

declare merge_state.simps [simp del] merge_trans.simps [simp del] weight.simps [simp del]

section \<open>Construction\<close>

record automaton =
  a_state :: "state list"
  a_rhs :: "tree list"

definition n_rules :: "automaton \<Rightarrow> nat" where
  "n_rules A = length (a_rhs A)"

definition state_at :: "automaton \<Rightarrow> int \<Rightarrow> state result" where
  "state_at A s = (if 0 \<le> s \<and> nat s < length (a_state A) then Inr (a_state A ! nat s) else Inl (Undefined ''state table''))"

definition final :: "automaton \<Rightarrow> int \<Rightarrow> bool result" where
  "final A s = rbind (state_at A s) (\<lambda>st. Inr (st_trans st = []))"

definition is_numeric_label :: "label \<Rightarrow> bool" where
  "is_numeric_label l = (case l of CstT x \<Rightarrow> isBoxInt x \<or> isBoxReal x | _ \<Rightarrow> False)"

fun number :: "state \<Rightarrow> int \<Rightarrow> state \<times> int"
and number_all :: "(label \<times> state) list \<Rightarrow> int \<Rightarrow> (label \<times> state) list \<times> int" where
  "number (State s0 m ru tr) s = (let (tr1, s1) = number_all tr (s + 1) in
     (State s (m \<or> (\<exists>(l, t) \<in> set tr. is_numeric_label l)) ru tr1, s1))"
| "number_all [] s = ([], s)"
| "number_all ((l, t) # rest) s = (let (t1, s1) = number t s; (rest1, s2) = number_all rest s1 in ((l, t1) # rest1, s2))"

fun all_states :: "state \<Rightarrow> state list"
and all_trans :: "(label \<times> state) list \<Rightarrow> state list" where
  "all_states (State s m ru tr) = State s m ru tr # all_trans tr"
| "all_trans [] = []"
| "all_trans ((l, t) # rest) = all_states t @ all_trans rest"

definition build :: "state \<Rightarrow> state list" where
  "build st = all_states (fst (number st 0))"

fun cons_items :: "tree \<Rightarrow> tree list" where
  "cons_items l = (case asList l of Some (h, t) \<Rightarrow> h # cons_items t | None \<Rightarrow> [])"

declare cons_items.simps [simp del]

definition lhs_state :: "nat \<Rightarrow> tree list \<Rightarrow> state" where
  "lhs_state r pats = grow (concat (map (\<lambda>x. make_state r x []) pats)) (State 0 False [marker r] [])"

definition add_rule :: "address \<Rightarrow> (node \<Rightarrow> nat) \<Rightarrow> nat \<times> tree \<Rightarrow> state \<times> tree list \<times> tree list list \<Rightarrow> state \<times> tree list \<times> tree list list" where
  "add_rule ad oa = (\<lambda>(r, rule) (start, rhss, testpats). case asList rule of
      Some (lhs, rhs) \<Rightarrow> (let pats = rev (cons_items lhs) in
        (merge_state ad oa start (lhs_state r pats), rhss @ [rhs], testpats @ [pats]))
    | None \<Rightarrow> (start, rhss, testpats @ [[]]))"

section \<open>Matching\<close>

type_synonym assocs = "(tree \<times> path) list"

fun add_markers :: "rule list \<Rightarrow> assocs list \<Rightarrow> assocs list result" where
  "add_markers [] sb = Inr sb"
| "add_markers (ru # rules) sb = (case rule_id ru of
      Some ident \<Rightarrow> if rule_r ru < length sb
        then add_markers rules (sb[rule_r ru := sb ! rule_r ru @ [(ident, rule_p ru)]])
        else Inl (Undefined ''substitutions'')
    | None \<Rightarrow> add_markers rules sb)"

definition add_subst :: "assocs list \<Rightarrow> automaton \<Rightarrow> int \<Rightarrow> assocs list result" where
  "add_subst sb A s = rbind (state_at A s) (\<lambda>st. add_markers (st_rules st) sb)"

definition fires :: "tree \<Rightarrow> label \<Rightarrow> bool" where
  "fires X l = (case l of VarT \<Rightarrow> False | CstT x \<Rightarrow> X = x
     | OpT op \<Rightarrow> (case isBoxPatternOp X of Some (op1, x0, x1) \<Rightarrow> op = op1 | None \<Rightarrow> False))"

fun apply_pattern_matcher_internal :: "nat \<Rightarrow> (tree \<Rightarrow> ('s, tree) mm) \<Rightarrow> automaton \<Rightarrow> int \<Rightarrow> tree \<Rightarrow> assocs list \<Rightarrow> ('s, int \<times> assocs list) mm" where
  "apply_pattern_matcher_internal 0 sp A s X sb st = Inl (Undefined ''nesting'')"
| "apply_pattern_matcher_internal (Suc d) sp A s X sb st = (if s < 0 then Inr ((s, sb), st) else
     rbind (state_at A s) (\<lambda>q. rbind (if st_match_num q then sp X st else Inr (X, st)) (\<lambda>(X1, st1).
       case find (\<lambda>(l, t). fires X1 l) (st_trans q) of
         Some (l, t) \<Rightarrow> rbind (add_subst sb A s) (\<lambda>sb1.
           (case (l, isBoxPatternOp X1) of
              (OpT op, Some (_, x0, x1)) \<Rightarrow> rbind (apply_pattern_matcher_internal d sp A (st_s t) x0 sb1 st1) (\<lambda>((s1, sb2), st2).
                apply_pattern_matcher_internal d sp A s1 x1 sb2 st2)
            | _ \<Rightarrow> Inr ((st_s t, sb1), st1)))
       | None \<Rightarrow> (case st_trans q of
           [] \<Rightarrow> Inl (Undefined ''first transition'')
         | (VarT, t) # _ \<Rightarrow> rbind (add_subst sb A s) (\<lambda>sb1. Inr ((st_s t, sb1), st1))
         | _ \<Rightarrow> Inr ((-1, sb), st1)))))"

fun bind_assocs :: "host \<Rightarrow> tree \<Rightarrow> assocs \<Rightarrow> tree \<Rightarrow> 'x envst_scheme \<Rightarrow> (tree \<times> 'x envst_scheme) result" where
  "bind_assocs h X [] e st = Inr (e, st)"
| "bind_assocs h X ((ident, p) # bs) e st = (let Z1 = subtree X p in
     rbind (searchIdDef ident e st) (\<lambda>d. case d of
       Some Z \<Rightarrow> bind_assocs h X bs (if Z \<noteq> Z1 then boxError else e) st
     | None \<Rightarrow> rbind (pushValueDef h ident Z1 e st) (\<lambda>(e1, st1). bind_assocs h X bs e1 st1)))"

fun bind_rules :: "host \<Rightarrow> tree \<Rightarrow> assocs list \<Rightarrow> rule list \<Rightarrow> tree list \<Rightarrow> 'x envst_scheme \<Rightarrow> (tree list \<times> 'x envst_scheme) result" where
  "bind_rules h X sb [] E st = Inr (E, st)"
| "bind_rules h X sb (ru # rules) E st = (if rule_r ru < length E \<and> rule_r ru < length sb then
     (if isBoxError (E ! rule_r ru) then bind_rules h X sb rules E st
      else rbind (bind_assocs h X (sb ! rule_r ru) (E ! rule_r ru) st) (\<lambda>(e, st1).
        bind_rules h X sb rules (E[rule_r ru := e]) st1))
     else Inl (Undefined ''environments''))"

fun first_viable :: "automaton \<Rightarrow> rule list \<Rightarrow> tree list \<Rightarrow> tree option result" where
  "first_viable A [] E = Inr None"
| "first_viable A (ru # rules) E = (if rule_r ru < length E \<and> rule_r ru < length (a_rhs A) then
     (if isBoxError (E ! rule_r ru) then first_viable A rules E
      else Inr (Some (closure (a_rhs A ! rule_r ru) nil nil (E ! rule_r ru))))
     else Inl (Undefined ''environments''))"

definition apply_pattern_matcher :: "host \<Rightarrow> (tree \<Rightarrow> ('x envst_scheme, tree) mm) \<Rightarrow> automaton \<Rightarrow> int \<Rightarrow> tree \<Rightarrow> tree list \<Rightarrow> 'x envst_scheme \<Rightarrow>
    ((int \<times> tree \<times> tree list) \<times> 'x envst_scheme) result" where
  "apply_pattern_matcher h sp A s X E st =
     rbind (apply_pattern_matcher_internal (length (a_state A)) sp A s X (replicate (n_rules A) []) st) (\<lambda>((s1, sb), st0).
       if s1 < 0 then Inr ((s1, nil, E), st0) else
       rbind (state_at A s1) (\<lambda>q. rbind (bind_rules h X sb (st_rules q) E st0) (\<lambda>(E1, st1).
         rbind (final A s1) (\<lambda>fin. if fin
           then rbind (first_viable A (st_rules q) E1) (\<lambda>c. case c of
               Some C \<Rightarrow> Inr ((s1, C, E1), st1) | None \<Rightarrow> Inr ((-1, nil, E1), st1))
           else Inr ((s1, nil, E1), st1)))))"

section \<open>Shadowed rules\<close>

fun match_lhs :: "host \<Rightarrow> (tree \<Rightarrow> ('x envst_scheme, tree) mm) \<Rightarrow> automaton \<Rightarrow> int \<Rightarrow> tree list \<Rightarrow> tree list \<Rightarrow> 'x envst_scheme \<Rightarrow> ((int \<times> tree list) \<times> 'x envst_scheme) result" where
  "match_lhs h sp A s [] E st = Inr ((s, E), st)"
| "match_lhs h sp A s (X # Xs) E st = rbind (apply_pattern_matcher h sp A s X E st) (\<lambda>((s1, C, E1), st1).
     if s1 < 0 then Inr ((s1, E1), st1) else match_lhs h sp A s1 Xs E1 st1)"

fun shadow_warnings :: "host \<Rightarrow> tree list \<Rightarrow> nat \<Rightarrow> rule list \<Rightarrow> tree list \<Rightarrow> 'x envst_scheme \<Rightarrow> 'x envst_scheme result" where
  "shadow_warnings h rules r [] E st = Inr st"
| "shadow_warnings h rules r (ru # rus) E st = (if \<not> rule_r ru < length E then Inl (Undefined ''environments'')
     else if isBoxError (E ! rule_r ru) then shadow_warnings h rules r rus E st
     else if rule_r ru < r then (case (asList (rules ! rule_r ru), asList (rules ! r)) of
         (Some (lhs1, rhs1), Some (lhs2, rhs2)) \<Rightarrow> shadow_warnings h rules r rus E
           (st\<lparr>gErrorMsg := ''WARNING : shadowed pattern-matching rule: '' @ boxpp h (reverseT lhs2) @ '' => '' @ boxpp h rhs2 @ '';'' @
              '' previous rule was: '' @ boxpp h (reverseT lhs1) @ '' => '' @ boxpp h rhs1 @ '';'' @ newline\<rparr>)
       | _ \<Rightarrow> Inl (FaustException ''INTERNAL ERROR''))
     else Inr st)"

fun check_shadowed :: "host \<Rightarrow> (tree \<Rightarrow> ('x envst_scheme, tree) mm) \<Rightarrow> automaton \<Rightarrow> tree list \<Rightarrow> (nat \<times> tree list) list \<Rightarrow> 'x envst_scheme \<Rightarrow> 'x envst_scheme result" where
  "check_shadowed h sp A rules [] st = Inr st"
| "check_shadowed h sp A rules ((r, pats) # tests) st =
     rbind (match_lhs h sp A 0 pats (replicate (length rules) nil) st) (\<lambda>((s, E), st1).
       rbind (final A s) (\<lambda>fin. rbind (if fin then rbind (state_at A s) (\<lambda>q. shadow_warnings h rules r (st_rules q) E st1) else Inr st1) (\<lambda>st2.
         check_shadowed h sp A rules tests st2)))"

definition build_matcher :: "address \<Rightarrow> (node \<Rightarrow> nat) \<Rightarrow> tree list \<Rightarrow> automaton \<times> tree list list" where
  "build_matcher ad oa rules = (let (start, rhss, testpats) = fold (add_rule ad oa) (enumerate 0 rules) (new_state, [], [])
     in (\<lparr>a_state = build start, a_rhs = rhss\<rparr>, testpats))"

definition make_pattern_matcher :: "host \<Rightarrow> (node \<Rightarrow> nat) \<Rightarrow> (tree \<Rightarrow> ('x envst_scheme, tree) mm) \<Rightarrow> tree \<Rightarrow> 'x envst_scheme \<Rightarrow> (automaton \<times> 'x envst_scheme) result" where
  "make_pattern_matcher h oa sp R st = (let rules = rev (cons_items R); (A, testpats) = build_matcher (ad_of h) oa rules in
     rbind (check_shadowed h sp A rules (enumerate 0 testpats) st) (\<lambda>st1. Inr (A, st1)))"

end
