(* ===== verification/MatcherWords.thy ===== *)
theory MatcherWords
  imports PatternMatcher
begin

text \<open>
  What a state of a matching automaton stands for.

  The left-hand side of a rule is a word of steps, a marker and a label each.  A state stands for a
  set of words, at most one for each rule number (\<open>words\<close>): \<open>implements\<close> relates a state to its words by their
  steps.  A transition on a constant or an operator is also taken by the words that have a
  variable there; after an operator these words skip its two arguments.  Merging implements the union
  of the words, provided the second automaton is in trie form whenever it is called (\<open>tries_only\<close>), which
  is what the comment at \<^verbatim>\<open>merge_state\<close> assumes.  The lemma \<open>merging_drops_rules\<close> shows that this
  assumption is not always met and what is lost.
\<close>

type_synonym word_steps = "(rule \<times> label) list"
type_synonym words = "nat \<rightharpoonup> word_steps"

section \<open>Words and their steps\<close>

definition skip2 :: "nat \<Rightarrow> word_steps \<Rightarrow> word_steps" where
  "skip2 r w = (marker r, VarT) # (marker r, VarT) # w"

fun step_word :: "label \<Rightarrow> nat \<Rightarrow> word_steps \<Rightarrow> word_steps option" where
  "step_word l r [] = None"
| "step_word l r ((ru, l1) # w) = (if l = l1 then Some w
     else if l1 = VarT then (case l of OpT op \<Rightarrow> Some (skip2 r w) | _ \<Rightarrow> Some w)
     else None)"

definition step :: "label \<Rightarrow> words \<Rightarrow> words" where
  "step l S = (\<lambda>r. Option.bind (S r) (step_word l r))"

definition firsts :: "words \<Rightarrow> label set" where
  "firsts S = {l. \<exists>r ru w. S r = Some ((ru, l) # w)}"

definition head_rule :: "nat \<Rightarrow> word_steps \<Rightarrow> rule" where
  "head_rule r w = (case w of [] \<Rightarrow> marker r | (ru, l) # _ \<Rightarrow> ru)"

definition heads :: "words \<Rightarrow> rule set" where
  "heads S = {head_rule r w | r w. S r = Some w}"

definition skip2_all :: "words \<Rightarrow> words" where
  "skip2_all S = (\<lambda>r. map_option (skip2 r) (S r))"

text \<open>The markers of a word carry its number, and no constant is an operator.\<close>

definition word_ok :: "nat \<Rightarrow> word_steps \<Rightarrow> bool" where
  "word_ok r w \<longleftrightarrow> (\<forall>(ru, l) \<in> set w. rule_r ru = r \<and> (\<forall>x. l = CstT x \<longrightarrow> isBoxPatternOp x = None))"

definition words_ok :: "words \<Rightarrow> bool" where
  "words_ok S \<longleftrightarrow> (\<forall>r w. S r = Some w \<longrightarrow> word_ok r w)"

lemma word_ok_simps [simp]:
  "word_ok r []" "word_ok r ((ru, l) # w) \<longleftrightarrow> rule_r ru = r \<and> (\<forall>x. l = CstT x \<longrightarrow> isBoxPatternOp x = None) \<and> word_ok r w"
  by (auto simp: word_ok_def)

lemma word_ok_append [simp]: "word_ok r (v @ w) \<longleftrightarrow> word_ok r v \<and> word_ok r w"
  by (simp add: word_ok_def ball_Un)

lemma rule_r_marker [simp]: "rule_r (marker r) = r" "rule_id (marker r) = None"
  by (simp_all add: marker_def)

lemma word_ok_skip2 [simp]: "word_ok r (skip2 r w) \<longleftrightarrow> word_ok r w"
  by (simp add: skip2_def)

lemma word_ok_step: "word_ok r w \<Longrightarrow> step_word l r w = Some w1 \<Longrightarrow> word_ok r w1"
  by (cases w) (auto split: if_splits label.splits)

lemma words_ok_step: "words_ok S \<Longrightarrow> words_ok (step l S)"
  by (auto simp: words_ok_def step_def bind_eq_Some_conv dest: word_ok_step)

lemma words_ok_add: "words_ok S \<Longrightarrow> words_ok T \<Longrightarrow> words_ok (S ++ T)"
  by (auto simp: words_ok_def map_add_Some_iff)

lemma words_ok_skip2: "words_ok (skip2_all S) \<longleftrightarrow> words_ok S"
  by (auto simp: words_ok_def skip2_all_def) fastforce

lemma head_rule_r: "word_ok r w \<Longrightarrow> rule_r (head_rule r w) = r"
  by (cases w) (auto simp: head_rule_def)

lemma heads_r: "words_ok S \<Longrightarrow> rule_r ` heads S = dom S"
  by (force simp: heads_def words_ok_def head_rule_r image_def)

lemma firsts_empty [simp]: "firsts Map.empty = {}" "heads Map.empty = {}" "step l Map.empty = Map.empty"
  by (simp_all add: firsts_def heads_def step_def fun_eq_iff)

lemma union_commute: "dom S \<inter> dom T = {} \<Longrightarrow> S ++ T = T ++ S"
  by (rule map_add_comm) auto

lemma firsts_add: "dom S \<inter> dom T = {} \<Longrightarrow> firsts (S ++ T) = firsts S \<union> firsts T"
  by (fastforce simp: firsts_def map_add_Some_iff)

lemma heads_add: "dom S \<inter> dom T = {} \<Longrightarrow> heads (S ++ T) = heads S \<union> heads T"
  by (fastforce simp: heads_def map_add_Some_iff)

lemma dom_step: "dom (step l S) \<subseteq> dom S"
  by (auto simp: step_def bind_eq_Some_conv)

lemma step_add:
  assumes "dom S \<inter> dom T = {}"
  shows "step l (S ++ T) = step l S ++ step l T"
proof
  fix r
  have "S r = None \<or> T r = None" using assms by blast
  then show "step l (S ++ T) r = (step l S ++ step l T) r"
    by (auto simp: step_def map_add_def split: option.splits)
qed

lemma step_empty: "firsts S \<inter> {l, VarT} = {} \<Longrightarrow> step l S = Map.empty"
proof
  fix r assume f: "firsts S \<inter> {l, VarT} = {}"
  show "step l S r = None"
  proof (cases "S r")
    case (Some w)
    with f show ?thesis by (cases w) (auto simp: step_def firsts_def)
  qed (simp add: step_def)
qed

lemma step_const_var: "CstT x \<notin> firsts S \<Longrightarrow> step (CstT x) S = step VarT S"
proof
  fix r assume "CstT x \<notin> firsts S"
  then show "step (CstT x) S r = step VarT S r"
    by (cases "S r"; cases "the (S r)") (auto simp: step_def firsts_def)
qed

lemma step_op_var: "OpT op \<notin> firsts S \<Longrightarrow> step (OpT op) S = skip2_all (step VarT S)"
proof
  fix r assume "OpT op \<notin> firsts S"
  then show "step (OpT op) S r = skip2_all (step VarT S) r"
    by (cases "S r"; cases "the (S r)") (auto simp: step_def firsts_def skip2_all_def)
qed

definition complete :: "label \<Rightarrow> words \<Rightarrow> words" where
  "complete l S = (case l of OpT op \<Rightarrow> skip2_all S | _ \<Rightarrow> S)"

lemma step_complete: "l \<notin> firsts S \<Longrightarrow> step l S = complete l (step VarT S)"
  by (cases l) (simp_all add: complete_def step_const_var step_op_var)

lemma dom_complete [simp]: "dom (complete l S) = dom S"
  by (auto simp: complete_def skip2_all_def split: label.splits)

lemma words_ok_complete [simp]: "words_ok (complete l S) \<longleftrightarrow> words_ok S"
  by (auto simp: complete_def words_ok_skip2 split: label.splits)

lemma firsts_skip2: "firsts (skip2_all S) = (if S = Map.empty then {} else {VarT})"
  by (auto simp: firsts_def skip2_all_def skip2_def fun_eq_iff)

lemma step_skip2: "step VarT (skip2_all S) r = map_option (\<lambda>w. (marker r, VarT) # w) (S r)"
  by (cases "S r") (auto simp: step_def skip2_all_def skip2_def)

section \<open>States that stand for words\<close>

definition cst_addresses :: "address \<Rightarrow> (label \<times> state) list \<Rightarrow> nat list" where
  "cst_addresses ad tr = List.map_filter (\<lambda>(l, t). case l of CstT x \<Rightarrow> Some (ad x) | _ \<Rightarrow> None) tr"

definition op_addresses :: "(node \<Rightarrow> nat) \<Rightarrow> (label \<times> state) list \<Rightarrow> nat list" where
  "op_addresses oa tr = List.map_filter (\<lambda>(l, t). case l of OpT op \<Rightarrow> Some (oa op) | _ \<Rightarrow> None) tr"

definition ordered :: "address \<Rightarrow> (node \<Rightarrow> nat) \<Rightarrow> (label \<times> state) list \<Rightarrow> bool" where
  "ordered ad oa tr \<longleftrightarrow> sorted_wrt (<) (cst_addresses ad tr) \<and> sorted_wrt (<) (op_addresses oa tr) \<and>
     VarT \<notin> fst ` set (tl tr)"

definition rules_of :: "rule list \<Rightarrow> words \<Rightarrow> bool" where
  "rules_of ru S \<longleftrightarrow> set ru = heads S \<and> sorted_wrt (<) (map rule_r ru)"

inductive implements :: "address \<Rightarrow> (node \<Rightarrow> nat) \<Rightarrow> state \<Rightarrow> words \<Rightarrow> bool" for ad oa where
  "rules_of ru S \<Longrightarrow> ordered ad oa tr \<Longrightarrow> fst ` set tr = firsts S \<Longrightarrow>
     (\<forall>e \<in> set tr. implements ad oa (snd e) (step (fst e) S)) \<Longrightarrow> implements ad oa (State s m ru tr) S"

inductive_cases implements_StateE: "implements ad oa (State s m ru tr) S"

lemma implements_iff:
  "implements ad oa st S \<longleftrightarrow> rules_of (st_rules st) S \<and> ordered ad oa (st_trans st) \<and> fst ` set (st_trans st) = firsts S \<and>
     (\<forall>(l, t) \<in> set (st_trans st). implements ad oa t (step l S))"
  by (cases st) (auto elim!: implements_StateE intro!: implements.intros)

section \<open>Markers, completions and insertion of transitions\<close>

lemma merge_rules_set: "set (merge_rules xs ys) = set xs \<union> set ys"
  by (induction xs ys rule: merge_rules.induct) auto

lemma merge_rules_sorted:
  "sorted_wrt (<) (map rule_r xs) \<Longrightarrow> sorted_wrt (<) (map rule_r ys) \<Longrightarrow> rule_r ` set xs \<inter> rule_r ` set ys = {} \<Longrightarrow>
   sorted_wrt (<) (map rule_r (merge_rules xs ys))"
proof (induction xs ys rule: merge_rules.induct)
  case (3 x xs y ys)
  then have ne: "rule_r x \<noteq> rule_r y" by auto
  show ?case
  proof (cases "rule_r y < rule_r x")
    case True
    with 3 have "sorted_wrt (<) (map rule_r (merge_rules (x # xs) ys))" by auto
    moreover have "rule_r y < rule_r z" if "z \<in> set (x # xs) \<union> set ys" for z
      using that "3.prems" True by fastforce
    ultimately show ?thesis using True merge_rules_set [of "x # xs" ys] by auto
  next
    case False
    with 3 have "sorted_wrt (<) (map rule_r (merge_rules xs (y # ys)))" by auto
    moreover have "rule_r x < rule_r z" if "z \<in> set xs \<union> set (y # ys)" for z
      using that "3.prems" False ne by fastforce
    ultimately show ?thesis using False merge_rules_set [of xs "y # ys"] by auto
  qed
qed auto

lemma rules_of_merge:
  assumes "rules_of ru S" "rules_of rv T" "words_ok S" "words_ok T" "dom S \<inter> dom T = {}"
  shows "rules_of (merge_rules ru rv) (S ++ T)"
proof -
  have "rule_r ` set ru \<inter> rule_r ` set rv = {}"
    using assms heads_r [OF assms(3)] heads_r [OF assms(4)] by (simp add: rules_of_def)
  then show ?thesis using assms merge_rules_sorted [of ru rv] by (simp add: rules_of_def merge_rules_set heads_add)
qed

lemma implements_new: "implements ad oa new_state Map.empty"
  unfolding new_state_def
  by (rule implements.intros) (simp_all add: rules_of_def ordered_def cst_addresses_def op_addresses_def List.map_filter_simps)

lemma implements_var:
  assumes "implements ad oa t (step VarT S)" "firsts S = {VarT}" "rules_of ru S"
  shows "implements ad oa (State s m ru [(VarT, t)]) S"
  using assms by (intro implements.intros) (simp_all add: ordered_def cst_addresses_def op_addresses_def List.map_filter_simps)

lemma heads_marked:
  assumes "\<And>r. V r = map_option (\<lambda>w. (marker r, VarT) # f r w) (S r)"
  shows "heads V = marker ` dom S"
proof
  show "heads V \<subseteq> marker ` dom S" by (auto simp: heads_def head_rule_def assms)
  show "marker ` dom S \<subseteq> heads V"
  proof safe
    fix r w assume "S r = Some w"
    then have "V r = Some ((marker r, VarT) # f r w)" by (simp add: assms)
    moreover have "marker r = head_rule r ((marker r, VarT) # f r w)" by (simp add: head_rule_def)
    ultimately show "marker r \<in> heads V" unfolding heads_def by blast
  qed
qed

lemma implements_skip2:
  assumes "implements ad oa st S" "words_ok S" "S \<noteq> Map.empty"
  shows "implements ad oa (make_var_state 2 st) (skip2_all S)"
proof -
  let ?clear = "\<lambda>ru. ru\<lparr>rule_id := None, rule_p := []\<rparr> :: rule"
  let ?R = "map ?clear (st_rules st)"
  define U where "U = (\<lambda>r. map_option (\<lambda>w. (marker r, VarT) # w) (S r))"
  have clear: "?clear ru = marker (rule_r ru)" for ru by (cases ru) (simp add: marker_def)
  have ro: "rules_of (st_rules st) S" using assms(1) unfolding implements_iff [of ad oa st] by blast
  then have "set ?R = marker ` rule_r ` heads S" unfolding clear by (simp add: rules_of_def image_image)
  then have "set ?R = marker ` dom S" "sorted_wrt (<) (map rule_r ?R)"
    using ro unfolding heads_r [OF assms(2)] by (simp_all add: rules_of_def comp_def)
  moreover have "heads (skip2_all S) = marker ` dom S" "heads U = marker ` dom S"
    by (rule heads_marked [where f = "\<lambda>r w. (marker r, VarT) # w"], simp add: skip2_all_def skip2_def [abs_def])
      (rule heads_marked [where f = "\<lambda>r w. w"], simp add: U_def)
  ultimately have R: "rules_of ?R (skip2_all S)" "rules_of ?R U" by (simp_all add: rules_of_def)
  have F: "firsts U = {VarT}" "firsts (skip2_all S) = {VarT}"
    using assms(3) firsts_skip2 [of S] by (simp_all add: firsts_def U_def) (auto simp: fun_eq_iff)
  have "step VarT U = S" by (rule ext, rename_tac r) (case_tac "S r"; simp add: step_def U_def)
  then have "implements ad oa (State 0 False ?R [(VarT, st)]) U" by (intro implements_var [OF _ F(1) R(2)]) (simp only: assms(1))
  moreover have "step VarT (skip2_all S) = U" by (rule ext) (simp add: step_skip2 U_def)
  ultimately have "implements ad oa (State 0 False ?R [(VarT, State 0 False ?R [(VarT, st)])]) (skip2_all S)"
    by (intro implements_var [OF _ F(2) R(1)]) (simp only:)
  then show ?thesis by (simp add: make_var_state_def numeral_2_eq_2)
qed

lemma implements_completion:
  "implements ad oa st S \<Longrightarrow> words_ok S \<Longrightarrow> S \<noteq> Map.empty \<Longrightarrow> implements ad oa (completion l st) (complete l S)"
  by (cases l) (simp_all add: completion_def complete_def implements_skip2)

lemma addresses_simps [simp]:
  "cst_addresses ad [] = []" "cst_addresses ad ((CstT x, t) # tr) = ad x # cst_addresses ad tr"
  "cst_addresses ad ((VarT, t) # tr) = cst_addresses ad tr" "cst_addresses ad ((OpT op, t) # tr) = cst_addresses ad tr"
  "op_addresses oa [] = []" "op_addresses oa ((OpT op, t) # tr) = oa op # op_addresses oa tr"
  "op_addresses oa ((VarT, t) # tr) = op_addresses oa tr" "op_addresses oa ((CstT x, t) # tr) = op_addresses oa tr"
  by (simp_all add: cst_addresses_def op_addresses_def List.map_filter_simps)

lemma set_addresses:
  "set (cst_addresses ad tr) = {ad x | x. CstT x \<in> fst ` set tr}" "set (op_addresses oa tr) = {oa op | op. OpT op \<in> fst ` set tr}"
  by (force simp: cst_addresses_def op_addresses_def List.map_filter_def split: label.splits option.splits)+

definition insert_address :: "nat \<Rightarrow> nat list \<Rightarrow> nat list" where
  "insert_address a xs = (if a \<in> set xs then xs else insort a xs)"

lemma insert_address_sorted: "sorted_wrt (<) xs \<Longrightarrow> sorted_wrt (<) (insert_address a xs)"
  by (simp add: insert_address_def strict_sorted_iff sorted_insort distinct_insort)

lemma merge_trans_cst_spec:
  fixes v x st ad oa
  defines "new \<equiv> (CstT x, case v of Some t0 \<Rightarrow> merge_state ad oa st t0 | None \<Rightarrow> st)"
  assumes "inj ad" "sorted_wrt (<) (cst_addresses ad tr)"
  shows "(CstT x, t) \<in> set tr \<Longrightarrow> set (merge_trans_cst ad oa v tr x st) =
      insert (CstT x, merge_state ad oa t st) {e \<in> set tr. fst e \<noteq> CstT x}"
    and "CstT x \<notin> fst ` set tr \<Longrightarrow> set (merge_trans_cst ad oa v tr x st) = insert new (set tr)"
    and "cst_addresses ad (merge_trans_cst ad oa v tr x st) = insert_address (ad x) (cst_addresses ad tr)"
    and "op_addresses oa' (merge_trans_cst ad oa v tr x st) = op_addresses oa' tr"
proof -
  have "((CstT x, t) \<in> set tr \<longrightarrow> set (merge_trans_cst ad oa v tr x st) =
      insert (CstT x, merge_state ad oa t st) {e \<in> set tr. fst e \<noteq> CstT x}) \<and>
    (CstT x \<notin> fst ` set tr \<longrightarrow> set (merge_trans_cst ad oa v tr x st) = insert new (set tr)) \<and>
    cst_addresses ad (merge_trans_cst ad oa v tr x st) = insert_address (ad x) (cst_addresses ad tr) \<and>
    op_addresses oa' (merge_trans_cst ad oa v tr x st) = op_addresses oa' tr"
    using assms(3)
  proof (induction tr)
    case (Cons e tr)
    obtain l s where e: "e = (l, s)" by (cases e)
    show ?case
    proof (cases l)
      case (CstT y)
      with e Cons.prems have lt: "\<forall>z \<in> set (cst_addresses ad tr). ad y < z" and srt: "sorted_wrt (<) (cst_addresses ad tr)" by auto
      have later: "CstT z \<in> fst ` set tr \<Longrightarrow> ad y < ad z" for z using lt by (auto simp: set_addresses)
      have iff: "ad x = ad y \<longleftrightarrow> x = y" using assms(2) by (simp add: inj_eq)
      consider "x = y" | "ad x < ad y" | "ad y < ad x" "x \<noteq> y" using iff by linarith
      then show ?thesis
      proof cases
        case 1
        with later [of x] have n: "CstT x \<notin> fst ` set tr" by auto
        then have "(CstT x, t) \<notin> set tr" by force
        moreover have "{e' \<in> set (e # tr). fst e' \<noteq> CstT x} = set tr" using n 1 e CstT by force
        ultimately show ?thesis using 1 e CstT by (simp add: insert_address_def)
      next
        case 2
        with later [of x] have n: "CstT x \<notin> fst ` set (e # tr)" using e CstT by auto
        then have "(CstT x, t) \<notin> set (e # tr)" by force
        moreover have "ad x \<notin> set (cst_addresses ad (e # tr))" using lt 2 e CstT by auto
        ultimately show ?thesis using 2 e CstT n by (simp add: insert_address_def new_def)
      next
        case 3
        have "{e' \<in> set (e # tr). fst e' \<noteq> CstT x} = insert e {e \<in> set tr. fst e \<noteq> CstT x}" using 3 e CstT by auto
        moreover have "CstT x \<in> fst ` set (e # tr) \<longleftrightarrow> CstT x \<in> fst ` set tr"
          "(CstT x, t) \<in> set (e # tr) \<longleftrightarrow> (CstT x, t) \<in> set tr" using 3 e CstT by auto
        ultimately show ?thesis using Cons.IH [OF srt] 3 e CstT iff by (simp add: insert_address_def insert_commute)
      qed
    next
      case VarT
      then have "{e' \<in> set (e # tr). fst e' \<noteq> CstT x} = insert e {e \<in> set tr. fst e \<noteq> CstT x}" using e by auto
      with Cons e VarT show ?thesis by (simp add: insert_commute)
    next
      case (OpT op)
      then have "{e' \<in> set (e # tr). fst e' \<noteq> CstT x} = insert e {e \<in> set tr. fst e \<noteq> CstT x}" using e by auto
      with Cons e OpT show ?thesis by (simp add: insert_commute)
    qed
  qed (auto simp: insert_address_def new_def)
  then show "(CstT x, t) \<in> set tr \<Longrightarrow> set (merge_trans_cst ad oa v tr x st) =
      insert (CstT x, merge_state ad oa t st) {e \<in> set tr. fst e \<noteq> CstT x}"
    "CstT x \<notin> fst ` set tr \<Longrightarrow> set (merge_trans_cst ad oa v tr x st) = insert new (set tr)"
    "cst_addresses ad (merge_trans_cst ad oa v tr x st) = insert_address (ad x) (cst_addresses ad tr)"
    "op_addresses oa' (merge_trans_cst ad oa v tr x st) = op_addresses oa' tr"
    by blast+
qed

lemma merge_trans_op_spec:
  fixes v op st ad oa
  defines "new \<equiv> (OpT op, case v of Some t0 \<Rightarrow> merge_state ad oa st (make_var_state 2 t0) | None \<Rightarrow> st)"
  assumes "inj oa" "sorted_wrt (<) (op_addresses oa tr)"
  shows "(OpT op, t) \<in> set tr \<Longrightarrow> set (merge_trans_op ad oa v tr op st) =
      insert (OpT op, merge_state ad oa t st) {e \<in> set tr. fst e \<noteq> OpT op}"
    and "OpT op \<notin> fst ` set tr \<Longrightarrow> set (merge_trans_op ad oa v tr op st) = insert new (set tr)"
    and "op_addresses oa (merge_trans_op ad oa v tr op st) = insert_address (oa op) (op_addresses oa tr)"
    and "cst_addresses ad' (merge_trans_op ad oa v tr op st) = cst_addresses ad' tr"
proof -
  have "((OpT op, t) \<in> set tr \<longrightarrow> set (merge_trans_op ad oa v tr op st) =
      insert (OpT op, merge_state ad oa t st) {e \<in> set tr. fst e \<noteq> OpT op}) \<and>
    (OpT op \<notin> fst ` set tr \<longrightarrow> set (merge_trans_op ad oa v tr op st) = insert new (set tr)) \<and>
    op_addresses oa (merge_trans_op ad oa v tr op st) = insert_address (oa op) (op_addresses oa tr) \<and>
    cst_addresses ad' (merge_trans_op ad oa v tr op st) = cst_addresses ad' tr"
    using assms(3)
  proof (induction tr)
    case (Cons e tr)
    obtain l s where e: "e = (l, s)" by (cases e)
    show ?case
    proof (cases l)
      case (OpT op1)
      with e Cons.prems have lt: "\<forall>z \<in> set (op_addresses oa tr). oa op1 < z" and srt: "sorted_wrt (<) (op_addresses oa tr)" by auto
      have later: "OpT z \<in> fst ` set tr \<Longrightarrow> oa op1 < oa z" for z using lt by (auto simp: set_addresses)
      have iff: "oa op = oa op1 \<longleftrightarrow> op = op1" using assms(2) by (simp add: inj_eq)
      consider "op = op1" | "oa op < oa op1" | "oa op1 < oa op" "op \<noteq> op1" using iff by linarith
      then show ?thesis
      proof cases
        case 1
        with later [of op] have n: "OpT op \<notin> fst ` set tr" by auto
        then have "(OpT op, t) \<notin> set tr" by force
        moreover have "{e' \<in> set (e # tr). fst e' \<noteq> OpT op} = set tr" using n 1 e OpT by force
        ultimately show ?thesis using 1 e OpT by (simp add: insert_address_def)
      next
        case 2
        with later [of op] have n: "OpT op \<notin> fst ` set (e # tr)" using e OpT by auto
        then have "(OpT op, t) \<notin> set (e # tr)" by force
        moreover have "oa op \<notin> set (op_addresses oa (e # tr))" using lt 2 e OpT by auto
        ultimately show ?thesis using 2 e OpT n by (simp add: insert_address_def new_def)
      next
        case 3
        have "{e' \<in> set (e # tr). fst e' \<noteq> OpT op} = insert e {e \<in> set tr. fst e \<noteq> OpT op}" using 3 e OpT by auto
        moreover have "OpT op \<in> fst ` set (e # tr) \<longleftrightarrow> OpT op \<in> fst ` set tr"
          "(OpT op, t) \<in> set (e # tr) \<longleftrightarrow> (OpT op, t) \<in> set tr" using 3 e OpT by auto
        ultimately show ?thesis using Cons.IH [OF srt] 3 e OpT iff by (simp add: insert_address_def insert_commute)
      qed
    next
      case VarT
      then have "{e' \<in> set (e # tr). fst e' \<noteq> OpT op} = insert e {e \<in> set tr. fst e \<noteq> OpT op}" using e by auto
      with Cons e VarT show ?thesis by (simp add: insert_commute)
    next
      case (CstT y)
      then have "{e' \<in> set (e # tr). fst e' \<noteq> OpT op} = insert e {e \<in> set tr. fst e \<noteq> OpT op}" using e by auto
      with Cons e CstT show ?thesis by (simp add: insert_commute)
    qed
  qed (auto simp: insert_address_def new_def)
  then show "(OpT op, t) \<in> set tr \<Longrightarrow> set (merge_trans_op ad oa v tr op st) =
      insert (OpT op, merge_state ad oa t st) {e \<in> set tr. fst e \<noteq> OpT op}"
    "OpT op \<notin> fst ` set tr \<Longrightarrow> set (merge_trans_op ad oa v tr op st) = insert new (set tr)"
    "op_addresses oa (merge_trans_op ad oa v tr op st) = insert_address (oa op) (op_addresses oa tr)"
    "cst_addresses ad' (merge_trans_op ad oa v tr op st) = cst_addresses ad' tr"
    by blast+
qed

lemma merge_trans_var_map:
  "merge_trans_var ad oa tr st = map (\<lambda>(l, t). (l, merge_state ad oa t (completion l st))) tr"
  by (induction tr) auto

lemma addresses_map_snd [simp]:
  "cst_addresses ad (map (\<lambda>(l, t). (l, f l t)) tr) = cst_addresses ad tr"
  "op_addresses oa (map (\<lambda>(l, t). (l, f l t)) tr) = op_addresses oa tr"
  by (induction tr) (auto simp: cst_addresses_def op_addresses_def List.map_filter_simps split: label.splits)

lemma ordered_map_snd: "ordered ad oa (map (\<lambda>(l, t). (l, f l t)) tr) \<longleftrightarrow> ordered ad oa tr"
proof -
  have "fst ` set (tl (map (\<lambda>(l, t). (l, f l t)) tr)) = fst ` set (tl tr)" by (cases tr) force+
  then show ?thesis by (simp add: ordered_def)
qed

section \<open>Merging implements the union\<close>

fun trie :: "state \<Rightarrow> bool" where
  "trie (State s m ru tr) = (length tr \<le> 1 \<and> (\<forall>(l, t) \<in> set tr. trie t))"

lemma trie_iff: "trie st \<longleftrightarrow> length (st_trans st) \<le> 1 \<and> (\<forall>(l, t) \<in> set (st_trans st). trie t)"
  by (cases st) simp

declare trie.simps [simp del]

lemma weight_of_member: "e \<in> set (st_trans st) \<Longrightarrow> weight_of e < weight st"
  by (auto simp: weight_trans less_Suc_eq_le intro: member_le_sum_list)

function tries_only :: "state \<Rightarrow> state \<Rightarrow> bool" where
  "tries_only st1 st2 = (trie st2 \<and> (case st_trans st2 of
      [] \<Rightarrow> True
    | (l, t2) # _ \<Rightarrow> st_trans st1 = [] \<or>
        (if l = VarT then \<forall>(l1, t) \<in> set (st_trans st1). tries_only t (completion l1 t2)
         else case map_of (st_trans st1) l of
             Some t \<Rightarrow> tries_only t t2
           | None \<Rightarrow> (case map_of (st_trans st1) VarT of
               Some t0 \<Rightarrow> tries_only t2 (completion l t0) | None \<Rightarrow> True))))"
  by pat_completeness auto
termination
proof (relation "measure (\<lambda>(st1, st2). weight st1 + weight st2)", goal_cases)
  case 1
  then show ?case by simp
next
  case (2 st1 st2 e rest l t2 e1 l1 t)
  then have "weight_of (l, t2) < weight st2" "weight_of (l1, t) < weight st1" by (auto intro: weight_of_member)
  then show ?case using weight_completion [of l1 t2 t] 2 by simp
next
  case (3 st1 st2 e rest l t2 t0)
  then have "(l, t2) \<in> set (st_trans st2)" "(VarT, t0) \<in> set (st_trans st1)" by (auto dest!: map_of_SomeD)
  then have "weight_of (l, t2) < weight st2" "weight_of (VarT, t0) < weight st1" by (auto dest: weight_of_member simp del: weight_labels)
  then show ?case using weight_completion [of l t0 t2] by simp
next
  case (4 st1 st2 e rest l t2 t)
  then have "weight_of (l, t2) < weight st2" "weight_of (l, t) < weight st1" by (auto intro: weight_of_member dest!: map_of_SomeD)
  then show ?case using weight_of_gt(2) [of t2 l] weight_of_gt(2) [of t l] by simp
qed

declare tries_only.simps [simp del]

definition trans_ok :: "address \<Rightarrow> (node \<Rightarrow> nat) \<Rightarrow> (label \<times> state) list \<Rightarrow> words \<Rightarrow> bool" where
  "trans_ok ad oa tr S \<longleftrightarrow> ordered ad oa tr \<and> fst ` set tr = firsts S \<and> (\<forall>l t. (l, t) \<in> set tr \<longrightarrow> implements ad oa t (step l S))"

lemma implements_trans: "implements ad oa st S \<longleftrightarrow> rules_of (st_rules st) S \<and> trans_ok ad oa (st_trans st) S"
  unfolding implements_iff [of ad oa st] trans_ok_def by auto

lemma trans_ok_Cons:
  "ordered ad oa ((l, t) # tr) \<Longrightarrow> fst ` set ((l, t) # tr) = firsts S \<Longrightarrow> implements ad oa t (step l S) \<Longrightarrow>
   (\<And>l1 t1. (l1, t1) \<in> set tr \<Longrightarrow> implements ad oa t1 (step l1 S)) \<Longrightarrow> trans_ok ad oa ((l, t) # tr) S"
  unfolding trans_ok_def by auto

lemma step_nonempty: "l \<in> firsts S \<Longrightarrow> step l S \<noteq> Map.empty"
proof
  assume "l \<in> firsts S" and e: "step l S = Map.empty"
  then obtain r ru w where "S r = Some ((ru, l) # w)" by (auto simp: firsts_def)
  then have "step l S r = Some w" by (simp add: step_def)
  with e show False by simp
qed

lemma disjoint_steps: "dom S \<inter> dom T = {} \<Longrightarrow> dom (step l S) \<inter> dom (step l' T) = {}"
  using dom_step [of l S] dom_step [of l' T] by blast

lemma trans_ok_no_transitions:
  assumes "trans_ok ad oa tr S" "firsts T = {}" "dom S \<inter> dom T = {}"
  shows "trans_ok ad oa tr (S ++ T)"
  using assms by (simp add: trans_ok_def firsts_add step_add step_empty)

lemma merge_new_state: "implements ad oa t S \<Longrightarrow> implements ad oa (merge_state ad oa new_state t) S"
proof -
  have "merge_state ad oa new_state t = State 0 False (st_rules t) (st_trans t)"
    by (auto simp: merge_state.simps [of ad oa "State 0 False [] []"] merge_trans.simps [of ad oa "[]"] new_state_def split: list.splits)
  then show "implements ad oa t S \<Longrightarrow> ?thesis" by (simp only: implements_trans [of _ _ t] implements_trans [of _ _ "State _ _ _ _"] state.sel)
qed

lemma trans_ok_var:
  assumes tr: "trans_ok ad oa tr S" and T: "firsts T = {VarT}" "implements ad oa t2 (step VarT T)" and d: "dom S \<inter> dom T = {}"
    and IH: "\<And>l t. (l, t) \<in> set tr \<Longrightarrow> implements ad oa (merge_state ad oa t (completion l t2)) (step l S ++ complete l (step VarT T))"
  shows "trans_ok ad oa (case tr of (VarT, t0) # rest \<Rightarrow> merge_trans_var ad oa tr t2
      | _ \<Rightarrow> (VarT, merge_state ad oa new_state t2) # merge_trans_var ad oa tr t2) (S ++ T)"
proof -
  let ?f = "\<lambda>(l, t). (l, merge_state ad oa t (completion l t2))"
  have c: "step l T = complete l (step VarT T)" for l
  proof (cases "l = VarT")
    case False
    then show ?thesis using T(1) by (intro step_complete) simp
  qed (simp add: complete_def)
  have suc: "implements ad oa t (step l (S ++ T))" if m: "(l, t) \<in> set (map ?f tr)" for l t
  proof -
    obtain u where "(l, u) \<in> set tr" "t = merge_state ad oa u (completion l t2)" using m by auto
    with IH show ?thesis unfolding step_add [OF d] c [of l] by blast
  qed
  have "fst ` set (map ?f tr) = fst ` set tr" by (simp add: image_image case_prod_beta')
  then have lab: "fst ` set (map ?f tr) = firsts S" using tr by (simp add: trans_ok_def)
  have ord: "ordered ad oa tr" using tr by (simp add: trans_ok_def)
  show ?thesis
  proof (cases "\<exists>t0 rest. tr = (VarT, t0) # rest")
    case True
    then have "VarT \<in> firsts S" using tr by (auto simp: trans_ok_def)
    then have "fst ` set (map ?f tr) = firsts (S ++ T)" unfolding lab firsts_add [OF d] T(1) by blast
    moreover have "ordered ad oa (map ?f tr)" using ord by (simp add: ordered_map_snd)
    ultimately have "trans_ok ad oa (map ?f tr) (S ++ T)" unfolding trans_ok_def using suc by (intro conjI allI impI)
    with True show ?thesis by (auto simp: merge_trans_var_map)
  next
    case False
    then have nv: "VarT \<notin> fst ` set tr" using ord by (cases tr) (auto simp: ordered_def)
    then have "step VarT S = Map.empty" using tr by (intro step_empty) (auto simp: trans_ok_def)
    then have "implements ad oa (merge_state ad oa new_state t2) (step VarT (S ++ T))"
      using merge_new_state [OF T(2)] by (simp add: step_add [OF d])
    moreover have "VarT \<notin> fst ` set (map ?f tr)" using nv lab tr by (simp add: trans_ok_def)
    then have "ordered ad oa ((VarT, u) # map ?f tr)" for u using ord by (simp add: ordered_def)
    moreover have "fst ` set ((VarT, u) # map ?f tr) = firsts S \<union> {VarT}" for u using lab by simp
    ultimately have "trans_ok ad oa ((VarT, merge_state ad oa new_state t2) # map ?f tr) (S ++ T)"
      using suc by (intro trans_ok_Cons) (simp_all only: firsts_add [OF d] T(1) list.set image_insert fst_conv)
    with False show ?thesis by (auto simp: merge_trans_var_map split: list.splits label.splits)
  qed
qed

lemma trans_ok_label:
  assumes tr: "trans_ok ad oa (pre @ tr) S" and T: "firsts T = {l}" "l \<noteq> VarT" "implements ad oa t2 (step l T)"
    and d: "dom S \<inter> dom T = {}"
    and pre: "pre = (case v of Some t0 \<Rightarrow> [(VarT, t0)] | None \<Rightarrow> [])" "VarT \<notin> fst ` set tr"
    and known: "\<And>t. (l, t) \<in> set tr \<Longrightarrow> set res = insert (l, merge_state ad oa t t2) {e \<in> set tr. fst e \<noteq> l} \<and>
        implements ad oa (merge_state ad oa t t2) (step l S ++ step l T)"
    and new: "l \<notin> fst ` set tr \<Longrightarrow> set res = insert (l, case v of Some t0 \<Rightarrow> merge_state ad oa t2 (completion l t0) | None \<Rightarrow> t2) (set tr)"
      "\<And>t0. l \<notin> fst ` set tr \<Longrightarrow> v = Some t0 \<Longrightarrow>
        implements ad oa (merge_state ad oa t2 (completion l t0)) (step l T ++ complete l (step VarT S))"
    and ord: "ordered ad oa (pre @ res)"
  shows "trans_ok ad oa (pre @ res) (S ++ T)"
proof -
  have others: "step l1 (S ++ T) = step l1 S" if "l1 \<noteq> l" for l1
    using T(1,2) that by (auto simp: step_add [OF d] step_empty)
  have lab: "fst ` set (pre @ tr) = firsts S" and suc: "(l1, t) \<in> set (pre @ tr) \<Longrightarrow> implements ad oa t (step l1 S)" for l1 t
    using tr by (auto simp: trans_ok_def)
  have npre: "l \<notin> fst ` set pre" using pre(1) T(2) by (cases v) auto
  have l: "step l (S ++ T) = step l S ++ step l T" by (rule step_add [OF d])
  show ?thesis
  proof (cases "l \<in> fst ` set tr")
    case True
    then obtain t where t: "(l, t) \<in> set tr" by auto
    note k = known [OF t]
    have "fst ` set (pre @ res) = firsts S \<union> firsts T"
      using k True T(1) unfolding lab [symmetric] by (auto simp: image_iff)
    moreover have "(l1, t) \<in> set pre \<Longrightarrow> l1 \<noteq> l" for l1 t using npre by (auto simp: image_iff)
    ultimately show ?thesis using k ord others suc unfolding trans_ok_def firsts_add [OF d]
      by (auto simp: l)
  next
    case False
    then have nS: "l \<notin> firsts S" using npre lab by auto
    let ?n = "case v of Some t0 \<Rightarrow> merge_state ad oa t2 (completion l t0) | None \<Rightarrow> t2"
    have "implements ad oa ?n (step l (S ++ T))"
    proof (cases v)
      case None
      then have "VarT \<notin> firsts S" using pre lab by auto
      then have "step l S = Map.empty" using nS by (intro step_empty) auto
      then show ?thesis using None T(3) by (simp add: l)
    next
      case (Some t0)
      have "step l T ++ complete l (step VarT S) = step l S ++ step l T"
        unfolding step_complete [OF nS, symmetric] by (rule union_commute) (use d disjoint_steps in blast)
      then show ?thesis using new(2) [OF False Some] Some by (simp add: l)
    qed
    moreover have "fst ` set (pre @ res) = firsts S \<union> firsts T"
      using new(1) [OF False] T(1) unfolding lab [symmetric] by auto
    moreover have "(l1, t) \<in> set (pre @ tr) \<Longrightarrow> l1 \<noteq> l" for l1 t using False npre by (auto simp: image_iff)
    ultimately show ?thesis using new(1) [OF False] ord others suc unfolding trans_ok_def firsts_add [OF d]
      by auto
  qed
qed

lemma distinct_labels:
  "sorted_wrt (<) (cst_addresses ad tr) \<Longrightarrow> sorted_wrt (<) (op_addresses oa tr) \<Longrightarrow> VarT \<notin> fst ` set tr \<Longrightarrow> distinct (map fst tr)"
proof (induction tr)
  case (Cons e tr)
  obtain l t where e: "e = (l, t)" by (cases e)
  from Cons.prems e have later: "CstT x = l \<longrightarrow> (\<forall>a \<in> set (cst_addresses ad tr). ad x < a)"
    "OpT op = l \<longrightarrow> (\<forall>a \<in> set (op_addresses oa tr). oa op < a)" for x op by auto
  have "l \<notin> fst ` set tr"
  proof (cases l)
    case (CstT x)
    with later(1) [of x] show ?thesis by (auto simp: set_addresses)
  next
    case (OpT op)
    with later(2) [of op] show ?thesis by (auto simp: set_addresses)
  qed (use Cons.prems e in auto)
  moreover have "distinct (map fst tr)" using Cons.prems e by (intro Cons.IH) (cases l; simp)+
  ultimately show ?case using e by simp
qed simp

lemma ordered_distinct: "ordered ad oa tr \<Longrightarrow> distinct (map fst tr)"
proof (cases tr)
  case (Cons e rest)
  moreover obtain l t where "e = (l, t)" by (cases e)
  moreover assume "ordered ad oa tr"
  ultimately show ?thesis
    using distinct_labels [of ad rest oa] distinct_labels [of ad tr oa] by (cases l) (auto simp: ordered_def)
qed simp

lemma var_split:
  assumes "ordered ad oa tr"
  obtains v rest where "tr = (case v of Some t0 \<Rightarrow> [(VarT, t0)] | None \<Rightarrow> []) @ rest" "VarT \<notin> fst ` set rest"
    "map_of tr VarT = v" "v = None \<Longrightarrow> \<nexists>t0 rest. tr = (VarT, t0) # rest"
proof (cases "\<exists>t0 rest. tr = (VarT, t0) # rest")
  case True
  then obtain t0 rest where "tr = (VarT, t0) # rest" by blast
  with assms that [of "Some t0" rest] show ?thesis by (simp add: ordered_def)
next
  case False
  then have n: "VarT \<notin> fst ` set tr" using assms by (cases tr) (auto simp: ordered_def)
  then have "map_of tr VarT = None" by (simp add: map_of_eq_None_iff)
  with False n that [of None tr] show ?thesis by simp
qed

lemma ordered_insert:
  assumes "ordered ad oa (pre @ tr)" "pre = (case v of Some t0 \<Rightarrow> [(VarT, t0)] | None \<Rightarrow> [])" "VarT \<notin> fst ` set res"
    and "sorted_wrt (<) (cst_addresses ad res)" "sorted_wrt (<) (op_addresses oa res)"
  shows "ordered ad oa (pre @ res)"
proof (cases v)
  case None
  then have "VarT \<notin> fst ` set (tl res)" using assms(3) by (cases res) auto
  then show ?thesis using None assms by (simp add: ordered_def)
qed (use assms in \<open>simp add: ordered_def\<close>)

lemma merge_implements:
  assumes inj: "inj ad" "inj oa"
  shows "implements ad oa st1 S \<Longrightarrow> implements ad oa st2 T \<Longrightarrow> words_ok S \<Longrightarrow> words_ok T \<Longrightarrow> dom S \<inter> dom T = {} \<Longrightarrow>
    tries_only st1 st2 \<Longrightarrow> implements ad oa (merge_state ad oa st1 st2) (S ++ T)"
proof (induction st1 st2 arbitrary: S T rule: tries_only.induct)
  case (1 st1 st2)
  note d = "1.prems"(5) and wS = "1.prems"(3) and wT = "1.prems"(4)
  have r1: "rules_of (st_rules st1) S" and tr1: "trans_ok ad oa (st_trans st1) S"
    using "1.prems"(1) unfolding implements_trans [of ad oa st1] by auto
  have r2: "rules_of (st_rules st2) T" and tr2: "trans_ok ad oa (st_trans st2) T"
    using "1.prems"(2) unfolding implements_trans [of ad oa st2] by auto
  have only: "trie st2" using "1.prems"(6) by (subst (asm) tries_only.simps) simp
  have "trans_ok ad oa (merge_trans ad oa (st_trans st1) (st_trans st2)) (S ++ T)"
  proof (cases "st_trans st2")
    case Nil
    with tr2 have "firsts T = {}" by (simp add: trans_ok_def)
    with tr1 Nil d show ?thesis by (simp add: merge_trans.simps trans_ok_no_transitions)
  next
    case (Cons e rest)
    obtain l t2 where e: "e = (l, t2)" by (cases e)
    have two: "st_trans st2 = [(l, t2)]" using only Cons e by (simp add: trie_iff [of st2])
    have T: "firsts T = {l}" "implements ad oa t2 (step l T)" using tr2 two by (auto simp: trans_ok_def)
    have ne: "step l T \<noteq> Map.empty" using T(1) by (intro step_nonempty) simp
    show ?thesis
    proof (cases "st_trans st1 = []")
      case True
      with tr1 have "firsts S = {}" by (simp add: trans_ok_def)
      then have "trans_ok ad oa (st_trans st2) (T ++ S)" using tr2 d by (intro trans_ok_no_transitions) auto
      then show ?thesis using True two by (simp add: merge_trans.simps union_commute [OF d])
    next
      case False
      have asm: "if l = VarT then \<forall>(l1, t) \<in> set (st_trans st1). tries_only t (completion l1 t2)
         else case map_of (st_trans st1) l of
             Some t \<Rightarrow> tries_only t t2
           | None \<Rightarrow> (case map_of (st_trans st1) VarT of
               Some t0 \<Rightarrow> tries_only t2 (completion l t0) | None \<Rightarrow> True)"
        using "1.prems"(6) two False by (subst (asm) tries_only.simps) simp
      have wl: "words_ok (step l1 S)" "words_ok (step l1 T)" for l1 using wS wT by (simp_all add: words_ok_step)
      have dl: "dom (step l1 S) \<inter> dom (step l2 T) = {}" "dom (step l1 S) \<inter> dom (complete l1 (step l2 T)) = {}"
        "dom (step l2 T) \<inter> dom (complete l1 (step l2' S)) = {}" for l1 l2 l2'
        using disjoint_steps [OF d] by (simp_all add: Int_commute)
      show ?thesis
      proof (cases "l = VarT")
        case True
        have "implements ad oa (merge_state ad oa t (completion l1 t2)) (step l1 S ++ complete l1 (step VarT T))"
          if m: "(l1, t) \<in> set (st_trans st1)" for l1 t
        proof (rule "1.IH"(1) [OF two refl True m refl])
          show "implements ad oa t (step l1 S)" using tr1 m by (simp add: trans_ok_def)
          show "implements ad oa (completion l1 t2) (complete l1 (step VarT T))"
            using T(2) ne wl True by (intro implements_completion) auto
          show "tries_only t (completion l1 t2)" using asm True m by auto
        qed (use wl dl in simp_all)
        from trans_ok_var [OF tr1 _ _ d this] T True False two show ?thesis
          by (simp add: merge_trans.simps)
      next
        case False
        have ord: "ordered ad oa (st_trans st1)" using tr1 by (simp add: trans_ok_def)
        obtain v rest where v: "st_trans st1 = (case v of Some t0 \<Rightarrow> [(VarT, t0)] | None \<Rightarrow> []) @ rest" "VarT \<notin> fst ` set rest"
          "map_of (st_trans st1) VarT = v" "v = None \<Longrightarrow> \<nexists>t0 rest. st_trans st1 = (VarT, t0) # rest"
          using var_split [OF ord] by metis
        let ?pre = "case v of Some t0 \<Rightarrow> [(VarT, t0)] | None \<Rightarrow> []"
        have srt: "sorted_wrt (<) (cst_addresses ad rest)" "sorted_wrt (<) (op_addresses oa rest)"
          using ord v(1) by (auto simp: ordered_def split: option.splits)
        have known: "implements ad oa (merge_state ad oa t t2) (step l S ++ step l T)" if m: "(l, t) \<in> set rest" for t
        proof -
          have in1: "(l, t) \<in> set (st_trans st1)" using m v(1) by simp
          then have mo: "map_of (st_trans st1) l = Some t" using ordered_distinct [OF ord] by simp
          show ?thesis
          proof (rule "1.IH"(3) [OF two refl False mo])
            show "implements ad oa t (step l S)" using tr1 in1 by (simp add: trans_ok_def)
            show "tries_only t t2" using asm False mo by simp
          qed (use T wl dl in simp_all)
        qed
        have new: "implements ad oa (merge_state ad oa t2 (completion l t0)) (step l T ++ complete l (step VarT S))"
          if n: "l \<notin> fst ` set rest" "v = Some t0" for t0
        proof -
          have "l \<notin> fst ` set (st_trans st1)" using n v(1) False by simp
          then have mo: "map_of (st_trans st1) l = None" by (simp add: map_of_eq_None_iff)
          have t0: "(VarT, t0) \<in> set (st_trans st1)" using n(2) v(1) by simp
          show ?thesis
          proof (rule "1.IH"(2) [OF two refl False mo])
            show "map_of (st_trans st1) VarT = Some t0" using v(3) n(2) by simp
            show "implements ad oa (completion l t0) (complete l (step VarT S))"
            proof (rule implements_completion)
              show "implements ad oa t0 (step VarT S)" using tr1 t0 by (simp add: trans_ok_def)
              have "VarT \<in> firsts S" using tr1 t0 by (force simp: trans_ok_def)
              then show "step VarT S \<noteq> Map.empty" by (rule step_nonempty)
            qed (rule wl)
            show "tries_only t2 (completion l t0)" using asm False mo v(3) n(2) by simp
          qed (use T wl dl in simp_all)
        qed
        have shape: "merge_trans ad oa (st_trans st1) (st_trans st2) = ?pre @ res"
          if "l = CstT x \<and> res = merge_trans_cst ad oa v rest x t2 \<or> l = OpT op \<and> res = merge_trans_op ad oa v rest op t2" for x op res
          using that two \<open>st_trans st1 \<noteq> []\<close> v(1,4)
          by (cases v) (auto simp: merge_trans.simps split: list.splits label.splits)
        show ?thesis
        proof (cases l)
          case (CstT x)
          let ?res = "merge_trans_cst ad oa v rest x t2"
          note sp = merge_trans_cst_spec [OF inj(1) srt(1), where v = v and x = x and st = t2 and oa = oa]
          have "trans_ok ad oa (?pre @ ?res) (S ++ T)"
          proof (rule trans_ok_label [OF tr1 [unfolded v(1)] T(1) False T(2) d refl v(2)])
            fix t assume m: "(l, t) \<in> set rest"
            show "set ?res = insert (l, merge_state ad oa t t2) {e \<in> set rest. fst e \<noteq> l} \<and>
              implements ad oa (merge_state ad oa t t2) (step l S ++ step l T)"
              using sp(1) [of t] m known [OF m] CstT by simp
          next
            assume n: "l \<notin> fst ` set rest"
            then show "set ?res = insert (l, case v of Some t0 \<Rightarrow> merge_state ad oa t2 (completion l t0) | None \<Rightarrow> t2) (set rest)"
              using sp(2) CstT by (simp add: completion_def split: option.splits)
          next
            fix t0 assume "l \<notin> fst ` set rest" "v = Some t0"
            then show "implements ad oa (merge_state ad oa t2 (completion l t0)) (step l T ++ complete l (step VarT S))" by (rule new)
          next
            have "VarT \<notin> fst ` set ?res"
              using sp(1,2) v(2) CstT by (cases "CstT x \<in> fst ` set rest") auto
            then show "ordered ad oa (?pre @ ?res)"
              using ordered_insert [OF ord [unfolded v(1)] refl] srt sp(3,4) by (simp add: insert_address_sorted)
          qed
          then show ?thesis using shape CstT by simp
        next
          case (OpT op)
          let ?res = "merge_trans_op ad oa v rest op t2"
          note sp = merge_trans_op_spec [OF inj(2) srt(2), where v = v and op = op and st = t2 and ad = ad]
          have "trans_ok ad oa (?pre @ ?res) (S ++ T)"
          proof (rule trans_ok_label [OF tr1 [unfolded v(1)] T(1) False T(2) d refl v(2)])
            fix t assume m: "(l, t) \<in> set rest"
            show "set ?res = insert (l, merge_state ad oa t t2) {e \<in> set rest. fst e \<noteq> l} \<and>
              implements ad oa (merge_state ad oa t t2) (step l S ++ step l T)"
              using sp(1) [of t] m known [OF m] OpT by simp
          next
            assume n: "l \<notin> fst ` set rest"
            then show "set ?res = insert (l, case v of Some t0 \<Rightarrow> merge_state ad oa t2 (completion l t0) | None \<Rightarrow> t2) (set rest)"
              using sp(2) OpT by (simp add: completion_def split: option.splits)
          next
            fix t0 assume "l \<notin> fst ` set rest" "v = Some t0"
            then show "implements ad oa (merge_state ad oa t2 (completion l t0)) (step l T ++ complete l (step VarT S))" by (rule new)
          next
            have "VarT \<notin> fst ` set ?res"
              using sp(1,2) v(2) OpT by (cases "OpT op \<in> fst ` set rest") auto
            then show "ordered ad oa (?pre @ ?res)"
              using ordered_insert [OF ord [unfolded v(1)] refl] srt sp(3,4) by (simp add: insert_address_sorted)
          qed
          then show ?thesis using shape OpT by simp
        qed (use False in simp)
      qed
    qed
  qed
  then have "implements ad oa (State (st_s st1) (st_match_num st1) (merge_rules (st_rules st1) (st_rules st2))
      (merge_trans ad oa (st_trans st1) (st_trans st2))) (S ++ T)"
    using rules_of_merge [OF r1 r2 wS wT d] unfolding implements_trans [of ad oa "State _ _ _ _"] by simp
  then show ?case by (simp add: merge_state.simps)
qed

end
