(* ===== verification/MatcherRun.thy ===== *)
theory MatcherRun
  imports MatcherWords
begin

text \<open>
  Running a matching automaton on an argument.

  \<open>eat\<close> is what an argument does to one word: the bindings on the way and the rest of the word, or
  nothing when the word does not match.  A state that implements a set of words is taken by an
  argument to a state that implements what is left of them (\<open>residual\<close>), and matching fails exactly when
  nothing is left.  The arguments are \<open>plain\<close>: \<^verbatim>\<open>simplifyPattern\<close> leaves them and their parts alone.
\<close>

section \<open>Words and arguments\<close>

definition binding :: "rule \<Rightarrow> assocs" where
  "binding ru = (case rule_id ru of Some ident \<Rightarrow> [(ident, rule_p ru)] | None \<Rightarrow> [])"

lemma binding_marker [simp]: "binding (marker r) = []"
  by (simp add: binding_def)

fun eat :: "word_steps \<Rightarrow> tree \<Rightarrow> (assocs \<times> word_steps) option" where
  "eat [] X = None"
| "eat ((ru, l) # w) X = (case l of
      VarT \<Rightarrow> Some (binding ru, w)
    | CstT x \<Rightarrow> if X = x then Some (binding ru, w) else None
    | OpT op \<Rightarrow> (case isBoxPatternOp X of
        Some (op1, a, b) \<Rightarrow> if op = op1 then
            (case eat w a of Some (bs1, w1) \<Rightarrow>
              (case eat w1 b of Some (bs2, w2) \<Rightarrow> Some (binding ru @ bs1 @ bs2, w2) | None \<Rightarrow> None)
            | None \<Rightarrow> None)
          else None
      | None \<Rightarrow> None))"

declare eat.simps(2) [simp del]

lemma eat_simps:
  "eat ((ru, VarT) # w) X = Some (binding ru, w)"
  "eat ((ru, CstT x) # w) X = (if X = x then Some (binding ru, w) else None)"
  "isBoxPatternOp X = Some (op1, a, b) \<Longrightarrow> eat ((ru, OpT op) # w) X = (if op = op1 then
     (case eat w a of Some (bs1, w1) \<Rightarrow> (case eat w1 b of Some (bs2, w2) \<Rightarrow> Some (binding ru @ bs1 @ bs2, w2) | None \<Rightarrow> None)
      | None \<Rightarrow> None) else None)"
  "isBoxPatternOp X = None \<Longrightarrow> eat ((ru, OpT op) # w) X = None"
  by (simp_all add: eat.simps)

definition residual :: "tree \<Rightarrow> words \<Rightarrow> words" where
  "residual X S = (\<lambda>r. Option.bind (S r) (\<lambda>w. map_option snd (eat w X)))"

definition caught :: "tree \<Rightarrow> words \<Rightarrow> nat \<Rightarrow> assocs" where
  "caught X S r = (case S r of Some w \<Rightarrow> (case eat w X of Some (bs, w1) \<Rightarrow> bs | None \<Rightarrow> []) | None \<Rightarrow> [])"

lemma residual_Some: "residual X S r = Some w1 \<longleftrightarrow> (\<exists>w bs. S r = Some w \<and> eat w X = Some (bs, w1))"
  by (auto simp: residual_def bind_eq_Some_conv)

lemma dom_residual: "dom (residual X S) \<subseteq> dom S"
  by (auto simp: residual_Some)

lemma residual_empty [simp]: "residual X Map.empty = Map.empty"
  by (simp add: residual_def fun_eq_iff)

lemma eat_ok: "eat w X = Some (bs, w1) \<Longrightarrow> word_ok r w \<Longrightarrow> word_ok r w1"
  by (induction w X arbitrary: bs w1 rule: eat.induct)
    (auto simp: eat.simps split: label.splits option.splits if_splits)

lemma words_ok_residual: "words_ok S \<Longrightarrow> words_ok (residual X S)"
  by (auto simp: words_ok_def residual_Some dest: eat_ok)

text \<open>The number of arguments a word takes.\<close>

fun takes :: "nat \<Rightarrow> word_steps \<Rightarrow> bool" where
  "takes k [] \<longleftrightarrow> k = 0"
| "takes k ((ru, l) # w) \<longleftrightarrow> 0 < k \<and> takes (case l of OpT op \<Rightarrow> Suc k | _ \<Rightarrow> k - 1) w"

definition words_take :: "nat \<Rightarrow> words \<Rightarrow> bool" where
  "words_take k S \<longleftrightarrow> (\<forall>r w. S r = Some w \<longrightarrow> takes k w)"

lemma eat_takes: "eat w X = Some (bs, w1) \<Longrightarrow> takes (Suc k) w \<Longrightarrow> takes k w1"
proof (induction w X arbitrary: bs w1 k rule: eat.induct)
  case (2 ru l w X)
  show ?case
  proof (cases l)
    case (OpT op)
    with "2.prems" obtain a b bs1 v bs2 where e: "isBoxPatternOp X = Some (op, a, b)" "eat w a = Some (bs1, v)" "eat v b = Some (bs2, w1)"
      by (auto simp: eat.simps split: option.splits if_splits)
    have "takes (Suc (Suc k)) w" using "2.prems"(2) OpT by simp
    from "2.IH"(1) [OF OpT e(1) refl refl refl e(2) this]
    have "takes (Suc k) v" .
    from "2.IH"(2) [OF OpT e(1) refl refl refl e(2) refl e(3) this] show ?thesis .
  qed (use 2 in \<open>auto simp: eat_simps split: if_splits\<close>)
qed simp

lemma words_take_residual: "words_take (Suc k) S \<Longrightarrow> words_take k (residual X S)"
  by (auto simp: words_take_def residual_Some dest: eat_takes)

lemma words_take_step:
  "words_take (Suc k) S \<Longrightarrow> words_take (case l of OpT op \<Rightarrow> Suc (Suc k) | _ \<Rightarrow> k) (step l S)"
proof -
  assume t: "words_take (Suc k) S"
  have "takes (case l of OpT op \<Rightarrow> Suc (Suc k) | _ \<Rightarrow> k) w1" if "S r = Some w" "step_word l r w = Some w1" for r w w1
  proof -
    have "takes (Suc k) w" using t that(1) by (simp add: words_take_def)
    with that(2) show ?thesis
      by (cases w) (auto simp: skip2_def split: if_splits label.splits)
  qed
  then show ?thesis by (auto simp: words_take_def step_def bind_eq_Some_conv)
qed

lemma words_take_firsts: "words_take (Suc k) S \<Longrightarrow> S \<noteq> Map.empty \<Longrightarrow> firsts S \<noteq> {}"
proof -
  assume t: "words_take (Suc k) S" and "S \<noteq> Map.empty"
  then obtain r w where w: "S r = Some w" by (auto simp: fun_eq_iff)
  with t have "takes (Suc k) w" by (simp add: words_take_def)
  with w show ?thesis by (cases w) (auto simp: firsts_def)
qed

section \<open>How a step splits an argument\<close>

lemma eat_op:
  assumes X: "isBoxPatternOp X = Some (op, a, b)" and ok: "word_ok r w"
  shows "eat w X = (case step_word (OpT op) r w of Some w0 \<Rightarrow>
      (case eat w0 a of Some (bs1, w1) \<Rightarrow> (case eat w1 b of
          Some (bs2, w2) \<Rightarrow> Some (binding (head_rule r w) @ bs1 @ bs2, w2) | None \<Rightarrow> None) | None \<Rightarrow> None)
    | None \<Rightarrow> None)"
proof (cases w)
  case (Cons e v)
  obtain ru l where e: "e = (ru, l)" by (cases e)
  show ?thesis
  proof (cases l)
    case (CstT x)
    with ok Cons e have "isBoxPatternOp x = None" by simp
    with X have "X \<noteq> x" by auto
    with CstT Cons e show ?thesis by (simp add: eat_simps)
  qed (use Cons e X in \<open>auto simp: eat_simps skip2_def head_rule_def split: option.splits\<close>)
qed simp

lemma residual_op:
  assumes "isBoxPatternOp X = Some (op, a, b)" "words_ok S"
  shows "residual X S = residual b (residual a (step (OpT op) S))"
    and "residual X S r = Some w1 \<Longrightarrow> caught X S r = binding (head_rule r (the (S r))) @
      caught a (step (OpT op) S) r @ caught b (residual a (step (OpT op) S)) r"
proof -
  have "eat w X = (case step_word (OpT op) r w of Some w0 \<Rightarrow>
      (case eat w0 a of Some (bs1, w1) \<Rightarrow> (case eat w1 b of
          Some (bs2, w2) \<Rightarrow> Some (binding (head_rule r w) @ bs1 @ bs2, w2) | None \<Rightarrow> None) | None \<Rightarrow> None)
    | None \<Rightarrow> None)" if "S r = Some w" for r w
    using eat_op [OF assms(1)] assms(2) that by (simp add: words_ok_def)
  note e = this
  show "residual X S = residual b (residual a (step (OpT op) S))"
  proof
    fix r show "residual X S r = residual b (residual a (step (OpT op) S)) r"
      by (cases "S r") (auto simp: residual_def step_def e split: option.splits)
  qed
  show "caught X S r = binding (head_rule r (the (S r))) @
      caught a (step (OpT op) S) r @ caught b (residual a (step (OpT op) S)) r" if "residual X S r = Some w1"
    using that by (cases "S r") (auto simp: residual_def caught_def step_def e split: option.splits)
qed

lemma residual_const:
  assumes "CstT X \<in> firsts S" "words_ok S"
  shows "residual X S = step (CstT X) S" and "residual X S r = Some w1 \<Longrightarrow> caught X S r = binding (head_rule r (the (S r)))"
proof -
  have X: "isBoxPatternOp X = None" using assms by (fastforce simp: firsts_def words_ok_def)
  have e: "eat w X = map_option (\<lambda>w1. (binding (head_rule r w), w1)) (step_word (CstT X) r w)" for r w
    using X by (cases w) (auto simp: eat.simps head_rule_def split: label.splits)
  show "residual X S = step (CstT X) S"
  proof
    fix r show "residual X S r = step (CstT X) S r"
      by (cases "S r") (auto simp: residual_def step_def e [of _ r] option.map_comp comp_def option.map_ident)
  qed
  show "residual X S r = Some w1 \<Longrightarrow> caught X S r = binding (head_rule r (the (S r)))"
    by (cases "S r") (auto simp: residual_def caught_def e [of _ r] split: option.splits)
qed

lemma residual_var:
  assumes "\<And>l. l \<in> firsts S \<Longrightarrow> \<not> fires X l"
  shows "residual X S = step VarT S" and "residual X S r = Some w1 \<Longrightarrow> caught X S r = binding (head_rule r (the (S r)))"
proof -
  have e: "eat w X = map_option (\<lambda>w1. (binding (head_rule r w), w1)) (step_word VarT r w)" if "S r = Some w" for r w
  proof (cases w)
    case (Cons f v)
    then obtain ru l where w: "w = (ru, l) # v" by (cases f) auto
    then have "\<not> fires X l" using assms that by (auto simp: firsts_def)
    with w show ?thesis by (auto simp: eat.simps head_rule_def fires_def split: label.splits option.splits)
  qed simp
  show "residual X S = step VarT S"
  proof
    fix r show "residual X S r = step VarT S r"
      by (cases "S r") (auto simp: residual_def step_def e option.map_comp comp_def option.map_ident)
  qed
  show "residual X S r = Some w1 \<Longrightarrow> caught X S r = binding (head_rule r (the (S r)))"
    by (cases "S r") (auto simp: residual_def caught_def e split: option.splits)
qed

section \<open>The table of states\<close>

definition table_ok :: "automaton \<Rightarrow> bool" where
  "table_ok A \<longleftrightarrow> (\<forall>q \<in> set (a_state A). 0 \<le> st_s q \<and> state_at A (st_s q) = Inr q \<and>
     (\<forall>(l, t) \<in> set (st_trans q). t \<in> set (a_state A)))"

lemma number_state:
  "st_s (fst (number st s)) = s" "st_rules (fst (number st s)) = st_rules st"
  "st_trans (fst (number st s)) = fst (number_all (st_trans st) (s + 1))"
  by (cases st; simp add: Let_def case_prod_beta')+

lemma all_states_head: "all_states st = st # all_trans (st_trans st)"
  by (cases st) simp

lemma number_states:
  "map st_s (all_states (fst (number st s))) = map (\<lambda>i. s + int i) [0..<length (all_states st)] \<and>
     snd (number st s) = s + int (length (all_states st))"
  "map st_s (all_trans (fst (number_all tr s))) = map (\<lambda>i. s + int i) [0..<length (all_trans tr)] \<and>
     snd (number_all tr s) = s + int (length (all_trans tr))"
proof (induction st s and tr s rule: number_number_all.induct)
  case (1 s0 m ru tr s)
  then show ?case
    by (auto simp: Let_def case_prod_beta' upt_rec [of 0 "Suc _"] map_Suc_upt [symmetric] simp del: upt_Suc)
next
  case (3 l t rest s)
  obtain t1 s1 where t: "number t s = (t1, s1)" by (cases "number t s")
  obtain rest1 s2 where r: "number_all rest s1 = (rest1, s2)" by (cases "number_all rest s1")
  have s1: "s1 = s + int (length (all_states t))" using 3(1) t by simp
  have shift: "[m..<m + n] = map (\<lambda>i. i + m) [0..<n]" for m n by (simp add: map_add_upt add.commute)
  have "map (\<lambda>i. s + int i) [0..<length (all_states t) + length (all_trans rest)] =
    map (\<lambda>i. s + int i) [0..<length (all_states t)] @ map (\<lambda>i. s1 + int i) [0..<length (all_trans rest)]"
    unfolding upt_add_eq_append [OF le0] map_append s1 add_0 shift by (simp add: ac_simps)
  then show ?case using 3(1) 3(2) [OF t [symmetric] refl] t r by simp
qed simp

lemma all_states_closed:
  "q \<in> set (all_states st) \<Longrightarrow> (l, t) \<in> set (st_trans q) \<Longrightarrow> t \<in> set (all_states st)"
  "q \<in> set (all_trans tr) \<Longrightarrow> (l, t) \<in> set (st_trans q) \<Longrightarrow> t \<in> set (all_trans tr)"
proof (induction st and tr rule: all_states_all_trans.induct)
  case (1 s m ru tr)
  have "t \<in> set (all_trans tr)" if "(l, t) \<in> set tr" for l t
    using that
  proof (induction tr)
    case (Cons e tr)
    then show ?case by (cases e) (auto simp: all_states_head)
  qed simp
  with 1 show ?case by auto
qed auto

lemma build_table:
  assumes "a_state A = build st"
  shows "table_ok A" "a_state A \<noteq> []" "hd (a_state A) = fst (number st 0)" "length (a_state A) = length (all_states st)"
proof -
  let ?n = "fst (number st 0)"
  have A: "a_state A = all_states ?n" using assms by (simp add: build_def)
  note m = number_states(1) [of st 0, THEN conjunct1]
  show len: "length (a_state A) = length (all_states st)" using arg_cong [OF m, of length] A by simp
  have nth: "st_s (a_state A ! i) = int i" if "i < length (a_state A)" for i
    using arg_cong [OF m, of "\<lambda>xs. xs ! i"] that len A by simp
  show "table_ok A" unfolding table_ok_def
  proof
    fix q assume q: "q \<in> set (a_state A)"
    then obtain i where "i < length (a_state A)" "q = a_state A ! i" by (auto simp: in_set_conv_nth)
    with nth have "0 \<le> st_s q \<and> state_at A (st_s q) = Inr q" by (simp add: state_at_def)
    then show "0 \<le> st_s q \<and> state_at A (st_s q) = Inr q \<and> (\<forall>(l, t) \<in> set (st_trans q). t \<in> set (a_state A))"
      using all_states_closed(1) [of q ?n] q A by auto
  qed
  show "a_state A \<noteq> []" "hd (a_state A) = ?n" using A by (simp_all add: all_states_head)
qed

lemma implements_number: "implements ad oa st S \<Longrightarrow> implements ad oa (fst (number st s)) S"
proof (induction arbitrary: s rule: implements.induct)
  case (1 ru S tr s0 m)
  have lab: "map fst (fst (number_all tr s)) = map fst tr" for tr s
    by (induction tr arbitrary: s) (auto simp: Let_def case_prod_beta')
  have ad: "cst_addresses ad (fst (number_all tr s)) = cst_addresses ad tr" "op_addresses oa (fst (number_all tr s)) = op_addresses oa tr" for tr s
  proof (induction tr arbitrary: s)
    case (Cons e tr)
    { case 1 from Cons show ?case by (cases e; cases "fst e") (simp_all add: Let_def case_prod_beta')
    next case 2 from Cons show ?case by (cases e; cases "fst e") (simp_all add: Let_def case_prod_beta') }
  qed simp_all
  have suc: "\<exists>u. (l, u) \<in> set tr \<and> (\<exists>s. t = fst (number u s))" if "(l, t) \<in> set (fst (number_all tr s))" for l t tr s
    using that
  proof (induction tr arbitrary: s)
    case (Cons e tr)
    then show ?case by (cases e) (force simp: Let_def case_prod_beta')
  qed simp
  let ?tr = "fst (number_all tr (s + 1))"
  have "fst ` set (tl ?tr) = fst ` set (tl tr)" using lab [of tr "s + 1"] by (metis list.set_map map_tl)
  then have "ordered ad oa ?tr" using 1(2) by (simp add: ordered_def ad)
  moreover have "fst ` set ?tr = firsts S" using 1(3) lab [of tr "s + 1"] by (metis list.set_map)
  moreover have "\<forall>e \<in> set ?tr. implements ad oa (snd e) (step (fst e) S)"
  proof
    fix e assume "e \<in> set ?tr"
    then obtain u s' where u: "(fst e, u) \<in> set tr" "snd e = fst (number u s')" using suc [of "fst e" "snd e" tr "s + 1"] by auto
    then show "implements ad oa (snd e) (step (fst e) S)" using bspec [OF 1(4) u(1)] by auto
  qed
  ultimately have "implements ad oa (State s (m \<or> (\<exists>(l, t) \<in> set tr. is_numeric_label l)) ru ?tr) S"
    using 1(1) by (intro implements.intros)
  then show ?case by (simp add: Let_def case_prod_beta')
qed

lemma smaller_state: "(l, t) \<in> set (st_trans q) \<Longrightarrow> length (all_states t) < length (all_states q)"
proof -
  have "length (all_states t) \<le> length (all_trans tr)" if "(l, t) \<in> set tr" for tr
    using that
  proof (induction tr)
    case (Cons e tr)
    then show ?case by (cases e) (auto intro: trans_le_add1 trans_le_add2)
  qed simp
  then show "(l, t) \<in> set (st_trans q) \<Longrightarrow> ?thesis" by (simp add: all_states_head [of q] less_Suc_eq_le)
qed

section \<open>Matching an argument\<close>

fun plain :: "(tree \<Rightarrow> ('s, tree) mm) \<Rightarrow> tree \<Rightarrow> bool" where
  "plain sp X \<longleftrightarrow> sp X = mret X \<and> (case isBoxPatternOp X of Some (op, a, b) \<Rightarrow> plain sp a \<and> plain sp b | None \<Rightarrow> True)"

declare plain.simps [simp del]

lemma plain_parts: "plain sp X \<Longrightarrow> isBoxPatternOp X = Some (op, a, b) \<Longrightarrow> plain sp a \<and> plain sp b"
  by (simp add: plain.simps [of sp X])

lemma plain_same: "plain sp X \<Longrightarrow> sp X = mret X"
  by (simp add: plain.simps [of sp X])

lemma add_markers_spec:
  "(\<forall>ru \<in> set rules. rule_r ru < length sb) \<Longrightarrow> distinct (map rule_r rules) \<Longrightarrow>
   \<exists>sb1. add_markers rules sb = Inr sb1 \<and> length sb1 = length sb \<and>
     (\<forall>ru \<in> set rules. sb1 ! rule_r ru = sb ! rule_r ru @ binding ru) \<and>
     (\<forall>r < length sb. r \<notin> rule_r ` set rules \<longrightarrow> sb1 ! r = sb ! r)"
proof (induction rules arbitrary: sb)
  case (Cons ru rules)
  let ?sb = "case rule_id ru of Some ident \<Rightarrow> sb[rule_r ru := sb ! rule_r ru @ [(ident, rule_p ru)]] | None \<Rightarrow> sb"
  have len: "length ?sb = length sb" by (simp split: option.splits)
  have here: "?sb ! rule_r ru = sb ! rule_r ru @ binding ru" and others: "r \<noteq> rule_r ru \<Longrightarrow> ?sb ! r = sb ! r" for r
    using Cons.prems by (auto simp: binding_def split: option.splits)
  have "\<forall>ru \<in> set rules. rule_r ru < length ?sb" "distinct (map rule_r rules)" using Cons.prems len by auto
  from Cons.IH [OF this] obtain sb1 where sb1: "add_markers rules ?sb = Inr sb1" "length sb1 = length ?sb"
    "\<forall>ru \<in> set rules. sb1 ! rule_r ru = ?sb ! rule_r ru @ binding ru"
    "\<forall>r < length ?sb. r \<notin> rule_r ` set rules \<longrightarrow> sb1 ! r = ?sb ! r" by blast
  have "add_markers (ru # rules) sb = Inr sb1" using sb1(1) Cons.prems by (auto split: option.splits)
  moreover have "rule_r ru \<notin> rule_r ` set rules" using Cons.prems by simp
  then have "sb1 ! rule_r ru = sb ! rule_r ru @ binding ru" using sb1(4) here Cons.prems(1) len by simp
  moreover have "sb1 ! rule_r ru1 = sb ! rule_r ru1 @ binding ru1" if m: "ru1 \<in> set rules" for ru1
  proof -
    have "rule_r ru1 \<noteq> rule_r ru" using m \<open>rule_r ru \<notin> rule_r ` set rules\<close> by (metis imageI)
    from others [OF this] bspec [OF sb1(3) m] show ?thesis by simp
  qed
  ultimately show ?case using sb1(2,4) len others by auto
qed simp

lemma add_subst_spec:
  assumes "table_ok A" "q \<in> set (a_state A)" "rules_of (st_rules q) S" "words_ok S" "\<forall>r \<in> dom S. r < length sb"
  shows "\<exists>sb1. add_subst sb A (st_s q) = Inr sb1 \<and> length sb1 = length sb \<and>
    (\<forall>r \<in> dom S. sb1 ! r = sb ! r @ binding (head_rule r (the (S r))))"
proof -
  have at: "state_at A (st_s q) = Inr q" using assms(1,2) by (simp add: table_ok_def)
  have set: "set (st_rules q) = heads S" "distinct (map rule_r (st_rules q))"
    using assms(3) by (simp_all add: rules_of_def strict_sorted_iff)
  have "\<forall>ru \<in> set (st_rules q). rule_r ru < length sb"
    using heads_r [OF assms(4)] assms(5) set(1) by force
  from add_markers_spec [OF this set(2)] obtain sb1 where sb1: "add_markers (st_rules q) sb = Inr sb1" "length sb1 = length sb"
    "\<forall>ru \<in> heads S. sb1 ! rule_r ru = sb ! rule_r ru @ binding ru" unfolding set(1) by blast
  have "sb1 ! r = sb ! r @ binding (head_rule r (the (S r)))" if r: "r \<in> dom S" for r
  proof -
    obtain w where w: "S r = Some w" using r by blast
    then have "head_rule r w \<in> heads S" by (auto simp: heads_def)
    moreover have "rule_r (head_rule r w) = r" using assms(4) w by (auto simp: words_ok_def intro: head_rule_r)
    ultimately show ?thesis using sb1(3) w by fastforce
  qed
  with sb1 at show ?thesis by (simp add: add_subst_def)
qed

lemma find_fires:
  assumes "find (\<lambda>(l, t). fires X l) tr = r"
  shows "case r of Some (l, t) \<Rightarrow> (l, t) \<in> set tr \<and> fires X l | None \<Rightarrow> \<forall>l \<in> fst ` set tr. \<not> fires X l"
proof (cases r)
  case None
  with assms show ?thesis by (auto simp: find_None_iff)
next
  case (Some e)
  with assms show ?thesis by (cases e) (auto simp: find_Some_iff in_set_conv_nth)
qed

lemma fires_cases:
  assumes "fires X l"
  obtains "l = CstT X" | op a b where "l = OpT op" "isBoxPatternOp X = Some (op, a, b)"
  using assms by (auto simp: fires_def split: label.splits option.splits)

definition taken :: "address \<Rightarrow> (node \<Rightarrow> nat) \<Rightarrow> automaton \<Rightarrow> state \<Rightarrow> tree \<Rightarrow> words \<Rightarrow> assocs list \<Rightarrow> int \<times> assocs list \<Rightarrow> bool" where
  "taken ad oa A q X S sb = (\<lambda>(s1, sb1). length sb1 = length sb \<and>
     (if residual X S = Map.empty then s1 = - 1
      else \<exists>t \<in> set (a_state A). s1 = st_s t \<and> implements ad oa t (residual X S) \<and>
        length (all_states t) < length (all_states q) \<and>
        (\<forall>r \<in> dom (residual X S). sb1 ! r = sb ! r @ caught X S r)))"

lemma internal_fail: "s < 0 \<Longrightarrow> 0 < d \<Longrightarrow> apply_pattern_matcher_internal d sp A s X sb st = Inr ((s, sb), st)"
  by (cases d) simp_all

lemma internal_spec:
  assumes A: "table_ok A"
  shows "q \<in> set (a_state A) \<Longrightarrow> implements ad oa q S \<Longrightarrow> words_ok S \<Longrightarrow> words_take (Suc k) S \<Longrightarrow> S \<noteq> Map.empty \<Longrightarrow>
    \<forall>r \<in> dom S. r < length sb \<Longrightarrow> plain sp X \<Longrightarrow> length (all_states q) \<le> d \<Longrightarrow>
    \<exists>c. apply_pattern_matcher_internal d sp A (st_s q) X sb st = Inr (c, st) \<and> taken ad oa A q X S sb c"
proof (induction X arbitrary: q S k sb d rule: measure_induct_rule [where f = size])
  case (less X)
  note ok = less.prems(3) and take = less.prems(4)
  have ro: "rules_of (st_rules q) S" and tr: "trans_ok ad oa (st_trans q) S"
    using less.prems(2) unfolding implements_trans [of ad oa q] by auto
  have lab: "fst ` set (st_trans q) = firsts S" and suc: "(l, t) \<in> set (st_trans q) \<Longrightarrow> implements ad oa t (step l S)" for l t
    using tr by (auto simp: trans_ok_def)
  have at: "state_at A (st_s q) = Inr q" "0 \<le> st_s q" and closed: "(l, t) \<in> set (st_trans q) \<Longrightarrow> t \<in> set (a_state A)" for l t
    using A less.prems(1) by (auto simp: table_ok_def)
  obtain sb1 where sb1: "add_subst sb A (st_s q) = Inr sb1" "length sb1 = length sb"
    "\<forall>r \<in> dom S. sb1 ! r = sb ! r @ binding (head_rule r (the (S r)))"
    using add_subst_spec [OF A less.prems(1) ro ok less.prems(6)] by blast
  obtain d' where d: "d = Suc d'" using less.prems(8) all_states_head [of q] by (cases d) auto
  have sX: "sp X = mret X" by (rule plain_same [OF less.prems(7)])
  note unf = apply_pattern_matcher_internal.simps(2) [of d' sp A "st_s q" X sb st]
  have run: "apply_pattern_matcher_internal d sp A (st_s q) X sb st =
     (case find (\<lambda>(l, t). fires X l) (st_trans q) of
         Some (l, t) \<Rightarrow> (case (l, isBoxPatternOp X) of
              (OpT op, Some (_, x0, x1)) \<Rightarrow> rbind (apply_pattern_matcher_internal d' sp A (st_s t) x0 sb1 st) (\<lambda>((s1, sb2), st1).
                apply_pattern_matcher_internal d' sp A s1 x1 sb2 st1)
            | _ \<Rightarrow> Inr ((st_s t, sb1), st))
       | None \<Rightarrow> (case st_trans q of
           [] \<Rightarrow> Inl (Undefined ''first transition'')
         | (VarT, t) # _ \<Rightarrow> Inr ((st_s t, sb1), st)
         | _ \<Rightarrow> Inr ((-1, sb), st)))"
  proof (cases "find (\<lambda>(l, t). fires X l) (st_trans q)")
    case None
    show ?thesis unfolding d unf using at sb1(1) by (auto simp: sX None split: list.splits label.splits)
  next
    case (Some e)
    obtain l t where e: "e = (l, t)" by (cases e)
    show ?thesis unfolding d unf using at sb1(1) by (auto simp: sX Some e split: label.splits option.splits)
  qed
  have one_step: "taken ad oa A q X S sb (st_s t, sb1)"
    if m: "(l, t) \<in> set (st_trans q)" and r: "residual X S = step l S"
      "\<And>r w1. residual X S r = Some w1 \<Longrightarrow> caught X S r = binding (head_rule r (the (S r)))" for l t
  proof -
    have "l \<in> firsts S" using m lab by force
    then have "residual X S \<noteq> Map.empty" unfolding r(1) by (rule step_nonempty)
    moreover have "sb1 ! r = sb ! r @ caught X S r" if "r \<in> dom (residual X S)" for r
      using sb1(3) that r(2) dom_residual [of X S] by (metis domD subsetD)
    ultimately show ?thesis using closed [OF m] suc [OF m] smaller_state [OF m] sb1(2) r(1)
      by (auto simp: taken_def)
  qed
  show ?case
  proof (cases "find (\<lambda>(l, t). fires X l) (st_trans q)")
    case None
    then have nf: "\<not> fires X l" if "l \<in> firsts S" for l using find_fires [OF None] lab that by auto
    note rv = residual_var [of S X, OF nf]
    have "st_trans q \<noteq> []" using words_take_firsts [OF take less.prems(5)] lab by auto
    then obtain l t rest where q: "st_trans q = (l, t) # rest" by (cases "st_trans q") auto
    show ?thesis
    proof (cases "l = VarT")
      case True
      then have "taken ad oa A q X S sb (st_s t, sb1)" using q by (intro one_step [of l]) (auto intro: rv)
      then show ?thesis using run None q True by simp
    next
      case False
      have "VarT \<notin> firsts S" using lab q False tr by (auto simp: trans_ok_def ordered_def)
      then have "step VarT S = Map.empty" by (intro step_empty) auto
      then have "taken ad oa A q X S sb (- 1, sb)" using rv(1) by (simp add: taken_def)
      then show ?thesis using run None q False by (auto split: label.splits)
    qed
  next
    case (Some e)
    then obtain l t where f: "find (\<lambda>(l, t). fires X l) (st_trans q) = Some (l, t)" by (cases e) auto
    from find_fires [OF f] have m: "(l, t) \<in> set (st_trans q)" and fr: "fires X l" by auto
    have lS: "l \<in> firsts S" using m lab by force
    from fr show ?thesis
    proof (cases rule: fires_cases)
      case 1
      then have "taken ad oa A q X S sb (st_s t, sb1)"
        using residual_const [OF lS [unfolded 1] ok] m by (intro one_step [of l]) auto
      then show ?thesis using run f 1 by simp
    next
      case (2 op a b)
      note size = isBoxPatternOp_size [OF 2(2)] and pl = plain_parts [OF less.prems(7) 2(2)]
      note ro2 = residual_op [OF 2(2) ok]
      let ?S0 = "step (OpT op) S"
      let ?S1 = "residual a ?S0"
      have t: "t \<in> set (a_state A)" "implements ad oa t ?S0" "length (all_states t) < length (all_states q)"
        using closed [OF m] suc [OF m] smaller_state [OF m] 2(1) by auto
      have S0: "words_ok ?S0" "words_take (Suc (Suc k)) ?S0" "?S0 \<noteq> Map.empty" "\<forall>r \<in> dom ?S0. r < length sb1"
        using words_ok_step [OF ok] words_take_step [OF take, of "OpT op"] step_nonempty [of "OpT op" S] lS 2(1) dom_step [of "OpT op" S]
          less.prems(6) sb1(2) by auto
      have dd: "length (all_states t) \<le> d'" using t(3) less.prems(8) d by simp
      obtain s1 sb2 where c1: "apply_pattern_matcher_internal d' sp A (st_s t) a sb1 st = Inr ((s1, sb2), st)" "taken ad oa A t a ?S0 sb1 (s1, sb2)"
        using less.IH [OF _ t(1,2) S0(1,2,3,4) _ dd, of a] size pl by force
      have pos: "0 < d'" using dd all_states_head [of t] by simp
      have goal: "apply_pattern_matcher_internal d sp A (st_s q) X sb st = apply_pattern_matcher_internal d' sp A s1 b sb2 st"
        using run f 2 c1(1) by simp
      show ?thesis
      proof (cases "?S1 = Map.empty")
        case True
        then have "s1 = - 1" "length sb2 = length sb" "residual X S = Map.empty" using c1(2) sb1(2) ro2(1) by (simp_all add: taken_def)
        then show ?thesis using goal internal_fail [OF _ pos, of "- 1" sp A b sb2 st] by (simp add: taken_def)
      next
        case False
        then obtain t1 where t1: "t1 \<in> set (a_state A)" "s1 = st_s t1" "implements ad oa t1 ?S1"
          "length (all_states t1) < length (all_states t)" "\<forall>r \<in> dom ?S1. sb2 ! r = sb1 ! r @ caught a ?S0 r" "length sb2 = length sb"
          using c1(2) sb1(2) by (auto simp: taken_def)
        have S1: "words_ok ?S1" "words_take (Suc k) ?S1" by (rule words_ok_residual [OF S0(1)] words_take_residual [OF S0(2)])+
        have S1r: "\<forall>r \<in> dom ?S1. r < length sb2" using dom_residual [of a ?S0] S0(4) t1(6) sb1(2) by (metis subsetD)
        have "length (all_states t1) \<le> d'" using t1(4) dd by simp
        from less.IH [OF _ t1(1,3) S1 False S1r _ this, of b] size pl
        obtain c where c: "apply_pattern_matcher_internal d' sp A s1 b sb2 st = Inr (c, st)" "taken ad oa A t1 b ?S1 sb2 c"
          unfolding t1(2) by blast
        have "taken ad oa A q X S sb c"
        proof (cases "residual b ?S1 = Map.empty")
          case True
          then show ?thesis using c(2) ro2(1) t1(6) by (cases c) (simp add: taken_def)
        next
          case nonempty: False
          obtain s2 sb3 where cc: "c = (s2, sb3)" by (cases c)
          obtain t2 where t2: "t2 \<in> set (a_state A)" "s2 = st_s t2" "implements ad oa t2 (residual b ?S1)"
            "length (all_states t2) < length (all_states t1)" "\<forall>r \<in> dom (residual b ?S1). sb3 ! r = sb2 ! r @ caught b ?S1 r"
            "length sb3 = length sb2"
            using c(2) nonempty unfolding cc taken_def by auto
          have "sb3 ! r = sb ! r @ caught X S r" if r: "r \<in> dom (residual X S)" for r
          proof -
            have "r \<in> dom (residual b ?S1)" "r \<in> dom ?S1" "r \<in> dom S"
              using r ro2(1) dom_residual [of b ?S1] dom_residual [of X S] by auto
            then have "sb3 ! r = ((sb ! r @ binding (head_rule r (the (S r)))) @ caught a ?S0 r) @ caught b ?S1 r"
              using t2(5) t1(5) sb1(3) by simp
            moreover obtain w1 where "residual X S r = Some w1" using r by blast
            ultimately show ?thesis using ro2(2) by simp
          qed
          then show ?thesis using t2 t1 t(3) nonempty ro2(1) unfolding cc taken_def by auto
        qed
        with goal c(1) show ?thesis by auto
      qed
    qed
  qed
qed

end
