(* ===== verification/MatcherSound.thy ===== *)
theory MatcherSound
  imports MatcherRun
begin

text \<open>
  The application of a case expression to its arguments (the loop of \<^verbatim>\<open>applyList\<close> in
  \<^verbatim>\<open>evaluate/eval.cpp\<close> over \<^verbatim>\<open>apply_pattern_matcher\<close>) selects the first rule whose patterns match.

  \<open>pmatch\<close> is the meaning of a pattern: the bindings of its variables when it matches a tree.
  The theorem is about rules whose variables are all different, as many patterns in each rule as there
  are arguments, and merges in trie form.  Two lemmas show what happens otherwise: a rule can be
  lost (\<open>merging_drops_rules\<close>), and a variable that occurs twice can make the environment lookup read the
  branch of an error box (\<open>nonlinear_reads_error_box\<close>).
\<close>

section \<open>The application of a matcher\<close>

datatype match_outcome = Partial int "tree list" | Matched tree "tree list"

fun match_args :: "host \<Rightarrow> (tree \<Rightarrow> ('x envst_scheme, tree) mm) \<Rightarrow> automaton \<Rightarrow> int \<Rightarrow> tree list \<Rightarrow> tree list \<Rightarrow> 'x envst_scheme \<Rightarrow> (match_outcome \<times> 'x envst_scheme) result" where
  "match_args h sp A s E [] st = Inr (Partial s E, st)"
| "match_args h sp A s E (X # Xs) st = rbind (apply_pattern_matcher h sp A s X E st) (\<lambda>((s2, C, E1), st1).
     if 0 \<le> s2 \<and> isNil C then match_args h sp A s2 E1 Xs st1
     else if s2 < 0 then Inl (FaustException ''pattern matching failed'')
     else Inr (Matched C Xs, st1))"

section \<open>The meaning of patterns\<close>

fun pmatch :: "tree \<Rightarrow> tree \<Rightarrow> (tree \<times> tree) list option" where
  "pmatch pat X = (case isBoxPatternVar pat of
      Some ident \<Rightarrow> Some [(ident, X)]
    | None \<Rightarrow> (case isBoxPatternOp pat of
        Some (op, p0, p1) \<Rightarrow> (case isBoxPatternOp X of
            Some (op1, a, b) \<Rightarrow> if op = op1 then
                (case pmatch p0 a of Some bs0 \<Rightarrow> (case pmatch p1 b of Some bs1 \<Rightarrow> Some (bs0 @ bs1) | None \<Rightarrow> None) | None \<Rightarrow> None)
              else None
          | None \<Rightarrow> None)
      | None \<Rightarrow> if X = pat then Some [] else None))"

declare pmatch.simps [simp del]

fun pmatch_all :: "tree list \<Rightarrow> tree list \<Rightarrow> (tree \<times> tree) list option" where
  "pmatch_all [] [] = Some []"
| "pmatch_all (p # ps) (X # Xs) = (case pmatch p X of
     Some bs \<Rightarrow> (case pmatch_all ps Xs of Some cs \<Rightarrow> Some (bs @ cs) | None \<Rightarrow> None) | None \<Rightarrow> None)"
| "pmatch_all _ _ = None"

fun first_rule :: "(tree list \<times> tree) list \<Rightarrow> tree list \<Rightarrow> (tree \<times> (tree \<times> tree) list) option" where
  "first_rule [] Xs = None"
| "first_rule ((pats, rhs) # rs) Xs = (case pmatch_all pats Xs of
     Some bs \<Rightarrow> Some (rhs, bs) | None \<Rightarrow> first_rule rs Xs)"

fun pattern_vars :: "tree \<Rightarrow> tree list" where
  "pattern_vars pat = (case isBoxPatternVar pat of
      Some ident \<Rightarrow> [ident]
    | None \<Rightarrow> (case isBoxPatternOp pat of Some (op, p0, p1) \<Rightarrow> pattern_vars p0 @ pattern_vars p1 | None \<Rightarrow> []))"

declare pattern_vars.simps [simp del]

definition rule_vars :: "tree list \<Rightarrow> tree list" where
  "rule_vars pats = concat (map pattern_vars pats)"

section \<open>The words of patterns\<close>

definition bound_values :: "tree \<Rightarrow> assocs \<Rightarrow> (tree \<times> tree) list" where
  "bound_values X bs = map (\<lambda>(i, p). (i, subtree X p)) bs"

lemma bound_values_simps [simp]: "bound_values X [] = []" "bound_values X (bs @ cs) = bound_values X bs @ bound_values X cs" "length (bound_values X bs) = length bs"
  "map fst (bound_values X bs) = map fst bs"
  by (auto simp: bound_values_def)

lemma subtree_append: "subtree X (p @ q) = subtree (subtree X p) q"
proof (induction X p rule: subtree.induct)
  case (2 X i p)
  show ?case
  proof (cases "isBoxPatternOp X")
    case None
    then have "subtree X q = X" by (cases q) simp_all
    with None show ?thesis by simp
  next
    case (Some c)
    obtain op a b where "c = (op, a, b)" by (cases c) auto
    with Some 2 show ?thesis by auto
  qed
qed simp

lemma eat_pattern:
  "subtree X0 p = X \<Longrightarrow> case pmatch x X of
     None \<Rightarrow> eat (make_state r x p @ w) X = None
   | Some bs \<Rightarrow> \<exists>as. eat (make_state r x p @ w) X = Some (as, w) \<and> bound_values X0 as = bs"
proof (induction r x p arbitrary: X w rule: make_state.induct)
  case (1 r x p)
  show ?case
  proof (cases "isBoxPatternVar x")
    case (Some ident)
    then show ?thesis using "1.prems"
      by (simp add: make_state.simps [of r x] pmatch.simps [of x] eat_simps binding_def bound_values_def)
  next
    case None
    show ?thesis
    proof (cases "isBoxPatternOp x")
      case none: None
      then show ?thesis using None by (simp add: make_state.simps [of r x] pmatch.simps [of x] eat_simps)
    next
      case some: (Some c)
      obtain op x0 x1 where c: "c = (op, x0, x1)" by (cases c) auto
      have m: "make_state r x p = (marker r, OpT op) # make_state r x0 (p @ [0]) @ make_state r x1 (p @ [1])"
        using None some c by (simp add: make_state.simps [of r x])
      show ?thesis
      proof (cases "isBoxPatternOp X")
        case noop: None
        then show ?thesis using None some c m by (simp add: pmatch.simps [of x] eat_simps)
      next
        case op: (Some d)
        obtain op1 a b where d: "d = (op1, a, b)" by (cases d) auto
        have "subtree X0 (p @ [0]) = a" "subtree X0 (p @ [1]) = b" using "1.prems" op d by (simp_all add: subtree_append)
        note IH = "1.IH"(1) [OF None some [unfolded c] refl refl this(1)] "1.IH"(2) [OF None some [unfolded c] refl refl this(2)]
        have pm: "pmatch x X = (if op = op1 then (case pmatch x0 a of
            Some bs0 \<Rightarrow> (case pmatch x1 b of Some bs1 \<Rightarrow> Some (bs0 @ bs1) | None \<Rightarrow> None) | None \<Rightarrow> None) else None)"
          using None some c op d by (simp add: pmatch.simps [of x])
        show ?thesis
        proof (cases "op = op1")
          case True
          show ?thesis
          proof (cases "pmatch x0 a")
            case no: None
            then show ?thesis using IH(1) [of "make_state r x1 (p @ [1]) @ w"] pm True op d m by (simp add: eat_simps)
          next
            case yes: (Some bs0)
            then obtain as0 where a0: "eat (make_state r x0 (p @ [0]) @ make_state r x1 (p @ [1]) @ w) a =
                Some (as0, make_state r x1 (p @ [1]) @ w)" "bound_values X0 as0 = bs0"
              using IH(1) [of "make_state r x1 (p @ [1]) @ w"] by auto
            show ?thesis
            proof (cases "pmatch x1 b")
              case no: None
              then show ?thesis using IH(2) [of w] yes pm True op d m a0 by (simp add: eat_simps)
            next
              case yes1: (Some bs1)
              then obtain as1 where a1: "eat (make_state r x1 (p @ [1]) @ w) b = Some (as1, w)" "bound_values X0 as1 = bs1"
                using IH(2) [of w] by auto
              then show ?thesis using yes yes1 pm True op d m a0 by (simp add: eat_simps)
            qed
          qed
        next
          case False
          then show ?thesis using pm op d m by (simp add: eat_simps)
        qed
      qed
    qed
  qed
qed

definition lhs_word :: "nat \<Rightarrow> tree list \<Rightarrow> word_steps" where
  "lhs_word r pats = concat (map (\<lambda>x. make_state r x []) pats)"

lemma lhs_word_simps [simp]: "lhs_word r [] = []" "lhs_word r (x # pats) = make_state r x [] @ lhs_word r pats"
  by (simp_all add: lhs_word_def)

definition ids :: "word_steps \<Rightarrow> tree list" where
  "ids w = concat (map (\<lambda>(ru, l). map fst (binding ru)) w)"

lemma ids_simps [simp]: "ids [] = []" "ids ((ru, l) # w) = map fst (binding ru) @ ids w" "ids (v @ w) = ids v @ ids w"
  by (simp_all add: ids_def)

lemma make_state_ok: "word_ok r (make_state r x p)"
  by (induction r x p rule: make_state.induct)
    (subst make_state.simps, auto split: option.splits)

lemma lhs_word_ok: "word_ok r (lhs_word r pats)"
  by (induction pats) (simp_all add: make_state_ok)

lemma make_state_takes: "takes k w \<Longrightarrow> takes (Suc k) (make_state r x p @ w)"
  by (induction r x p arbitrary: k w rule: make_state.induct)
    (subst make_state.simps, auto split: option.splits)

lemma lhs_word_takes: "takes (length pats) (lhs_word r pats)"
  by (induction pats) (auto intro: make_state_takes)

lemma make_state_ids: "ids (make_state r x p) = pattern_vars x"
  by (induction r x p rule: make_state.induct)
    (subst make_state.simps, subst pattern_vars.simps, auto simp: binding_def split: option.splits)

lemma lhs_word_ids: "ids (lhs_word r pats) = rule_vars pats"
  by (induction pats) (simp_all add: make_state_ids rule_vars_def)

lemma eat_ids: "eat w X = Some (bs, w1) \<Longrightarrow> ids w = map fst bs @ ids w1"
proof (induction w X arbitrary: bs w1 rule: eat.induct)
  case (2 ru l w X)
  show ?case
  proof (cases l)
    case (OpT op)
    with "2.prems" obtain a b bs1 v bs2 where e: "isBoxPatternOp X = Some (op, a, b)" "eat w a = Some (bs1, v)" "eat v b = Some (bs2, w1)"
      "bs = binding ru @ bs1 @ bs2" by (auto simp: eat.simps split: option.splits if_splits)
    from "2.IH"(1) [OF OpT e(1) refl refl refl e(2)] "2.IH"(2) [OF OpT e(1) refl refl refl e(2) refl e(3)] e(4)
    show ?thesis by simp
  qed (use 2 in \<open>auto simp: eat_simps split: if_splits\<close>)
qed simp

lemma implements_grow:
  "word_ok r w \<Longrightarrow> implements ad oa (grow w (State 0 False [marker r] [])) [r \<mapsto> w]"
proof (induction w)
  case Nil
  show ?case
    by (auto intro!: implements.intros simp: rules_of_def heads_def head_rule_def ordered_def firsts_def split: if_splits)
next
  case (Cons e w)
  obtain ru l where e: "e = (ru, l)" by (cases e)
  have F: "firsts [r \<mapsto> (ru, l) # w] = {l}" by (auto simp: firsts_def)
  have "heads [r \<mapsto> (ru, l) # w] = {ru}" by (auto simp: heads_def head_rule_def split: if_splits)
  then have R: "rules_of [ru] [r \<mapsto> (ru, l) # w]" by (simp add: rules_of_def)
  have S: "step l [r \<mapsto> (ru, l) # w] = [r \<mapsto> w]" by (rule ext) (simp add: step_def)
  have I: "implements ad oa (grow w (State 0 False [marker r] [])) [r \<mapsto> w]" by (rule Cons.IH) (use Cons.prems e in simp)
  have O: "ordered ad oa [(l, t)]" for t by (cases l) (simp_all add: ordered_def)
  show ?case unfolding e grow.simps
  proof (rule implements.intros [OF R O])
    show "\<forall>c \<in> set [(l, grow w (State 0 False [marker r] []))]. implements ad oa (snd c) (step (fst c) [r \<mapsto> (ru, l) # w])"
      using I by (simp only: list.set ball_simps snd_conv fst_conv S simp_thms)
  qed (simp add: F)
qed

lemma implements_lhs: "implements ad oa (lhs_state r pats) [r \<mapsto> lhs_word r pats]"
  unfolding lhs_state_def lhs_word_def [symmetric] by (rule implements_grow [OF lhs_word_ok])

section \<open>The automaton of a list of rules\<close>

definition rule_tree :: "tree list \<times> tree \<Rightarrow> tree" where
  "rule_tree = (\<lambda>(pats, rhs). cons (list_tree (rev pats)) rhs)"

fun merge_all :: "address \<Rightarrow> (node \<Rightarrow> nat) \<Rightarrow> (nat \<times> tree list) list \<Rightarrow> state \<Rightarrow> state" where
  "merge_all ad oa [] st = st"
| "merge_all ad oa ((r, pats) # rest) st = merge_all ad oa rest (merge_state ad oa st (lhs_state r pats))"

fun all_tries :: "address \<Rightarrow> (node \<Rightarrow> nat) \<Rightarrow> (nat \<times> tree list) list \<Rightarrow> state \<Rightarrow> bool" where
  "all_tries ad oa [] st \<longleftrightarrow> True"
| "all_tries ad oa ((r, pats) # rest) st \<longleftrightarrow>
     tries_only st (lhs_state r pats) \<and> all_tries ad oa rest (merge_state ad oa st (lhs_state r pats))"

definition rule_words :: "(nat \<times> tree list) list \<Rightarrow> words" where
  "rule_words rs = map_of (map (\<lambda>(r, pats). (r, lhs_word r pats)) rs)"

lemma cons_items_list_tree [simp]: "cons_items (list_tree xs) = xs"
  by (induction xs) (simp_all add: cons_items.simps [of nil] cons_items.simps [of "cons _ _"])

lemma fold_add_rule:
  "fold (add_rule ad oa) (enumerate n (map rule_tree rs)) (st, rhss, tps) =
     (merge_all ad oa (enumerate n (map fst rs)) st, rhss @ map snd rs, tps @ map fst rs)"
  by (induction rs arbitrary: n st rhss tps) (auto simp: add_rule_def rule_tree_def)

lemma build_matcher_rules:
  "build_matcher ad oa (map rule_tree rs) =
     (\<lparr>a_state = build (merge_all ad oa (enumerate 0 (map fst rs)) new_state), a_rhs = map snd rs\<rparr>, map fst rs)"
  by (simp add: build_matcher_def fold_add_rule)

lemma merge_all_implements:
  assumes inj: "inj ad" "inj oa"
  shows "implements ad oa st S \<Longrightarrow> words_ok S \<Longrightarrow> distinct (map fst rs) \<Longrightarrow> dom S \<inter> fst ` set rs = {} \<Longrightarrow> all_tries ad oa rs st \<Longrightarrow>
    implements ad oa (merge_all ad oa rs st) (S ++ rule_words rs)"
proof (induction rs arbitrary: st S)
  case Nil
  then show ?case by (simp add: rule_words_def)
next
  case (Cons e rs)
  obtain r pats where e: "e = (r, pats)" by (cases e)
  let ?w = "lhs_word r pats" and ?m = "merge_state ad oa st (lhs_state r pats)"
  have ok: "words_ok [r \<mapsto> ?w]" using lhs_word_ok by (simp add: words_ok_def)
  have m: "implements ad oa ?m (S ++ [r \<mapsto> ?w])"
    using Cons.prems e by (intro merge_implements [OF inj] implements_lhs ok) auto
  have "implements ad oa (merge_all ad oa rs ?m) ((S ++ [r \<mapsto> ?w]) ++ rule_words rs)"
  proof (rule Cons.IH [OF m])
    show "words_ok (S ++ [r \<mapsto> ?w])" using Cons.prems(2) ok by (rule words_ok_add)
    show "dom (S ++ [r \<mapsto> ?w]) \<inter> fst ` set rs = {}" using Cons.prems(3,4) e by auto
  qed (use Cons.prems e in auto)
  moreover have "(S ++ [r \<mapsto> ?w]) ++ rule_words rs = S ++ rule_words (e # rs)"
  proof -
    have "rule_words rs r = None" using Cons.prems(3) e by (force simp: rule_words_def map_of_eq_None_iff)
    then show ?thesis by (auto simp: fun_eq_iff rule_words_def e map_add_def split: option.splits)
  qed
  ultimately show ?case using e by simp
qed

lemma rule_words_nth: "rule_words (enumerate 0 pss) r = (if r < length pss then Some (lhs_word r (pss ! r)) else None)"
proof -
  have d: "distinct (map fst (map (\<lambda>(r, pats). (r, lhs_word r pats)) (enumerate 0 pss)))"
    by (simp add: comp_def case_prod_beta')
  show ?thesis
  proof (cases "r < length pss")
    case True
    then have "(r, lhs_word r (pss ! r)) \<in> set (map (\<lambda>(r, pats). (r, lhs_word r pats)) (enumerate 0 pss))"
      by (force simp: in_set_enumerate_eq)
    with d True show ?thesis unfolding rule_words_def by simp
  next
    case False
    then show ?thesis unfolding rule_words_def by (force simp: map_of_eq_None_iff in_set_enumerate_eq)
  qed
qed

section \<open>Binding the variables\<close>

lemma bind_assocs_binds:
  "scopes.binds searchIdDef (pushValueDef h) (bound_values X bs) e st = Inr (Some (e1, st1)) \<Longrightarrow>
   bind_assocs h X bs e st = Inr (e1, st1)"
proof (induction bs arbitrary: e st)
  case (Cons b bs)
  obtain i p where b: "b = (i, p)" by (cases b)
  from Cons show ?case
    by (auto simp: b bound_values_def env.binds.simps rbind_eq_Inr Let_def split: option.splits if_splits)
qed (simp add: env.binds.simps)

text \<open>An environment gives its variables the values of an association list, and nothing else.\<close>

definition gives :: "'x envst_scheme \<Rightarrow> tree \<Rightarrow> (tree \<times> tree) list \<Rightarrow> bool" where
  "gives st e B \<longleftrightarrow> env_wf (ev_known st) e \<and> (\<forall>i. searchIdDef i e st = Inr (map_of B i))"

definition keeps_envs :: "'x envst_scheme \<Rightarrow> 'x envst_scheme \<Rightarrow> bool" where
  "keeps_envs st st1 \<longleftrightarrow> (\<forall>e B. gives st e B \<longrightarrow> gives st1 e B)"

lemma bind_assocs_spec:
  assumes "env_inv h st" "gives st e B" "layers_left h st (length bs + n)" "distinct (map fst B @ map fst bs)"
  shows "\<exists>e1 st1. bind_assocs h X bs e st = Inr (e1, st1) \<and> env_inv h st1 \<and> gives st1 e1 (B @ bound_values X bs) \<and>
    keeps_envs st st1 \<and> layers_left h st1 n"
proof -
  let ?v = "bound_values X bs"
  have left: "layers_left h st (length ?v)" using env.space_less [OF assms(3)] by simp
  have f: "map fst ?v = map fst bs" by simp
  then have "fst ` set ?v = fst ` set bs" by (metis list.set_map)
  with f have d: "distinct (map fst ?v)" "fst ` set ?v \<inter> fst ` set B = {}" using assms(4) by auto
  have con: "env.consistent (map_of B) ?v"
    unfolding env.consistent_def
  proof (intro allI impI)
    fix k v assume kv: "(k, v) \<in> set ?v"
    then have "k \<notin> fst ` set B" using d(2) by force
    then have "map_of B k = None" by (simp add: map_of_eq_None_iff)
    with kv d(1) show "(map_of ?v ++ map_of B) k = Some v" by (simp add: map_add_def)
  qed
  have maps: "map_of ?v ++ map_of B = map_of (B @ ?v)" by (simp add: map_of_append)
  from assms(2) have g: "env_wf (ev_known st) e" "\<And>i. searchIdDef i e st = Inr (map_of B i)" by (simp_all add: gives_def)
  from env.binds_spec [OF assms(1) g(1) left g(2)] con obtain e1 st1 where
    b: "scopes.binds searchIdDef (pushValueDef h) ?v e st = Inr (Some (e1, st1))" "env_inv h st1" "env_wf (ev_known st1) e1"
    "\<forall>k. searchIdDef k e1 st1 = Inr ((map_of ?v ++ map_of B) k)"
    "\<forall>e'. env_wf (ev_known st) e' \<longrightarrow> env_wf (ev_known st1) e' \<and> (\<forall>k. searchIdDef k e' st1 = searchIdDef k e' st)"
    "\<forall>n. layers_left h st (length ?v + n) \<longrightarrow> layers_left h st1 n" by auto
  have "gives st1 e1 (B @ ?v)" using b(3,4) unfolding gives_def maps by blast
  moreover have "keeps_envs st st1" unfolding keeps_envs_def gives_def
  proof (intro allI impI)
    fix e' C assume c: "env_wf (ev_known st) e' \<and> (\<forall>i. searchIdDef i e' st = Inr (map_of C i))"
    with b(5) have "env_wf (ev_known st1) e'" "\<forall>k. searchIdDef k e' st1 = searchIdDef k e' st" by blast+
    with c show "env_wf (ev_known st1) e' \<and> (\<forall>i. searchIdDef i e' st1 = Inr (map_of C i))" by simp
  qed
  moreover have "layers_left h st1 n" using b(6) assms(3) by simp
  ultimately show ?thesis using bind_assocs_binds [OF b(1)] b(2) by blast
qed

lemma gives_no_error: "gives st e B \<Longrightarrow> \<not> isBoxError e"
  unfolding gives_def by (subst (asm) env_wf.simps)
    (auto simp: isBoxError_def isTree0_def isEnvBarrier_def isNil_def split: node.splits sym.splits)

lemma bind_rules_spec:
  assumes "env_inv h st" "distinct (map rule_r rus)" "length sb = length E"
    and "\<forall>r \<in> rule_r ` set rus. r < length E \<and> gives st (E ! r) (B r) \<and> distinct (map fst (B r) @ map fst (sb ! r))"
    and "layers_left h st (sum_list (map (\<lambda>ru. length (sb ! rule_r ru)) rus) + n)"
  shows "\<exists>E1 st1. bind_rules h X sb rus E st = Inr (E1, st1) \<and> length E1 = length E \<and> env_inv h st1 \<and>
    (\<forall>r \<in> rule_r ` set rus. gives st1 (E1 ! r) (B r @ bound_values X (sb ! r))) \<and>
    (\<forall>r. r \<notin> rule_r ` set rus \<longrightarrow> E1 ! r = E ! r) \<and> keeps_envs st st1 \<and> layers_left h st1 n"
  using assms
proof (induction rus arbitrary: E st)
  case Nil
  then show ?case by (simp add: keeps_envs_def)
next
  case (Cons ru rus)
  let ?r = "rule_r ru"
  have here: "?r < length E" "gives st (E ! ?r) (B ?r)" "distinct (map fst (B ?r) @ map fst (sb ! ?r))" using Cons.prems(4) by auto
  have "layers_left h st (length (sb ! ?r) + (sum_list (map (\<lambda>ru. length (sb ! rule_r ru)) rus) + n))"
    using Cons.prems(5) by (simp add: add.assoc)
  from bind_assocs_spec [OF Cons.prems(1) here(2) this here(3)] obtain e1 st0 where
    b: "bind_assocs h X (sb ! ?r) (E ! ?r) st = Inr (e1, st0)" "env_inv h st0" "gives st0 e1 (B ?r @ bound_values X (sb ! ?r))"
    "keeps_envs st st0" "layers_left h st0 (sum_list (map (\<lambda>ru. length (sb ! rule_r ru)) rus) + n)" by blast
  have nr: "?r \<notin> rule_r ` set rus" using Cons.prems(2) by simp
  have rest: "\<forall>r \<in> rule_r ` set rus. r < length (E[?r := e1]) \<and> gives st0 (E[?r := e1] ! r) (B r) \<and> distinct (map fst (B r) @ map fst (sb ! r))"
  proof
    fix r assume r: "r \<in> rule_r ` set rus"
    then have "r \<noteq> ?r" using nr by blast
    then have same: "E[?r := e1] ! r = E ! r" by simp
    have "r < length E" "gives st (E ! r) (B r)" "distinct (map fst (B r) @ map fst (sb ! r))"
      using bspec [OF Cons.prems(4), of r] r by simp_all
    then show "r < length (E[?r := e1]) \<and> gives st0 (E[?r := e1] ! r) (B r) \<and> distinct (map fst (B r) @ map fst (sb ! r))"
      using b(4) unfolding same length_list_update keeps_envs_def by blast
  qed
  have "distinct (map rule_r rus)" "length sb = length (E[?r := e1])" using Cons.prems(2,3) by simp_all
  from Cons.IH [OF b(2) this rest b(5)] obtain E1 st1 where
    i: "bind_rules h X sb rus (E[?r := e1]) st0 = Inr (E1, st1)" "length E1 = length (E[?r := e1])" "env_inv h st1"
    "\<forall>r \<in> rule_r ` set rus. gives st1 (E1 ! r) (B r @ bound_values X (sb ! r))"
    "\<forall>r. r \<notin> rule_r ` set rus \<longrightarrow> E1 ! r = E[?r := e1] ! r" "keeps_envs st0 st1" "layers_left h st1 n" by blast
  have "bind_rules h X sb (ru # rus) E st = Inr (E1, st1)"
    using i(1) b(1) here(1) Cons.prems(3) gives_no_error [OF here(2)] by simp
  moreover have "E1 ! ?r = e1" using i(5) nr here(1) by simp
  then have "gives st1 (E1 ! ?r) (B ?r @ bound_values X (sb ! ?r))" using b(3) i(6) by (simp add: keeps_envs_def)
  moreover have "keeps_envs st st1" using b(4) i(6) by (simp add: keeps_envs_def)
  moreover have "E1 ! r = E ! r" if "r \<notin> rule_r ` set (ru # rus)" for r using i(5) that by auto
  ultimately show ?case using i(2,3,4,7) by auto
qed

section \<open>One argument\<close>

definition cost :: "words \<Rightarrow> nat" where
  "cost S = (\<Sum>r \<in> dom S. length (ids (the (S r))))"

text \<open>
  A stage of the application: the state \<open>q\<close>, the words \<open>S\<close> that are left, each of \<open>k\<close> arguments, and for
  each of them an environment that gives the variables bound so far.
\<close>

definition staged :: "host \<Rightarrow> (node \<Rightarrow> nat) \<Rightarrow> automaton \<Rightarrow> nat \<Rightarrow> state \<Rightarrow> words \<Rightarrow> tree list \<Rightarrow> (nat \<Rightarrow> (tree \<times> tree) list) \<Rightarrow> 'x envst_scheme \<Rightarrow> bool" where
  "staged h oa A k q S E B st \<longleftrightarrow> q \<in> set (a_state A) \<and> implements (ad_of h) oa q S \<and> words_ok S \<and> words_take k S \<and>
     S \<noteq> Map.empty \<and> finite (dom S) \<and> env_inv h st \<and> layers_left h st (cost S) \<and> length E = n_rules A \<and>
     (\<forall>r \<in> dom S. r < length E \<and> gives st (E ! r) (B r) \<and> distinct (map fst (B r) @ ids (the (S r))))"

definition sound_automaton :: "automaton \<Rightarrow> bool" where
  "sound_automaton A \<longleftrightarrow> table_ok A \<and> (\<forall>q \<in> set (a_state A). length (all_states q) \<le> length (a_state A))"

lemma smaller_states:
  "q \<in> set (all_states st) \<Longrightarrow> length (all_states q) \<le> length (all_states st)"
  "q \<in> set (all_trans tr) \<Longrightarrow> length (all_states q) \<le> length (all_trans tr)"
  by (induction st and tr rule: all_states_all_trans.induct) auto

lemma build_sound: "a_state A = build st \<Longrightarrow> sound_automaton A"
  using build_table(1) smaller_states(1) by (auto simp: sound_automaton_def build_def)

lemma caught_ids: "r \<in> dom (residual X S) \<Longrightarrow> ids (the (S r)) = map fst (caught X S r) @ ids (the (residual X S r))"
proof -
  assume "r \<in> dom (residual X S)"
  then obtain w1 w bs where w: "residual X S r = Some w1" "S r = Some w" "eat w X = Some (bs, w1)" by (auto simp: residual_Some)
  then show ?thesis using eat_ids [OF w(3)] by (simp add: caught_def)
qed

lemma cost_residual:
  assumes "finite (dom S)"
  shows "(\<Sum>r \<in> dom (residual X S). length (caught X S r)) + cost (residual X S) \<le> cost S"
proof -
  have "(\<Sum>r \<in> dom (residual X S). length (caught X S r)) + cost (residual X S) =
      (\<Sum>r \<in> dom (residual X S). length (ids (the (S r))))"
    unfolding cost_def sum.distrib [symmetric] by (intro sum.cong) (simp_all add: caught_ids)
  also have "\<dots> \<le> cost S" unfolding cost_def using assms dom_residual by (intro sum_mono2) auto
  finally show ?thesis .
qed

lemma words_take_0: "words_take 0 S \<Longrightarrow> firsts S = {}"
proof -
  assume t: "words_take 0 S"
  have "takes 0 w \<Longrightarrow> w = []" for w by (cases w) auto
  with t show ?thesis by (fastforce simp: words_take_def firsts_def)
qed

lemma first_rule_number:
  assumes "rules_of (ru # rus) S" "words_ok S" "finite (dom S)"
  shows "rule_r ru = Min (dom S)"
proof (rule Min_eqI [symmetric])
  have d: "rule_r ` set (ru # rus) = dom S" using assms(1) heads_r [OF assms(2)] by (simp only: rules_of_def)
  then show "rule_r ru \<in> dom S" by auto
  show "rule_r ru \<le> r" if r: "r \<in> dom S" for r
  proof -
    have "r \<in> rule_r ` set (ru # rus)" using r d by blast
    moreover have "\<forall>x \<in> set rus. rule_r ru < rule_r x" using assms(1) by (simp add: rules_of_def)
    ultimately show ?thesis by auto
  qed
qed (rule assms)

lemma apply_spec:
  assumes A: "sound_automaton A" and g: "staged h oa A (Suc k) q S E B st" and X: "plain sp X"
  shows "if residual X S = Map.empty then apply_pattern_matcher h sp A (st_s q) X E st = Inr ((- 1, nil, E), st)
    else \<exists>t C E1 st1. apply_pattern_matcher h sp A (st_s q) X E st = Inr ((st_s t, C, E1), st1) \<and>
      staged h oa A k t (residual X S) E1 (\<lambda>r. B r @ bound_values X (caught X S r)) st1 \<and>
      C = (if k = 0 then closure (a_rhs A ! Min (dom (residual X S))) nil nil (E1 ! Min (dom (residual X S))) else nil)"
proof -
  let ?S1 = "residual X S"
  have q: "q \<in> set (a_state A)" "implements (ad_of h) oa q S" "words_ok S" "words_take (Suc k) S" "S \<noteq> Map.empty" "finite (dom S)"
    and e: "env_inv h st" "layers_left h st (cost S)" "length E = n_rules A"
    and r: "\<And>r. r \<in> dom S \<Longrightarrow> r < length E \<and> gives st (E ! r) (B r) \<and> distinct (map fst (B r) @ ids (the (S r)))"
    using g by (auto simp: staged_def)
  have T: "table_ok A" and len: "length (all_states q) \<le> length (a_state A)" using A q(1) by (auto simp: sound_automaton_def)
  have "\<forall>r \<in> dom S. r < length (replicate (n_rules A) ([] :: assocs))" using r e(3) by simp
  from internal_spec [OF T q(1-5) this X len] obtain s1 sb where
    i: "apply_pattern_matcher_internal (length (a_state A)) sp A (st_s q) X (replicate (n_rules A) []) st = Inr ((s1, sb), st)"
    "taken (ad_of h) oa A q X S (replicate (n_rules A) []) (s1, sb)" by fastforce
  show ?thesis
  proof (cases "?S1 = Map.empty")
    case True
    with i(2) have "s1 = - 1" by (simp add: taken_def)
    with i(1) True show ?thesis by (simp add: apply_pattern_matcher_def)
  next
    case False
    with i(2) obtain t where t: "t \<in> set (a_state A)" "s1 = st_s t" "implements (ad_of h) oa t ?S1"
      "\<forall>r \<in> dom ?S1. sb ! r = caught X S r" "length sb = n_rules A"
      using r e(3) dom_residual [of X S] by (fastforce simp: taken_def)
    have ok: "words_ok ?S1" "words_take k ?S1" "finite (dom ?S1)"
      using words_ok_residual [OF q(3)] words_take_residual [OF q(4)] finite_subset [OF dom_residual q(6)] by auto
    have ro: "rules_of (st_rules t) ?S1" and tr: "trans_ok (ad_of h) oa (st_trans t) ?S1"
      using t(3) unfolding implements_trans [of _ oa t] by auto
    have at: "state_at A (st_s t) = Inr t" "0 \<le> st_s t" using T t(1) by (auto simp: table_ok_def)
    have dom: "rule_r ` set (st_rules t) = dom ?S1" using ro heads_r [OF ok(1)] by (simp only: rules_of_def)
    have dist: "distinct (map rule_r (st_rules t))" using ro by (simp add: rules_of_def strict_sorted_iff)
    have "sum_list (map (\<lambda>ru. length (sb ! rule_r ru)) (st_rules t)) = sum_list (map (\<lambda>r. length (sb ! r)) (map rule_r (st_rules t)))"
      by (simp add: comp_def)
    also have "\<dots> = (\<Sum>r \<in> dom ?S1. length (sb ! r))"
      unfolding sum_list_distinct_conv_sum_set [OF dist] list.set_map dom ..
    also have "\<dots> = (\<Sum>r \<in> dom ?S1. length (caught X S r))" using t(4) by (intro sum.cong) simp_all
    finally have "layers_left h st (sum_list (map (\<lambda>ru. length (sb ! rule_r ru)) (st_rules t)) + cost ?S1)"
      using env.space_less [OF e(2)] cost_residual [OF q(6), of X] by simp
    moreover have "\<forall>r \<in> rule_r ` set (st_rules t). r < length E \<and> gives st (E ! r) (B r) \<and> distinct (map fst (B r) @ map fst (sb ! r))"
    proof
      fix r1 assume "r1 \<in> rule_r ` set (st_rules t)"
      then have m: "r1 \<in> dom ?S1" "r1 \<in> dom S" using dom dom_residual [of X S] by auto
      then show "r1 < length E \<and> gives st (E ! r1) (B r1) \<and> distinct (map fst (B r1) @ map fst (sb ! r1))"
        using r [OF m(2)] t(4) caught_ids [OF m(1)] by auto
    qed
    moreover have "length sb = length E" using t(5) e(3) by simp
    ultimately obtain E1 st1 where b: "bind_rules h X sb (st_rules t) E st = Inr (E1, st1)" "length E1 = length E" "env_inv h st1"
      "\<forall>r \<in> dom ?S1. gives st1 (E1 ! r) (B r @ bound_values X (sb ! r))" "layers_left h st1 (cost ?S1)"
      using bind_rules_spec [OF e(1) dist] unfolding dom by blast
    have stage: "staged h oa A k t ?S1 E1 (\<lambda>r. B r @ bound_values X (caught X S r)) st1"
      unfolding staged_def
    proof (intro conjI ballI)
      fix r1 assume m: "r1 \<in> dom ?S1"
      then have m2: "r1 \<in> dom S" using dom_residual [of X S] by auto
      show "r1 < length E1" "distinct (map fst (B r1 @ bound_values X (caught X S r1)) @ ids (the (?S1 r1)))"
        using r [OF m2] b(2) caught_ids [OF m] by auto
      show "gives st1 (E1 ! r1) (B r1 @ bound_values X (caught X S r1))" using b(4) t(4) m by simp
    qed (fact t(1), fact t(3), fact ok(1), fact ok(2), fact False, fact ok(3), fact b(3), fact b(5), simp only: b(2) e(3))
    obtain ru rus where rus: "st_rules t = ru # rus" using dom False by (cases "st_rules t") auto
    have m: "rule_r ru = Min (dom ?S1)" using first_rule_number ro ok rus by metis
    then have ms: "Min (dom ?S1) \<in> dom ?S1" using dom rus by auto
    have fv: "first_viable A (st_rules t) E1 = Inr (Some (closure (a_rhs A ! Min (dom ?S1)) nil nil (E1 ! Min (dom ?S1))))"
    proof -
      have "Min (dom ?S1) < length E1" "gives st1 (E1 ! Min (dom ?S1)) (B (Min (dom ?S1)) @ bound_values X (sb ! Min (dom ?S1)))"
        using r [of "Min (dom ?S1)"] ms dom_residual [of X S] b(2,4) by auto
      moreover from gives_no_error [OF this(2)] have "\<not> isBoxError (E1 ! Min (dom ?S1))" .
      ultimately show ?thesis using b(2) e(3) unfolding rus by (simp add: m n_rules_def)
    qed
    have fin: "final A (st_s t) = Inr (k = 0)"
    proof (cases k)
      case 0
      then have "firsts ?S1 = {}" using words_take_0 ok(2) by blast
      then show ?thesis using at 0 tr by (simp add: final_def trans_ok_def)
    next
      case (Suc j)
      then have "firsts ?S1 \<noteq> {}" using words_take_firsts ok(2) False by blast
      then show ?thesis using at Suc tr by (auto simp: final_def trans_ok_def)
    qed
    have "apply_pattern_matcher h sp A (st_s q) X E st =
      Inr ((st_s t, if k = 0 then closure (a_rhs A ! Min (dom ?S1)) nil nil (E1 ! Min (dom ?S1)) else nil, E1), st1)"
      using i(1) t(2) at b(1) fv fin by (simp add: apply_pattern_matcher_def)
    with stage False show ?thesis by auto
  qed
qed

section \<open>All arguments\<close>

fun residual_all :: "tree list \<Rightarrow> words \<Rightarrow> words" where
  "residual_all [] S = S"
| "residual_all (X # Xs) S = residual_all Xs (residual X S)"

fun caught_all :: "tree list \<Rightarrow> words \<Rightarrow> nat \<Rightarrow> (tree \<times> tree) list" where
  "caught_all [] S r = []"
| "caught_all (X # Xs) S r = bound_values X (caught X S r) @ caught_all Xs (residual X S) r"

lemma residual_all_empty [simp]: "residual_all Xs Map.empty = Map.empty"
  by (induction Xs) simp_all

lemma match_args_spec:
  assumes A: "sound_automaton A"
  shows "Xs \<noteq> [] \<Longrightarrow> staged h oa A (length Xs) q S E B st \<Longrightarrow> \<forall>X \<in> set Xs. plain sp X \<Longrightarrow>
    (if residual_all Xs S = Map.empty then match_args h sp A (st_s q) E Xs st = Inl (FaustException ''pattern matching failed'')
     else \<exists>e st1. match_args h sp A (st_s q) E Xs st =
         Inr (Matched (closure (a_rhs A ! Min (dom (residual_all Xs S))) nil nil e) [], st1) \<and>
       gives st1 e (B (Min (dom (residual_all Xs S))) @ caught_all Xs S (Min (dom (residual_all Xs S)))))"
proof (induction Xs arbitrary: q S E B st)
  case (Cons X Xs)
  have g: "staged h oa A (Suc (length Xs)) q S E B st" and X: "plain sp X" using Cons.prems by auto
  note a = apply_spec [OF A g X]
  show ?case
  proof (cases "residual X S = Map.empty")
    case True
    with a show ?thesis by simp
  next
    case False
    with a obtain t C E1 st1 where t: "apply_pattern_matcher h sp A (st_s q) X E st = Inr ((st_s t, C, E1), st1)"
      "staged h oa A (length Xs) t (residual X S) E1 (\<lambda>r. B r @ bound_values X (caught X S r)) st1"
      "C = (if length Xs = 0 then closure (a_rhs A ! Min (dom (residual X S))) nil nil (E1 ! Min (dom (residual X S))) else nil)"
      by auto
    have pos: "0 \<le> st_s t" using A t(2) by (auto simp: sound_automaton_def table_ok_def staged_def)
    show ?thesis
    proof (cases Xs)
      case Nil
      have fin: "finite (dom (residual X S))" "dom (residual X S) \<noteq> {}" using t(2) False by (simp_all add: staged_def)
      then have "Min (dom (residual X S)) \<in> dom (residual X S)" by (rule Min_in)
      then have "gives st1 (E1 ! Min (dom (residual X S))) (B (Min (dom (residual X S))) @ bound_values X (caught X S (Min (dom (residual X S)))))"
        using t(2) unfolding staged_def by blast
      moreover have "\<not> isNil (closure x y z e)" for x y z e by (simp add: isNil_def closure_def)
      ultimately show ?thesis using t(1,3) pos False Nil by auto
    next
      case (Cons Y Ys)
      then have "match_args h sp A (st_s q) E (X # Xs) st = match_args h sp A (st_s t) E1 Xs st1"
        using t(1,3) pos by simp
      moreover have "Xs \<noteq> []" "\<forall>X \<in> set Xs. plain sp X" using Cons Cons.prems(3) by auto
      note Cons.IH [OF this(1) t(2) this(2)]
      ultimately show ?thesis by (simp only: residual_all.simps caught_all.simps append_assoc)
    qed
  qed
qed simp

lemma residual_pattern:
  assumes "S r = Some (lhs_word r (x # pats))"
  shows "case pmatch x X of None \<Rightarrow> residual X S r = None
    | Some bs \<Rightarrow> residual X S r = Some (lhs_word r pats) \<and> bound_values X (caught X S r) = bs"
proof (cases "pmatch x X")
  case None
  with eat_pattern [where X0 = X and p = "[]" and X = X and x = x and r = r and w = "lhs_word r pats"] assms show ?thesis by (simp add: residual_def)
next
  case (Some bs)
  with eat_pattern [where X0 = X and p = "[]" and X = X and x = x and r = r and w = "lhs_word r pats"] obtain as where
    "eat (make_state r x [] @ lhs_word r pats) X = Some (as, lhs_word r pats)" "bound_values X as = bs" by auto
  with Some assms show ?thesis by (simp add: residual_def caught_def)
qed

lemma residual_all_None: "S r = None \<Longrightarrow> residual_all Xs S r = None"
  by (induction Xs arbitrary: S) (simp_all add: residual_def)

lemma residual_all_patterns:
  "S r = Some (lhs_word r pats) \<Longrightarrow> length pats = length Xs \<Longrightarrow>
   case pmatch_all pats Xs of None \<Rightarrow> residual_all Xs S r = None
   | Some bs \<Rightarrow> residual_all Xs S r \<noteq> None \<and> caught_all Xs S r = bs"
proof (induction Xs arbitrary: pats S)
  case (Cons X Xs)
  then obtain x ps where p: "pats = x # ps" "length ps = length Xs" by (cases pats) auto
  note rp = residual_pattern [where S = S and r = r and x = x and pats = ps and X = X, OF Cons.prems(1) [unfolded p(1)]]
  show ?case
  proof (cases "pmatch x X")
    case None
    with rp have "residual X S r = None" by simp
    with None p show ?thesis by (simp add: residual_all_None)
  next
    case (Some bs)
    with rp have "residual X S r = Some (lhs_word r ps)" "bound_values X (caught X S r) = bs" by auto
    with Cons.IH [where S = "residual X S" and pats = ps, OF this(1) p(2)] Some p show ?thesis by (auto split: option.splits)
  qed
qed simp

lemma first_rule_None: "first_rule rs Xs = None \<longleftrightarrow> (\<forall>r < length rs. pmatch_all (fst (rs ! r)) Xs = None)"
proof (induction rs Xs rule: first_rule.induct)
  case (2 pats rhs rs Xs)
  then show ?case by (auto simp: All_less_Suc2 split: option.splits)
qed simp

lemma first_rule_Some:
  "first_rule rs Xs = Some (rhs, bs) \<Longrightarrow> \<exists>m < length rs. pmatch_all (fst (rs ! m)) Xs = Some bs \<and> snd (rs ! m) = rhs \<and>
    (\<forall>j < m. pmatch_all (fst (rs ! j)) Xs = None)"
proof (induction rs Xs rule: first_rule.induct)
  case (2 pats rhs1 rs Xs)
  show ?case
  proof (cases "pmatch_all pats Xs")
    case None
    with 2 obtain m where "m < length rs" "pmatch_all (fst (rs ! m)) Xs = Some bs" "snd (rs ! m) = rhs"
      "\<forall>j < m. pmatch_all (fst (rs ! j)) Xs = None" by auto
    with None show ?thesis by (intro exI [of _ "Suc m"]) (simp add: All_less_Suc2)
  next
    case (Some cs)
    with 2 show ?thesis by (intro exI [of _ 0]) simp
  qed
qed simp

definition linear_rules :: "nat \<Rightarrow> (tree list \<times> tree) list \<Rightarrow> bool" where
  "linear_rules n rs \<longleftrightarrow> (\<forall>(pats, rhs) \<in> set rs. length pats = n \<and> distinct (rule_vars pats))"

definition variables :: "(tree list \<times> tree) list \<Rightarrow> nat" where
  "variables rs = sum_list (map (\<lambda>(pats, rhs). length (rule_vars pats)) rs)"

definition matcher_root :: "host \<Rightarrow> (node \<Rightarrow> nat) \<Rightarrow> (tree list \<times> tree) list \<Rightarrow> state" where
  "matcher_root h oa rs = merge_all (ad_of h) oa (enumerate 0 (map fst rs)) new_state"

definition matcher_of :: "host \<Rightarrow> (node \<Rightarrow> nat) \<Rightarrow> (tree list \<times> tree) list \<Rightarrow> automaton" where
  "matcher_of h oa rs = \<lparr>a_state = build (matcher_root h oa rs), a_rhs = map snd rs\<rparr>"

abbreviation words_of :: "(tree list \<times> tree) list \<Rightarrow> words" where
  "words_of rs \<equiv> rule_words (enumerate 0 (map fst rs))"

text \<open>Before the first argument every rule is alive, and its environment binds nothing.\<close>

lemma start_staged:
  assumes "env_inv h st" "inj oa" "linear_rules k rs" "rs \<noteq> []" "isEnvBarrier e0" "layers_left h st (variables rs)"
    and "all_tries (ad_of h) oa (enumerate 0 (map fst rs)) new_state"
  shows "staged h oa (matcher_of h oa rs) k (fst (number (matcher_root h oa rs) 0)) (words_of rs) (replicate (length rs) e0) (\<lambda>r. []) st"
proof -
  let ?S = "words_of rs" and ?q = "fst (number (matcher_root h oa rs) 0)"
  have tab: "a_state (matcher_of h oa rs) \<noteq> []" "hd (a_state (matcher_of h oa rs)) = ?q"
    by (rule build_table [of _ "matcher_root h oa rs"], simp add: matcher_of_def)+
  then have q: "?q \<in> set (a_state (matcher_of h oa rs))" by (metis hd_in_set)
  have inj: "inj (ad_of h)" using assms(1) by (simp add: env_inv_def)
  have "implements (ad_of h) oa (matcher_root h oa rs) (Map.empty ++ ?S)"
    unfolding matcher_root_def
    by (rule merge_all_implements [OF inj assms(2) implements_new]) (use assms(7) in \<open>simp_all add: words_ok_def\<close>)
  then have imp: "implements (ad_of h) oa ?q ?S" by (simp add: implements_number)
  have S: "?S r = (if r < length rs then Some (lhs_word r (fst (rs ! r))) else None)" for r
    by (simp add: rule_words_nth)
  have dom: "dom ?S = {..<length rs}" using S by (auto split: if_splits)
  have rule: "length (fst (rs ! r)) = k" "distinct (rule_vars (fst (rs ! r)))" if "r < length rs" for r
    using nth_mem [OF that] assms(3) by (auto simp: linear_rules_def case_prod_beta')
  have take: "words_take k ?S" using rule lhs_word_takes by (auto simp: words_take_def S split: if_splits) metis
  have c: "cost ?S = variables rs"
    by (simp add: cost_def dom variables_def S lhs_word_ids sum_list_sum_nth atLeast0LessThan case_prod_beta')
  show ?thesis unfolding staged_def
  proof (intro conjI ballI)
    fix r assume "r \<in> dom ?S"
    then have r: "r < length rs" using dom by auto
    then show "r < length (replicate (length rs) e0)" by simp
    show "gives st (replicate (length rs) e0 ! r) []" using r assms(5) by (simp add: gives_def env_wf_stop searchIdDef_stop)
    show "distinct (map fst [] @ ids (the (?S r)))" using r rule by (simp add: S lhs_word_ids)
  next
    show "?S \<noteq> Map.empty" using dom assms(4) by auto
    show "words_ok ?S" by (auto simp: words_ok_def S lhs_word_ok split: if_splits)
    show "layers_left h st (cost ?S)" using assms(6) unfolding c .
  qed (use q imp take assms(1) dom in \<open>simp_all add: n_rules_def matcher_of_def\<close>)
qed

text \<open>What is left of the rules after all the arguments is the rules that match, and the first one is the least.\<close>

lemma first_rule_residual:
  assumes "linear_rules (length Xs) rs"
  shows "case first_rule rs Xs of
      None \<Rightarrow> residual_all Xs (words_of rs) = Map.empty
    | Some (rhs, bs) \<Rightarrow> residual_all Xs (words_of rs) \<noteq> Map.empty \<and>
        (let m = Min (dom (residual_all Xs (words_of rs))) in
          m < length rs \<and> snd (rs ! m) = rhs \<and> caught_all Xs (words_of rs) m = bs)"
proof -
  let ?R = "residual_all Xs (words_of rs)"
  have live: "case pmatch_all (fst (rs ! r)) Xs of None \<Rightarrow> ?R r = None
      | Some bs \<Rightarrow> ?R r \<noteq> None \<and> caught_all Xs (words_of rs) r = bs" if "r < length rs" for r
    by (rule residual_all_patterns)
      (use that nth_mem [OF that] assms in \<open>auto simp: rule_words_nth linear_rules_def case_prod_beta'\<close>)
  have dead: "?R r = None" if "\<not> r < length rs" for r
    by (rule residual_all_None) (simp add: rule_words_nth that)
  show ?thesis
  proof (cases "first_rule rs Xs")
    case None
    have "?R r = None" for r
      using live [of r] dead [of r] None [unfolded first_rule_None] by (cases "r < length rs") auto
    with None show ?thesis by (simp add: fun_eq_iff)
  next
    case (Some c)
    obtain rhs bs where c: "c = (rhs, bs)" by (cases c)
    from first_rule_Some [OF Some [unfolded c]] obtain m where m: "m < length rs" "pmatch_all (fst (rs ! m)) Xs = Some bs"
      "snd (rs ! m) = rhs" "\<forall>j < m. pmatch_all (fst (rs ! j)) Xs = None" by blast
    have mm: "?R m \<noteq> None" "caught_all Xs (words_of rs) m = bs" using live [OF m(1)] m(2) by auto
    have "Min (dom ?R) = m"
    proof (rule Min_eqI)
      have "dom ?R \<subseteq> {..<length rs}" using dead by (metis domIff lessThan_iff subsetI)
      then show "finite (dom ?R)" by (rule finite_subset) simp
      show "m \<in> dom ?R" using mm by blast
      fix j assume "j \<in> dom ?R"
      then have j: "?R j \<noteq> None" by blast
      then have "j < length rs" by (rule contrapos_np) (rule dead)
      from live [OF this] j have "pmatch_all (fst (rs ! j)) Xs \<noteq> None" by (auto split: option.splits)
      with m(4) show "m \<le> j" by (meson not_le)
    qed
    with mm m(1,3) show ?thesis unfolding Some c by auto
  qed
qed


abbreviation var_W :: "string \<Rightarrow> tree" where
  "var_W s \<equiv> boxIdent s"

abbreviation pvar_W :: "string \<Rightarrow> tree" where
  "pvar_W s \<equiv> boxPatternVar (boxIdent s)"

lemma pattern_forms [simp]:
  "isBoxPatternVar (pvar_W s) = Some (boxIdent s)" "isBoxPatternVar (boxInt i) = None" "isBoxPatternVar (boxSeq a b) = None"
  "isBoxPatternOp (boxInt i) = None" "isBoxPatternOp (boxSeq a b) = Some (NSym (KBox BOXSEQ), a, b)"
  "isBoxPatternOp (boxIdent s) = None" "isBoxPatternOp (pvar_W s) = None"
  by (simp_all add: isBoxPatternVar_def boxPatternVar_def isTree1_def boxIdent_def boxInt_def leaf_def boxSeq_def isBoxPatternOp_def
      isBoxPar_def isBoxSeq_def isBoxSplit_def isBoxMerge_def isBoxHGroup_def isBoxVGroup_def isBoxTGroup_def isBoxRec_def isTree2_def)

lemma different_boxes [simp]: "boxInt i = boxInt j \<longleftrightarrow> i = j" "boxIdent s = boxIdent t \<longleftrightarrow> s = t"
  by (auto simp: boxInt_def boxIdent_def leaf_def)

abbreviation rules_W :: "(tree list \<times> tree) list" where
  "rules_W \<equiv> [([boxSeq (pvar_W ''x'') (boxInt 0)], boxInt 10), ([pvar_W ''y''], boxInt 11)]"

lemmas matcher_evaluation = lhs_state_def make_state.simps merge_state.simps merge_trans.simps tries_only.simps trie.simps new_state_def
  completion_def make_var_state_def marker_def numeral_2_eq_2


section \<open>Rules outside of these conditions\<close>

text \<open>
  When a constant is met where an earlier rule has a variable, the states below the variable are merged into
  the new ones although they may have several transitions, of which only the first is merged.  With the
  rules \<open>(x,0)\<close>, \<open>(x,1)\<close>, \<open>(5,2)\<close> the arguments \<open>5, 1\<close> are matched by the second rule and rejected by
  the automaton; the merge of the third rule is the one that is not in trie form.
\<close>

abbreviation drop_rules :: "(tree list \<times> tree) list" where
  "drop_rules \<equiv> [([pvar_W ''x'', boxInt 0], boxInt 10), ([pvar_W ''x'', boxInt 1], boxInt 11), ([boxInt 5, boxInt 2], boxInt 12)]"

abbreviation drop_ad :: address where
  "drop_ad \<equiv> addr_after [boxInt 0, boxInt 1, boxInt 2, boxInt 5]"

lemma merging_drops_rules:
  "first_rule drop_rules [boxInt 5, boxInt 1] = Some (boxInt 11, [(boxIdent ''x'', boxInt 5)]) \<and>
   \<not> all_tries drop_ad to_nat (enumerate 0 (map fst drop_rules)) new_state \<and>
   (\<exists>sb. rbind (apply_pattern_matcher_internal 9 mret (fst (build_matcher drop_ad to_nat (map rule_tree drop_rules))) 0 (boxInt 5) [[], [], []] st)
      (\<lambda>((s, sb), st). apply_pattern_matcher_internal 9 mret (fst (build_matcher drop_ad to_nat (map rule_tree drop_rules))) s (boxInt 1) sb st) = Inr ((- 1, sb), st))"
proof (intro conjI)
  show "first_rule drop_rules [boxInt 5, boxInt 1] = Some (boxInt 11, [(boxIdent ''x'', boxInt 5)])" by (simp add: pmatch.simps)
  show "\<not> all_tries drop_ad to_nat (enumerate 0 (map fst drop_rules)) new_state" by (simp add: matcher_evaluation)
  let ?A = "\<lparr>a_state = build (merge_all drop_ad to_nat (enumerate 0 (map fst drop_rules)) new_state), a_rhs = map snd drop_rules\<rparr>"
  have A: "fst (build_matcher drop_ad to_nat (map rule_tree drop_rules)) = ?A" by (simp only: build_matcher_rules fst_conv)
  show "\<exists>sb. rbind (apply_pattern_matcher_internal 9 mret (fst (build_matcher drop_ad to_nat (map rule_tree drop_rules))) 0 (boxInt 5) [[], [], []] st)
      (\<lambda>((s, sb), st). apply_pattern_matcher_internal 9 mret (fst (build_matcher drop_ad to_nat (map rule_tree drop_rules))) s (boxInt 1) sb st) = Inr ((- 1, sb), st)"
    unfolding A
    by (simp add: matcher_evaluation build_def is_numeric_label_def state_at_def fires_def add_subst_def eval_nat_numeral)
qed

text \<open>
  A variable that occurs twice and stands for two different trees makes the environment of its rule an error box; the
  next variable of the same argument is then looked up in the error box, whose missing branch is read.
\<close>

lemma nonlinear_reads_error_box:
  assumes "searchIdDef i e st = Inr (Some Z)" "Z \<noteq> subtree X p" "getTreeProperty boxError j st = None"
  shows "bind_assocs h X [(i, p), (j, q)] e st = Inl (Undefined ''branch'')"
proof -
  have "searchIdDef j boxError st = Inl (Undefined ''branch'')"
    using assms(3) by (subst searchIdDef.simps) (simp add: isEnvBarrier_def isNil_def boxError_def branch_def arity_def)
  with assms(1,2) show ?thesis by simp
qed

end
