(* ===== verification/LoopDetector.thy ===== *)
theory LoopDetector
  imports Lists
begin

text \<open>
  The detector of endless evaluations (\<^verbatim>\<open>evaluate/loopDetector.cpp\<close>).  The evaluator reports every
  evaluation it starts; the detector keeps the last reports in a ring and, from time to time, looks
  in it for the report it has just got.  Two results: it gives an alarm exactly when a check finds the
  report among the last ones, and an evaluation that repeats itself is stopped.
\<close>

record looper =
  fBuffersize :: nat
  fCheckperiod :: nat
  fBuffer :: "tree option list"
  fPhase :: int

definition new_looper :: "nat \<Rightarrow> nat \<Rightarrow> looper" where
  "new_looper buffersize checkperiod =
     \<lparr>fBuffersize = buffersize, fCheckperiod = checkperiod, fBuffer = replicate buffersize None, fPhase = 0\<rparr>"

fun find_cycle :: "tree \<Rightarrow> nat \<Rightarrow> nat list \<Rightarrow> looper \<Rightarrow> nat option" where
  "find_cycle t w [] d = None"
| "find_cycle t w (i # is) d = (let r = (if w < i then w + fBuffersize d - i else w - i) in
     if fBuffer d ! r = Some t then Some i else find_cycle t w is d)"

definition detect :: "tree \<Rightarrow> looper \<Rightarrow> looper result" where
  "detect t d = (if fPhase d = int_max then Inl (Undefined ''int overflow'')
     else if fBuffersize d = 0 \<or> fCheckperiod d = 0 then Inl (Undefined ''division by zero'')
     else let phase = fPhase d + 1; w = nat (phase mod int (fBuffersize d));
       d1 = d\<lparr>fPhase := phase, fBuffer := (fBuffer d)[w := Some t]\<rparr> in
     if phase mod int (fCheckperiod d) = 0
     then (case find_cycle t w [1..<fBuffersize d] d1 of
         Some i \<Rightarrow> Inl (FaustException ''endless evaluation cycle'') | None \<Rightarrow> Inr d1)
     else Inr d1)"

fun detect_all :: "tree list \<Rightarrow> looper \<Rightarrow> looper result" where
  "detect_all [] d = Inr d"
| "detect_all (t # ts) d = rbind (detect t d) (\<lambda>d1. detect_all ts d1)"

section \<open>The ring holds the last reports\<close>

text \<open>\<open>holds n c ts d\<close>: after the reports \<open>ts\<close>, latest first, to a new detector with a ring of \<open>n\<close> places.\<close>

definition holds :: "nat \<Rightarrow> nat \<Rightarrow> tree list \<Rightarrow> looper \<Rightarrow> bool" where
  "holds n c ts d \<longleftrightarrow> fBuffersize d = n \<and> fCheckperiod d = c \<and> length (fBuffer d) = n \<and> fPhase d = int (length ts) \<and>
     (\<forall>i < n. fBuffer d ! ((length ts + n - i) mod n) = (if i < length ts then Some (ts ! i) else None))"

lemma holds_new: "0 < n \<Longrightarrow> holds n c [] (new_looper n c)"
  by (simp add: holds_def new_looper_def)

lemma ring_position:
  fixes n i j m :: nat
  assumes "i < n" "j < n" "(m + n - i) mod n = (m + n - j) mod n"
  shows "i = j"
proof -
  have *: "i = j" if "i \<le> j" "j < n" "(m + n - i) mod n = (m + n - j) mod n" for i j
  proof -
    have "n dvd (m + n - i) - (m + n - j)" using that by (metis diff_le_mono2 mod_eq_dvd_iff_nat)
    moreover have "(m + n - i) - (m + n - j) = j - i" using that(1,2) by arith
    ultimately show "i = j" using that by (metis dvd_imp_le diff_is_0_eq le_antisym less_imp_diff_less not_le zero_less_diff)
  qed
  show ?thesis
  proof (cases "i \<le> j")
    case True
    then show ?thesis using * assms by blast
  next
    case False
    then show ?thesis using *[of j i] assms by simp
  qed
qed

lemma ring_step:
  assumes h: "holds n c ts d" and n: "0 < n"
  shows "holds n c (t # ts) (d\<lparr>fPhase := fPhase d + 1, fBuffer := (fBuffer d)[Suc (length ts) mod n := Some t]\<rparr>)"
proof -
  define w where "w = Suc (length ts) mod n"
  define d1 where "d1 = d\<lparr>fPhase := fPhase d + 1, fBuffer := (fBuffer d)[w := Some t]\<rparr>"
  have "fBuffer d1 ! ((length (t # ts) + n - i) mod n) = (if i < length (t # ts) then Some ((t # ts) ! i) else None)"
    if i: "i < n" for i
  proof (cases i)
    case 0
    have "w < n" using n by (simp add: w_def)
    moreover have "(length (t # ts) + n - i) mod n = w" using mod_add_self2 [of "Suc (length ts)" n] by (simp add: 0 w_def)
    ultimately show ?thesis using h 0 by (simp add: holds_def d1_def)
  next
    case (Suc j)
    have "(Suc (length ts) + n - i) mod n \<noteq> w"
      using ring_position [of i n 0 "Suc (length ts)"] i Suc n mod_add_self2 [of "Suc (length ts)" n] by (auto simp: w_def)
    moreover have "Suc (length ts) + n - i = length ts + n - j" using Suc i by simp
    ultimately show ?thesis using h i Suc by (simp add: holds_def d1_def)
  qed
  then have "holds n c (t # ts) d1" using h by (simp add: holds_def d1_def)
  then show ?thesis by (simp add: d1_def w_def)
qed

lemma find_cycle_ring:
  assumes h: "holds n c (t # ts) d" and "\<forall>i \<in> set is. 0 < i \<and> i < n"
  shows "find_cycle t (Suc (length ts) mod n) is d = find (\<lambda>i. i \<le> length ts \<and> ts ! (i - 1) = t) is"
  using assms(2)
proof (induction "is")
  case (Cons i "is")
  let ?w = "Suc (length ts) mod n"
  have i: "0 < i" "i < n" using Cons.prems by auto
  then have n: "?w < n" by simp
  have "(Suc (length ts) + n - i) mod n = (if ?w < i then ?w + n - i else ?w - i)"
  proof -
    have "(Suc (length ts) + n - i) mod n = (?w + (n - i)) mod n" using i by (metis Nat.add_diff_assoc less_imp_le mod_add_left_eq)
    moreover have "(?w + (n - i)) mod n = (if ?w < i then ?w + n - i else ?w - i)"
    proof (cases "?w < i")
      case False
      then have "(?w + (n - i)) mod n = (?w - i + n) mod n" using i by (intro arg_cong [where f = "\<lambda>k. k mod n"]) arith
      also have "\<dots> = ?w - i" using n by (simp add: less_imp_diff_less)
      finally show ?thesis using False by simp
    qed (use i in simp)
    ultimately show ?thesis by simp
  qed
  moreover have "fBuffer d ! ((Suc (length ts) + n - i) mod n) = (if i \<le> length ts then Some (ts ! (i - 1)) else None)"
    using h i by (auto simp: holds_def nth_Cons')
  moreover have "fBuffersize d = n" using h by (simp add: holds_def)
  ultimately show ?case using Cons by (auto simp: Let_def split: if_splits)
qed simp

lemma detect_ring:
  assumes h: "holds n c ts d" and "0 < n" "0 < c" "int (length ts) < int_max"
  shows "detect t d = (if c dvd Suc (length ts) \<and> t \<in> set (take (n - 1) ts)
       then Inl (FaustException ''endless evaluation cycle'')
       else Inr (d\<lparr>fPhase := fPhase d + 1, fBuffer := (fBuffer d)[Suc (length ts) mod n := Some t]\<rparr>))"
proof -
  let ?d1 = "d\<lparr>fPhase := fPhase d + 1, fBuffer := (fBuffer d)[Suc (length ts) mod n := Some t]\<rparr>"
  have p: "fPhase d = int (length ts)" "fBuffersize d = n" "fCheckperiod d = c" using h by (simp_all add: holds_def)
  have m: "nat ((fPhase d + 1) mod int n) = Suc (length ts) mod n"
    unfolding p(1) by (metis nat_int of_nat_Suc add.commute zmod_int)
  have cd: "(fPhase d + 1) mod int c = 0 \<longleftrightarrow> c dvd Suc (length ts)"
    unfolding p(1) by (metis add.commute dvd_eq_mod_eq_0 int_dvd_int_iff of_nat_Suc)
  have "find_cycle t (Suc (length ts) mod n) [1..<n] ?d1 = find (\<lambda>i. i \<le> length ts \<and> ts ! (i - 1) = t) [1..<n]"
    by (rule find_cycle_ring [OF ring_step [OF h assms(2)]]) auto
  moreover have "find (\<lambda>i. i \<le> length ts \<and> ts ! (i - 1) = t) [1..<n] = None \<longleftrightarrow> t \<notin> set (take (n - 1) ts)"
    (is "?f \<longleftrightarrow> ?g")
  proof
    assume ?f
    show ?g
    proof
      assume "t \<in> set (take (n - 1) ts)"
      then obtain j where "j < n - 1" "j < length ts" "ts ! j = t" by (auto simp: in_set_conv_nth)
      then have "Suc j \<in> set [1..<n]" "Suc j \<le> length ts \<and> ts ! (Suc j - 1) = t" by auto
      with \<open>?f\<close> show False unfolding find_None_iff by blast
    qed
  next
    assume ?g
    show ?f unfolding find_None_iff
    proof
      assume "\<exists>i. i \<in> set [1..<n] \<and> i \<le> length ts \<and> ts ! (i - 1) = t"
      then obtain i where "1 \<le> i" "i < n" "i \<le> length ts" "ts ! (i - 1) = t" by auto
      then have "i - 1 < length (take (n - 1) ts)" "take (n - 1) ts ! (i - 1) = t" by auto
      with \<open>?g\<close> show False by (metis nth_mem)
    qed
  qed
  ultimately show ?thesis using assms(2-4) m cd p by (auto simp: detect_def Let_def split: option.splits)
qed

section \<open>Repetition is detected\<close>

lemma detect_all_append: "detect_all (us @ ts) d = rbind (detect_all us d) (\<lambda>d1. detect_all ts d1)"
  by (induction us arbitrary: d) (auto simp: rbind_def split: sum.splits)

lemma detect_all_holds:
  assumes "0 < n" "0 < c"
  shows "holds n c us d \<Longrightarrow> int (length us + length ts) \<le> int_max \<Longrightarrow> detect_all ts d = Inr d1 \<Longrightarrow> holds n c (rev ts @ us) d1"
proof (induction ts arbitrary: us d)
  case (Cons t ts)
  have l: "int (length us) < int_max" using Cons.prems(2) by simp
  note dr = detect_ring [OF Cons.prems(1) assms l, of t]
  let ?d = "d\<lparr>fPhase := fPhase d + 1, fBuffer := (fBuffer d)[Suc (length us) mod n := Some t]\<rparr>"
  have "detect_all ts ?d = Inr d1" using Cons.prems(3) dr by (auto split: if_splits)
  from Cons.IH [OF ring_step [OF Cons.prems(1) assms(1)] _ this] Cons.prems(2) show ?case by simp
qed simp

lemma detect_all_new:
  assumes "0 < n" "0 < c" "int (length us) \<le> int_max" "detect_all us (new_looper n c) = Inr d"
  shows "holds n c (rev us) d"
  using detect_all_holds [OF assms(1,2) holds_new [OF assms(1)] _ assms(4)] assms(3) by simp

abbreviation alarm :: error where
  "alarm \<equiv> FaustException ''endless evaluation cycle''"

lemma detect_all_alarm:
  assumes "0 < n" "0 < c" "int (length us) \<le> int_max"
  shows "(\<exists>d. detect_all us (new_looper n c) = Inr d) \<or> detect_all us (new_looper n c) = Inl alarm"
  using assms(3)
proof (induction us rule: rev_induct)
  case (snoc t us)
  then show ?case
  proof (cases "detect_all us (new_looper n c)")
    case (Inr d)
    have l: "int (length (rev us)) < int_max" "int (length us) \<le> int_max" using snoc.prems by simp_all
    from detect_ring [OF detect_all_new [OF assms(1,2) l(2) Inr] assms(1,2) l(1), of t] Inr
    show ?thesis by (simp add: detect_all_append split: if_splits)
  qed (auto simp: detect_all_append)
qed simp

text \<open>
  Property C40 (\<^verbatim>\<open>loopDetector::detect\<close>).  A report is answered by an alarm exactly when its number is a
  multiple of the check period and the same tree is among the reports before it, as many as the ring
  holds besides it.  After any reports, if from some point on the reports repeat with a period smaller
  than the ring, an alarm is given within one period of the cycle and one check period: an endless
  evaluation that goes round such a cycle is stopped.
\<close>

theorem endless_cycles_detected:
  assumes "0 < n" "0 < c" "0 < p" "p < n" "int (length us + p + c) \<le> int_max" "\<And>j. f (j + p) = f j"
  shows "(\<forall>d t. detect_all us (new_looper n c) = Inr d \<longrightarrow>
      (detect t d = Inl (FaustException ''endless evaluation cycle'') \<longleftrightarrow> c dvd Suc (length us) \<and> t \<in> set (take (n - 1) (rev us)))) \<and>
    detect_all (us @ map f [0..<p + c]) (new_looper n c) = Inl (FaustException ''endless evaluation cycle'')"
proof -
  have answer: "detect t d = Inl alarm \<longleftrightarrow> c dvd Suc (length vs) \<and> t \<in> set (take (n - 1) (rev vs))"
    if "detect_all vs (new_looper n c) = Inr d" "int (length vs) < int_max" for vs d t
    using detect_ring [OF detect_all_new [OF assms(1,2) _ that(1)] assms(1,2), of t] that(2) by (simp split: if_splits)
  have "detect_all (us @ map f [0..<p + c]) (new_looper n c) = Inl alarm"
  proof (rule ccontr)
    assume "\<not> ?thesis"
    with detect_all_alarm [OF assms(1,2), of "us @ map f [0..<p + c]"] assms(5)
    obtain d1 where d1: "detect_all (us @ map f [0..<p + c]) (new_looper n c) = Inr d1" by auto
    obtain m where m: "length us + p < m" "m \<le> length us + p + c" "c dvd m"
    proof
      let ?m = "c * (Suc ((length us + p) div c))"
      show "length us + p < ?m" "?m \<le> length us + p + c" "c dvd ?m"
        using dividend_less_times_div [OF assms(2), of "length us + p"] div_mult_mod_eq [of "length us + p" c]
        by (simp_all only: mult_Suc_right dvd_triv_left) (simp_all add: ac_simps)
    qed
    define j where "j = m - length us - 1"
    have j: "p \<le> j" "j < p + c" "Suc (length us + j) = m" using m by (auto simp: j_def)
    let ?vs = "us @ map f [0..<j]"
    have "[0..<p + c] = [0..<j] @ j # [Suc j..<p + c]"
      using upt_add_eq_append [of 0 j "p + c - j"] j(2) by (simp add: upt_conv_Cons)
    then have "us @ map f [0..<p + c] = ?vs @ f j # map f [Suc j..<p + c]" by simp
    with d1 have "rbind (detect_all ?vs (new_looper n c)) (detect_all (f j # map f [Suc j..<p + c])) = Inr d1"
      by (simp only: detect_all_append)
    then obtain d d2 where d: "detect_all ?vs (new_looper n c) = Inr d" "detect (f j) d = Inr d2"
      by (auto simp: rbind_eq_Inr)
    have "f j \<in> set (take (n - 1) (rev ?vs))"
    proof -
      have "p - 1 < j" using assms(3) j(1) by simp
      then have "rev ?vs ! (p - 1) = f (j - p)"
        using assms(3) j(1) by (simp add: rev_map nth_append rev_nth)
      moreover have "f (j - p) = f j" using assms(6) [of "j - p"] j(1) by simp
      moreover have "p - 1 < length (take (n - 1) (rev ?vs))" using assms(3,4) j(1) by simp
      ultimately show ?thesis by (metis nth_mem nth_take assms(3,4) diff_less_mono leI less_one not_less_zero)
    qed
    moreover have "int (length ?vs) < int_max" using assms(5) j(2) by simp
    ultimately show False using answer [OF d(1), of "f j"] j(3) m(3) d(2) by simp
  qed
  moreover have "int (length us) < int_max" using assms(2,5) by simp
  ultimately show ?thesis using answer by blast
qed

theorem endless_cycles_detected_witness:
  "detect_all (map (\<lambda>j. if even j then nil else cons nil nil) [0..<2 + 3]) (new_looper 4 3) = Inl (FaustException ''endless evaluation cycle'')"
  using endless_cycles_detected [of 4 3 2 "[]" "\<lambda>j. if even j then nil else cons nil nil"] by (simp add: int_max_def)

end
