(* ===== verification/Evaluator.thy ===== *)
theory Evaluator
  imports LoopDetector PatternMatcher Propagate Simplify
begin

text \<open>
  The evaluation of expressions to block diagrams (\<^verbatim>\<open>evaluate/eval.cpp\<close>).

  \<open>eval\<close>, \<open>a2sb\<close> and \<open>applyList\<close> call each other, and a program may make them run for ever.  Each is a
  definition over a function \<open>R\<close> that answers the recursive calls (\<open>call\<close>), and \<open>run n\<close> ties the
  knot with at most \<open>n\<close> calls nested; more nesting never changes an answer (\<open>run_mono\<close> in
  \<open>EvalTriples\<close>).  The loops of the source over lists, labels and iterations are recursive functions.

  The state extends that of environments by the tables of answers (the properties \<^verbatim>\<open>EVALPROPERTY\<close>,
  \<^verbatim>\<open>NUMERICPROPERTY\<close>, \<^verbatim>\<open>PMPROPERTYNODE\<close>, \<^verbatim>\<open>gSymbolicBoxProperty\<close> and \<^verbatim>\<open>gSimplifiedBoxProperty\<close>, each a
  table of its own), the number of the last slot, the loop detector, the automata that were made, and the
  states of propagation and of signal simplification.  \<open>ectx\<close> holds what does not change: \<open>getlist\<close> stands for
  \<^verbatim>\<open>gReader.expandlist(gReader.getlist(_))\<close>, the definitions in a file, and \<open>simplify_bound\<close> is the
  bound on the nesting of signal simplification.
\<close>

section \<open>State\<close>

record ectx =
  host_of :: host
  op_ad :: "node \<Rightarrow> nat"
  lm_of :: libm
  simplify_bound :: nat
  getlist :: "string \<Rightarrow> tree result"
  yylineno :: int
  gSimpleNames :: bool
  gSimplifyDiagrams :: bool

record evst = envst +
  ev_evals :: "tree \<times> tree \<rightharpoonup> tree"
  ev_symbolic :: "tree \<rightharpoonup> tree"
  ev_numeric :: "tree \<rightharpoonup> tree"
  ev_matchers :: "tree \<times> tree \<rightharpoonup> tree"
  ev_simplified :: "tree \<rightharpoonup> tree"
  gBoxSlotNumber :: int
  gLoopDetector :: looper
  ev_automata :: "automaton list"
  ev_prop :: pstate
  ev_simp :: d2s

type_synonym 'a em = "(evst, 'a) mm"

datatype call = Eval tree tree tree | A2sb tree | Apply tree tree

type_synonym recur = "call \<Rightarrow> tree em"

definition mget :: "('s \<Rightarrow> 'a) \<Rightarrow> ('s, 'a) mm" where
  "mget f = (\<lambda>st. Inr (f st, st))"

definition mmod :: "('s \<Rightarrow> 's) \<Rightarrow> ('s, unit) mm" where
  "mmod f = (\<lambda>st. Inr ((), f st))"

definition mtry :: "('s \<Rightarrow> 's result) \<Rightarrow> ('s, unit) mm" where
  "mtry f = (\<lambda>st. rbind (f st) (\<lambda>st1. Inr ((), st1)))"

definition mask :: "('s \<Rightarrow> 'a result) \<Rightarrow> ('s, 'a) mm" where
  "mask f = (\<lambda>st. rbind (f st) (\<lambda>a. Inr (a, st)))"

lemma mbind_mlift_cong [fundef_cong]:
  "r = r' \<Longrightarrow> (\<And>a. r' = Inr a \<Longrightarrow> f a = f' a) \<Longrightarrow> mbind (mlift r) f = mbind (mlift r') f'"
  by (auto simp: mbind_def mlift_def rbind_def split: sum.splits)

definition on_prop :: "'a pm \<Rightarrow> 'a em" where
  "on_prop m = (\<lambda>st. rbind (m (ev_prop st)) (\<lambda>(a, p). Inr (a, st\<lparr>ev_prop := p\<rparr>)))"

definition on_simp :: "(d2s, 'a) mm \<Rightarrow> 'a em" where
  "on_simp m = (\<lambda>st. rbind (m (ev_simp st)) (\<lambda>(a, p). Inr (a, st\<lparr>ev_simp := p\<rparr>)))"

abbreviation ad_in :: "ectx \<Rightarrow> address" where
  "ad_in C \<equiv> ad_of (host_of C)"

section \<open>Names and errors\<close>

definition tree2str :: "tree \<Rightarrow> string result" where
  "tree2str t = (case node t of NSym (Name s) \<Rightarrow> Inr s | NSym _ \<Rightarrow> Inl (Undefined ''symbol'')
     | _ \<Rightarrow> Inl (FaustException ''the node of the tree is not a symbol''))"

definition name_as :: "ectx \<Rightarrow> tree \<Rightarrow> tree \<Rightarrow> unit em" where
  "name_as C t name = mmod (setTreeProperty (host_of C) t DEFNAMEPROPERTY name)"

definition carry_name :: "ectx \<Rightarrow> tree \<Rightarrow> tree \<Rightarrow> unit em" where
  "carry_name C expr result = mbind (mget (getDefNameProperty expr)) (\<lambda>n. case n of
      Some name \<Rightarrow> name_as C result name | None \<Rightarrow> mret ())"

definition named :: "ectx \<Rightarrow> tree \<Rightarrow> tree em \<Rightarrow> tree em" where
  "named C expr m = mbind m (\<lambda>result. mbind (carry_name C expr result) (\<lambda>_. mret result))"

definition error_here :: "ectx \<Rightarrow> int \<Rightarrow> string \<Rightarrow> tree \<Rightarrow> 'a em" where
  "error_here C line msg expr = mask (\<lambda>st. evalerror (host_of C) (yyfilename st) line msg expr)"

definition error_at :: "ectx \<Rightarrow> tree \<Rightarrow> string \<Rightarrow> tree \<Rightarrow> 'a em" where
  "error_at C src msg expr = mask (\<lambda>st. rbind (getDefFileProp src st) (\<lambda>file. rbind (getDefLineProp src st) (\<lambda>line.
     evalerror (host_of C) file line msg expr)))"

definition ident_box :: "string \<Rightarrow> tree em" where
  "ident_box s = mbind (name_tree s) (\<lambda>n. mret (Tree (bsym BOXIDENT) [n]))"

section \<open>Symbolic boxes\<close>

definition new_slot :: "tree em" where
  "new_slot = (\<lambda>st. let k = wrap32 (gBoxSlotNumber st + 1) in Inr (boxSlot k, st\<lparr>gBoxSlotNumber := k\<rparr>))"

definition symbolic_closure :: "ectx \<Rightarrow> recur \<Rightarrow> tree \<Rightarrow> tree \<Rightarrow> tree \<Rightarrow> tree \<Rightarrow> tree em" where
  "symbolic_closure C R var body visited lenv =
     mbind new_slot (\<lambda>slot. mbind (mtry (setDefNameProperty (host_of C) slot (boxpp (host_of C) var))) (\<lambda>_.
       mbind (pushValueDef (host_of C) var slot lenv) (\<lambda>env. mbind (R (Eval body visited env)) (\<lambda>e.
         mbind (R (A2sb e)) (\<lambda>b. mret (boxSymbolic slot b))))))"

definition symbolic_matcher :: "ectx \<Rightarrow> recur \<Rightarrow> tree \<Rightarrow> tree em" where
  "symbolic_matcher C R expr = mbind new_slot (\<lambda>slot.
     mbind (mget gBoxSlotNumber) (\<lambda>k. mbind (mtry (setDefNameProperty (host_of C) slot (''PM'' @ show_int k))) (\<lambda>_.
       mbind (R (Apply expr (cons slot nil))) (\<lambda>e. mbind (R (A2sb e)) (\<lambda>b. mret (boxSymbolic slot b))))))"

definition real_a2sb :: "ectx \<Rightarrow> recur \<Rightarrow> tree \<Rightarrow> tree em" where
  "real_a2sb C R expr = (case isClosure expr of
      Some (abstr, unused, visited, lenv) \<Rightarrow>
        if isBoxIdent abstr then named C expr (mbind (R (Eval abstr visited lenv)) (\<lambda>e. R (A2sb e)))
        else (case isBoxAbstr abstr of
            Some (var, body) \<Rightarrow> named C expr (symbolic_closure C R var body visited lenv)
          | None \<Rightarrow> if isBoxEnvironment abstr then mret abstr
              else error_here C (-1) ''a2sb : internal error : not an abstraction inside closure'' expr)
    | None \<Rightarrow> if isTree5 expr (bsym BOXPATMATCHER) \<noteq> None then named C expr (symbolic_matcher C R expr)
        else if isBoxWaveform expr then mret expr
        else mbind (mmap (\<lambda>b. R (A2sb b)) (branches expr)) (\<lambda>br. mret (Tree (node expr) br)))"

definition a2sb :: "ectx \<Rightarrow> recur \<Rightarrow> tree \<Rightarrow> tree em" where
  "a2sb C R expr = mbind (mget ev_symbolic) (\<lambda>m. case m expr of
      Some result \<Rightarrow> mret result
    | None \<Rightarrow> mbind (real_a2sb C R expr) (\<lambda>result.
        mbind (if result \<noteq> expr then carry_name C expr result else mret ()) (\<lambda>_.
          mbind (mmod (\<lambda>st. st\<lparr>ev_symbolic := (ev_symbolic st)(expr \<mapsto> result)\<rparr>)) (\<lambda>_. mret result))))"

section \<open>Numbers\<close>

definition box_io :: "tree \<Rightarrow> io option em" where
  "box_io d = on_prop (type_of_box d)"

definition box_number :: "ectx \<Rightarrow> int \<Rightarrow> tree \<Rightarrow> tree em" where
  "box_number C ins d = mbind (mlift (makeSigInputList ins)) (\<lambda>l.
     mbind (on_prop (boxPropagateSig (lm_of C) nil d l)) (\<lambda>lsignals. mbind (mlift (hdT lsignals)) (\<lambda>s.
       on_simp (simplify (simplify_bound C) (lm_of C) (ad_in C) s))))"

definition const_number :: "ectx \<Rightarrow> recur \<Rightarrow> tree \<Rightarrow> tree \<Rightarrow> tree \<Rightarrow> tree em" where
  "const_number C R expr visited lenv = mbind (R (Eval expr visited lenv)) (\<lambda>e. mbind (R (A2sb e)) (\<lambda>d.
     mbind (box_io d) (\<lambda>io. mbind (mlift (Propagate.known io)) (\<lambda>(ins, outs).
       if 0 < ins \<or> outs \<noteq> 1 then error_here C (yylineno C) ''not a constant expression of type : (0->1)'' expr
       else box_number C ins d))))"

definition eval2double :: "ectx \<Rightarrow> recur \<Rightarrow> tree \<Rightarrow> tree \<Rightarrow> tree \<Rightarrow> double em" where
  "eval2double C R expr visited lenv = mbind (const_number C R expr visited lenv) (\<lambda>v. mlift (tree2float v))"

definition eval2int :: "ectx \<Rightarrow> recur \<Rightarrow> tree \<Rightarrow> tree \<Rightarrow> tree \<Rightarrow> int em" where
  "eval2int C R expr visited lenv = mbind (const_number C R expr visited lenv) (\<lambda>v. mlift (tree2int v))"

definition sig_number :: "tree \<Rightarrow> tree option" where
  "sig_number s = (case isSigReal s of Some x \<Rightarrow> Some (boxReal x)
    | None \<Rightarrow> (case isSigInt s of Some i \<Rightarrow> Some (boxInt i) | None \<Rightarrow> None))"

definition isBoxNumeric :: "ectx \<Rightarrow> recur \<Rightarrow> tree \<Rightarrow> tree option em" where
  "isBoxNumeric C R inp = (if isBoxInt inp \<or> isBoxReal inp then mret (Some inp)
     else if (case isClosure inp of Some (abstr, _) \<Rightarrow> isBoxAbstr abstr \<noteq> None | None \<Rightarrow> False) then mret None
     else mbind (R (A2sb inp)) (\<lambda>v. mbind (box_io v) (\<lambda>io. case io of
         Some (ins, outs) \<Rightarrow> if ins = 0 \<and> outs = 1 then mbind (box_number C ins v) (\<lambda>s. mret (sig_number s)) else mret None
       | None \<Rightarrow> mret None)))"

definition simplifyPattern :: "ectx \<Rightarrow> recur \<Rightarrow> tree \<Rightarrow> tree em" where
  "simplifyPattern C R v = mbind (mget ev_numeric) (\<lambda>m. case m v of
      Some num \<Rightarrow> mret num
    | None \<Rightarrow> mbind (isBoxNumeric C R v) (\<lambda>r. let num = (case r of Some num \<Rightarrow> num | None \<Rightarrow> v) in
        mbind (mmod (\<lambda>st. st\<lparr>ev_numeric := (ev_numeric st)(v \<mapsto> num)\<rparr>)) (\<lambda>_. mret num)))"

text \<open>The operators a pattern is simplified below; unlike those of the matcher they do not include groups.\<close>

definition bda_op :: "tree \<Rightarrow> (node \<times> tree \<times> tree) option" where
  "bda_op box = map_option (\<lambda>(t1, t2). (node box, t1, t2))
     (first_match [isBoxPar box, isBoxSeq box, isBoxSplit box, isBoxMerge box, isBoxRec box])"

lemma bda_op_Some: "bda_op t = Some (n, a, b) \<Longrightarrow> isBoxPatternOp t = Some (n, a, b)"
  by (auto simp: bda_op_def isBoxPatternOp_def isBoxPar_def isBoxSeq_def isBoxSplit_def isBoxMerge_def isBoxRec_def
      isBoxHGroup_def isBoxVGroup_def isBoxTGroup_def isTree2_def split: list.splits if_splits option.splits)

function patternSimplification :: "ectx \<Rightarrow> recur \<Rightarrow> tree \<Rightarrow> tree em" where
  "patternSimplification C R pat = mbind (isBoxNumeric C R pat) (\<lambda>r. case r of
      Some v \<Rightarrow> mret v
    | None \<Rightarrow> (case bda_op pat of
        Some (n, t1, t2) \<Rightarrow> mbind (patternSimplification C R t1) (\<lambda>s1. mbind (patternSimplification C R t2) (\<lambda>s2.
          mret (Tree n [s1, s2])))
      | None \<Rightarrow> mret pat))"
  by pat_completeness auto
termination by (relation "measure (\<lambda>(C, R, t). size t)") (auto dest!: bda_op_Some dest: isBoxPatternOp_size)

declare patternSimplification.simps [simp del]

section \<open>Labels\<close>

definition isDigitChar :: "char \<Rightarrow> bool" where
  "isDigitChar c \<longleftrightarrow> of_char c \<ge> (48 :: nat) \<and> of_char c \<le> (57 :: nat)"

definition isIdentChar :: "char \<Rightarrow> bool" where
  "isIdentChar c \<longleftrightarrow> (let k = of_char c :: nat in (97 \<le> k \<and> k \<le> 122) \<or> (65 \<le> k \<and> k \<le> 90) \<or> (48 \<le> k \<and> k \<le> 57) \<or> k = 95)"

definition atoi :: "string \<Rightarrow> int result" where
  "atoi ds = (let v = fold (\<lambda>c v. 10 * v + (of_char c - 48)) ds (0 :: int) in
     if v \<le> int_max then Inr v else Inl (Undefined ''atoi''))"

definition print_width :: "int \<Rightarrow> int \<Rightarrow> string" where
  "print_width w n = (let s = show_int n in replicate (nat w - length s) CHR '' '' @ s)"

definition writeIdentValue :: "ectx \<Rightarrow> recur \<Rightarrow> tree \<Rightarrow> tree \<Rightarrow> string \<Rightarrow> string \<Rightarrow> string em" where
  "writeIdentValue C R visited lenv format ident = mbind (mlift (atoi format)) (\<lambda>f. mbind (ident_box ident) (\<lambda>b.
     mbind (eval2int C R b visited lenv) (\<lambda>n. mret (print_width (min 4 (max f 0)) n))))"

function (sequential) label0 :: "(string \<Rightarrow> string \<Rightarrow> ('s, string) mm) \<Rightarrow> string \<Rightarrow> string \<Rightarrow> ('s, string) mm"
and label1 :: "(string \<Rightarrow> string \<Rightarrow> ('s, string) mm) \<Rightarrow> string \<Rightarrow> string \<Rightarrow> string \<Rightarrow> ('s, string) mm"
and label2 :: "(string \<Rightarrow> string \<Rightarrow> ('s, string) mm) \<Rightarrow> string \<Rightarrow> string \<Rightarrow> string \<Rightarrow> string \<Rightarrow> ('s, string) mm" where
  "label0 W [] dst = mret dst"
| "label0 W (c # cs) dst = (if c = CHR ''%'' then label1 W cs dst [] else label0 W cs (dst @ [c]))"
| "label1 W [] dst fmt = mret (dst @ ''%'' @ fmt)"
| "label1 W (c # cs) dst fmt = (if isDigitChar c then label1 W cs dst (fmt @ [c])
     else if isIdentChar c then label2 W cs dst fmt [c] else label0 W (c # cs) (dst @ ''%'' @ fmt))"
| "label2 W [] dst fmt ident = mbind (W fmt ident) (\<lambda>v. label0 W [] (dst @ v))"
| "label2 W (c # cs) dst fmt ident = (if isIdentChar c then label2 W cs dst fmt (ident @ [c])
     else mbind (W fmt ident) (\<lambda>v. label0 W (c # cs) (dst @ v)))"
  by pat_completeness auto
termination
  by (relation "measure (\<lambda>c. case c of Inl (W, cs, d) \<Rightarrow> 2 * length cs
    | Inr (Inl (W, cs, d, f)) \<Rightarrow> 2 * length cs + 1 | Inr (Inr (W, cs, d, f, i)) \<Rightarrow> 2 * length cs + 1)") auto

definition evalLabel :: "ectx \<Rightarrow> recur \<Rightarrow> string \<Rightarrow> tree \<Rightarrow> tree \<Rightarrow> string em" where
  "evalLabel C R src visited lenv = label0 (writeIdentValue C R visited lenv) src []"

section \<open>Iterations\<close>

definition iteration :: "ectx \<Rightarrow> recur \<Rightarrow> tree \<Rightarrow> tree \<Rightarrow> tree \<Rightarrow> tree \<Rightarrow> int \<Rightarrow> tree em" where
  "iteration C R ident body visited lenv i =
     mbind (pushValueDef (host_of C) ident (leaf (NInt i)) lenv) (\<lambda>env. R (Eval body visited env))"

fun iterate_down :: "(int \<Rightarrow> ('s, tree) mm) \<Rightarrow> (tree \<Rightarrow> tree \<Rightarrow> tree) \<Rightarrow> nat \<Rightarrow> tree \<Rightarrow> ('s, tree) mm" where
  "iterate_down body op 0 res = mret res"
| "iterate_down body op (Suc i) res = mbind (body (int i)) (\<lambda>e. iterate_down body op i (op e res))"

fun iterate_up :: "(int \<Rightarrow> ('s, tree) mm) \<Rightarrow> (tree \<Rightarrow> tree \<Rightarrow> tree) \<Rightarrow> int list \<Rightarrow> tree \<Rightarrow> ('s, tree) mm" where
  "iterate_up body op [] res = mret res"
| "iterate_up body op (i # is) res = mbind (body i) (\<lambda>e. iterate_up body op is (op res e))"

definition iterate_right :: "(tree \<Rightarrow> tree \<Rightarrow> tree) \<Rightarrow> ectx \<Rightarrow> recur \<Rightarrow> tree \<Rightarrow> int \<Rightarrow> tree \<Rightarrow> tree \<Rightarrow> tree \<Rightarrow> tree em" where
  "iterate_right op C R ident num body visited lenv = mbind (mlift (assert_that (0 < num) ''num>0'')) (\<lambda>_.
     mbind (iteration C R ident body visited lenv (num - 1)) (\<lambda>res.
       iterate_down (iteration C R ident body visited lenv) op (nat (num - 1)) res))"

definition iterate_left :: "(tree \<Rightarrow> tree \<Rightarrow> tree) \<Rightarrow> ectx \<Rightarrow> recur \<Rightarrow> tree \<Rightarrow> int \<Rightarrow> tree \<Rightarrow> tree \<Rightarrow> tree \<Rightarrow> tree em" where
  "iterate_left op C R ident num body visited lenv = mbind (mlift (assert_that (0 < num) ''num>0'')) (\<lambda>_.
     mbind (iteration C R ident body visited lenv 0) (\<lambda>res.
       iterate_up (iteration C R ident body visited lenv) op [1..num - 1] res))"

definition iteratePar :: "ectx \<Rightarrow> recur \<Rightarrow> tree \<Rightarrow> int \<Rightarrow> tree \<Rightarrow> tree \<Rightarrow> tree \<Rightarrow> tree em" where
  "iteratePar = iterate_right boxPar"

definition iterateSeq :: "ectx \<Rightarrow> recur \<Rightarrow> tree \<Rightarrow> int \<Rightarrow> tree \<Rightarrow> tree \<Rightarrow> tree \<Rightarrow> tree em" where
  "iterateSeq = iterate_right boxSeq"

definition iterateSum :: "ectx \<Rightarrow> recur \<Rightarrow> tree \<Rightarrow> int \<Rightarrow> tree \<Rightarrow> tree \<Rightarrow> tree \<Rightarrow> tree em" where
  "iterateSum = iterate_left (\<lambda>res e. boxSeq (boxPar res e) (boxPrim2 (PPrim P_sigAdd)))"

definition iterateProd :: "ectx \<Rightarrow> recur \<Rightarrow> tree \<Rightarrow> int \<Rightarrow> tree \<Rightarrow> tree \<Rightarrow> tree \<Rightarrow> tree em" where
  "iterateProd = iterate_left (\<lambda>res e. boxSeq (boxPar res e) (boxPrim2 (PPrim P_sigMul)))"

section \<open>Application\<close>

function boxlistOutputs :: "recur \<Rightarrow> tree \<Rightarrow> int \<Rightarrow> (bool \<times> int) em" where
  "boxlistOutputs R boxlist outputs = (if isNil boxlist then mret (isNil boxlist, outputs)
     else mbind (mlift (hdT boxlist)) (\<lambda>h. mbind (R (A2sb h)) (\<lambda>b. mbind (box_io b) (\<lambda>io.
       mbind (mlift (tlT boxlist)) (\<lambda>rest.
         boxlistOutputs R rest (wrap32 (outputs + (case io of Some (ins, outs) \<Rightarrow> outs | None \<Rightarrow> 1))))))))"
  by auto
termination by (relation "measure (\<lambda>(R, l, n). size l)") (auto dest: tlT_size)

declare boxlistOutputs.simps [simp del]

fun nwires :: "nat \<Rightarrow> tree" where
  "nwires 0 = nil"
| "nwires (Suc n) = cons boxWire (nwires n)"

function larg2par :: "ectx \<Rightarrow> tree \<Rightarrow> tree em" where
  "larg2par C larg = (if isNil larg then error_here C (- 1) ''empty list of arguments'' larg
     else mbind (mlift (tlT larg)) (\<lambda>t. if isNil t then mlift (hdT larg)
       else mbind (mlift (hdT larg)) (\<lambda>h. mbind (larg2par C t) (\<lambda>p. mret (boxPar h p)))))"
  by auto
termination by (relation "measure (\<lambda>(C, l). size l)") (auto dest: tlT_size)

declare larg2par.simps [simp del]

function list2vec :: "tree \<Rightarrow> tree list result" where
  "list2vec l = (if isNil l then Inr []
     else rbind (hdT l) (\<lambda>h. rbind (tlT l) (\<lambda>t. rbind (list2vec t) (\<lambda>v. Inr (h # v)))))"
  by auto
termination by (relation "measure size") (auto dest: tlT_size)

declare list2vec.simps [simp del]

definition vec2list :: "tree list \<Rightarrow> tree" where
  "vec2list v = foldr cons v nil"

definition isSpecialInfix :: "xprim \<Rightarrow> bool" where
  "isSpecialInfix p \<longleftrightarrow> p = XPow"

definition special_infix :: "tree \<Rightarrow> bool" where
  "special_infix f \<longleftrightarrow> (case isBoxPrim2_ptr f of Some p \<Rightarrow> p \<noteq> PPrim P_sigPrefix | None \<Rightarrow> False) \<or>
     (case getUserData (node f) of Some p \<Rightarrow> isSpecialInfix p | None \<Rightarrow> False)"

definition apply_box :: "ectx \<Rightarrow> recur \<Rightarrow> tree \<Rightarrow> tree \<Rightarrow> tree em" where
  "apply_box C R f larg = mbind (R (A2sb f)) (\<lambda>efun. mbind (box_io efun) (\<lambda>io. case io of
      None \<Rightarrow> mbind (larg2par C larg) (\<lambda>p. mret (boxSeq p f))
    | Some (ins, _) \<Rightarrow> mbind (boxlistOutputs R larg 0) (\<lambda>(valid, outs).
        if \<not> valid then mbind (larg2par C larg) (\<lambda>p. mret (boxSeq p f))
        else if ins < outs then mlift (Inl (FaustException ''too much arguments''))
        else if outs = 1 \<and> special_infix f
          then mbind (larg2par C (concatT (nwires (nat (ins - outs))) larg)) (\<lambda>p. mret (boxSeq p f))
        else mbind (larg2par C (concatT larg (nwires (nat (ins - outs))))) (\<lambda>p. mret (boxSeq p f)))))"

definition apply_closure :: "ectx \<Rightarrow> recur \<Rightarrow> tree \<Rightarrow> tree \<Rightarrow> tree \<Rightarrow> tree \<Rightarrow> tree \<Rightarrow> tree em" where
  "apply_closure C R f abstr visited lenv larg =
     (if isBoxEnvironment abstr then mask (\<lambda>st. Inl (FaustException (yyfilename st @ '' : '' @ show_int (- 1) @ '' : ERROR : '' @
          ''an environment can'' @ [CHR 0x27] @ ''t be used as a function'' @ boxpp (host_of C) f @ newline)))
      else (case isBoxAbstr abstr of
          None \<Rightarrow> error_here C (- 1) ''(internal) not an abstraction inside closure'' f
        | Some (ident, body) \<Rightarrow>
            mbind (mlift (hdT larg)) (\<lambda>a. mbind (R (Eval a visited lenv)) (\<lambda>arg0. mbind (isBoxNumeric C R arg0) (\<lambda>r.
              let arg = (case r of Some narg \<Rightarrow> narg | None \<Rightarrow> arg0) in
              mbind (pushValueDef (host_of C) ident arg lenv) (\<lambda>env. mbind (R (Eval body visited env)) (\<lambda>e.
                mbind (mget (getDefNameProperty f)) (\<lambda>n. mbind (case n of
                    Some fname \<Rightarrow> mbind (mlift (tree2str fname)) (\<lambda>s. mtry (setDefNameProperty (host_of C) e
                      (s @ (if gSimpleNames C then [] else ''('' @ boxpp (host_of C) arg @ '')''))))
                  | None \<Rightarrow> mret ()) (\<lambda>_. mbind (mlift (tlT larg)) (\<lambda>rest. R (Apply e rest)))))))))))"

definition automaton_at :: "pointer \<Rightarrow> automaton em" where
  "automaton_at a = mask (\<lambda>st. case a of
      PObj k \<Rightarrow> if k < length (ev_automata st) then Inr (ev_automata st ! k) else Inl (Undefined ''pointer'')
    | PPrim _ \<Rightarrow> Inl (Undefined ''pointer''))"

definition apply_matcher :: "ectx \<Rightarrow> recur \<Rightarrow> pointer \<Rightarrow> int \<Rightarrow> tree \<Rightarrow> tree \<Rightarrow> tree \<Rightarrow> tree \<Rightarrow> tree em" where
  "apply_matcher C R a s envList rules revParams larg =
     mbind (automaton_at a) (\<lambda>A. mbind (mlift (list2vec envList)) (\<lambda>E. mbind (mlift (hdT larg)) (\<lambda>X.
       mbind (apply_pattern_matcher (host_of C) (simplifyPattern C R) A s X E) (\<lambda>(s2, result, E1).
         if 0 \<le> s2 \<and> isNil result then mbind (mlift (tlT larg)) (\<lambda>rest.
           R (Apply (boxPatternMatcher a s2 (vec2list E1) rules (cons X revParams)) rest))
         else if s2 < 0 then mlift (Inl (FaustException ''pattern matching failed''))
         else (case isClosure result of
             Some (body, _, _, lenv) \<Rightarrow> mbind (R (Eval body nil lenv)) (\<lambda>f. mbind (mlift (tlT larg)) (\<lambda>rest. R (Apply f rest)))
           | None \<Rightarrow> mret boxError)))))"

definition applyList :: "ectx \<Rightarrow> recur \<Rightarrow> tree \<Rightarrow> tree \<Rightarrow> tree em" where
  "applyList C R f larg = (if isNil larg then mret f
     else if isBoxError f \<or> isBoxError larg then mret boxError
     else mbind (mlift (isBoxPatternMatcher f)) (\<lambda>pm. case pm of
         Some (a, s, envList, rules, revParams) \<Rightarrow> apply_matcher C R a s envList rules revParams larg
       | None \<Rightarrow> (case isClosure f of
           None \<Rightarrow> apply_box C R f larg
         | Some (abstr, _, visited, lenv) \<Rightarrow> apply_closure C R f abstr visited lenv larg)))"

function revEvalList :: "recur \<Rightarrow> tree \<Rightarrow> tree \<Rightarrow> tree \<Rightarrow> tree \<Rightarrow> tree em" where
  "revEvalList R lexp visited lenv result = (if isNil lexp then mret result
     else mbind (mlift (hdT lexp)) (\<lambda>h. mbind (R (Eval h visited lenv)) (\<lambda>e. mbind (mlift (tlT lexp)) (\<lambda>t.
       revEvalList R t visited lenv (cons e result)))))"
  by auto
termination by (relation "measure (\<lambda>(R, l, v, e, r). size l)") (auto dest: tlT_size)

declare revEvalList.simps [simp del]

section \<open>Identifiers and case expressions\<close>

fun find_def :: "tree \<Rightarrow> tree \<Rightarrow> 'x envst_scheme \<Rightarrow> (tree \<times> tree) option result" where
  "find_def ident lenv st = (if isNil lenv then Inr None
     else case getTreeProperty lenv ident st of
         Some def \<Rightarrow> Inr (Some (def, lenv))
       | None \<Rightarrow> rbind (branch lenv 0) (\<lambda>lenv1. find_def ident lenv1 st))"

declare find_def.simps [simp del]

definition evalIdDef :: "ectx \<Rightarrow> recur \<Rightarrow> tree \<Rightarrow> tree \<Rightarrow> tree \<Rightarrow> tree em" where
  "evalIdDef C R ident visited lenv = mbind (mask (find_def ident lenv)) (\<lambda>r. case r of
      None \<Rightarrow> error_at C ident ''undefined symbol'' ident
    | Some (def, lenv1) \<Rightarrow> R (Eval def (addElement (ad_in C) (cons ident lenv1) visited) nil))"

fun listn :: "int \<Rightarrow> tree \<Rightarrow> tree" where
  "listn n e = (if n \<le> 0 then nil else cons e (listn (n - 1) e))"

declare listn.simps [simp del]

definition evalPattern :: "ectx \<Rightarrow> recur \<Rightarrow> tree \<Rightarrow> tree \<Rightarrow> tree em" where
  "evalPattern C R pat env = mbind (R (Eval pat nil env)) (\<lambda>p. patternSimplification C R p)"

function evalPatternList :: "ectx \<Rightarrow> recur \<Rightarrow> tree \<Rightarrow> tree \<Rightarrow> tree em" where
  "evalPatternList C R patterns env = (if isNil patterns then mret nil
     else mbind (mlift (hdT patterns)) (\<lambda>h. mbind (evalPattern C R h env) (\<lambda>p. mbind (mlift (tlT patterns)) (\<lambda>t.
       mbind (evalPatternList C R t env) (\<lambda>ps. mret (cons p ps))))))"
  by auto
termination by (relation "measure (\<lambda>(C, R, l, e). size l)") (auto dest: tlT_size)

definition evalRule :: "ectx \<Rightarrow> recur \<Rightarrow> tree \<Rightarrow> tree \<Rightarrow> tree em" where
  "evalRule C R rule env = mbind (mlift (branch rule 0)) (\<lambda>l. mbind (evalPatternList C R l env) (\<lambda>ps.
     mbind (mlift (branch rule 1)) (\<lambda>r. mret (cons ps r))))"

function evalRuleList :: "ectx \<Rightarrow> recur \<Rightarrow> tree \<Rightarrow> tree \<Rightarrow> tree em" where
  "evalRuleList C R rules env = (if isNil rules then mret nil
     else mbind (mlift (hdT rules)) (\<lambda>h. mbind (evalRule C R h env) (\<lambda>r. mbind (mlift (tlT rules)) (\<lambda>t.
       mbind (evalRuleList C R t env) (\<lambda>rs. mret (cons r rs))))))"
  by auto
termination by (relation "measure (\<lambda>(C, R, l, e). size l)") (auto dest: tlT_size)

declare evalPatternList.simps [simp del] evalRuleList.simps [simp del]

definition new_automaton :: "automaton \<Rightarrow> pointer em" where
  "new_automaton A = (\<lambda>st. Inr (PObj (length (ev_automata st)), st\<lparr>ev_automata := ev_automata st @ [A]\<rparr>))"

definition evalCase :: "ectx \<Rightarrow> recur \<Rightarrow> tree \<Rightarrow> tree \<Rightarrow> tree em" where
  "evalCase C R rules env = mbind (mget ev_matchers) (\<lambda>m. case m (rules, env) of
      Some pm \<Rightarrow> mret pm
    | None \<Rightarrow> mbind (evalRuleList C R rules env) (\<lambda>rs.
        mbind (make_pattern_matcher (host_of C) (op_ad C) (simplifyPattern C R) rs) (\<lambda>A. mbind (new_automaton A) (\<lambda>a.
          let pm = boxPatternMatcher a 0 (listn (int (lenT rules)) (pushEnvBarrier env)) rules nil in
          mbind (mmod (\<lambda>st. st\<lparr>ev_matchers := (ev_matchers st)((rules, env) \<mapsto> pm)\<rparr>)) (\<lambda>_. mret pm)))))"

section \<open>Evaluation\<close>

definition eval2 :: "(tree \<Rightarrow> tree \<Rightarrow> tree) \<Rightarrow> recur \<Rightarrow> tree \<Rightarrow> tree \<Rightarrow> tree \<Rightarrow> tree \<Rightarrow> tree em" where
  "eval2 op R e1 e2 visited lenv = mbind (R (Eval e1 visited lenv)) (\<lambda>v1. mbind (R (Eval e2 visited lenv)) (\<lambda>v2. mret (op v1 v2)))"

definition eval_label_tree :: "ectx \<Rightarrow> recur \<Rightarrow> tree \<Rightarrow> tree \<Rightarrow> tree \<Rightarrow> tree em" where
  "eval_label_tree C R label visited lenv = mbind (mlift (tree2str label)) (\<lambda>l1.
     mbind (evalLabel C R l1 visited lenv) (\<lambda>l2. name_tree l2))"

definition eval_widget :: "(tree \<Rightarrow> tree list \<Rightarrow> tree) \<Rightarrow> ectx \<Rightarrow> recur \<Rightarrow> tree \<Rightarrow> tree list \<Rightarrow> tree \<Rightarrow> tree \<Rightarrow> tree em" where
  "eval_widget mk C R label ps visited lenv = mbind (eval_label_tree C R label visited lenv) (\<lambda>l.
     mbind (mmap (\<lambda>p. mbind (eval2double C R p visited lenv) (\<lambda>x. mret (leaf (NDouble x)))) ps) (\<lambda>xs. mret (mk l xs)))"

definition eval_group :: "(tree \<Rightarrow> tree \<Rightarrow> tree) \<Rightarrow> ectx \<Rightarrow> recur \<Rightarrow> tree \<Rightarrow> tree \<Rightarrow> tree \<Rightarrow> tree \<Rightarrow> tree em" where
  "eval_group op C R label arg visited lenv = mbind (eval_label_tree C R label visited lenv) (\<lambda>l.
     mbind (R (Eval arg visited lenv)) (\<lambda>v. mret (op l v)))"

definition slider :: "(tree \<Rightarrow> tree \<Rightarrow> tree \<Rightarrow> tree \<Rightarrow> tree \<Rightarrow> tree) \<Rightarrow> tree \<Rightarrow> tree list \<Rightarrow> tree" where
  "slider mk l xs = mk l (xs ! 0) (xs ! 1) (xs ! 2) (xs ! 3)"

definition eval_slider :: "(tree \<Rightarrow> tree \<Rightarrow> tree \<Rightarrow> tree \<Rightarrow> tree \<Rightarrow> tree) \<Rightarrow> ectx \<Rightarrow> recur \<Rightarrow> tree \<Rightarrow> tree \<Rightarrow> tree \<Rightarrow> tree \<Rightarrow> tree em" where
  "eval_slider mk C R label ps visited lenv = eval_widget (slider mk) C R label (map (nthT ps) [0, 1, 2, 3]) visited lenv"

definition eval_file :: "ectx \<Rightarrow> tree \<Rightarrow> tree em \<Rightarrow> tree em" where
  "eval_file C label start = mbind (mlift (tree2str label)) (\<lambda>fname. mbind (mlift (getlist C fname)) (\<lambda>eqlst.
     mbind start (\<lambda>b. mbind (pushMultiClosureDefs (host_of C) eqlst nil nil) (\<lambda>env.
       let res = closure b nil nil env in mbind (name_as C res label) (\<lambda>_. mret res)))))"

definition eval_access :: "ectx \<Rightarrow> recur \<Rightarrow> tree \<Rightarrow> tree \<Rightarrow> tree \<Rightarrow> tree \<Rightarrow> tree \<Rightarrow> tree em" where
  "eval_access C R expr body var visited lenv = mbind (R (Eval body visited lenv)) (\<lambda>v. case isClosure v of
      Some (_, genv, visited2, lenv2) \<Rightarrow> R (Eval (closure var genv visited2 lenv2) visited lenv)
    | None \<Rightarrow> error_at C expr ''no environment to access'' expr)"

definition eval_modif :: "ectx \<Rightarrow> recur \<Rightarrow> tree \<Rightarrow> tree \<Rightarrow> tree \<Rightarrow> tree \<Rightarrow> tree \<Rightarrow> tree em" where
  "eval_modif C R expr body ldef visited lenv = mbind (R (Eval body visited lenv)) (\<lambda>v. case isClosure v of
      Some (exp2, genv, visited2, lenv2) \<Rightarrow> mbind (copyEnvReplaceDefs (host_of C) lenv2 ldef visited2 lenv) (\<lambda>lenv3.
        R (Eval (closure exp2 genv visited2 lenv3) visited lenv))
    | None \<Rightarrow> error_at C expr ''not a closure'' v)"

definition eval_closure :: "ectx \<Rightarrow> recur \<Rightarrow> tree \<Rightarrow> tree \<Rightarrow> tree \<Rightarrow> tree \<Rightarrow> tree em" where
  "eval_closure C R exp2 visited2 lenv2 visited = mbind (mlift (setUnion (ad_in C) visited visited2)) (\<lambda>u.
     if node exp2 = bsym BOXABSTR \<or> isBoxEnvironment exp2 then mret (closure exp2 nil u lenv2)
     else R (Eval exp2 u lenv2))"

definition eval_io :: "ectx \<Rightarrow> recur \<Rightarrow> (io \<Rightarrow> int) \<Rightarrow> tree \<Rightarrow> tree \<Rightarrow> tree \<Rightarrow> tree em" where
  "eval_io C R pick body visited lenv = mbind (R (Eval body visited lenv)) (\<lambda>e. mbind (R (A2sb e)) (\<lambda>b. mbind (box_io b) (\<lambda>io.
     case io of Some t \<Rightarrow> mret (boxInt (pick t)) | None \<Rightarrow> mlift (Inl (FaustException ''can not evaluate''))))) "

definition realeval :: "ectx \<Rightarrow> recur \<Rightarrow> tree \<Rightarrow> tree \<Rightarrow> tree \<Rightarrow> tree em" where
  "realeval C R expr visited lenv = (case box_view expr of
      BvXtended _ \<Rightarrow> mret expr | BvInt _ \<Rightarrow> mret expr | BvReal _ \<Rightarrow> mret expr
    | BvWire \<Rightarrow> mret expr | BvCut \<Rightarrow> mret expr | BvPrim _ _ \<Rightarrow> mret expr
    | BvFFun _ \<Rightarrow> mret expr | BvFConst _ _ _ \<Rightarrow> mret expr | BvFVar _ _ _ \<Rightarrow> mret expr | BvWaveform \<Rightarrow> mret expr
    | BvSeq e1 e2 \<Rightarrow> eval2 boxSeq R e1 e2 visited lenv
    | BvPar e1 e2 \<Rightarrow> eval2 boxPar R e1 e2 visited lenv
    | BvRec e1 e2 \<Rightarrow> eval2 boxRec R e1 e2 visited lenv
    | BvSplit e1 e2 \<Rightarrow> eval2 boxSplit R e1 e2 visited lenv
    | BvMerge e1 e2 \<Rightarrow> eval2 boxMerge R e1 e2 visited lenv
    | BvAccess body var \<Rightarrow> eval_access C R expr body var visited lenv
    | BvModifLocalDef body ldef \<Rightarrow> eval_modif C R expr body ldef visited lenv
    | BvComponent label \<Rightarrow> eval_file C label (ident_box ''process'')
    | BvLibrary label \<Rightarrow> eval_file C label (mret boxEnvironment)
    | BvButton label \<Rightarrow> mbind (eval_label_tree C R label visited lenv) (\<lambda>l. mret (boxButton l))
    | BvCheckbox label \<Rightarrow> mbind (eval_label_tree C R label visited lenv) (\<lambda>l. mret (boxCheckbox l))
    | BvVSlider label ps \<Rightarrow> eval_slider boxVSlider C R label ps visited lenv
    | BvHSlider label ps \<Rightarrow> eval_slider boxHSlider C R label ps visited lenv
    | BvNumEntry label ps \<Rightarrow> eval_slider boxNumEntry C R label ps visited lenv
    | BvVGroup label arg \<Rightarrow> eval_group boxVGroup C R label arg visited lenv
    | BvHGroup label arg \<Rightarrow> eval_group boxHGroup C R label arg visited lenv
    | BvTGroup label arg \<Rightarrow> eval_group boxTGroup C R label arg visited lenv
    | BvHBargraph label lo hi \<Rightarrow> eval_widget (\<lambda>l xs. boxHBargraph l (xs ! 0) (xs ! 1)) C R label [lo, hi] visited lenv
    | BvVBargraph label lo hi \<Rightarrow> eval_widget (\<lambda>l xs. boxVBargraph l (xs ! 0) (xs ! 1)) C R label [lo, hi] visited lenv
    | BvIdent \<Rightarrow> evalIdDef C R expr visited lenv
    | BvWithLocalDef body ldef \<Rightarrow> mbind (pushMultiClosureDefs (host_of C) ldef visited lenv) (\<lambda>env. R (Eval body visited env))
    | BvAppl f arg \<Rightarrow> mbind (R (Eval f visited lenv)) (\<lambda>v. mbind (revEvalList R arg visited lenv nil) (\<lambda>larg. R (Apply v larg)))
    | BvAbstr _ _ \<Rightarrow> mret (closure expr nil visited lenv)
    | BvEnvironment \<Rightarrow> mret (closure expr nil visited lenv)
    | BvClosure exp2 _ visited2 lenv2 \<Rightarrow> eval_closure C R exp2 visited2 lenv2 visited
    | BvIPar var num body \<Rightarrow> mbind (eval2int C R num visited lenv) (\<lambda>n. iteratePar C R var n body visited lenv)
    | BvISeq var num body \<Rightarrow> mbind (eval2int C R num visited lenv) (\<lambda>n. iterateSeq C R var n body visited lenv)
    | BvISum var num body \<Rightarrow> mbind (eval2int C R num visited lenv) (\<lambda>n. iterateSum C R var n body visited lenv)
    | BvIProd var num body \<Rightarrow> mbind (eval2int C R num visited lenv) (\<lambda>n. iterateProd C R var n body visited lenv)
    | BvInputs body \<Rightarrow> eval_io C R fst body visited lenv
    | BvOutputs body \<Rightarrow> eval_io C R snd body visited lenv
    | BvSlot _ \<Rightarrow> mret expr
    | BvSymbolic _ _ \<Rightarrow> mret expr
    | BvCaseInternal rules \<Rightarrow> evalCase C R rules lenv
    | BvPatternVar _ \<Rightarrow> mret expr
    | _ \<Rightarrow> if node expr = bsym BOXABSTR then mret (closure expr nil visited lenv)
        else if isTree5 expr (bsym BOXPATMATCHER) \<noteq> None then mret expr
        else mlift (Inl (FaustException ''EVAL does not intercept'')))"

definition report :: "tree \<Rightarrow> unit em" where
  "report t = mtry (\<lambda>st. rbind (detect t (gLoopDetector st)) (\<lambda>d. Inr (st\<lparr>gLoopDetector := d\<rparr>)))"

definition eval :: "ectx \<Rightarrow> recur \<Rightarrow> tree \<Rightarrow> tree \<Rightarrow> tree \<Rightarrow> tree em" where
  "eval C R expr visited lenv = mbind (mget ev_evals) (\<lambda>m. case m (expr, lenv) of
      Some result \<Rightarrow> mret result
    | None \<Rightarrow> mbind (report (cons expr lenv)) (\<lambda>_. mbind (realeval C R expr visited lenv) (\<lambda>result.
        mbind (mmod (\<lambda>st. st\<lparr>ev_evals := (ev_evals st)((expr, lenv) \<mapsto> result)\<rparr>)) (\<lambda>_.
          mbind (carry_name C expr result) (\<lambda>_. mret result)))))"

definition answer :: "ectx \<Rightarrow> recur \<Rightarrow> call \<Rightarrow> tree em" where
  "answer C R c = (case c of Eval expr visited lenv \<Rightarrow> eval C R expr visited lenv | A2sb expr \<Rightarrow> a2sb C R expr
     | Apply f larg \<Rightarrow> applyList C R f larg)"

fun run :: "ectx \<Rightarrow> nat \<Rightarrow> recur" where
  "run C 0 c = mlift (Inl (Undefined ''nesting''))"
| "run C (Suc n) c = answer C (run C n) c"

section \<open>Simplification of diagrams\<close>

function boxSimplification :: "ectx \<Rightarrow> tree \<Rightarrow> tree em"
and numericBoxSimplification :: "ectx \<Rightarrow> tree \<Rightarrow> tree em"
and insideBoxSimplification :: "ectx \<Rightarrow> tree \<Rightarrow> tree em" where
  "boxSimplification C box = mbind (mget ev_simplified) (\<lambda>m. case m box of
      Some simplified \<Rightarrow> mret simplified
    | None \<Rightarrow> mbind (numericBoxSimplification C box) (\<lambda>simplified. mbind (carry_name C box simplified) (\<lambda>_.
        mbind (mmod (\<lambda>st. st\<lparr>ev_simplified := (ev_simplified st)(box \<mapsto> simplified)\<rparr>)) (\<lambda>_. mret simplified))))"
| "numericBoxSimplification C box = mbind (box_io box) (\<lambda>io. case io of
      None \<Rightarrow> mlift (Inl (FaustException ''can not compute the box type''))
    | Some (ins, outs) \<Rightarrow> if ins = 0 \<and> outs = 1
        then (if isBoxInt box \<or> isBoxReal box then mret box
          else mbind (box_number C 0 box) (\<lambda>s. case sig_number s of Some r \<Rightarrow> mret r | None \<Rightarrow> insideBoxSimplification C box))
        else insideBoxSimplification C box)"
| "insideBoxSimplification C box = (case box_view box of
      BvXtended _ \<Rightarrow> mret box | BvInt _ \<Rightarrow> mret box | BvReal _ \<Rightarrow> mret box
    | BvFConst _ _ _ \<Rightarrow> mret box | BvFVar _ _ _ \<Rightarrow> mret box | BvCut \<Rightarrow> mret box | BvWire \<Rightarrow> mret box
    | BvPrim _ w \<Rightarrow> (case node w of NPtr _ \<Rightarrow> mret box | _ \<Rightarrow> mlift (Inl (FaustException ''unrecognised box expression'')))
    | BvFFun _ \<Rightarrow> mret box
    | BvButton _ \<Rightarrow> mret box | BvCheckbox _ \<Rightarrow> mret box | BvVSlider _ _ \<Rightarrow> mret box | BvHSlider _ _ \<Rightarrow> mret box
    | BvNumEntry _ _ \<Rightarrow> mret box | BvVBargraph _ _ _ \<Rightarrow> mret box | BvHBargraph _ _ _ \<Rightarrow> mret box
    | BvVGroup l t1 \<Rightarrow> mbind (boxSimplification C t1) (\<lambda>s1. mret (boxVGroup l s1))
    | BvHGroup l t1 \<Rightarrow> mbind (boxSimplification C t1) (\<lambda>s1. mret (boxHGroup l s1))
    | BvTGroup l t1 \<Rightarrow> mbind (boxSimplification C t1) (\<lambda>s1. mret (boxTGroup l s1))
    | BvSlot _ \<Rightarrow> mret box
    | BvSymbolic slot body \<Rightarrow> mbind (boxSimplification C body) (\<lambda>b. mret (boxSymbolic slot b))
    | BvSeq t1 t2 \<Rightarrow> mbind (boxSimplification C t1) (\<lambda>s1. mbind (boxSimplification C t2) (\<lambda>s2. mret (boxSeq s1 s2)))
    | BvPar t1 t2 \<Rightarrow> mbind (boxSimplification C t1) (\<lambda>s1. mbind (boxSimplification C t2) (\<lambda>s2. mret (boxPar s1 s2)))
    | BvSplit t1 t2 \<Rightarrow> mbind (boxSimplification C t1) (\<lambda>s1. mbind (boxSimplification C t2) (\<lambda>s2. mret (boxSplit s1 s2)))
    | BvMerge t1 t2 \<Rightarrow> mbind (boxSimplification C t1) (\<lambda>s1. mbind (boxSimplification C t2) (\<lambda>s2. mret (boxMerge s1 s2)))
    | BvRec t1 t2 \<Rightarrow> mbind (boxSimplification C t1) (\<lambda>s1. mbind (boxSimplification C t2) (\<lambda>s2. mret (boxRec s1 s2)))
    | _ \<Rightarrow> mlift (Inl (FaustException ''unrecognised box expression'')))"
  by pat_completeness auto
termination
  by (relation "measure (\<lambda>c. case c of Inl (C, t) \<Rightarrow> 3 * size t + 2 | Inr (Inl (C, t)) \<Rightarrow> 3 * size t + 1 | Inr (Inr (C, t)) \<Rightarrow> 3 * size t)")
    (auto dest: box_view_less)

declare boxSimplification.simps [simp del] numericBoxSimplification.simps [simp del] insideBoxSimplification.simps [simp del]

section \<open>The entry points\<close>

definition evalprocess :: "ectx \<Rightarrow> nat \<Rightarrow> tree \<Rightarrow> tree em" where
  "evalprocess C n eqlist = mbind (ident_box ''process'') (\<lambda>p. mbind (pushMultiClosureDefs (host_of C) eqlist nil nil) (\<lambda>env.
     mbind (run C n (Eval p nil env)) (\<lambda>e. mbind (run C n (A2sb e)) (\<lambda>b.
       if gSimplifyDiagrams C then boxSimplification C b else mret b))))"

definition evaldocexpr :: "ectx \<Rightarrow> nat \<Rightarrow> tree \<Rightarrow> tree \<Rightarrow> tree em" where
  "evaldocexpr C n docexpr eqlist = mbind (pushMultiClosureDefs (host_of C) eqlist nil nil) (\<lambda>env.
     mbind (run C n (Eval docexpr nil env)) (\<lambda>e. run C n (A2sb e)))"

end
