(* ===== verification/EvalTriples.thy ===== *)
theory EvalTriples
  imports Evaluator
begin

text \<open>
  Two ways to reason about the evaluator, one rule for each way of composing computations:
  \<open>yields I m Q\<close>, from states in \<open>I\<close> a computation that returns ends in \<open>I\<close> with an answer in \<open>Q\<close>; and
  \<open>refines m m'\<close>, every answer of \<open>m\<close> is one of \<open>m'\<close>.  The second gives that more nesting never changes
  an answer.
\<close>

named_theorems yields_rules \<open>rules for yields\<close>
named_theorems refines_rules \<open>rules for refines\<close>

section \<open>Invariants\<close>

definition yields :: "('s \<Rightarrow> bool) \<Rightarrow> ('s, 'a) mm \<Rightarrow> ('a \<Rightarrow> bool) \<Rightarrow> bool" where
  "yields I m Q \<longleftrightarrow> (\<forall>st a st1. I st \<longrightarrow> m st = Inr (a, st1) \<longrightarrow> I st1 \<and> Q a)"

lemma yieldsI: "(\<And>st a st1. I st \<Longrightarrow> m st = Inr (a, st1) \<Longrightarrow> I st1 \<and> Q a) \<Longrightarrow> yields I m Q"
  by (simp add: yields_def)

lemma yieldsD: "yields I m Q \<Longrightarrow> I st \<Longrightarrow> m st = Inr (a, st1) \<Longrightarrow> I st1 \<and> Q a"
  by (simp add: yields_def)

lemma yields_post: "yields I m P \<Longrightarrow> (\<And>a. P a \<Longrightarrow> Q a) \<Longrightarrow> yields I m Q"
  by (auto simp: yields_def)

lemma yields_ret [yields_rules]: "Q a \<Longrightarrow> yields I (mret a) Q"
  by (simp add: yields_def)

lemma yields_bind [yields_rules]: "yields I m (\<lambda>a. yields I (f a) Q) \<Longrightarrow> yields I (mbind m f) Q"
proof (rule yieldsI)
  fix st b st2 assume m: "yields I m (\<lambda>a. yields I (f a) Q)" "I st" "mbind m f st = Inr (b, st2)"
  then obtain a st1 where "m st = Inr (a, st1)" "f a st1 = Inr (b, st2)" by (auto simp: mbind_apply rbind_eq_Inr)
  with m(1,2) show "I st2 \<and> Q b" by (meson yieldsD)
qed

lemma yields_lift [yields_rules]: "(\<And>a. r = Inr a \<Longrightarrow> Q a) \<Longrightarrow> yields I (mlift r) Q"
  by (auto simp: yields_def mlift_def rbind_eq_Inr)

lemma yields_get [yields_rules]: "(\<And>st. I st \<Longrightarrow> Q (f st)) \<Longrightarrow> yields I (mget f) Q"
  by (simp add: yields_def mget_def)

lemma yields_mod [yields_rules]: "(\<And>st. I st \<Longrightarrow> I (f st)) \<Longrightarrow> Q () \<Longrightarrow> yields I (mmod f) Q"
  by (simp add: yields_def mmod_def)

lemma yields_try [yields_rules]: "(\<And>st st1. I st \<Longrightarrow> f st = Inr st1 \<Longrightarrow> I st1) \<Longrightarrow> Q () \<Longrightarrow> yields I (mtry f) Q"
  by (auto simp: yields_def mtry_def rbind_eq_Inr)

lemma yields_ask [yields_rules]: "(\<And>st a. I st \<Longrightarrow> f st = Inr a \<Longrightarrow> Q a) \<Longrightarrow> yields I (mask f) Q"
  by (auto simp: yields_def mask_def rbind_eq_Inr)

lemma yields_if [yields_rules]: "(b \<Longrightarrow> yields I m Q) \<Longrightarrow> (\<not> b \<Longrightarrow> yields I m' Q) \<Longrightarrow> yields I (if b then m else m') Q"
  by simp

lemma yields_option [yields_rules]:
  "(x = None \<Longrightarrow> yields I m Q) \<Longrightarrow> (\<And>a. x = Some a \<Longrightarrow> yields I (f a) Q) \<Longrightarrow> yields I (case x of None \<Rightarrow> m | Some a \<Rightarrow> f a) Q"
  by (cases x) auto

lemma yields_prod [yields_rules]: "(\<And>a b. x = (a, b) \<Longrightarrow> yields I (f a b) Q) \<Longrightarrow> yields I (case x of (a, b) \<Rightarrow> f a b) Q"
  by (cases x) auto

lemma yields_map:
  assumes "\<And>x Q. x \<in> set xs \<Longrightarrow> (\<And>y. P x y \<Longrightarrow> Q y) \<Longrightarrow> yields I (f x) Q" "\<And>ys. list_all2 P xs ys \<Longrightarrow> Q ys"
  shows "yields I (mmap f xs) Q"
  using assms
proof (induction xs arbitrary: Q)
  case (Cons x xs)
  have "yields I (f x) (\<lambda>y. yields I (mmap f xs) (\<lambda>ys. Q (y # ys)))"
    by (rule Cons.prems(1)) (auto intro!: Cons.IH Cons.prems)
  then show ?case by (auto intro!: yields_bind yields_ret elim!: yields_post)
qed (simp add: yields_ret)

section \<open>More nesting\<close>

definition refines :: "('s, 'a) mm \<Rightarrow> ('s, 'a) mm \<Rightarrow> bool" where
  "refines m m' \<longleftrightarrow> (\<forall>st a st1. m st = Inr (a, st1) \<longrightarrow> m' st = Inr (a, st1))"

lemma refinesD: "refines m m' \<Longrightarrow> m st = Inr r \<Longrightarrow> m' st = Inr r"
  by (cases r) (simp add: refines_def)

lemma refines_refl [refines_rules]: "refines m m"
  by (simp add: refines_def)

lemma refines_bind [refines_rules]: "refines m m' \<Longrightarrow> (\<And>a. refines (f a) (f' a)) \<Longrightarrow> refines (mbind m f) (mbind m' f')"
  by (fastforce simp: refines_def mbind_apply rbind_eq_Inr)

lemma refines_if [refines_rules]: "refines m n \<Longrightarrow> refines m' n' \<Longrightarrow> refines (if b then m else m') (if b then n else n')"
  by simp

lemma refines_option [refines_rules]:
  "refines m n \<Longrightarrow> (\<And>a. refines (f a) (g a)) \<Longrightarrow> refines (case x of None \<Rightarrow> m | Some a \<Rightarrow> f a) (case x of None \<Rightarrow> n | Some a \<Rightarrow> g a)"
  by (cases x) auto

lemma refines_prod [refines_rules]:
  "(\<And>a b. refines (f a b) (g a b)) \<Longrightarrow> refines (case x of (a, b) \<Rightarrow> f a b) (case x of (a, b) \<Rightarrow> g a b)"
  by (cases x) auto

lemma refines_let [refines_rules]: "(\<And>a. refines (f a) (g a)) \<Longrightarrow> refines (let a = x in f a) (let a = x in g a)"
  by simp

lemma refines_map [refines_rules]: "(\<And>x. refines (f x) (f' x)) \<Longrightarrow> refines (mmap f xs) (mmap f' xs)"
  by (induction xs) (auto intro!: refines_bind refines_refl)

definition calls_refine :: "recur \<Rightarrow> recur \<Rightarrow> bool" where
  "calls_refine R R' \<longleftrightarrow> (\<forall>c. refines (R c) (R' c))"

lemma calls_refineD: "calls_refine R R' \<Longrightarrow> refines (R c) (R' c)"
  by (simp add: calls_refine_def)

lemma real_a2sb_refines [refines_rules]:
  assumes R: "calls_refine R R'"
  shows "refines (real_a2sb C R expr) (real_a2sb C R' expr)"
  unfolding real_a2sb_def named_def symbolic_closure_def symbolic_matcher_def by (intro refines_rules calls_refineD [OF R] R)

lemma a2sb_refines [refines_rules]:
  assumes R: "calls_refine R R'"
  shows "refines (a2sb C R expr) (a2sb C R' expr)"
  unfolding a2sb_def by (intro refines_rules calls_refineD [OF R] R)

lemma eval2num_refines [refines_rules]:
  assumes R: "calls_refine R R'"
  shows "refines (eval2double C R expr visited lenv) (eval2double C R' expr visited lenv)"
    "refines (eval2int C R expr visited lenv) (eval2int C R' expr visited lenv)"
  unfolding eval2double_def eval2int_def const_number_def by (intro refines_rules calls_refineD [OF R])+

lemma isBoxNumeric_refines [refines_rules]:
  assumes R: "calls_refine R R'"
  shows "refines (isBoxNumeric C R t) (isBoxNumeric C R' t)"
  unfolding isBoxNumeric_def by (intro refines_rules calls_refineD [OF R] R)

lemma simplifyPattern_refines [refines_rules]:
  assumes R: "calls_refine R R'"
  shows "refines (simplifyPattern C R t) (simplifyPattern C R' t)"
  unfolding simplifyPattern_def by (intro refines_rules calls_refineD [OF R] R)

lemma patternSimplification_refines [refines_rules]:
  assumes R: "calls_refine R R'"
  shows "refines (patternSimplification C R t) (patternSimplification C R' t)"
proof (induction t rule: measure_induct_rule [where f = size])
  case (less t)
  have parts: "refines (patternSimplification C R a) (patternSimplification C R' a)"
    "refines (patternSimplification C R b) (patternSimplification C R' b)" if "bda_op t = Some (n, a, b)" for n a b
    using less isBoxPatternOp_size [OF bda_op_Some [OF that]] by auto
  show ?case
  proof (cases "bda_op t")
    case None
    then show ?thesis unfolding patternSimplification.simps [of C R t] patternSimplification.simps [of C R' t]
      by (simp only: option.case) (intro refines_rules calls_refineD [OF R] R)
  next
    case (Some c)
    obtain n a b where c: "c = (n, a, b)" by (cases c)
    show ?thesis unfolding patternSimplification.simps [of C R t] patternSimplification.simps [of C R' t] Some c
      by (simp only: option.case prod.case) (intro refines_rules calls_refineD [OF R] R parts [OF Some [unfolded c]])
  qed
qed

lemma label_refines:
  "(\<And>f i. refines (W f i) (W' f i)) \<Longrightarrow> refines (label0 W cs d) (label0 W' cs d)"
  "(\<And>f i. refines (W f i) (W' f i)) \<Longrightarrow> refines (label1 W cs d f) (label1 W' cs d f)"
  "(\<And>f i. refines (W f i) (W' f i)) \<Longrightarrow> refines (label2 W cs d f i) (label2 W' cs d f i)"
proof (induction W cs d and W cs d f and W cs d f i rule: label0_label1_label2.induct)
  case (4 W c cs dst fmt)
  then show ?case by (simp del: label0.simps)
next
  case (6 W c cs dst fmt ident)
  then show ?case by (simp del: label0.simps add: refines_bind)
qed (simp_all add: refines_bind refines_refl)

lemma evalLabel_refines [refines_rules]:
  assumes R: "calls_refine R R'"
  shows "refines (evalLabel C R src visited lenv) (evalLabel C R' src visited lenv)"
  unfolding evalLabel_def writeIdentValue_def by (intro label_refines refines_rules R)

lemma iteration_refines [refines_rules]:
  assumes R: "calls_refine R R'"
  shows "refines (iteration C R ident body visited lenv i) (iteration C R' ident body visited lenv i)"
  unfolding iteration_def by (intro refines_rules calls_refineD [OF R] R)

lemma iterate_refines [refines_rules]:
  assumes "\<And>i. refines (b i) (b' i)"
  shows "refines (iterate_down b op k res) (iterate_down b' op k res)" "refines (iterate_up b op is res) (iterate_up b' op is res)"
proof -
  show "refines (iterate_down b op k res) (iterate_down b' op k res)"
    by (induction k arbitrary: res) (auto intro!: refines_rules assms)
  show "refines (iterate_up b op is res) (iterate_up b' op is res)"
    by (induction "is" arbitrary: res) (auto intro!: refines_rules assms)
qed

lemma iterates_refine [refines_rules]:
  assumes "calls_refine R R'"
  shows "refines (iteratePar C R ident n body visited lenv) (iteratePar C R' ident n body visited lenv)"
    "refines (iterateSeq C R ident n body visited lenv) (iterateSeq C R' ident n body visited lenv)"
    "refines (iterateSum C R ident n body visited lenv) (iterateSum C R' ident n body visited lenv)"
    "refines (iterateProd C R ident n body visited lenv) (iterateProd C R' ident n body visited lenv)"
  unfolding iteratePar_def iterateSeq_def iterateSum_def iterateProd_def iterate_right_def iterate_left_def
  by (intro refines_rules assms)+

lemma refines_lift:
  "(\<And>a. r = Inr a \<Longrightarrow> refines (f a) (g a)) \<Longrightarrow> refines (mbind (mlift r) f) (mbind (mlift r) g)"
  by (cases r) (simp_all add: refines_def mbind_apply)

lemma boxlistOutputs_refines [refines_rules]:
  assumes R: "calls_refine R R'"
  shows "refines (boxlistOutputs R l n) (boxlistOutputs R' l n)"
proof (induction l arbitrary: n rule: measure_induct_rule [where f = size])
  case (less l)
  show ?case unfolding boxlistOutputs.simps [of R l] boxlistOutputs.simps [of R' l]
    by (intro refines_lift refines_rules calls_refineD [OF R] R less tlT_size; assumption)
qed

lemma revEvalList_refines [refines_rules]:
  assumes R: "calls_refine R R'"
  shows "refines (revEvalList R l visited lenv res) (revEvalList R' l visited lenv res)"
proof (induction l arbitrary: res rule: measure_induct_rule [where f = size])
  case (less l)
  show ?case unfolding revEvalList.simps [of R l] revEvalList.simps [of R' l]
    by (intro refines_lift refines_rules calls_refineD [OF R] R less tlT_size; assumption)
qed

lemma evalPatternList_refines [refines_rules]:
  assumes R: "calls_refine R R'"
  shows "refines (evalPatternList C R l env) (evalPatternList C R' l env)"
proof (induction l rule: measure_induct_rule [where f = size])
  case (less l)
  show ?case unfolding evalPatternList.simps [of C R l] evalPatternList.simps [of C R' l] evalPattern_def
    by (intro refines_lift refines_rules calls_refineD [OF R] R less tlT_size; assumption)
qed

lemma evalRuleList_refines [refines_rules]:
  assumes R: "calls_refine R R'"
  shows "refines (evalRuleList C R l env) (evalRuleList C R' l env)"
proof (induction l rule: measure_induct_rule [where f = size])
  case (less l)
  show ?case unfolding evalRuleList.simps [of C R l] evalRuleList.simps [of C R' l] evalRule_def
    by (intro refines_lift refines_rules calls_refineD [OF R] R less tlT_size; assumption)
qed

section \<open>Matching with more nesting\<close>

text \<open>The matcher is written without \<open>mbind\<close>; one answer is followed through it.\<close>

lemma rbind_more:
  "rbind m f = Inr r \<Longrightarrow> (\<And>a. m = Inr a \<Longrightarrow> m' = Inr a) \<Longrightarrow> (\<And>a. f a = Inr r \<Longrightarrow> f' a = Inr r) \<Longrightarrow> rbind m' f' = Inr r"
  by (auto simp: rbind_eq_Inr)

lemma internal_more:
  assumes "\<And>X. refines (sp X) (sp' X)"
  shows "apply_pattern_matcher_internal d sp A s X sb st = Inr r \<Longrightarrow> apply_pattern_matcher_internal d sp' A s X sb st = Inr r"
proof (induction d arbitrary: s X sb st r)
  case (Suc d)
  have sp: "(if m then sp X st else Inr (X, st)) = Inr (X1, st1) \<Longrightarrow> (if m then sp' X st else Inr (X, st)) = Inr (X1, st1)" for m X1 st1
    using assms [of X] by (auto dest: refinesD)
  show ?case
  proof (cases "s < 0")
    case False
    from Suc.prems False obtain q X1 st1 where q: "state_at A s = Inr q"
      "(if st_match_num q then sp X st else Inr (X, st)) = Inr (X1, st1)" by (auto simp: rbind_eq_Inr)
    note q' = q(1) sp [OF q(2)]
    show ?thesis
    proof (cases "find (\<lambda>(l, t). fires X1 l) (st_trans q)")
      case None
      with Suc.prems False q q' show ?thesis by simp
    next
      case (Some c)
      obtain l t where c: "c = (l, t)" by (cases c)
      from Suc.prems False q Some c obtain sb1 where sb1: "add_subst sb A s = Inr sb1" by (auto simp: rbind_eq_Inr)
      show ?thesis
      proof (cases "\<exists>op o1 x0 x1. l = OpT op \<and> isBoxPatternOp X1 = Some (o1, x0, x1)")
        case True
        then obtain op o1 x0 x1 where o: "l = OpT op" "isBoxPatternOp X1 = Some (o1, x0, x1)" by blast
        from Suc.prems False q Some c sb1 o obtain s1 sb2 st2 where
          a: "apply_pattern_matcher_internal d sp A (st_s t) x0 sb1 st1 = Inr ((s1, sb2), st2)"
             "apply_pattern_matcher_internal d sp A s1 x1 sb2 st2 = Inr r" by (auto simp: rbind_eq_Inr)
        with q' False Some c sb1 o Suc.IH [OF a(1)] Suc.IH [OF a(2)] show ?thesis by simp
      next
        case no: False
        with Suc.prems q q' False Some c sb1 show ?thesis by (auto split: label.splits option.splits)
      qed
    qed
  qed (use Suc.prems in simp)
qed simp

lemma apply_pattern_matcher_refines [refines_rules]:
  assumes "\<And>X. refines (sp X) (sp' X)"
  shows "refines (apply_pattern_matcher h sp A s X E) (apply_pattern_matcher h sp' A s X E)"
  unfolding refines_def apply_pattern_matcher_def
proof (intro allI impI, erule rbind_more)
  fix st a
  assume "apply_pattern_matcher_internal (length (a_state A)) sp A s X (replicate (n_rules A) []) st = Inr a"
  then show "apply_pattern_matcher_internal (length (a_state A)) sp' A s X (replicate (n_rules A) []) st = Inr a"
    by (rule internal_more [OF assms])
qed

lemma match_lhs_more:
  assumes "\<And>X. refines (sp X) (sp' X)"
  shows "match_lhs h sp A s Xs E st = Inr r \<Longrightarrow> match_lhs h sp' A s Xs E st = Inr r"
proof (induction Xs arbitrary: s E st)
  case (Cons X Xs)
  from Cons.prems show ?case unfolding match_lhs.simps
    by (rule rbind_more) (auto intro: refinesD [OF apply_pattern_matcher_refines [OF assms]] Cons.IH split: if_splits)
qed simp

lemma check_shadowed_more:
  assumes "\<And>X. refines (sp X) (sp' X)"
  shows "check_shadowed h sp A rules tests st = Inr r \<Longrightarrow> check_shadowed h sp' A rules tests st = Inr r"
proof (induction tests arbitrary: st)
  case (Cons e tests)
  obtain n pats where e: "e = (n, pats)" by (cases e)
  have step: "rbind (final A s) (\<lambda>fin. rbind (m fin) (\<lambda>st2. check_shadowed h sp' A rules tests st2)) = Inr r"
    if "rbind (final A s) (\<lambda>fin. rbind (m fin) (\<lambda>st2. check_shadowed h sp A rules tests st2)) = Inr r" for s m
    using that by (rule rbind_more) (auto elim: rbind_more intro: Cons.IH)
  from Cons.prems show ?case unfolding e check_shadowed.simps
    by (rule rbind_more [OF _ match_lhs_more [OF assms]]) (auto intro: step)
qed simp

lemma make_pattern_matcher_refines [refines_rules]:
  assumes "\<And>X. refines (sp X) (sp' X)"
  shows "refines (make_pattern_matcher h oa sp rs) (make_pattern_matcher h oa sp' rs)"
  unfolding refines_def make_pattern_matcher_def
  by (auto simp: Let_def rbind_eq_Inr case_prod_beta' dest!: check_shadowed_more [OF assms])

section \<open>The evaluator with more nesting\<close>

lemma applyList_refines [refines_rules]:
  assumes R: "calls_refine R R'"
  shows "refines (applyList C R f larg) (applyList C R' f larg)"
  unfolding applyList_def apply_matcher_def apply_box_def apply_closure_def by (intro refines_rules calls_refineD [OF R] R)

lemma evalCase_refines [refines_rules]:
  assumes R: "calls_refine R R'"
  shows "refines (evalCase C R rules env) (evalCase C R' rules env)"
  unfolding evalCase_def by (intro refines_rules calls_refineD [OF R] R)

lemma realeval_refines [refines_rules]:
  assumes R: "calls_refine R R'"
  shows "refines (realeval C R expr visited lenv) (realeval C R' expr visited lenv)"
  unfolding realeval_def eval2_def eval_access_def eval_modif_def eval_slider_def eval_widget_def eval_group_def eval_label_tree_def
    evalIdDef_def eval_closure_def eval_io_def
  by (cases "box_view expr"; simp only: box_form.case; intro refines_rules calls_refineD [OF R] R)

lemma eval_refines [refines_rules]:
  assumes R: "calls_refine R R'"
  shows "refines (eval C R expr visited lenv) (eval C R' expr visited lenv)"
  unfolding eval_def by (intro refines_rules calls_refineD [OF R] R)

lemma answer_refines:
  assumes R: "calls_refine R R'"
  shows "refines (answer C R c) (answer C R' c)"
  unfolding answer_def by (cases c; simp only: call.case; intro refines_rules calls_refineD [OF R] R)

lemma run_Suc: "calls_refine (run C n) (run C (Suc n))"
proof (induction n)
  case 0
  then show ?case by (simp add: calls_refine_def refines_def)
next
  case (Suc n)
  show ?case unfolding calls_refine_def
  proof
    fix c show "refines (run C (Suc n) c) (run C (Suc (Suc n)) c)"
      unfolding run.simps(2) [of C n c] run.simps(2) [of C "Suc n" c] by (rule answer_refines [OF Suc])
  qed
qed

lemma run_mono: "m \<le> n \<Longrightarrow> run C m c st = Inr r \<Longrightarrow> run C n c st = Inr r"
  by (induction rule: dec_induct) (blast intro: refinesD [OF calls_refineD [OF run_Suc]])+

end
