(* ===== verification/EvalState.thy ===== *)
theory EvalState
  imports EvalTriples
begin

text \<open>
  Trees without symbolic boxes (\<open>nosym\<close>) and the operations on environments that keep the stored
  definitions free of them (\<open>quiet\<close>).  A program read from a file has no symbolic box: the evaluator makes
  them, and returns those it meets as they are.
\<close>

section \<open>Trees without symbolic boxes\<close>

fun nosym :: "tree \<Rightarrow> bool" where
  "nosym (Tree n br) \<longleftrightarrow> n \<noteq> bsym BOXSYMBOLIC \<and> (\<forall>b \<in> set br. nosym b)"

lemma nosym_branch: "nosym t \<Longrightarrow> b \<in> set (branches t) \<Longrightarrow> nosym b"
  by (cases t) auto

lemma nosym_branchT: "nosym t \<Longrightarrow> branch t i = Inr b \<Longrightarrow> nosym b"
  by (auto simp: branch_def arity_def split: if_splits intro: nosym_branch)

lemma nosym_hd: "nosym t \<Longrightarrow> hdT t = Inr b \<Longrightarrow> nosym b" and nosym_tl: "nosym t \<Longrightarrow> tlT t = Inr b \<Longrightarrow> nosym b"
  by (auto simp: hdT_def tlT_def intro: nosym_branchT)

lemma nosym_box [simp]:
  "nosym (boxSeq a b) \<longleftrightarrow> nosym a \<and> nosym b" "nosym (boxPar a b) \<longleftrightarrow> nosym a \<and> nosym b" "nosym (boxRec a b) \<longleftrightarrow> nosym a \<and> nosym b"
  "nosym (boxSplit a b) \<longleftrightarrow> nosym a \<and> nosym b" "nosym (boxMerge a b) \<longleftrightarrow> nosym a \<and> nosym b"
  "nosym (boxVGroup a b) \<longleftrightarrow> nosym a \<and> nosym b" "nosym (boxHGroup a b) \<longleftrightarrow> nosym a \<and> nosym b" "nosym (boxTGroup a b) \<longleftrightarrow> nosym a \<and> nosym b"
  "nosym (closure a b c d) \<longleftrightarrow> nosym a \<and> nosym b \<and> nosym c \<and> nosym d"
  "nosym (boxHBargraph a b c) \<longleftrightarrow> nosym a \<and> nosym b \<and> nosym c" "nosym (boxVBargraph a b c) \<longleftrightarrow> nosym a \<and> nosym b \<and> nosym c"
  "nosym (boxButton a) \<longleftrightarrow> nosym a" "nosym (boxCheckbox a) \<longleftrightarrow> nosym a"
  "nosym (boxHSlider l a b c d) \<longleftrightarrow> nosym l \<and> nosym a \<and> nosym b \<and> nosym c \<and> nosym d"
  "nosym (boxVSlider l a b c d) \<longleftrightarrow> nosym l \<and> nosym a \<and> nosym b \<and> nosym c \<and> nosym d"
  "nosym (boxNumEntry l a b c d) \<longleftrightarrow> nosym l \<and> nosym a \<and> nosym b \<and> nosym c \<and> nosym d"
  "nosym boxEnvironment" "nosym boxError" "nosym boxWire" "nosym (boxSlot i)" "nosym (boxInt i)" "nosym (boxReal r)" "nosym (boxPrim2 p)"
  "nosym (leaf n) \<longleftrightarrow> n \<noteq> bsym BOXSYMBOLIC" "nosym nil" "nosym (cons a b) \<longleftrightarrow> nosym a \<and> nosym b"
  "nosym (boxPatternMatcher p i a b c) \<longleftrightarrow> nosym a \<and> nosym b \<and> nosym c" "nosym (pushEnvBarrier a) \<longleftrightarrow> nosym a" "nosym (layer w a) \<longleftrightarrow> nosym a"
  by (auto simp: box_constructor_defs boxPatternMatcher_def pushEnvBarrier_def nil_def cons_def leaf_def boxSlot_def boxInt_def boxReal_def
      list4_def list3_def list2_def list1_def)

fun form_parts :: "box_form \<Rightarrow> tree list" where
  "form_parts (BvSeq a b) = [a, b]" | "form_parts (BvPar a b) = [a, b]" | "form_parts (BvRec a b) = [a, b]"
| "form_parts (BvSplit a b) = [a, b]" | "form_parts (BvMerge a b) = [a, b]"
| "form_parts (BvIPar a b c) = [a, b, c]" | "form_parts (BvISeq a b c) = [a, b, c]" | "form_parts (BvISum a b c) = [a, b, c]"
| "form_parts (BvIProd a b c) = [a, b, c]" | "form_parts (BvInputs a) = [a]" | "form_parts (BvOutputs a) = [a]"
| "form_parts (BvAbstr a b) = [a, b]" | "form_parts (BvAppl a b) = [a, b]" | "form_parts (BvClosure a b c d) = [a, b, c, d]"
| "form_parts (BvAccess a b) = [a, b]" | "form_parts (BvWithLocalDef a b) = [a, b]" | "form_parts (BvModifLocalDef a b) = [a, b]"
| "form_parts (BvComponent a) = [a]" | "form_parts (BvLibrary a) = [a]" | "form_parts (BvButton a) = [a]" | "form_parts (BvCheckbox a) = [a]"
| "form_parts (BvHGroup a b) = [a, b]" | "form_parts (BvVGroup a b) = [a, b]" | "form_parts (BvTGroup a b) = [a, b]"
| "form_parts (BvHBargraph a b c) = [a, b, c]" | "form_parts (BvVBargraph a b c) = [a, b, c]"
| "form_parts (BvHSlider a b) = [a, b]" | "form_parts (BvVSlider a b) = [a, b]" | "form_parts (BvNumEntry a b) = [a, b]"
| "form_parts (BvCaseInternal a) = [a]" | "form_parts _ = []"

lemma form_parts_branches: "set (form_parts (box_view t)) \<subseteq> set (branches t)"
  using box_view_form [of t] by (cases "box_view t") (auto simp: has_form_def box_constructor_defs)

lemma nosym_parts: "nosym t \<Longrightarrow> box_view t = v \<Longrightarrow> b \<in> set (form_parts v) \<Longrightarrow> nosym b"
  using form_parts_branches nosym_branch by blast

lemma nosym_view: "nosym t \<Longrightarrow> box_view t \<noteq> BvSymbolic a b"
  by (auto dest!: box_viewD simp: has_form_def boxSymbolic_def)

lemma nosym_list: "asList l = Some (h, t) \<Longrightarrow> nosym l \<Longrightarrow> nosym h \<and> nosym t"
  by (simp add: asList_Some)

lemma nosym_addElement: "nosym e \<Longrightarrow> nosym l \<Longrightarrow> nosym (addElement ad e l)"
proof (induction ad e l rule: addElement.induct)
  case (1 ad e l)
  then show ?case by (subst addElement.simps) (auto split: option.splits simp: asList_Some)
qed

lemma nosym_setUnion: "nosym a \<Longrightarrow> nosym b \<Longrightarrow> setUnion ad a b = Inr c \<Longrightarrow> nosym c"
proof (induction ad a b arbitrary: c rule: setUnion.induct)
  case (1 ad A B)
  show ?case
  proof (cases "isNil A \<or> isNil B")
    case True
    with "1.prems" show ?thesis by (subst (asm) setUnion.simps) (auto split: if_splits)
  next
    case False
    with "1.prems"(3) obtain a b A' B' where h: "hdT A = Inr a" "hdT B = Inr b" "tlT A = Inr A'" "tlT B = Inr B'"
      by (subst (asm) setUnion.simps) (auto simp: rbind_eq_Inr)
    have n: "nosym a" "nosym b" "nosym A'" "nosym B'" using h "1.prems"(1,2) nosym_hd nosym_tl by blast+
    from "1.prems"(3) False h n show ?thesis
      by (subst (asm) setUnion.simps) (auto simp: rbind_eq_Inr split: if_splits dest: "1.IH" [OF _ _ h] simp: "1.prems")
  qed
qed

lemma nosym_nthT: "nosym l \<Longrightarrow> nosym (nthT l i)"
  by (induction l i rule: nthT.induct) (subst nthT.simps, auto split: option.splits simp: asList_Some)

lemma nosym_list_tree [simp]: "nosym (list_tree xs) \<longleftrightarrow> (\<forall>x \<in> set xs. nosym x)"
  by (induction xs) auto

lemma nosym_listn: "nosym e \<Longrightarrow> nosym (listn n e)"
  by (induction n e rule: listn.induct) (subst listn.simps, simp)

lemma nosym_list2vec: "nosym l \<Longrightarrow> list2vec l = Inr v \<Longrightarrow> \<forall>x \<in> set v. nosym x"
proof (induction l arbitrary: v rule: list2vec.induct)
  case (1 l)
  show ?case
  proof (cases "isNil l")
    case True
    with "1.prems" show ?thesis by (simp add: list2vec.simps [of l])
  next
    case False
    with "1.prems"(2) obtain h t w where d: "hdT l = Inr h" "tlT l = Inr t" "list2vec t = Inr w" "v = h # w"
      by (auto simp: list2vec.simps [of l] rbind_eq_Inr)
    have "nosym h" "nosym t" using nosym_hd [OF "1.prems"(1) d(1)] nosym_tl [OF "1.prems"(1) d(2)] by simp_all
    with "1.IH" [OF False d(1,2) _ d(3)] d(4) show ?thesis by simp
  qed
qed

lemma nosym_subtree: "nosym X \<Longrightarrow> nosym (subtree X p)"
  by (induction X p rule: subtree.induct) (auto split: option.splits simp: isBoxPatternOp_Some)

lemma nosym_cons_items: "nosym l \<Longrightarrow> x \<in> set (cons_items l) \<Longrightarrow> nosym x"
proof (induction l rule: cons_items.induct)
  case (1 l)
  then show ?case by (cases "asList l") (auto simp: asList_Some cons_items.simps [of l])
qed

section \<open>The environment part of the state\<close>

definition props_ok :: "'x envst_scheme \<Rightarrow> bool" where
  "props_ok st \<longleftrightarrow> (\<forall>t. \<forall>p \<in> set (ev_props st t). nosym (snd p))"

definition quiet :: "'x envst_scheme \<Rightarrow> 'x envst_scheme \<Rightarrow> bool" where
  "quiet st st1 \<longleftrightarrow> envst.more st1 = envst.more st \<and> (props_ok st \<longrightarrow> props_ok st1)"

lemma quiet_refl [simp]: "quiet st st"
  by (simp add: quiet_def)

lemma quiet_trans: "quiet st st1 \<Longrightarrow> quiet st1 st2 \<Longrightarrow> quiet st st2"
  by (simp add: quiet_def)

lemma quiet_fields [simp]: "quiet st (st\<lparr>ev_syms := x\<rparr>)" "quiet st (st\<lparr>gErrorMsg := y\<rparr>)"
  by (simp_all add: quiet_def props_ok_def)

lemma mp_update_values: "p \<in> set (mp_update ad (\<lambda>_. v) k xs) \<Longrightarrow> p \<in> set xs \<or> snd p = v"
  by (induction xs) (auto split: if_splits)

lemma quiet_set [simp]: "nosym v \<Longrightarrow> quiet st (setTreeProperty h t k v st)"
  by (auto simp: quiet_def props_ok_def setTreeProperty_def dest!: mp_update_values)

lemma props_okD: "props_ok st \<Longrightarrow> getTreeProperty t k st = Some v \<Longrightarrow> nosym v"
  by (force simp: props_ok_def getTreeProperty_def dest: map_of_SomeD)

lemma quiet_name: "name_tree s st = Inr (v, st1) \<Longrightarrow> quiet st st1 \<and> nosym v"
  by (auto simp: name_tree_def rbind_eq_Inr split: option.splits)

lemma quiet_defname: "setDefNameProperty h t s st = Inr st1 \<Longrightarrow> quiet st st1"
  unfolding setDefNameProperty_def rbind_eq_Inr by (auto dest!: quiet_name intro: quiet_trans)

lemma quiet_pushNewLayer: "pushNewLayer h lenv st = Inr (l, st1) \<Longrightarrow> nosym lenv \<Longrightarrow> quiet st st1 \<and> nosym l"
  by (auto simp: pushNewLayer_def rbind_eq_Inr)

lemma quiet_addLayerDef: "addLayerDef h i d l st = Inr st1 \<Longrightarrow> nosym d \<Longrightarrow> quiet st st1"
  by (auto simp: addLayerDef_def rbind_eq_Inr evalwarning_def split: option.splits if_splits intro: quiet_trans [OF quiet_fields(2) quiet_set])

lemma quiet_pushValueDef: "pushValueDef h i d lenv st = Inr (l, st1) \<Longrightarrow> nosym d \<Longrightarrow> nosym lenv \<Longrightarrow> quiet st st1 \<and> nosym l"
  unfolding pushValueDef_def by (auto simp: rbind_eq_Inr dest: quiet_pushNewLayer quiet_addLayerDef intro: quiet_trans)

lemma quiet_name_closure: "name_closure h i r c st = Inr st1 \<Longrightarrow> quiet st st1"
  by (auto simp: name_closure_def split: if_splits dest: quiet_defname)

lemma quiet_add_closures:
  "add_closures h ldefs v l st = Inr st1 \<Longrightarrow> nosym ldefs \<Longrightarrow> nosym v \<Longrightarrow> nosym l \<Longrightarrow> quiet st st1"
proof (induction h ldefs v l st arbitrary: st1 rule: add_closures.induct)
  case (1 h ldefs v l st)
  show ?case
  proof (cases "isNil ldefs")
    case True
    with "1.prems" show ?thesis by (subst (asm) add_closures.simps) simp
  next
    case False
    with "1.prems"(1) obtain def i rhs sa sb rest where d: "hdT ldefs = Inr def" "hdT def = Inr i" "tlT def = Inr rhs"
      "name_closure h i rhs (closure rhs nil v l) st = Inr sa" "addLayerDef h i (closure rhs nil v l) l sa = Inr sb"
      "tlT ldefs = Inr rest" "add_closures h rest v l sb = Inr st1"
      by (subst (asm) add_closures.simps) (auto simp: rbind_eq_Inr Let_def)
    have n: "nosym rhs" "nosym rest" using d "1.prems"(2) nosym_hd nosym_tl by blast+
    have "quiet sb st1" using "1.IH" [OF False d(1-3) refl d(4-7)] n "1.prems" by simp
    moreover have "quiet sa sb" using quiet_addLayerDef [OF d(5)] n "1.prems" by simp
    ultimately show ?thesis using quiet_name_closure [OF d(4)] by (blast intro: quiet_trans)
  qed
qed

lemma quiet_pushMulti:
  "pushMultiClosureDefs h ldefs v lenv st = Inr (l, st1) \<Longrightarrow> nosym ldefs \<Longrightarrow> nosym v \<Longrightarrow> nosym lenv \<Longrightarrow> quiet st st1 \<and> nosym l"
  unfolding pushMultiClosureDefs_def
  by (auto simp: rbind_eq_Inr dest: quiet_pushNewLayer) (metis quiet_add_closures quiet_pushNewLayer quiet_trans)

lemma quiet_replace_defs:
  "replace_defs h ldefs v cur cp st = Inr st1 \<Longrightarrow> nosym ldefs \<Longrightarrow> nosym v \<Longrightarrow> nosym cur \<Longrightarrow> quiet st st1"
proof (induction h ldefs v cur cp st arbitrary: st1 rule: replace_defs.induct)
  case (1 h ldefs v cur cp st)
  show ?case
  proof (cases "isNil ldefs")
    case True
    with "1.prems" show ?thesis by (subst (asm) replace_defs.simps) simp
  next
    case False
    with "1.prems"(1) obtain def i rhs sa rest where d: "hdT ldefs = Inr def" "hdT def = Inr i" "tlT def = Inr rhs"
      "name_closure h i rhs (closure rhs nil v cur) st = Inr sa" "tlT ldefs = Inr rest"
      "replace_defs h rest v cur cp (setTreeProperty h cp i (closure rhs nil v cur) sa) = Inr st1"
      by (subst (asm) replace_defs.simps) (auto simp: rbind_eq_Inr Let_def)
    have n: "nosym rhs" "nosym rest" using d "1.prems"(2) nosym_hd nosym_tl by blast+
    have "quiet (setTreeProperty h cp i (closure rhs nil v cur) sa) st1"
      using "1.IH" [OF False d(1-3) refl d(4-6)] n "1.prems" by simp
    moreover have "quiet sa (setTreeProperty h cp i (closure rhs nil v cur) sa)" using n "1.prems" by simp
    ultimately show ?thesis using quiet_name_closure [OF d(4)] by (blast intro: quiet_trans)
  qed
qed

lemma quiet_transfer:
  "\<forall>(i, c) \<in> set ds. nosym c \<Longrightarrow> quiet st (fold (\<lambda>(i, c). setTreeProperty h cp i c) ds st)"
  by (induction ds arbitrary: st) (auto intro: quiet_trans [OF quiet_set])

lemma quiet_copyEnv:
  assumes "copyEnvReplaceDefs h env ldefs v cur st = Inr (l, st1)" "nosym env" "nosym ldefs" "nosym v" "nosym cur" "props_ok st"
  shows "quiet st st1 \<and> nosym l"
proof -
  obtain below cp sa where p: "branch env 0 = Inr below" "pushNewLayer h below st = Inr (cp, sa)" "l = cp"
    "replace_defs h ldefs v cur cp (fold (\<lambda>(i, c). setTreeProperty h cp i c)
       (zip (map fst (ev_props st env)) (updateClosures (map snd (ev_props st env)) env cp)) sa) = Inr st1"
    using assms(1) by (auto simp: copyEnvReplaceDefs_def exportProperties_def rbind_eq_Inr Let_def)
  have l: "quiet st sa" "nosym cp" using quiet_pushNewLayer [OF p(2)] nosym_branchT [OF assms(2) p(1)] by auto
  have "nosym (updateClosure env cp c)" if "nosym c" for c
  proof (cases "isClosure c")
    case (Some x)
    then obtain e g w r where c: "isClosure c = Some (e, g, w, r)" by (cases x) auto
    then have "box_view c = BvClosure e g w r" by (simp add: recognisers_view)
    from nosym_parts [OF that this] that l(2) c show ?thesis by (simp add: updateClosure_def)
  qed (use that in \<open>simp add: updateClosure_def\<close>)
  moreover have "nosym c" if "(i, c) \<in> set (ev_props st env)" for i c
    using assms(6) that unfolding props_ok_def by fastforce
  ultimately have "quiet sa (fold (\<lambda>(i, c). setTreeProperty h cp i c)
       (zip (map fst (ev_props st env)) (updateClosures (map snd (ev_props st env)) env cp)) sa)"
    by (intro quiet_transfer) (auto simp: updateClosures_def dest!: set_zip_rightD)
  with l quiet_replace_defs [OF p(4) assms(3-5)] show ?thesis unfolding p(3) by (blast intro: quiet_trans)
qed

end
