(* ===== verification/Evaluation.thy ===== *)
theory Evaluation
  imports EvalState
begin

text \<open>
  What the evaluator returns.  \<open>is_value\<close> describes the answers of \<^verbatim>\<open>eval\<close>: block diagrams in which
  abstractions and environments occur as closures and case expressions as matchers.  \<open>nf\<close> describes
  the answers of \<^verbatim>\<open>a2sb\<close> on values: diagrams in which all of these have become symbolic boxes, so
  that every box is one that \<^verbatim>\<open>getBoxType\<close> knows.  \<open>ev_ok\<close> is the invariant of the state: every stored
  answer is of its kind, and nothing that may be evaluated later has a symbolic box.
\<close>

section \<open>Values and normal forms\<close>

definition is_matcher :: "tree \<Rightarrow> bool" where
  "is_matcher t \<longleftrightarrow> isTree5 t (bsym BOXPATMATCHER) \<noteq> None"

fun is_value :: "tree \<Rightarrow> bool" where
  "is_value t = (case box_view t of
      BvXtended _ \<Rightarrow> True | BvInt _ \<Rightarrow> True | BvReal _ \<Rightarrow> True | BvWire \<Rightarrow> True | BvCut \<Rightarrow> True | BvPrim _ _ \<Rightarrow> True
    | BvFFun _ \<Rightarrow> True | BvFConst _ _ _ \<Rightarrow> True | BvFVar _ _ _ \<Rightarrow> True | BvWaveform \<Rightarrow> True | BvSlot _ \<Rightarrow> True
    | BvButton _ \<Rightarrow> True | BvCheckbox _ \<Rightarrow> True | BvVSlider _ _ \<Rightarrow> True | BvHSlider _ _ \<Rightarrow> True | BvNumEntry _ _ \<Rightarrow> True
    | BvHBargraph _ _ _ \<Rightarrow> True | BvVBargraph _ _ _ \<Rightarrow> True | BvPatternVar _ \<Rightarrow> True | BvClosure _ _ _ _ \<Rightarrow> True
    | BvSeq a b \<Rightarrow> is_value a \<and> is_value b | BvPar a b \<Rightarrow> is_value a \<and> is_value b | BvRec a b \<Rightarrow> is_value a \<and> is_value b
    | BvSplit a b \<Rightarrow> is_value a \<and> is_value b | BvMerge a b \<Rightarrow> is_value a \<and> is_value b
    | BvVGroup l a \<Rightarrow> is_value a | BvHGroup l a \<Rightarrow> is_value a | BvTGroup l a \<Rightarrow> is_value a
    | _ \<Rightarrow> is_matcher t)"

fun nf :: "tree \<Rightarrow> bool" where
  "nf t = (case box_view t of
      BvXtended _ \<Rightarrow> True | BvInt _ \<Rightarrow> True | BvReal _ \<Rightarrow> True | BvWire \<Rightarrow> True | BvCut \<Rightarrow> True | BvPrim _ _ \<Rightarrow> True
    | BvFFun _ \<Rightarrow> True | BvFConst _ _ _ \<Rightarrow> True | BvFVar _ _ _ \<Rightarrow> True | BvWaveform \<Rightarrow> True | BvSlot _ \<Rightarrow> True
    | BvButton _ \<Rightarrow> True | BvCheckbox _ \<Rightarrow> True | BvVSlider _ _ \<Rightarrow> True | BvHSlider _ _ \<Rightarrow> True | BvNumEntry _ _ \<Rightarrow> True
    | BvHBargraph _ _ _ \<Rightarrow> True | BvVBargraph _ _ _ \<Rightarrow> True | BvPatternVar _ \<Rightarrow> True | BvEnvironment \<Rightarrow> True
    | BvSeq a b \<Rightarrow> nf a \<and> nf b | BvPar a b \<Rightarrow> nf a \<and> nf b | BvRec a b \<Rightarrow> nf a \<and> nf b
    | BvSplit a b \<Rightarrow> nf a \<and> nf b | BvMerge a b \<Rightarrow> nf a \<and> nf b
    | BvVGroup l a \<Rightarrow> nf a | BvHGroup l a \<Rightarrow> nf a | BvTGroup l a \<Rightarrow> nf a | BvSymbolic s b \<Rightarrow> nf b
    | _ \<Rightarrow> False)"

declare is_value.simps [simp del] nf.simps [simp del]

abbreviation good :: "tree \<Rightarrow> bool" where
  "good t \<equiv> nosym t \<and> is_value t"

definition goods :: "tree \<Rightarrow> bool" where
  "goods l \<longleftrightarrow> (\<exists>xs. l = list_tree xs \<and> (\<forall>x \<in> set xs. good x))"

lemma is_value_box [simp]:
  "is_value (boxSeq a b) \<longleftrightarrow> is_value a \<and> is_value b" "is_value (boxPar a b) \<longleftrightarrow> is_value a \<and> is_value b"
  "is_value (boxRec a b) \<longleftrightarrow> is_value a \<and> is_value b" "is_value (boxSplit a b) \<longleftrightarrow> is_value a \<and> is_value b"
  "is_value (boxMerge a b) \<longleftrightarrow> is_value a \<and> is_value b" "is_value (boxVGroup l a) \<longleftrightarrow> is_value a"
  "is_value (boxHGroup l a) \<longleftrightarrow> is_value a" "is_value (boxTGroup l a) \<longleftrightarrow> is_value a" "is_value (closure a b c d)"
  "is_value (boxButton l)" "is_value (boxCheckbox l)" "is_value (boxVSlider l a b c d)" "is_value (boxHSlider l a b c d)"
  "is_value (boxNumEntry l a b c d)" "is_value (boxHBargraph l a b)" "is_value (boxVBargraph l a b)"
  "is_value boxWire" "is_value (boxSlot i)" "is_value (boxInt i)" "is_value (boxReal r)" "is_value (boxPrim2 p)"
  by (simp_all add: is_value.simps [of "boxSeq a b"] is_value.simps [of "boxPar a b"] is_value.simps [of "boxRec a b"]
      is_value.simps [of "boxSplit a b"] is_value.simps [of "boxMerge a b"] is_value.simps [of "boxVGroup l a"]
      is_value.simps [of "boxHGroup l a"] is_value.simps [of "boxTGroup l a"])
    (simp_all add: is_value.simps)

lemma matcher_view: "is_matcher t \<Longrightarrow> box_view t = BvOther"
  by (cases t) (auto simp: is_matcher_def isTree5_def box_view_def view_sym_def isNil_def isList_def split: list.splits if_splits)

lemma matcher_value: "is_matcher t \<Longrightarrow> is_value t"
  by (simp add: is_value.simps [of t] matcher_view)

lemma is_matcher_box [simp]: "is_matcher (boxPatternMatcher p s a b c)"
  by (simp add: is_matcher_def boxPatternMatcher_def isTree5_def leaf_def)

lemma goods_nil [simp]: "goods nil"
  by (auto simp: goods_def intro: exI [of _ "[]"])

lemma goods_cons [simp]: "goods (cons a l) \<longleftrightarrow> good a \<and> goods l"
proof
  assume "goods (cons a l)"
  then obtain xs where x: "cons a l = list_tree xs" "\<forall>x \<in> set xs. good x" by (auto simp: goods_def)
  then obtain ys where "xs = a # ys" "l = list_tree ys" by (cases xs) auto
  with x show "good a \<and> goods l" by (auto simp: goods_def)
next
  assume "good a \<and> goods l"
  then obtain xs where "l = list_tree xs" "\<forall>x \<in> set (a # xs). good x" by (auto simp: goods_def)
  then show "goods (cons a l)" unfolding goods_def by (intro exI [of _ "a # xs"]) auto
qed

lemma goods_cases: "goods l \<Longrightarrow> l = nil \<or> (\<exists>a m. l = cons a m \<and> good a \<and> goods m)"
  unfolding goods_def by (metis goods_def list_tree_simps neq_Nil_conv list.set_intros)

lemma goods_nosym: "goods l \<Longrightarrow> nosym l"
  by (auto simp: goods_def)

lemma goods_concat: "goods l \<Longrightarrow> goods m \<Longrightarrow> goods (concatT l m)"
  by (auto simp: goods_def concatT_def rconcat_list_tree)

lemma goods_nwires: "goods (nwires n)"
  by (induction n) simp_all

section \<open>The invariant\<close>

definition ev_ok :: "evst \<Rightarrow> bool" where
  "ev_ok st \<longleftrightarrow> props_ok st \<and> (\<forall>x v. ev_evals st x = Some v \<longrightarrow> good v) \<and> (\<forall>x v. ev_matchers st x = Some v \<longrightarrow> good v) \<and>
     (\<forall>x v. ev_numeric st x = Some v \<longrightarrow> nosym x \<longrightarrow> nosym v) \<and> (\<forall>x v. ev_symbolic st x = Some v \<longrightarrow> is_value x \<longrightarrow> nf v) \<and>
     (\<forall>x v. ev_simplified st x = Some v \<longrightarrow> nf x \<longrightarrow> nf v) \<and> (\<forall>A \<in> set (ev_automata st). \<forall>r \<in> set (a_rhs A). nosym r)"

lemma ev_okD:
  "ev_ok st \<Longrightarrow> props_ok st" "ev_ok st \<Longrightarrow> ev_evals st x = Some v \<Longrightarrow> good v" "ev_ok st \<Longrightarrow> ev_matchers st x = Some v \<Longrightarrow> good v"
  "ev_ok st \<Longrightarrow> ev_numeric st t = Some v \<Longrightarrow> nosym t \<Longrightarrow> nosym v" "ev_ok st \<Longrightarrow> ev_symbolic st t = Some v \<Longrightarrow> is_value t \<Longrightarrow> nf v"
  "ev_ok st \<Longrightarrow> ev_simplified st t = Some v \<Longrightarrow> nf t \<Longrightarrow> nf v" "ev_ok st \<Longrightarrow> A \<in> set (ev_automata st) \<Longrightarrow> \<forall>r \<in> set (a_rhs A). nosym r"
  unfolding ev_ok_def by metis+

lemma quiet_ok: "quiet st st1 \<Longrightarrow> ev_ok st \<Longrightarrow> ev_ok st1"
  by (cases st; cases st1) (auto simp: quiet_def ev_ok_def)

lemma ev_ok_updates [simp]:
  "ev_ok st \<Longrightarrow> ev_ok (st\<lparr>ev_prop := p\<rparr>)" "ev_ok st \<Longrightarrow> ev_ok (st\<lparr>ev_simp := d\<rparr>)" "ev_ok st \<Longrightarrow> ev_ok (st\<lparr>gBoxSlotNumber := i\<rparr>)"
  "ev_ok st \<Longrightarrow> ev_ok (st\<lparr>gLoopDetector := l\<rparr>)"
  "ev_ok st \<Longrightarrow> good v \<Longrightarrow> ev_ok (st\<lparr>ev_evals := (ev_evals st)(x \<mapsto> v)\<rparr>)"
  "ev_ok st \<Longrightarrow> good v \<Longrightarrow> ev_ok (st\<lparr>ev_matchers := (ev_matchers st)(x \<mapsto> v)\<rparr>)"
  "ev_ok st \<Longrightarrow> (nosym t \<longrightarrow> nosym v) \<Longrightarrow> ev_ok (st\<lparr>ev_numeric := (ev_numeric st)(t \<mapsto> v)\<rparr>)"
  "ev_ok st \<Longrightarrow> (is_value t \<longrightarrow> nf v) \<Longrightarrow> ev_ok (st\<lparr>ev_symbolic := (ev_symbolic st)(t \<mapsto> v)\<rparr>)"
  "ev_ok st \<Longrightarrow> (nf t \<longrightarrow> nf v) \<Longrightarrow> ev_ok (st\<lparr>ev_simplified := (ev_simplified st)(t \<mapsto> v)\<rparr>)"
  "ev_ok st \<Longrightarrow> \<forall>r \<in> set (a_rhs A). nosym r \<Longrightarrow> ev_ok (st\<lparr>ev_automata := ev_automata st @ [A]\<rparr>)"
  by (auto simp: ev_ok_def props_ok_def split: if_splits)

text \<open>What the three mutually recursive functions promise.\<close>

definition good_calls :: "recur \<Rightarrow> bool" where
  "good_calls R \<longleftrightarrow>
     (\<forall>e v l Q. nosym e \<longrightarrow> nosym v \<longrightarrow> nosym l \<longrightarrow> (\<forall>a. good a \<longrightarrow> Q a) \<longrightarrow> yields ev_ok (R (Eval e v l)) Q) \<and>
     (\<forall>e Q. nosym e \<longrightarrow> (\<forall>a. (is_value e \<longrightarrow> nf a) \<longrightarrow> Q a) \<longrightarrow> yields ev_ok (R (A2sb e)) Q) \<and>
     (\<forall>f l Q. good f \<longrightarrow> goods l \<longrightarrow> (\<forall>a. good a \<longrightarrow> Q a) \<longrightarrow> yields ev_ok (R (Apply f l)) Q)"

lemma good_callsD:
  assumes "good_calls R"
  shows "nosym e \<Longrightarrow> nosym v \<Longrightarrow> nosym l \<Longrightarrow> (\<And>a. good a \<Longrightarrow> Q a) \<Longrightarrow> yields ev_ok (R (Eval e v l)) Q"
    "nosym e \<Longrightarrow> (\<And>a. is_value e \<longrightarrow> nf a \<Longrightarrow> Q a) \<Longrightarrow> yields ev_ok (R (A2sb e)) Q"
    "good f \<Longrightarrow> goods l \<Longrightarrow> (\<And>a. good a \<Longrightarrow> Q a) \<Longrightarrow> yields ev_ok (R (Apply f l)) Q"
  using assms by (simp_all add: good_calls_def)

section \<open>Environments and names\<close>

lemma ok_pushValueDef [yields_rules]:
  "nosym d \<Longrightarrow> nosym lenv \<Longrightarrow> (\<And>l. nosym l \<Longrightarrow> Q l) \<Longrightarrow> yields ev_ok (pushValueDef h i d lenv) Q"
  by (rule yieldsI) (blast dest: quiet_pushValueDef intro: quiet_ok)

lemma ok_pushMulti [yields_rules]:
  "nosym ldefs \<Longrightarrow> nosym v \<Longrightarrow> nosym lenv \<Longrightarrow> (\<And>l. nosym l \<Longrightarrow> Q l) \<Longrightarrow> yields ev_ok (pushMultiClosureDefs h ldefs v lenv) Q"
  by (rule yieldsI) (blast dest: quiet_pushMulti intro: quiet_ok)

lemma ok_copyEnv [yields_rules]:
  "nosym env \<Longrightarrow> nosym ldefs \<Longrightarrow> nosym v \<Longrightarrow> nosym cur \<Longrightarrow> (\<And>l. nosym l \<Longrightarrow> Q l) \<Longrightarrow> yields ev_ok (copyEnvReplaceDefs h env ldefs v cur) Q"
  by (rule yieldsI) (blast dest: quiet_copyEnv ev_okD(1) intro: quiet_ok)

lemma ok_name_tree [yields_rules]: "(\<And>n. nosym n \<Longrightarrow> Q n) \<Longrightarrow> yields ev_ok (name_tree s) Q"
  by (rule yieldsI) (blast dest: quiet_name intro: quiet_ok)

lemma ok_ident_box [yields_rules]: "(\<And>n. nosym n \<Longrightarrow> Q n) \<Longrightarrow> yields ev_ok (ident_box s) Q"
  unfolding ident_box_def by (intro yields_rules) simp

lemma ok_setDefName [yields_rules]: "Q () \<Longrightarrow> yields ev_ok (mtry (setDefNameProperty h t s)) Q"
  by (rule yields_try) (auto dest: quiet_defname intro: quiet_ok)

lemma ok_name_as [yields_rules]: "nosym n \<Longrightarrow> Q () \<Longrightarrow> yields ev_ok (name_as C t n) Q"
  unfolding name_as_def by (rule yields_mod) (auto intro: quiet_ok [OF quiet_set])

lemma ok_carry_name [yields_rules]: "Q () \<Longrightarrow> yields ev_ok (carry_name C t r) Q"
  unfolding carry_name_def getDefNameProperty_def
  by (intro yields_rules) (auto intro: yields_rules dest: props_okD ev_okD(1) split: option.splits)

lemma ok_named [yields_rules]: "yields ev_ok m Q \<Longrightarrow> yields ev_ok (named C t m) Q"
  unfolding named_def by (rule yields_bind, erule yields_post, intro yields_rules)

lemma ok_error [yields_rules]: "yields ev_ok (error_here C i msg t) Q" "yields ev_ok (error_at C s msg t) Q"
  by (auto simp: error_here_def error_at_def yields_def mask_def evalerror_def rbind_eq_Inr)

lemma ok_new_slot [yields_rules]: "(\<And>k. Q (boxSlot k)) \<Longrightarrow> yields ev_ok new_slot Q"
  by (auto simp: yields_def new_slot_def Let_def)

lemma ok_on_prop [yields_rules]: "(\<And>a. Q a) \<Longrightarrow> yields ev_ok (on_prop m) Q"
  by (auto simp: yields_def on_prop_def rbind_eq_Inr)

lemma ok_on_simp [yields_rules]: "(\<And>a. Q a) \<Longrightarrow> yields ev_ok (on_simp m) Q"
  by (auto simp: yields_def on_simp_def rbind_eq_Inr)

lemma ok_box_io [yields_rules]: "(\<And>a. Q a) \<Longrightarrow> yields ev_ok (box_io d) Q"
  unfolding box_io_def by (intro yields_rules)

lemma ok_box_number [yields_rules]: "(\<And>a. Q a) \<Longrightarrow> yields ev_ok (box_number C i d) Q"
  unfolding box_number_def by (intro yields_rules)

section \<open>Matching\<close>

lemma if_yields:
  "ev_ok st \<Longrightarrow> (if m then sp X st else Inr (X, st)) = Inr (Y, st1) \<Longrightarrow> nosym X \<Longrightarrow> yields ev_ok (sp X) nosym \<Longrightarrow>
   ev_ok st1 \<and> nosym Y"
  by (auto split: if_splits dest: yieldsD)

lemma ok_internal:
  assumes sp: "\<And>X. nosym X \<Longrightarrow> yields ev_ok (sp X) nosym"
  shows "nosym X \<Longrightarrow> ev_ok st \<Longrightarrow> apply_pattern_matcher_internal d sp A s X sb st = Inr (r, st1) \<Longrightarrow> ev_ok st1"
proof (induction d arbitrary: s X sb st r st1)
  case (Suc d)
  show ?case
  proof (cases "s < 0")
    case False
    with Suc.prems(3) obtain q X1 sa where q: "state_at A s = Inr q"
      "(if st_match_num q then sp X st else Inr (X, st)) = Inr (X1, sa)" by (auto simp: rbind_eq_Inr)
    have ok: "ev_ok sa \<and> nosym X1" using if_yields [where sp = sp and X = X, OF Suc.prems(2) q(2) Suc.prems(1) sp [OF Suc.prems(1)]] .
    show ?thesis
    proof (cases "find (\<lambda>(l, t). fires X1 l) (st_trans q)")
      case None
      with Suc.prems(3) False q ok show ?thesis by (auto simp: rbind_eq_Inr split: list.splits label.splits)
    next
      case (Some c)
      obtain l t where c: "c = (l, t)" by (cases c)
      show ?thesis
      proof (cases "\<exists>op o1 x0 x1. l = OpT op \<and> isBoxPatternOp X1 = Some (o1, x0, x1)")
        case True
        then obtain op o1 x0 x1 where o: "l = OpT op" "isBoxPatternOp X1 = Some (o1, x0, x1)" by blast
        with Suc.prems(3) False q Some c obtain sb1 s1 sb2 st2 where
          a: "apply_pattern_matcher_internal d sp A (st_s t) x0 sb1 sa = Inr ((s1, sb2), st2)"
             "apply_pattern_matcher_internal d sp A s1 x1 sb2 st2 = Inr (r, st1)" by (auto simp: rbind_eq_Inr)
        have "nosym x0" "nosym x1" using ok o(2) by (auto simp: isBoxPatternOp_Some)
        with Suc.IH [OF _ _ a(1)] Suc.IH [OF _ _ a(2)] ok show ?thesis by blast
      next
        case no: False
        with Suc.prems(3) False q Some c ok show ?thesis by (cases l; cases "isBoxPatternOp X1") (auto simp: rbind_eq_Inr)
      qed
    qed
  qed (use Suc.prems in simp)
qed simp

lemma ok_bind_assocs:
  "bind_assocs h X bs e st = Inr (e1, st1) \<Longrightarrow> nosym X \<Longrightarrow> nosym e \<Longrightarrow> quiet st st1 \<and> nosym e1"
proof (induction h X bs e st arbitrary: e1 st1 rule: bind_assocs.induct)
  case (2 h X ident p bs e st)
  from "2.prems"(1) obtain d where d: "searchIdDef ident e st = Inr d" by (auto simp: rbind_eq_Inr Let_def)
  show ?case
  proof (cases d)
    case (Some Z)
    with "2.prems"(1) d have "bind_assocs h X bs (if Z \<noteq> subtree X p then boxError else e) st = Inr (e1, st1)" by (simp add: Let_def)
    from "2.IH"(2) [OF refl d Some this "2.prems"(2)] "2.prems"(3) show ?thesis by simp
  next
    case None
    with "2.prems"(1) d obtain e2 sa where a: "pushValueDef h ident (subtree X p) e st = Inr (e2, sa)"
      "bind_assocs h X bs e2 sa = Inr (e1, st1)" by (auto simp: Let_def rbind_eq_Inr)
    have "quiet st sa" "nosym e2" using quiet_pushValueDef [OF a(1)] nosym_subtree "2.prems" by simp_all
    with "2.IH"(1) [OF refl d None a(1) refl a(2) "2.prems"(2)] show ?thesis by (blast intro: quiet_trans)
  qed
qed simp

lemma ok_bind_rules:
  "bind_rules h X sb rules E st = Inr (E1, st1) \<Longrightarrow> nosym X \<Longrightarrow> \<forall>e \<in> set E. nosym e \<Longrightarrow> quiet st st1 \<and> (\<forall>e \<in> set E1. nosym e)"
proof (induction h X sb rules E st arbitrary: E1 st1 rule: bind_rules.induct)
  case (2 h X sb ru rules E st)
  show ?case
  proof (cases "isBoxError (E ! rule_r ru)")
    case True
    with 2 show ?thesis by (auto split: if_splits)
  next
    case False
    with "2.prems"(1) obtain e sa where b: "rule_r ru < length E" "rule_r ru < length sb"
      "bind_assocs h X (sb ! rule_r ru) (E ! rule_r ru) st = Inr (e, sa)"
      "bind_rules h X sb rules (E[rule_r ru := e]) sa = Inr (E1, st1)" by (auto simp: rbind_eq_Inr split: if_splits)
    have e: "quiet st sa" "nosym e" using ok_bind_assocs [OF b(3) "2.prems"(2)] "2.prems"(3) b(1) by auto
    then have "\<forall>x \<in> set (E[rule_r ru := e]). nosym x" using "2.prems"(3) set_update_subset_insert by fastforce
    with "2.IH"(2) [OF _ False b(3) refl b(4) "2.prems"(2)] b(1,2) e(1) show ?thesis by (blast intro: quiet_trans)
  qed
qed simp

lemma ok_first_viable:
  "first_viable A rules E = Inr (Some c) \<Longrightarrow> \<forall>e \<in> set E. nosym e \<Longrightarrow> \<forall>r \<in> set (a_rhs A). nosym r \<Longrightarrow>
   nosym c \<and> (\<exists>b e. c = closure b nil nil e)"
  by (induction A rules E rule: first_viable.induct) (auto split: if_splits)

lemma ok_apply_pattern_matcher [yields_rules]:
  assumes sp: "\<And>X. nosym X \<Longrightarrow> yields ev_ok (sp X) nosym"
    and "\<forall>r \<in> set (a_rhs A). nosym r" "nosym X" "\<forall>e \<in> set E. nosym e"
    and Q: "\<And>s1 c E1. nosym c \<Longrightarrow> \<forall>e \<in> set E1. nosym e \<Longrightarrow> c = nil \<or> (\<exists>b e. c = closure b nil nil e) \<Longrightarrow> Q (s1, c, E1)"
  shows "yields ev_ok (apply_pattern_matcher h sp A s X E) Q"
proof (rule yieldsI)
  fix st r st1 assume st: "ev_ok st" "apply_pattern_matcher h sp A s X E st = Inr (r, st1)"
  then obtain s1 sb st0 where i: "apply_pattern_matcher_internal (length (a_state A)) sp A s X (replicate (n_rules A) []) st = Inr ((s1, sb), st0)"
    "(if s1 < 0 then Inr ((s1, nil, E), st0) else
       rbind (state_at A s1) (\<lambda>q. rbind (bind_rules h X sb (st_rules q) E st0) (\<lambda>(E1, st1).
         rbind (final A s1) (\<lambda>fin. if fin
           then rbind (first_viable A (st_rules q) E1) (\<lambda>c. case c of
               Some C \<Rightarrow> Inr ((s1, C, E1), st1) | None \<Rightarrow> Inr ((-1, nil, E1), st1))
           else Inr ((s1, nil, E1), st1))))) = Inr (r, st1)"
    by (auto simp: apply_pattern_matcher_def rbind_eq_Inr)
  have ok: "ev_ok st0" by (rule ok_internal [OF sp assms(3) st(1) i(1)])
  show "ev_ok st1 \<and> Q r"
  proof (cases "s1 < 0")
    case True
    with i(2) ok show ?thesis using Q [of nil E s1] assms(4) by auto
  next
    case False
    with i(2) obtain q E1 fin sa where b: "bind_rules h X sb (st_rules q) E st0 = Inr (E1, sa)"
      "(if fin then rbind (first_viable A (st_rules q) E1) (\<lambda>c. case c of
          Some C \<Rightarrow> Inr ((s1, C, E1), sa) | None \<Rightarrow> Inr ((-1, nil, E1), sa)) else Inr ((s1, nil, E1), sa)) = Inr (r, st1)"
      by (auto simp: rbind_eq_Inr)
    have e: "quiet st0 sa" "\<forall>e \<in> set E1. nosym e" using ok_bind_rules [OF b(1) assms(3,4)] by simp_all
    with b(2) have "st1 = sa" by (auto simp: rbind_eq_Inr split: if_splits option.splits)
    moreover have "Q r" using b(2) e(2) ok_first_viable [OF _ e(2) assms(2), of "st_rules q"]
      by (auto simp: rbind_eq_Inr split: if_splits option.splits intro!: Q)
    ultimately show ?thesis using quiet_ok [OF e(1) ok] by simp
  qed
qed

lemma ok_match_lhs:
  assumes sp: "\<And>X. nosym X \<Longrightarrow> yields ev_ok (sp X) nosym" and "\<forall>r \<in> set (a_rhs A). nosym r"
  shows "match_lhs h sp A s Xs E st = Inr (r, st1) \<Longrightarrow> \<forall>X \<in> set Xs. nosym X \<Longrightarrow> \<forall>e \<in> set E. nosym e \<Longrightarrow> ev_ok st \<Longrightarrow> ev_ok st1"
proof (induction Xs arbitrary: s E st)
  case (Cons X Xs)
  from Cons.prems(1) obtain s1 c E1 sa where a: "apply_pattern_matcher h sp A s X E st = Inr ((s1, c, E1), sa)"
    "(if s1 < 0 then Inr ((s1, E1), sa) else match_lhs h sp A s1 Xs E1 sa) = Inr (r, st1)" by (auto simp: rbind_eq_Inr)
  have "yields ev_ok (apply_pattern_matcher h sp A s X E) (\<lambda>(s1, c, E1). \<forall>e \<in> set E1. nosym e)"
    by (rule ok_apply_pattern_matcher [OF sp assms(2)]) (use Cons.prems in auto)
  from yieldsD [OF this Cons.prems(4) a(1)] a(2) Cons.IH [of s1 E1 sa] Cons.prems(2) show ?case by (auto split: if_splits)
qed simp

lemma quiet_shadow: "shadow_warnings h rules r rus E st = Inr st1 \<Longrightarrow> quiet st st1"
proof (induction rus arbitrary: st)
  case (Cons ru rus)
  show ?case
  proof (cases "isBoxError (E ! rule_r ru)")
    case True
    with Cons show ?thesis by (simp split: if_splits)
  next
    case False
    note fl = quiet_trans [OF quiet_fields(2) Cons.IH]
    show ?thesis
    proof (cases "rule_r ru < r")
      case True
      with False Cons.prems show ?thesis
        by (cases "asList (rules ! rule_r ru)"; cases "asList (rules ! r)") (auto split: if_splits intro!: fl)
    qed (use False Cons.prems in \<open>simp split: if_splits\<close>)
  qed
qed simp

lemma ok_check_shadowed:
  assumes sp: "\<And>X. nosym X \<Longrightarrow> yields ev_ok (sp X) nosym" and "\<forall>r \<in> set (a_rhs A). nosym r"
  shows "check_shadowed h sp A rules tests st = Inr st1 \<Longrightarrow> \<forall>(n, pats) \<in> set tests. \<forall>X \<in> set pats. nosym X \<Longrightarrow> ev_ok st \<Longrightarrow> ev_ok st1"
proof (induction tests arbitrary: st)
  case (Cons e tests)
  obtain n pats where e: "e = (n, pats)" by (cases e)
  obtain s E sa where m: "match_lhs h sp A 0 pats (replicate (length rules) nil) st = Inr ((s, E), sa)"
    using Cons.prems(1) by (cases "match_lhs h sp A 0 pats (replicate (length rules) nil) st") (auto simp: e)
  with Cons.prems(1) obtain fin where f: "final A s = Inr fin"
    "rbind (if fin then rbind (state_at A s) (\<lambda>q. shadow_warnings h rules n (st_rules q) E sa) else Inr sa)
       (check_shadowed h sp A rules tests) = Inr st1" by (cases "final A s") (auto simp: e)
  then obtain sc where a: "(if fin then rbind (state_at A s) (\<lambda>q. shadow_warnings h rules n (st_rules q) E sa) else Inr sa) = Inr sc"
    "check_shadowed h sp A rules tests sc = Inr st1"
    by (cases "if fin then rbind (state_at A s) (\<lambda>q. shadow_warnings h rules n (st_rules q) E sa) else Inr sa") simp_all
  have "ev_ok sa" by (rule ok_match_lhs [OF sp assms(2) m]) (use Cons.prems e in auto)
  moreover have "quiet sa sc" using a(1) by (auto simp: rbind_eq_Inr split: if_splits dest: quiet_shadow)
  ultimately have "ev_ok sc" by (blast intro: quiet_ok)
  with Cons.IH [OF a(2)] Cons.prems(2) show ?case by simp
qed simp

lemma build_matcher_parts:
  "(\<forall>r \<in> set (a_rhs (fst (build_matcher ad oa rules))). \<exists>R \<in> set rules. \<exists>l. asList R = Some (l, r)) \<and>
   (\<forall>pats \<in> set (snd (build_matcher ad oa rules)). \<forall>X \<in> set pats. \<exists>R \<in> set rules. \<exists>l r. asList R = Some (l, r) \<and> X \<in> set (cons_items l))"
proof -
  have "(\<forall>r \<in> set rhss1. r \<in> set rhss \<or> (\<exists>R \<in> set rs. \<exists>l. asList R = Some (l, r))) \<and>
    (\<forall>pats \<in> set tps1. pats \<in> set tps \<or> (\<forall>X \<in> set pats. \<exists>R \<in> set rs. \<exists>l r. asList R = Some (l, r) \<and> X \<in> set (cons_items l)))"
    if "fold (add_rule ad oa) (enumerate n rs) (start, rhss, tps) = (start1, rhss1, tps1)" for n rs start rhss tps start1 rhss1 tps1
    using that
  proof (induction rs arbitrary: n start rhss tps)
    case (Cons R rs)
    show ?case
    proof (cases "asList R")
      case None
      then have "add_rule ad oa (n, R) (start, rhss, tps) = (start, rhss, tps @ [[]])" by (simp add: add_rule_def)
      with Cons.prems have "fold (add_rule ad oa) (enumerate (Suc n) rs) (start, rhss, tps @ [[]]) = (start1, rhss1, tps1)" by simp
      from Cons.IH [OF this] show ?thesis by (fastforce)
    next
      case (Some c)
      obtain l r where c: "c = (l, r)" by (cases c)
      with Some have "add_rule ad oa (n, R) (start, rhss, tps) =
          (merge_state ad oa start (lhs_state n (rev (cons_items l))), rhss @ [r], tps @ [rev (cons_items l)])" by (simp add: add_rule_def Let_def)
      with Cons.prems have "fold (add_rule ad oa) (enumerate (Suc n) rs)
          (merge_state ad oa start (lhs_state n (rev (cons_items l))), rhss @ [r], tps @ [rev (cons_items l)]) = (start1, rhss1, tps1)" by simp
      from Cons.IH [OF this] Some c show ?thesis by (fastforce)
    qed
  qed simp
  then show ?thesis unfolding build_matcher_def
    by (cases "fold (add_rule ad oa) (enumerate 0 rules) (new_state, [], [])") (fastforce simp: Let_def)
qed

lemma ok_make_pattern_matcher [yields_rules]:
  assumes sp: "\<And>X. nosym X \<Longrightarrow> yields ev_ok (sp X) nosym"
    and "nosym R" and Q: "\<And>A. \<forall>r \<in> set (a_rhs A). nosym r \<Longrightarrow> Q A"
  shows "yields ev_ok (make_pattern_matcher h oa sp R) Q"
proof (rule yieldsI)
  fix st A st1 assume st: "ev_ok st" "make_pattern_matcher h oa sp R st = Inr (A, st1)"
  let ?rules = "rev (cons_items R)"
  obtain tps where b: "build_matcher (ad_of h) oa ?rules = (A, tps)"
    and c: "check_shadowed h sp A ?rules (enumerate 0 tps) st = Inr st1"
    using st(2) by (auto simp: make_pattern_matcher_def Let_def rbind_eq_Inr split: prod.splits)
  have n: "nosym l \<and> nosym r" if "S \<in> set ?rules" "asList S = Some (l, r)" for S l r
    using nosym_cons_items [OF assms(2)] that nosym_list by auto
  have rhs: "\<forall>r \<in> set (a_rhs A). nosym r"
    using build_matcher_parts [of "ad_of h" oa ?rules, unfolded b] n by fastforce
  have "\<forall>pats \<in> set tps. \<forall>X \<in> set pats. nosym X"
    using build_matcher_parts [of "ad_of h" oa ?rules, unfolded b] n nosym_cons_items by fastforce
  then have "\<forall>(n, pats) \<in> set (enumerate 0 tps). \<forall>X \<in> set pats. nosym X" by (auto simp: in_set_enumerate_eq)
  from ok_check_shadowed [OF sp rhs c this st(1)] Q [OF rhs] show "ev_ok st1 \<and> Q A" by simp
qed

section \<open>Symbolic boxes\<close>

lemma nf_box [simp]:
  "nf (boxSymbolic s b) \<longleftrightarrow> nf b" "nf boxEnvironment"
  by (simp_all add: nf.simps [of "boxSymbolic s b"] nf.simps [of boxEnvironment])

lemma is_matcher_iff: "isTree5 t (bsym BOXPATMATCHER) \<noteq> None \<longleftrightarrow> is_matcher t"
  by (simp add: is_matcher_def)

text \<open>Replacing the branches of a value that is neither closure nor matcher by normal forms gives a normal form.\<close>

lemma value_forms:
  assumes "is_value t" "isClosure t = None" "\<not> is_matcher t" "list_all2 (\<lambda>b c. is_value b \<longrightarrow> nf c) (branches t) br"
  shows "nf (Tree (node t) br)"
proof -
  have "has_form t (box_view t)" by (rule box_view_form)
  moreover have "box_view t \<noteq> BvClosure a b c d" for a b c d using assms(2) by (metis option.distinct(1) recognisers_view(17))
  ultimately show ?thesis using assms(1,3,4) unfolding is_value.simps [of t] nf.simps [of "Tree (node t) br"]
    by (cases "box_view t")
      (auto simp: has_form_def box_constructor_defs list_all2_Cons1 box_view_def view_sym_def leaf_def nth_Cons' split: if_splits)
qed

lemma isClosure_parts: "isClosure t = Some (a, g, v, l) \<Longrightarrow> nosym t \<Longrightarrow> nosym a \<and> nosym g \<and> nosym v \<and> nosym l"
  by (simp add: recognisers_view nosym_parts)

lemma isBoxAbstr_parts: "isBoxAbstr t = Some (a, b) \<Longrightarrow> nosym t \<Longrightarrow> nosym a \<and> nosym b"
  by (simp add: recognisers_view nosym_parts)

lemma ident_value: "isBoxIdent t \<Longrightarrow> \<not> is_matcher t"
  using matcher_view by (auto simp: recognisers_view)

lemma environment_nf: "isBoxEnvironment t \<Longrightarrow> nf t"
  by (simp add: recognisers_view nf.simps [of t])

lemma waveform_nf: "isBoxWaveform t \<Longrightarrow> nf t"
  by (simp add: recognisers_view nf.simps [of t])

lemma ok_real_a2sb:
  assumes G: "good_calls R" and "nosym e" and Q: "\<And>a. (is_value e \<longrightarrow> nf a) \<Longrightarrow> Q a"
  shows "yields ev_ok (real_a2sb C R e) Q"
proof (cases "isClosure e")
  case None
  have "yields ev_ok (mmap (\<lambda>b. R (A2sb b)) (branches e)) (\<lambda>br. Q (Tree (node e) br))" if "\<not> is_matcher e"
  proof (rule yields_map [where P = "\<lambda>b c. is_value b \<longrightarrow> nf c"])
    fix b Q' assume "b \<in> set (branches e)" "\<And>c. is_value b \<longrightarrow> nf c \<Longrightarrow> Q' c"
    then show "yields ev_ok (R (A2sb b)) Q'" using nosym_branch [OF assms(2)] by (intro good_callsD [OF G]) auto
  qed (rule Q, use None that in \<open>auto intro: value_forms\<close>)
  moreover have "yields ev_ok (symbolic_matcher C R e) Q" if "is_matcher e"
    unfolding symbolic_matcher_def using assms(2) matcher_value [OF that]
    by (intro yields_rules good_callsD [OF G]) (auto intro!: Q simp: matcher_value)
  ultimately show ?thesis unfolding real_a2sb_def None option.case is_matcher_iff
    by (intro yields_if ok_named yields_ret Q yields_bind) (auto intro: waveform_nf elim!: yields_post intro!: yields_ret)
next
  case (Some c)
  obtain abstr g v l where c: "c = (abstr, g, v, l)" by (cases c)
  note n = isClosure_parts [OF Some [unfolded c] assms(2)]
  have "yields ev_ok (symbolic_closure C R x b v l) Q" if "isBoxAbstr abstr = Some (x, b)" for x b
    unfolding symbolic_closure_def using isBoxAbstr_parts [OF that] n
    by (intro yields_rules good_callsD [OF G]) (auto intro!: Q)
  then show ?thesis unfolding real_a2sb_def Some c
    using n by (auto intro!: yields_rules good_callsD [OF G] Q environment_nf)
qed

lemma ok_a2sb:
  assumes G: "good_calls R" and "nosym e" and Q: "\<And>a. (is_value e \<longrightarrow> nf a) \<Longrightarrow> Q a"
  shows "yields ev_ok (a2sb C R e) Q"
proof -
  have "yields ev_ok (real_a2sb C R e) (\<lambda>a. is_value e \<longrightarrow> nf a)" by (rule ok_real_a2sb [OF G assms(2)])
  then show ?thesis unfolding a2sb_def
    by (intro yields_bind [OF yields_get] yields_option yields_ret Q)
      (auto dest: ev_okD(5) intro!: yields_rules Q elim!: yields_post)
qed

section \<open>Numbers, labels and iterations\<close>

lemma ok_const_number [yields_rules]:
  "good_calls R \<Longrightarrow> nosym e \<Longrightarrow> nosym v \<Longrightarrow> nosym l \<Longrightarrow> (\<And>a. Q a) \<Longrightarrow> yields ev_ok (const_number C R e v l) Q"
  unfolding const_number_def by (intro yields_rules good_callsD) auto

lemma ok_eval2 [yields_rules]:
  "good_calls R \<Longrightarrow> nosym e \<Longrightarrow> nosym v \<Longrightarrow> nosym l \<Longrightarrow> (\<And>a. Q a) \<Longrightarrow> yields ev_ok (eval2int C R e v l) Q"
  "good_calls R \<Longrightarrow> nosym e \<Longrightarrow> nosym v \<Longrightarrow> nosym l \<Longrightarrow> (\<And>a. Q' a) \<Longrightarrow> yields ev_ok (eval2double C R e v l) Q'"
  unfolding eval2int_def eval2double_def by (intro yields_rules; assumption)+

lemma number_good: "isBoxInt t \<or> isBoxReal t \<Longrightarrow> is_value t"
  by (cases "node t") (auto simp: isBoxInt_def isBoxReal_def isIntNode_def isDoubleNode_def is_value.simps [of t] box_view_def)

lemma sig_number_good: "sig_number s = Some n \<Longrightarrow> good n"
  by (auto simp: sig_number_def split: option.splits)

lemma ok_isBoxNumeric [yields_rules]:
  "good_calls R \<Longrightarrow> nosym e \<Longrightarrow> (\<And>a. (\<forall>n. a = Some n \<longrightarrow> good n) \<Longrightarrow> Q a) \<Longrightarrow> yields ev_ok (isBoxNumeric C R e) Q"
  unfolding isBoxNumeric_def by (intro yields_rules good_callsD) (auto simp: number_good sig_number_good)

lemma ok_simplifyPattern [yields_rules]:
  "good_calls R \<Longrightarrow> nosym e \<Longrightarrow> (\<And>a. nosym a \<Longrightarrow> Q a) \<Longrightarrow> yields ev_ok (simplifyPattern C R e) Q"
  unfolding simplifyPattern_def
  by (intro yields_bind [OF yields_get] yields_option yields_ret yields_bind [OF ok_isBoxNumeric])
    (auto simp: Let_def dest: ev_okD(4) intro!: yields_rules split: option.splits)

lemma ok_patternSimplification [yields_rules]:
  assumes G: "good_calls R"
  shows "nosym e \<Longrightarrow> (\<And>a. nosym a \<Longrightarrow> Q a) \<Longrightarrow> yields ev_ok (patternSimplification C R e) Q"
proof (induction e arbitrary: Q rule: measure_induct_rule [where f = size])
  case (less e)
  have parts: "nosym a \<and> nosym b \<and> size a < size e \<and> size b < size e \<and> n \<noteq> bsym BOXSYMBOLIC" if "bda_op e = Some (n, a, b)" for n a b
    using bda_op_Some [OF that] less.prems(1) by (auto simp: isBoxPatternOp_Some pattern_ops_def)
  show ?case unfolding patternSimplification.simps [of C R e]
    by (intro yields_rules less G) (use parts in \<open>auto intro: less.prems(1) intro!: less.prems(2)\<close>)
qed

lemma ok_labels:
  "(\<And>f i. yields ev_ok (W f i) (\<lambda>_. True)) \<Longrightarrow> yields ev_ok (label0 W cs d) (\<lambda>_. True)"
  "(\<And>f i. yields ev_ok (W f i) (\<lambda>_. True)) \<Longrightarrow> yields ev_ok (label1 W cs d f) (\<lambda>_. True)"
  "(\<And>f i. yields ev_ok (W f i) (\<lambda>_. True)) \<Longrightarrow> yields ev_ok (label2 W cs d f i) (\<lambda>_. True)"
proof (induction W cs d and W cs d f and W cs d f i rule: label0_label1_label2.induct)
  case (4 W c cs dst fmt)
  then show ?case by (simp del: label0.simps)
next
  case (5 W dst fmt ident)
  then show ?case by (auto intro!: yields_bind intro: yields_post simp: yields_ret)
next
  case (6 W c cs dst fmt ident)
  then show ?case by (auto simp del: label0.simps intro!: yields_bind intro: yields_post)
qed (simp_all add: yields_ret)

lemma ok_evalLabel [yields_rules]:
  "good_calls R \<Longrightarrow> nosym v \<Longrightarrow> nosym l \<Longrightarrow> (\<And>a. Q a) \<Longrightarrow> yields ev_ok (evalLabel C R s v l) Q"
  unfolding evalLabel_def writeIdentValue_def by (rule yields_post [OF ok_labels(1)]) (intro yields_rules, auto)

lemma ok_label_tree [yields_rules]:
  "good_calls R \<Longrightarrow> nosym v \<Longrightarrow> nosym l \<Longrightarrow> (\<And>a. nosym a \<Longrightarrow> Q a) \<Longrightarrow> yields ev_ok (eval_label_tree C R s v l) Q"
  unfolding eval_label_tree_def by (intro yields_rules) auto

lemma ok_iteration [yields_rules]:
  "good_calls R \<Longrightarrow> nosym b \<Longrightarrow> nosym v \<Longrightarrow> nosym l \<Longrightarrow> (\<And>a. good a \<Longrightarrow> Q a) \<Longrightarrow> yields ev_ok (iteration C R i b v l k) Q"
  unfolding iteration_def by (intro yields_rules good_callsD) auto

lemma ok_iterate:
  assumes "\<And>i Q. (\<And>a. good a \<Longrightarrow> Q a) \<Longrightarrow> yields ev_ok (b i) Q" "\<And>x y. good x \<Longrightarrow> good y \<Longrightarrow> good (op x y)" "\<And>a. good a \<Longrightarrow> Q a"
  shows "good r \<Longrightarrow> yields ev_ok (iterate_down b op k r) Q" "good r \<Longrightarrow> yields ev_ok (iterate_up b op is r) Q"
proof -
  show "good r \<Longrightarrow> yields ev_ok (iterate_down b op k r) Q"
    by (induction k arbitrary: r) (auto intro!: yields_rules assms)
  show "good r \<Longrightarrow> yields ev_ok (iterate_up b op is r) Q"
    by (induction "is" arbitrary: r) (auto intro!: yields_rules assms)
qed

lemma ok_iterates [yields_rules]:
  assumes "good_calls R" "nosym b" "nosym v" "nosym l" "\<And>a. good a \<Longrightarrow> Q a"
  shows "yields ev_ok (iteratePar C R i n b v l) Q" "yields ev_ok (iterateSeq C R i n b v l) Q"
    "yields ev_ok (iterateSum C R i n b v l) Q" "yields ev_ok (iterateProd C R i n b v l) Q"
  unfolding iteratePar_def iterateSeq_def iterateSum_def iterateProd_def iterate_right_def iterate_left_def
  by (intro yields_rules ok_iterate assms; simp add: assms)+

section \<open>Application and case expressions\<close>

lemma ok_boxlistOutputs [yields_rules]:
  assumes G: "good_calls R"
  shows "nosym l \<Longrightarrow> (\<And>a. Q a) \<Longrightarrow> yields ev_ok (boxlistOutputs R l n) Q"
proof (induction l arbitrary: n rule: measure_induct_rule [where f = size])
  case (less l)
  show ?case unfolding boxlistOutputs.simps [of R l]
    by (intro yields_rules good_callsD [OF G] less tlT_size) (auto intro: less.prems nosym_hd nosym_tl)
qed

lemma ok_larg2par [yields_rules]: "goods l \<Longrightarrow> (\<And>a. good a \<Longrightarrow> Q a) \<Longrightarrow> yields ev_ok (larg2par C l) Q"
proof (induction l arbitrary: Q rule: measure_induct_rule [where f = size])
  case (less l)
  consider "l = nil" | a m where "l = cons a m" "good a" "goods m" using goods_cases [OF less.prems(1)] by blast
  then show ?case
  proof cases
    case 1
    then show ?thesis by (simp add: larg2par.simps [of C nil] ok_error)
  next
    case (2 a m)
    then have "size m < size l" by (simp add: cons_def)
    then show ?thesis unfolding larg2par.simps [of C l] using 2
      by (auto intro!: yields_rules less)
  qed
qed

lemma ok_revEvalList [yields_rules]:
  assumes G: "good_calls R" and "nosym v" "nosym e"
  shows "nosym l \<Longrightarrow> goods r \<Longrightarrow> (\<And>a. goods a \<Longrightarrow> Q a) \<Longrightarrow> yields ev_ok (revEvalList R l v e r) Q"
proof (induction l arbitrary: r rule: measure_induct_rule [where f = size])
  case (less l)
  show ?case unfolding revEvalList.simps [of R l]
    by (intro yields_rules good_callsD [OF G] less tlT_size) (use assms(2,3) less.prems in \<open>auto intro: nosym_hd nosym_tl\<close>)
qed

lemma hd_goods: "goods l \<Longrightarrow> hdT l = Inr a \<Longrightarrow> good a"
  using goods_cases [of l] by (auto simp: hdT_def branch_def nil_def leaf_def arity_def cons_def)

lemma tl_goods: "goods l \<Longrightarrow> tlT l = Inr m \<Longrightarrow> goods m"
  using goods_cases [of l] by (auto simp: tlT_def branch_def nil_def leaf_def arity_def cons_def)

lemma ok_apply_box:
  assumes G: "good_calls R" and f: "good f" "goods l" and Q: "\<And>a. good a \<Longrightarrow> Q a"
  shows "yields ev_ok (apply_box C R f l) Q"
  unfolding apply_box_def
  by (intro yields_rules good_callsD [OF G] G Q) (use f goods_nosym [OF f(2)] in \<open>auto intro: goods_concat goods_nwires\<close>)

lemma yields_throw [yields_rules]: "yields I (mask (\<lambda>st. Inl (e st))) Q"
  by (simp add: yields_def mask_def)

lemma ok_apply_closure:
  assumes G: "good_calls R" and n: "nosym abstr" "nosym v" "nosym e" "goods l" and Q: "\<And>a. good a \<Longrightarrow> Q a"
  shows "yields ev_ok (apply_closure C R f abstr v e l) Q"
proof -
  have parts: "nosym b" if "isBoxAbstr abstr = Some (a, b)" for a b using isBoxAbstr_parts [OF that n(1)] by simp
  have arg: "nosym (case r of Some narg \<Rightarrow> narg | None \<Rightarrow> a)" if "\<forall>n. r = Some n \<longrightarrow> good n" "good a" for r a
    using that by (cases r) auto
  show ?thesis unfolding apply_closure_def Let_def
    by (intro yields_rules good_callsD [OF G] G Q arg)
      (use n parts hd_goods [OF n(4)] in \<open>auto intro: tl_goods\<close>)
qed

lemma ok_automaton_at [yields_rules]: "(\<And>A. \<forall>r \<in> set (a_rhs A). nosym r \<Longrightarrow> Q A) \<Longrightarrow> yields ev_ok (automaton_at a) Q"
  unfolding automaton_at_def by (rule yields_ask) (auto dest: ev_okD(7) nth_mem split: pointer.splits if_splits)

lemma vec2list_tree: "vec2list v = list_tree v"
  by (simp add: vec2list_def)

lemma isClosure_closure [simp]: "isClosure (closure a g v l) = Some (a, g, v, l)"
  by (simp add: recognisers_view)

lemma ok_apply_matcher:
  assumes G: "good_calls R" and n: "nosym E" "nosym rules" "nosym rp" "goods l" and Q: "\<And>a. good a \<Longrightarrow> Q a"
  shows "yields ev_ok (apply_matcher C R a s E rules rp l) Q"
proof -
  have cl: "nosym b \<and> nosym d" if "isClosure c = Some (b, x, y, d)" "nosym c" for b x y d c using isClosure_parts [OF that] by simp
  show ?thesis unfolding apply_matcher_def
    by (intro yields_rules good_callsD [OF G] G Q)
      (use n hd_goods [OF n(4)] nosym_list2vec [OF n(1)] in \<open>auto simp: vec2list_tree matcher_value dest: cl intro: tl_goods\<close>)
qed

lemma ok_applyList:
  assumes G: "good_calls R" and "good f" "goods l" "\<And>a. good a \<Longrightarrow> Q a"
  shows "yields ev_ok (applyList C R f l) Q"
proof -
  have e: "\<not> isBoxError f" "\<not> isBoxError l"
    using assms(2) goods_cases [OF assms(3)] matcher_view [of f] by (auto simp: recognisers_view is_value.simps [of f])
  have pm: "nosym E \<and> nosym rules \<and> nosym rp" if "isBoxPatternMatcher f = Inr (Some (a, s, E, rules, rp))" for a s E rules rp
    using that assms(2) by (cases f) (auto simp: isBoxPatternMatcher_def isTree5_def rbind_eq_Inr split: option.splits list.splits if_splits)
  have cl: "nosym a \<and> nosym v \<and> nosym e" if "isClosure f = Some (a, g, v, e)" for a g v e
    using isClosure_parts [OF that] assms(2) by simp
  show ?thesis unfolding applyList_def
    by (intro yields_rules ok_apply_matcher ok_apply_closure ok_apply_box G assms)
      (use e assms pm cl in \<open>auto simp: isNil_iff\<close>)
qed

lemma ok_evalPattern [yields_rules]:
  assumes G: "good_calls R" and "nosym e" "nosym env" "\<And>a. nosym a \<Longrightarrow> Q a"
  shows "yields ev_ok (evalPattern C R e env) Q"
  unfolding evalPattern_def by (intro yields_rules good_callsD [OF G] G) (use assms in auto)

lemma ok_evalPatternList [yields_rules]:
  assumes G: "good_calls R" and "nosym env"
  shows "nosym l \<Longrightarrow> (\<And>a. nosym a \<Longrightarrow> Q a) \<Longrightarrow> yields ev_ok (evalPatternList C R l env) Q"
proof (induction l arbitrary: Q rule: measure_induct_rule [where f = size])
  case (less l)
  show ?case unfolding evalPatternList.simps [of C R l]
    by (intro yields_rules G less tlT_size) (use assms(2) less.prems in \<open>auto intro: nosym_hd nosym_tl\<close>)
qed

lemma ok_evalRuleList [yields_rules]:
  assumes G: "good_calls R" and "nosym env"
  shows "nosym l \<Longrightarrow> (\<And>a. nosym a \<Longrightarrow> Q a) \<Longrightarrow> yields ev_ok (evalRuleList C R l env) Q"
proof (induction l arbitrary: Q rule: measure_induct_rule [where f = size])
  case (less l)
  show ?case unfolding evalRuleList.simps [of C R l] evalRule_def
    by (intro yields_rules G less tlT_size)
      (use assms(2) less.prems in \<open>auto intro: nosym_hd nosym_tl nosym_branchT\<close>)
qed

lemma ok_new_automaton [yields_rules]: "\<forall>r \<in> set (a_rhs A). nosym r \<Longrightarrow> (\<And>a. Q a) \<Longrightarrow> yields ev_ok (new_automaton A) Q"
  by (auto simp: yields_def new_automaton_def)

lemma ok_evalCase:
  assumes G: "good_calls R" and n: "nosym rules" "nosym env" and Q: "\<And>a. good a \<Longrightarrow> Q a"
  shows "yields ev_ok (evalCase C R rules env) Q"
  unfolding evalCase_def Let_def
  by (intro yields_bind [OF yields_get] yields_option)
    (use ev_okD(3) n Q in \<open>auto intro!: yields_rules G ok_simplifyPattern simp: matcher_value nosym_listn\<close>)

section \<open>Evaluation\<close>

lemma ok_evalIdDef:
  assumes G: "good_calls R" and n: "nosym i" "nosym v" "nosym l" and Q: "\<And>a. good a \<Longrightarrow> Q a"
  shows "yields ev_ok (evalIdDef C R i v l) Q"
proof -
  have f: "find_def i l st = Inr (Some (d, l1)) \<Longrightarrow> nosym l \<Longrightarrow> props_ok st \<Longrightarrow> nosym d \<and> nosym l1" for d l1 and st :: evst
  proof (induction i l st rule: find_def.induct)
    case (1 i l st)
    show ?case
    proof (cases "getTreeProperty l i st")
      case (Some x)
      with "1.prems" show ?thesis by (auto simp: find_def.simps [of i l] split: if_splits dest: props_okD)
    next
      case None
      with "1.prems"(1) obtain l2 where b: "\<not> isNil l" "branch l 0 = Inr l2" "find_def i l2 st = Inr (Some (d, l1))"
        by (auto simp: find_def.simps [of i l] rbind_eq_Inr split: if_splits)
      from "1.IH" [OF b(1) None b(2,3) nosym_branchT [OF "1.prems"(2) b(2)] "1.prems"(3)] show ?thesis .
    qed
  qed
  show ?thesis unfolding evalIdDef_def
    by (intro yields_bind [OF yields_ask] yields_option yields_prod ok_error good_callsD [OF G] Q)
      (use n ev_okD(1) f in \<open>auto intro!: nosym_addElement\<close>)
qed

lemma ok_eval_widget:
  assumes G: "good_calls R" and n: "\<forall>p \<in> set ps. nosym p" "nosym v" "nosym e"
    and mk: "\<And>l xs. nosym l \<Longrightarrow> length xs = length ps \<Longrightarrow> \<forall>x \<in> set xs. nosym x \<Longrightarrow> Q (mk l xs)"
  shows "yields ev_ok (eval_widget mk C R l ps v e) Q"
proof -
  have "yields ev_ok (mmap (\<lambda>p. mbind (eval2double C R p v e) (\<lambda>x. mret (leaf (NDouble x)))) ps) (\<lambda>xs. length xs = length ps \<and> (\<forall>x \<in> set xs. nosym x))"
  proof (rule yields_map [where P = "\<lambda>_ y. nosym y"])
    fix p Q' assume "p \<in> set ps" "\<And>y. nosym y \<Longrightarrow> Q' y"
    then show "yields ev_ok (mbind (eval2double C R p v e) (\<lambda>x. mret (leaf (NDouble x)))) Q'"
      using n by (auto intro!: yields_rules G)
  qed (auto simp: list_all2_conv_all_nth in_set_conv_nth)
  then show ?thesis unfolding eval_widget_def
    by (intro yields_rules G n) (auto elim!: yields_post intro!: yields_ret mk)
qed

lemma length4: "length xs = 4 \<Longrightarrow> \<exists>a b c d. xs = [a, b, c, d]"
  by (auto simp: eval_nat_numeral length_Suc_conv)

lemma ok_eval_slider:
  assumes G: "good_calls R" and n: "nosym ps" "nosym v" "nosym e"
    and mk: "\<And>l a b c d. nosym l \<Longrightarrow> nosym a \<Longrightarrow> nosym b \<Longrightarrow> nosym c \<Longrightarrow> nosym d \<Longrightarrow> Q (mk l a b c d)"
  shows "yields ev_ok (eval_slider mk C R l ps v e) Q"
  unfolding eval_slider_def
proof (rule ok_eval_widget [OF G _ n(2,3)])
  show "\<forall>p \<in> set (map (nthT ps) [0, 1, 2, 3]). nosym p" using nosym_nthT [OF n(1)] by simp
  fix l xs assume "nosym l" "length xs = length (map (nthT ps) [0, 1, 2, 3])" "\<forall>x \<in> set xs. nosym x"
  then show "Q (slider mk l xs)" using length4 [of xs] by (auto simp: slider_def eval_nat_numeral intro!: mk)
qed

lemma atom_value:
  assumes "case box_view t of BvXtended _ \<Rightarrow> True | BvInt _ \<Rightarrow> True | BvReal _ \<Rightarrow> True | BvWire \<Rightarrow> True | BvCut \<Rightarrow> True | BvPrim _ _ \<Rightarrow> True
    | BvFFun _ \<Rightarrow> True | BvFConst _ _ _ \<Rightarrow> True | BvFVar _ _ _ \<Rightarrow> True | BvWaveform \<Rightarrow> True | BvSlot _ \<Rightarrow> True | BvPatternVar _ \<Rightarrow> True | _ \<Rightarrow> False"
  shows "is_value t"
  using assms by (auto simp: is_value.simps [of t] split: box_form.splits)

definition files_ok :: "ectx \<Rightarrow> bool" where
  "files_ok C \<longleftrightarrow> (\<forall>f l. getlist C f = Inr l \<longrightarrow> nosym l)"

lemma ok_eval_file:
  assumes "files_ok C" "nosym l" "\<And>Q'. (\<And>b. nosym b \<Longrightarrow> Q' b) \<Longrightarrow> yields ev_ok m Q'" "\<And>a. good a \<Longrightarrow> Q a"
  shows "yields ev_ok (eval_file C l m) Q"
  unfolding eval_file_def Let_def
  by (intro yields_rules assms(3)) (use assms in \<open>auto simp: files_ok_def\<close>)

lemma ok_eval2_op:
  assumes G: "good_calls R" and n: "nosym x" "nosym y" "nosym v" "nosym l" and Q: "\<And>a. good a \<Longrightarrow> Q a"
    and op: "\<And>p q. good p \<Longrightarrow> good q \<Longrightarrow> good (op p q)"
  shows "yields ev_ok (eval2 op R x y v l) Q"
  unfolding eval2_def by (intro yields_rules good_callsD [OF G] n Q op)

lemma ok_eval_group:
  assumes G: "good_calls R" and n: "nosym y" "nosym v" "nosym l" and Q: "\<And>a. good a \<Longrightarrow> Q a"
    and op: "\<And>p q. nosym p \<Longrightarrow> good q \<Longrightarrow> good (op p q)"
  shows "yields ev_ok (eval_group op C R s y v l) Q"
  unfolding eval_group_def by (intro yields_rules good_callsD [OF G] G n Q op)

lemma ok_eval_access:
  assumes G: "good_calls R" and n: "nosym x" "nosym y" "nosym v" "nosym l" and Q: "\<And>a. good a \<Longrightarrow> Q a"
  shows "yields ev_ok (eval_access C R e x y v l) Q"
  unfolding eval_access_def by (intro yields_rules good_callsD [OF G] n Q) (use n in \<open>auto dest: isClosure_parts\<close>)

lemma ok_eval_modif:
  assumes G: "good_calls R" and n: "nosym x" "nosym y" "nosym v" "nosym l" and Q: "\<And>a. good a \<Longrightarrow> Q a"
  shows "yields ev_ok (eval_modif C R e x y v l) Q"
  unfolding eval_modif_def by (intro yields_rules good_callsD [OF G] n Q) (use n in \<open>auto dest: isClosure_parts\<close>)

lemma ok_eval_closure:
  assumes G: "good_calls R" and n: "nosym x" "nosym y" "nosym v" "nosym w" and Q: "\<And>a. good a \<Longrightarrow> Q a"
  shows "yields ev_ok (eval_closure C R x y w v) Q"
  unfolding eval_closure_def
  by (intro yields_rules good_callsD [OF G] n Q) (use n in \<open>auto dest: nosym_setUnion\<close>)

lemma ok_eval_io:
  assumes G: "good_calls R" and n: "nosym x" "nosym v" "nosym l" and Q: "\<And>a. good a \<Longrightarrow> Q a"
  shows "yields ev_ok (eval_io C R pick x v l) Q"
  unfolding eval_io_def by (intro yields_rules good_callsD [OF G] n Q) auto

lemma length2: "length xs = Suc (Suc 0) \<Longrightarrow> \<exists>a b. xs = [a, b]"
  by (auto simp: length_Suc_conv)

lemma ok_realeval:
  assumes G: "good_calls R" and F: "files_ok C" and n: "nosym e" "nosym v" "nosym l" and Q: "\<And>a. good a \<Longrightarrow> Q a"
  shows "yields ev_ok (realeval C R e v l) Q"
proof -
  have p: "\<forall>b \<in> set (form_parts (box_view e)). nosym b" using nosym_parts [OF n(1) refl] by blast
  note rules = yields_ret yields_lift ok_eval2_op ok_eval_group ok_eval_access ok_eval_modif ok_eval_closure ok_eval_io ok_evalIdDef
    ok_eval_file ok_evalCase ok_eval_slider ok_eval_widget yields_bind yields_if yields_lift ok_label_tree ok_pushMulti ok_iterates ok_eval2
    ok_ident_box ok_revEvalList good_callsD [OF G]
  show ?thesis
    by (cases "box_view e")
      (use p n in \<open>auto simp: realeval_def is_value.simps [of e] matcher_value is_matcher_def nosym_view dest!: length2
        intro!: rules G F Q\<close>)
qed

lemma ok_eval:
  assumes G: "good_calls R" and F: "files_ok C" and n: "nosym e" "nosym v" "nosym l" and Q: "\<And>a. good a \<Longrightarrow> Q a"
  shows "yields ev_ok (eval C R e v l) Q"
proof -
  have r: "yields ev_ok (report t) Q'" if "Q' ()" for t Q'
    unfolding report_def by (rule yields_try) (auto simp: rbind_eq_Inr that)
  show ?thesis unfolding eval_def
    by (intro yields_bind [OF yields_get] yields_option)
      (use ev_okD(2) in \<open>auto intro!: yields_ret yields_bind r yields_mod ok_carry_name ok_realeval G F n Q\<close>)
qed

lemma run_good:
  assumes "files_ok C"
  shows "good_calls (run C n)"
proof (induction n)
  case 0
  show ?case by (simp add: good_calls_def yields_def)
next
  case (Suc n)
  show ?case unfolding good_calls_def run.simps answer_def call.case
    by (blast intro: ok_eval [OF Suc assms] ok_a2sb [OF Suc] ok_applyList [OF Suc])
qed

section \<open>Simplification of diagrams\<close>

lemma nf_forms [simp]:
  "nf (boxSeq a b) \<longleftrightarrow> nf a \<and> nf b" "nf (boxPar a b) \<longleftrightarrow> nf a \<and> nf b" "nf (boxRec a b) \<longleftrightarrow> nf a \<and> nf b"
  "nf (boxSplit a b) \<longleftrightarrow> nf a \<and> nf b" "nf (boxMerge a b) \<longleftrightarrow> nf a \<and> nf b"
  "nf (boxVGroup l a) \<longleftrightarrow> nf a" "nf (boxHGroup l a) \<longleftrightarrow> nf a" "nf (boxTGroup l a) \<longleftrightarrow> nf a" "nf (boxInt i)" "nf (boxReal r)"
  by (simp_all add: nf.simps [of "boxSeq a b"] nf.simps [of "boxPar a b"] nf.simps [of "boxRec a b"] nf.simps [of "boxSplit a b"]
      nf.simps [of "boxMerge a b"] nf.simps [of "boxVGroup l a"] nf.simps [of "boxHGroup l a"] nf.simps [of "boxTGroup l a"]
      nf.simps [of "boxInt i"] nf.simps [of "boxReal r"])

lemma sig_number_nf: "sig_number s = Some n \<Longrightarrow> nf n"
  by (auto simp: sig_number_def split: option.splits)

lemma ok_inside:
  assumes S: "\<And>t Q. size t < size box \<Longrightarrow> nf t \<Longrightarrow> (\<And>a. nf a \<Longrightarrow> Q a) \<Longrightarrow> yields ev_ok (boxSimplification C t) Q"
    and n: "nf box" and Q: "\<And>a. nf a \<Longrightarrow> Q a"
  shows "yields ev_ok (insideBoxSimplification C box) Q"
  using n unfolding nf.simps [of box] insideBoxSimplification.simps [of C box]
  by (cases "box_view box")
    (auto intro!: yields_ret yields_lift yields_bind S Q n dest: box_view_less split: node.splits)

lemma ok_boxSimplification:
  "nf box \<Longrightarrow> (\<And>a. nf a \<Longrightarrow> Q a) \<Longrightarrow> yields ev_ok (boxSimplification C box) Q"
proof (induction box arbitrary: Q rule: measure_induct_rule [where f = size])
  case (less box)
  note i = ok_inside [where box = box and C = C, OF less.IH less.prems(1)]
  have n: "yields ev_ok (numericBoxSimplification C box) Q'" if "\<And>a. nf a \<Longrightarrow> Q' a" for Q'
    unfolding numericBoxSimplification.simps
    by (intro yields_rules i) (auto intro: that less.prems sig_number_nf)
  show ?case unfolding boxSimplification.simps
    by (intro yields_bind [OF yields_get] yields_option)
      (use less.prems ev_okD(6) in \<open>auto intro!: yields_ret yields_bind n ok_carry_name yields_mod\<close>)
qed

text \<open>There is no case for waveforms, so that a diagram with a waveform cannot be simplified.\<close>

lemma waveforms_not_simplified:
  "insideBoxSimplification C (boxWaveform br) = mlift (Inl (FaustException ''unrecognised box expression''))"
  by (simp add: insideBoxSimplification.simps [of C "boxWaveform br"])

section \<open>Programs evaluate to diagrams\<close>

text \<open>\<^verbatim>\<open>getBoxType\<close> knows every box of a normal form; only an environment is not a diagram.\<close>

abbreviation unknown_box :: error where
  "unknown_box \<equiv> FaustException ''unrecognized box expression''"

lemma io_errors:
  "seq_io a b \<noteq> Inl unknown_box" "par_io a b \<noteq> Inl unknown_box" "split_io a b \<noteq> Inl unknown_box"
  "merge_io a b \<noteq> Inl unknown_box" "rec_io a b \<noteq> Inl unknown_box"
  by (cases a; cases b; simp add: seq_io_def par_io_def split_io_def merge_io_def rec_io_def)+

lemma io2_error:
  "io2 g f a b = Inl e \<Longrightarrow> g a = Inl e \<or> g b = Inl e \<or> (\<exists>x y. f x y = Inl e)"
  by (auto simp: io2_def rbind_def split: sum.splits option.splits)

lemma ffarity_error: "ffarity ff \<noteq> Inl unknown_box"
  by (auto simp: ffarity_def ffsignature_def hdT_def tlT_def branch_def rbind_def nth_def split: sum.splits if_splits)

lemma nf_boxType: "nf t \<Longrightarrow> boxType t \<noteq> Inl unknown_box"
proof (induction t rule: boxType.induct)
  case (1 t)
  then show ?case unfolding nf.simps [of t] boxType.simps [of t]
    by (cases "box_view t") (auto simp: rbind_def ffarity_error io_errors dest!: io2_error split: sum.splits)
qed

section \<open>The evaluation of a program, step by step\<close>

text \<open>
  A concrete program, \<^verbatim>\<open>process = \(x).(x);\<close>, and the facts with which the simplifier runs the evaluator
  on it.  Addresses are those of no particular heap, there are no files, and diagrams are not simplified.
  The names are made by the symbol table, which is known only to keep \<open>k\<close> names of layers free.
\<close>

definition init_ectx :: ectx where
  "init_ectx = \<lparr>host_of = init_host\<lparr>ad_of := \<lambda>_. 0\<rparr>, op_ad = (\<lambda>_. 0), lm_of = nan_libm, simplify_bound = 4,
     getlist = (\<lambda>_. Inl (FaustException ''no file'')), yylineno = 1, gSimpleNames = False, gSimplifyDiagrams = False\<rparr>"

definition init_evst :: evst where
  "init_evst = \<lparr>ev_syms = symInit, ev_props = (\<lambda>_. []), yyfilename = ''main.dsp'', gErrorMsg = [],
     ev_evals = Map.empty, ev_symbolic = Map.empty, ev_numeric = Map.empty, ev_matchers = Map.empty, ev_simplified = Map.empty,
     gBoxSlotNumber = 0, gLoopDetector = new_looper 1024 400, ev_automata = [], ev_prop = start_state, ev_simp = d2s_init\<rparr>"

abbreviation id_host :: host where
  "id_host \<equiv> init_host\<lparr>ad_of := \<lambda>_. 0\<rparr>"

abbreviation id_abstr :: tree where
  "id_abstr \<equiv> boxAbstr (boxIdent ''x'') (boxIdent ''x'')"

abbreviation id_program :: tree where
  "id_program \<equiv> list_tree [cons (boxIdent ''process'') id_abstr]"

lemma init_simps [simp]:
  "host_of init_ectx = id_host" "gSimplifyDiagrams init_ectx = False" "getlist init_ectx f = Inl (FaustException ''no file'')"
  "layer_prefix init_host = 0" "boxpp init_host = (\<lambda>_. ''box'')" "gMaxNameSize init_host = 40"
  "ev_syms init_evst = symInit" "ev_props init_evst = (\<lambda>_. [])" "ev_evals init_evst = Map.empty" "ev_symbolic init_evst = Map.empty"
  "gBoxSlotNumber init_evst = 0" "gLoopDetector init_evst = new_looper 1024 400"
  by (simp_all add: init_ectx_def init_host_def init_evst_def)

definition roomy :: "nat \<Rightarrow> symtab \<Rightarrow> bool" where
  "roomy k tab \<longleftrightarrow> sym_inv tab \<and> room 0 ''ENV_LAYER'' tab k"

abbreviation names :: "string \<Rightarrow> symtab \<Rightarrow> symtab \<Rightarrow> bool" where
  "names s tab tab1 \<equiv> \<forall>st :: evst. ev_syms st = tab \<longrightarrow> name_tree s st = Inr (leaf (NSym (Name s)), st\<lparr>ev_syms := tab1\<rparr>)"

abbreviation layers :: "string \<Rightarrow> symtab \<Rightarrow> symtab \<Rightarrow> bool" where
  "layers w tab tab1 \<equiv> \<forall>l (st :: evst). ev_syms st = tab \<longrightarrow> pushNewLayer id_host l st = Inr (layer w l, st\<lparr>ev_syms := tab1\<rparr>)"

lemma name_roomy:
  assumes "roomy k tab" "symbol_text s = s" "hd s \<noteq> CHR ''E''" "s \<noteq> []"
  shows "\<exists>tab1. roomy k tab1 \<and> names s tab tab1"
proof -
  have i: "sym_inv tab" using assms(1) by (simp add: roomy_def)
  obtain a tab1 where g: "getSymbol s tab = Inr (a, tab1)" "sym_inv tab1" "sym_name tab1 a = Some s"
    "Symbols.known tab1 = insert s (Symbols.known tab)" "gPrefixCounters tab1 = gPrefixCounters tab"
    using getSymbol_spec [OF i, of s] assms(2) by auto
  have "prefix_name ''ENV_LAYER'' n \<noteq> s" for n using assms(3,4) by (auto simp: prefix_name_def c_str_def)
  with g assms(1) have "roomy k tab1" by (auto simp: roomy_def room_def counter_def)
  with g show ?thesis by (auto simp: name_tree_def)
qed

lemma layer_roomy: "roomy (Suc k) tab \<Longrightarrow> \<exists>w tab1. roomy k tab1 \<and> layers w tab tab1"
proof -
  assume r: "roomy (Suc k) tab"
  then have i: "sym_inv tab" by (simp add: roomy_def)
  obtain w tab1 where u: "unique_name 0 ''ENV_LAYER'' tab = Inr (w, tab1)" "room 0 ''ENV_LAYER'' tab1 k"
    using unique_name_room [OF i layer_name_short, of 0 k] r unfolding roomy_def by blast
  then show ?thesis using unique_name_fresh [OF i layer_name_short u(1)] by (auto simp: pushNewLayer_def roomy_def)
qed

lemma init_names:
  "\<exists>t1 v t2 t3 t4 w t5. names ''process'' symInit t1 \<and> layers v t1 t2 \<and> names ''box'' t2 t3 \<and> names ''box'' t3 t4 \<and> layers w t4 t5"
proof -
  have b: "\<exists>t. roomy k t \<and> names ''box'' tab t" if "roomy k tab" for k tab
    by (rule name_roomy [OF that]) (code_simp, simp_all)
  have "roomy (Suc (Suc 0)) symInit"
    using symtab_reachable_inv [OF symtab_reachable.start] by (simp add: roomy_def room_def symInit_def Symbols.known_def sym_name_def)
  then have "\<exists>t1. roomy (Suc (Suc 0)) t1 \<and> names ''process'' symInit t1"
    by (rule name_roomy) (code_simp, simp_all)
  then obtain t1 where 1: "roomy (Suc (Suc 0)) t1" "names ''process'' symInit t1" by blast
  obtain v t2 where 2: "roomy (Suc 0) t2" "layers v t1 t2" using layer_roomy [OF 1(1)] by blast
  obtain t3 where 3: "roomy (Suc 0) t3" "names ''box'' t2 t3" using b [OF 2(1)] by blast
  obtain t4 where 4: "roomy (Suc 0) t4" "names ''box'' t3 t4" using b [OF 3(1)] by blast
  obtain w t5 where "layers w t4 t5" using layer_roomy [OF 4(1)] by blast
  with 1(2) 2(2) 3(2) 4(2) show ?thesis by blast
qed

lemma bind_weak: "m = m' \<Longrightarrow> mbind m f = mbind m' f" "r = r' \<Longrightarrow> rbind r g = rbind r' g"
  by simp_all

lemma run_steps:
  "run C (numeral n) c st = answer C (run C (pred_numeral n)) c st" "run C (Suc i) c st = answer C (run C i) c st"
  "mbind m f st = (case m st of Inl e \<Rightarrow> Inl e | Inr (a, st1) \<Rightarrow> f a st1)" "mret a st = Inr (a, st)"
  "mlift r st = (case r of Inl e \<Rightarrow> Inl e | Inr a \<Rightarrow> Inr (a, st))" "mget g st = Inr (g st, st)" "mmod k st = Inr ((), k st)"
  "mtry t st = rbind (t st) (\<lambda>st1. Inr ((), st1))" "mask q st = rbind (q st) (\<lambda>a. Inr (a, st))"
  "named D e m' st = mbind m' (\<lambda>result. mbind (carry_name D e result) (\<lambda>_. mret result)) st"
  by (auto simp: numeral_eq_Suc mbind_def rbind_def mret_def mlift_def mget_def mmod_def mtry_def mask_def named_def split: sum.splits)

lemmas run_defs = answer_def eval_def realeval_def report_def detect_def new_looper_def int_max_def evalIdDef_def find_def.simps
  carry_name_def getDefNameProperty_def name_as_def eval_closure_def a2sb_def real_a2sb_def symbolic_closure_def new_slot_def
  pushValueDef_def pushMultiClosureDefs_def add_closures.simps name_closure_def setDefNameProperty_def addLayerDef_def
  shorten_name_def getTreeProperty_def setTreeProperty_def ident_box_def Let_def

lemma box_facts [simp]:
  "isBoxCase (boxAbstr a b) = None" "node (boxAbstr a b) = bsym BOXABSTR" "\<not> isBoxIdent (boxAbstr a b)"
  "isBoxAbstr (boxAbstr a b) = Some (a, b)" "isClosure (closure e g v l) = Some (e, g, v, l)" "isClosure (boxSlot k) = None"
  "isTree5 (boxSlot k) n = None" "\<not> isBoxWaveform (boxSlot k)" "\<not> isNil (layer w u)"
  "layer w u \<noteq> boxSlot k" "boxSlot k \<noteq> layer w u" "layer w u \<noteq> boxIdent s" "boxIdent s \<noteq> layer w u" "closure e g v l \<noteq> boxIdent s"
  "boxIdent s \<noteq> closure e g v l" "closure e g v l \<noteq> boxSlot k" "boxSlot k \<noteq> closure e g v l" "boxIdent s \<noteq> boxSlot k" "boxSlot k \<noteq> boxIdent s"
  "boxIdent s = boxIdent s' \<longleftrightarrow> s = s'" "branches (boxSlot k) = [leaf (NInt k)]" "node (boxSlot k) = bsym BOXSLOT" "Tree (bsym BOXSLOT) [leaf (NInt k)] = boxSlot k"
  "isClosure (leaf (NInt k)) = None" "isTree5 (leaf (NInt k)) n = None" "\<not> isBoxWaveform (leaf (NInt k))" "branches (leaf (NInt k)) = []"
  "Tree (node (leaf (NInt k))) [] = leaf (NInt k)" "nosym (boxIdent s)" "nosym (boxAbstr a b) \<longleftrightarrow> nosym a \<and> nosym b"
  "cons x y \<noteq> nil" "layer w u \<noteq> nil" "closure e g v l = closure e' g' v' l' \<longleftrightarrow> e = e' \<and> g = g' \<and> v = v' \<and> l = l'"
  by (simp_all add: cons_def nil_def leaf_def box_constructor_defs box_recogniser_defs isTree0_def isTree1_def isTree2_def isTree4_def isTree5_def isNil_def)

lemma set_facts [simp]: "addElement ad x nil = cons x nil" "setUnion ad (cons x nil) nil = Inr (cons x nil)"
  by (simp_all add: addElement.simps setUnion.simps)

definition id_defined :: "string \<Rightarrow> symtab \<Rightarrow> evst \<Rightarrow> bool" where
  "id_defined v tab st \<longleftrightarrow> ev_syms st = tab \<and> ev_evals st = Map.empty \<and> ev_symbolic st = Map.empty \<and> gBoxSlotNumber st = 0 \<and>
     gLoopDetector st = new_looper 1024 400 \<and> (\<forall>w u. ev_props st (layer w (layer v u)) = []) \<and> (\<forall>s. ev_props st (boxIdent s) = []) \<and>
     ev_props st (layer v nil) = [(boxIdent ''process'', closure id_abstr nil nil (layer v nil))] \<and> (\<forall>k. ev_props st (boxSlot k) = []) \<and>
     (\<forall>u. ev_props st (closure id_abstr nil u (layer v nil)) = (if u = nil then [(DEFNAMEPROPERTY, leaf (NSym (Name ''box'')))] else []))"

abbreviation id_value :: "string \<Rightarrow> tree" where
  "id_value v \<equiv> closure id_abstr nil (cons (cons (boxIdent ''process'') (layer v nil)) nil) (layer v nil)"

definition id_evaluated :: "string \<Rightarrow> symtab \<Rightarrow> evst \<Rightarrow> bool" where
  "id_evaluated v tab st \<longleftrightarrow> ev_syms st = tab \<and> (\<forall>e. ev_evals st (boxIdent ''x'', e) = None) \<and> (\<forall>e k. ev_evals st (boxSlot k, e) = None) \<and>
     ev_symbolic st = Map.empty \<and> gBoxSlotNumber st = 0 \<and> fPhase (gLoopDetector st) = 2 \<and> fBuffersize (gLoopDetector st) = 1024 \<and>
     fCheckperiod (gLoopDetector st) = 400 \<and> (\<forall>w u. ev_props st (layer w (layer v u)) = []) \<and> (\<forall>k. ev_props st (boxSlot k) = []) \<and>
     (\<forall>s. ev_props st (boxIdent s) = []) \<and> ev_props st (id_value v) = [(DEFNAMEPROPERTY, leaf (NSym (Name ''box'')))]"

lemma id_defs:
  assumes "layers v t1 t2" "names ''box'' t2 t3"
  shows "\<exists>st. pushMultiClosureDefs id_host id_program nil nil (init_evst\<lparr>ev_syms := t1\<rparr>) = Inr (layer v nil, st) \<and> id_defined v t3 st"
  using assms by (simp add: run_defs id_defined_def)

lemma id_eval:
  "id_defined v tab st \<Longrightarrow> \<exists>st1. run init_ectx 6 (Eval (boxIdent ''process'') nil (layer v nil)) st = Inr (id_value v, st1) \<and> id_evaluated v tab st1"
  unfolding id_defined_def id_evaluated_def by (simp cong: bind_weak add: run_steps run_defs)

lemma id_a2sb:
  "id_evaluated v t3 st \<Longrightarrow> names ''box'' t3 t4 \<Longrightarrow> layers w t4 t5 \<Longrightarrow>
   \<exists>st1. run init_ectx 6 (A2sb (id_value v)) st = Inr (boxSymbolic (boxSlot 1) (boxSlot 1), st1)"
  unfolding id_evaluated_def by (simp cong: bind_weak add: run_steps run_defs)

lemma id_runs: "\<exists>st1. evalprocess init_ectx 6 id_program init_evst = Inr (boxSymbolic (boxSlot 1) (boxSlot 1), st1)"
proof -
  obtain t1 v t2 t3 t4 w t5 where t: "names ''process'' symInit t1" "layers v t1 t2" "names ''box'' t2 t3" "names ''box'' t3 t4" "layers w t4 t5"
    using init_names by blast
  obtain st where d: "pushMultiClosureDefs id_host id_program nil nil (init_evst\<lparr>ev_syms := t1\<rparr>) = Inr (layer v nil, st)" "id_defined v t3 st"
    using id_defs [OF t(2,3)] by blast
  obtain st1 where e: "run init_ectx 6 (Eval (boxIdent ''process'') nil (layer v nil)) st = Inr (id_value v, st1)" "id_evaluated v t3 st1"
    using id_eval [OF d(2)] by blast
  obtain st2 where "run init_ectx 6 (A2sb (id_value v)) st1 = Inr (boxSymbolic (boxSlot 1) (boxSlot 1), st2)"
    using id_a2sb [OF e(2) t(4,5)] by blast
  with d(1) e(1) t(1) show ?thesis
    by (simp cong: bind_weak add: evalprocess_def ident_box_def boxIdent_def [symmetric] run_steps(3,4) del: list_tree_simps)
qed

text \<open>
  Property C6 (\<^verbatim>\<open>evalprocess\<close>).  When the definitions of a program and of the files it reads have no
  symbolic box, the evaluation of \<^verbatim>\<open>process\<close> gives, if it returns, a diagram in normal form: no closure, no
  matcher, no abstraction, no identifier, no application and no iteration is left at any place where a box
  stands (an environment used as a value and a pattern variable are), so that \<^verbatim>\<open>getBoxType\<close> recognizes
  every box of it.  The tables of answers stay
  correct, and a larger bound on the nesting of calls gives the same diagram and state.
\<close>

theorem evalprocess_normal_form:
  assumes "files_ok C" "nosym eqlist" "ev_ok st" "evalprocess C n eqlist st = Inr (b, st1)"
  shows "nf b \<and> boxType b \<noteq> Inl (FaustException ''unrecognized box expression'') \<and> ev_ok st1 \<and>
    (\<forall>m \<ge> n. evalprocess C m eqlist st = Inr (b, st1))"
proof -
  note G = run_good [OF assms(1), of n]
  have "yields ev_ok (evalprocess C n eqlist) nf" unfolding evalprocess_def
    by (intro yields_rules good_callsD [OF G] ok_boxSimplification) (use assms(2) in auto)
  with assms(3,4) have "nf b" "ev_ok st1" by (auto dest: yieldsD)
  moreover have "refines (evalprocess C n eqlist) (evalprocess C m eqlist)" if "n \<le> m" for m
    unfolding evalprocess_def by (intro refines_rules) (auto simp: refines_def run_mono [OF that])
  ultimately show ?thesis using nf_boxType assms(4) by (blast dest: refinesD)
qed

theorem evalprocess_normal_form_witness:
  "\<exists>st1. evalprocess init_ectx 6 id_program init_evst = Inr (boxSymbolic (boxSlot 1) (boxSlot 1), st1) \<and>
     nf (boxSymbolic (boxSlot 1) (boxSlot 1)) \<and> ev_ok st1"
proof -
  obtain st1 where r: "evalprocess init_ectx 6 id_program init_evst = Inr (boxSymbolic (boxSlot 1) (boxSlot 1), st1)"
    using id_runs by blast
  have f: "files_ok init_ectx" by (simp add: files_ok_def)
  have n: "nosym id_program" by simp
  have s: "ev_ok init_evst" by (simp add: ev_ok_def init_evst_def props_ok_def)
  from evalprocess_normal_form [OF f n s r] r show ?thesis by blast
qed

end
